(* ===== verification/Irc_Prelude.thy ===== *)
theory Irc_Prelude
  imports Main "HOL-Library.Word" "HOL-Library.Sublist" "HOL-Library.Multiset"
begin

text \<open>
  What every component of the ircd-hybrid development shares.

  \<^item> The types: a C string is the list of its characters up to (not including) the
    terminating NUL, so reading \<open>*p\<close> at the end of the list reads NUL (\<open>deref\<close>);
    a pointer into a string is the suffix that starts there; a pointer to a heap
    object is a natural number and a possibly-NULL pointer is an option.
  \<^item> The C library calls the sources make on strings (\<open>strchr\<close>, \<open>strrchr\<close>,
    \<open>strlcpy\<close>, \<open>atoi\<close>, \<open>strtoul\<close>), as functions on these lists.
  \<^item> Linked structures: \<open>chain\<close> says that following a next-pointer map from a head
    pointer visits exactly a given list of nodes and ends in NULL; \<open>dseg\<close> says the same
    of a doubly linked segment. Both come with their append and frame lemmas.

  Results of type option use \<open>None\<close> for undefined behaviour of the C code (a read or
  write outside an object, a NULL dereference), so a theorem that such a function returns
  \<open>Some\<close> is a memory-safety statement.
\<close>

unbundle bit_operations_syntax

type_synonym ptr = nat
type_synonym u8 = "8 word"
type_synonym u32 = "32 word"
type_synonym u64 = "64 word"
type_synonym time_t = int

text \<open>The status of a client (\<^verbatim>\<open>include/client.h\<close>).\<close>

definition STAT_CONNECTING :: nat where "STAT_CONNECTING = 0x01"
definition STAT_HANDSHAKE :: nat where "STAT_HANDSHAKE = 0x02"
definition STAT_ME :: nat where "STAT_ME = 0x04"
definition STAT_UNKNOWN :: nat where "STAT_UNKNOWN = 0x08"
definition STAT_SERVER :: nat where "STAT_SERVER = 0x10"
definition STAT_CLIENT :: nat where "STAT_CLIENT = 0x20"

lemmas stat_defs = STAT_CONNECTING_def STAT_HANDSHAKE_def STAT_ME_def STAT_UNKNOWN_def
  STAT_SERVER_def STAT_CLIENT_def

named_theorems ctype
named_theorems chain_simps
named_theorems casefold

subsection \<open>C strings\<close>

abbreviation NUL :: char where
  "NUL \<equiv> CHR 0x00"

abbreviation ord :: "char \<Rightarrow> nat" where
  "ord c \<equiv> of_char c"

fun deref :: "string \<Rightarrow> char" where
  "deref [] = NUL"
| "deref (c # cs) = c"

lemma ord_less_256 [simp]: "ord c < 256"
  by simp

text \<open>\<open>strchr\<close>: the suffix that starts at the first occurrence of the character.\<close>

fun c_strchr :: "string \<Rightarrow> char \<Rightarrow> string option" where
  "c_strchr [] x = None"
| "c_strchr (c # cs) x = (if c = x then Some (c # cs) else c_strchr cs x)"

text \<open>\<open>strrchr\<close>: what stands before and after the last occurrence of the character. The
  callers write a NUL over the separator, so they go on with exactly these two strings.\<close>

fun c_strrchr :: "string \<Rightarrow> char \<Rightarrow> (string \<times> string) option" where
  "c_strrchr [] x = None"
| "c_strrchr (c # cs) x =
     (case c_strrchr cs x of
        Some (b, a) \<Rightarrow> Some (c # b, a)
      | None \<Rightarrow> if c = x then Some ([], cs) else None)"

lemma c_strchr_None_iff: "c_strchr s x = None \<longleftrightarrow> x \<notin> set s"
  by (induction s) auto

lemma c_strchr_SomeD: "c_strchr s x = Some t \<Longrightarrow> suffix t s \<and> (\<exists>r. t = x # r)"
  by (induction s) (auto split: if_splits intro: suffix_ConsI)

lemma c_strrchr_None_iff [simp]: "c_strrchr s x = None \<longleftrightarrow> x \<notin> set s"
  by (induction s) (auto split: option.splits)

lemma c_strrchr_SomeD: "c_strrchr s x = Some (b, a) \<Longrightarrow> s = b @ x # a \<and> x \<notin> set a"
proof (induction s arbitrary: b a)
  case Nil
  then show ?case by simp
next
  case (Cons c s)
  show ?case
  proof (cases "c_strrchr s x")
    case None
    with Cons.prems have "c = x" "b = []" "a = s" by (auto split: if_splits)
    moreover have "x \<notin> set s" using None by simp
    ultimately show ?thesis by simp
  next
    case (Some p)
    obtain b' a' where p: "p = (b', a')" by fastforce
    with Some Cons.prems have "b = c # b'" "a = a'" by auto
    with Cons.IH Some p show ?thesis by simp
  qed
qed

text \<open>\<open>strlcpy (dst, src, siz)\<close> leaves this string in \<open>dst\<close> when \<open>siz\<close> is positive.\<close>

definition c_strlcpy :: "string \<Rightarrow> nat \<Rightarrow> string" where
  "c_strlcpy src siz = take (siz - 1) src"

text \<open>\<open>strtoul (s, after, 10)\<close> and \<open>strtol\<close>: white space, an optional sign, digits. The value
  of \<open>strtoul\<close> is the unsigned 64-bit one (a minus sign negates it, overflow gives the
  maximum), that of \<open>strtol\<close> is clamped to the signed 64-bit range; \<open>after\<close> is the whole
  string when there is no digit. \<open>atoi\<close> is \<open>strtol\<close> cut down to an \<open>int\<close>.\<close>

definition is_c_space :: "char \<Rightarrow> bool" where
  "is_c_space c \<longleftrightarrow> ord c = 32 \<or> (9 \<le> ord c \<and> ord c \<le> (13::nat))"

definition is_c_digit :: "char \<Rightarrow> bool" where
  "is_c_digit c \<longleftrightarrow> (48::nat) \<le> ord c \<and> ord c \<le> (57::nat)"

definition digits_val :: "string \<Rightarrow> nat" where
  "digits_val ds = foldl (\<lambda>v c. 10 * v + (ord c - 48)) 0 ds"

definition c_strtoul :: "string \<Rightarrow> u64 \<times> string" where
  "c_strtoul s =
     (let t = dropWhile is_c_space s;
          neg = (deref t = CHR ''-'');
          u = (if deref t = CHR ''-'' \<or> deref t = CHR ''+'' then tl t else t);
          ds = takeWhile is_c_digit u;
          v = digits_val ds
      in if ds = [] then (0, s)
         else if v \<ge> 2 ^ 64 then (- 1, dropWhile is_c_digit u)
         else ((if neg then - of_nat v else of_nat v), dropWhile is_c_digit u))"

text \<open>An \<open>int\<close> is a 32-bit two's complement number: assigning an \<open>unsigned long\<close> to it keeps
  the low 32 bits.\<close>

definition ulong_to_int :: "u64 \<Rightarrow> int" where
  "ulong_to_int w = sint (ucast w :: u32)"

definition c_strtol :: "string \<Rightarrow> int \<times> string" where
  "c_strtol s =
     (let t = dropWhile is_c_space s;
          neg = (deref t = CHR ''-'');
          u = (if deref t = CHR ''-'' \<or> deref t = CHR ''+'' then tl t else t);
          ds = takeWhile is_c_digit u;
          v = int (digits_val ds)
      in if ds = [] then (0, s)
         else ((if neg then max (- (2 ^ 63)) (- v) else min (2 ^ 63 - 1) v), dropWhile is_c_digit u))"

definition c_atoi :: "string \<Rightarrow> int" where
  "c_atoi s = sint (word_of_int (fst (c_strtol s)) :: u32)"

text \<open>\<open>&&\<close> and \<open>||\<close> on operands that may be undefined: the right one counts only when it is
  evaluated.\<close>

definition c_and :: "bool option \<Rightarrow> bool option \<Rightarrow> bool option" where
  "c_and a b = (case a of None \<Rightarrow> None | Some x \<Rightarrow> if x then b else Some False)"

definition c_or :: "bool option \<Rightarrow> bool option \<Rightarrow> bool option" where
  "c_or a b = (case a of None \<Rightarrow> None | Some x \<Rightarrow> if x then Some True else b)"

lemma c_and_simps [simp]:
  "c_and (Some True) b = b" "c_and (Some False) b = Some False" "c_and None b = None"
  by (simp_all add: c_and_def)

lemma c_or_simps [simp]:
  "c_or (Some True) b = Some True" "c_or (Some False) b = b" "c_or None b = None"
  by (simp_all add: c_or_def)

lemma c_and_Some [simp]: "c_and (Some a) (Some b) = Some (a \<and> b)"
  by (cases a) simp_all

lemma c_or_Some [simp]: "c_or (Some a) (Some b) = Some (a \<or> b)"
  by (cases a) simp_all

lemma c_and_defined: "c_and (Some a) b \<noteq> None" if "a \<Longrightarrow> b \<noteq> None"
  using that by (cases a) simp_all

lemma all_less_add:
  "(\<forall>i < m + n. P i) \<longleftrightarrow> (\<forall>i < m. P i) \<and> (\<forall>j < n. P (m + j))" for m n :: nat
proof -
  have "P i" if "\<forall>i < m. P i" "\<forall>j < n. P (m + j)" "i < m + n" for i
    using that(1) that(2)[rule_format, of "i - m"] that(3) by (cases "i < m") auto
  then show ?thesis by auto
qed

subsection \<open>Singly linked chains\<close>

fun chain :: "('p \<Rightarrow> 'p option) \<Rightarrow> 'p option \<Rightarrow> 'p list \<Rightarrow> bool" where
  "chain nxt h [] \<longleftrightarrow> h = None"
| "chain nxt h (p # ps) \<longleftrightarrow> h = Some p \<and> chain nxt (nxt p) ps"

lemma chain_None [simp, chain_simps]: "chain nxt None ps \<longleftrightarrow> ps = []"
  by (cases ps) auto

lemma chain_Some [chain_simps]:
  "chain nxt (Some p) ps \<longleftrightarrow> (\<exists>qs. ps = p # qs \<and> chain nxt (nxt p) qs)"
  by (cases ps) auto

lemma chain_unique: "chain nxt h ps \<Longrightarrow> chain nxt h qs \<Longrightarrow> ps = qs"
  by (induction ps arbitrary: h qs) (auto simp: chain_Some)

lemma chain_append_split:
  "chain nxt h (ps @ qs) \<Longrightarrow> \<exists>m. chain nxt m qs"
  by (induction ps arbitrary: h) auto

lemma chain_distinct: "chain nxt h ps \<Longrightarrow> distinct ps"
proof (induction ps arbitrary: h)
  case Nil
  then show ?case by simp
next
  case (Cons p ps)
  have "p \<notin> set ps"
  proof
    assume "p \<in> set ps"
    then obtain xs ys where ps: "ps = xs @ p # ys" by (meson split_list)
    from Cons.prems ps have "chain nxt (nxt p) (xs @ p # ys)" by simp
    from chain_append_split[OF this] have "chain nxt (nxt p) ys" by auto
    with Cons.prems ps have "ps = ys" by (auto dest: chain_unique)
    with ps show False by simp
  qed
  with Cons show ?case by auto
qed

lemma chain_frame [chain_simps]: "q \<notin> set ps \<Longrightarrow> chain (nxt(q := v)) h ps = chain nxt h ps"
  by (induction ps arbitrary: h) auto

lemma chain_cong: "(\<And>p. p \<in> set ps \<Longrightarrow> nxt p = nxt' p) \<Longrightarrow> chain nxt h ps = chain nxt' h ps"
  by (induction ps arbitrary: h) auto

text \<open>\<open>for (p = h; p; p = p->next) if (P (p)) break;\<close>: the node found, or NULL. A loop that
  never ends has no result.\<close>

partial_function (option) list_find ::
  "('p \<Rightarrow> bool) \<Rightarrow> ('p \<Rightarrow> 'p option) \<Rightarrow> 'p option \<Rightarrow> 'p option option" where
  "list_find P nxt h =
     (case h of
        None \<Rightarrow> Some None
      | Some p \<Rightarrow> if P p then Some (Some p) else list_find P nxt (nxt p))"

lemma list_find_chain: "chain nxt h ps \<Longrightarrow> list_find P nxt h = Some (List.find P ps)"
  by (induction ps arbitrary: h) (auto simp: list_find.simps)

text \<open>Unlinking the node after \<open>a\<close>: the chain loses exactly that node.\<close>

lemma chain_unlink:
  assumes "chain nxt h (xs @ a # b # ys)"
  shows "chain (nxt(a := nxt b)) h (xs @ a # ys)"
proof -
  have d: "distinct (xs @ a # b # ys)" by (rule chain_distinct[OF assms])
  have main: "chain (nxt(a := nxt b)) k (zs @ a # ys)"
    if "chain nxt k (zs @ a # b # ys)" "a \<notin> set zs" for k zs
    using that d
    by (induction zs arbitrary: k) (auto simp: chain_frame)
  show ?thesis using main[OF assms] d by simp
qed

subsection \<open>Doubly linked segments\<close>

definition first_or :: "'p option \<Rightarrow> 'p list \<Rightarrow> 'p option" where
  "first_or d ps = (case ps of [] \<Rightarrow> d | p # _ \<Rightarrow> Some p)"

definition last_or :: "'p option \<Rightarrow> 'p list \<Rightarrow> 'p option" where
  "last_or d ps = (if ps = [] then d else Some (last ps))"

lemma first_or_simps [simp]:
  "first_or d [] = d" "first_or d (p # ps) = Some p"
  "first_or d (ps @ p # qs) = first_or (Some p) ps"
  by (auto simp: first_or_def split: list.splits)

lemma first_or_append: "first_or d (ps @ qs) = first_or (first_or d qs) ps"
  by (cases ps) auto

lemma last_or_simps [simp]:
  "last_or d [] = d" "last_or d (ps @ [p]) = Some p"
  "last_or d (p # ps) = last_or (Some p) ps"
  "last_or d (ps @ p # qs) = last_or (Some p) qs"
  by (auto simp: last_or_def)

lemma last_or_append: "last_or d (ps @ qs) = last_or (last_or d ps) qs"
  by (auto simp: last_or_def)

fun dseg :: "('p \<Rightarrow> 'p option) \<Rightarrow> ('p \<Rightarrow> 'p option) \<Rightarrow> 'p option \<Rightarrow> 'p list \<Rightarrow> 'p option \<Rightarrow> bool" where
  "dseg nxt prv before [] after \<longleftrightarrow> True"
| "dseg nxt prv before (p # ps) after \<longleftrightarrow>
     prv p = before \<and> nxt p = first_or after ps \<and> dseg nxt prv (Some p) ps after"

lemma dseg_append [chain_simps]:
  "dseg nxt prv b (ps @ qs) a \<longleftrightarrow>
     dseg nxt prv b ps (first_or a qs) \<and> dseg nxt prv (last_or b ps) qs a"
  by (induction ps arbitrary: b) (auto simp: first_or_append)

lemma dseg_frame_nxt [chain_simps]:
  "q \<notin> set ps \<Longrightarrow> dseg (nxt(q := v)) prv b ps a = dseg nxt prv b ps a"
  by (induction ps arbitrary: b) auto

lemma dseg_frame_prv [chain_simps]:
  "q \<notin> set ps \<Longrightarrow> dseg nxt (prv(q := v)) b ps a = dseg nxt prv b ps a"
  by (induction ps arbitrary: b) auto

lemma dseg_chain: "dseg nxt prv b ps None \<Longrightarrow> chain nxt (first_or None ps) ps"
  by (induction ps arbitrary: b) (auto simp: first_or_def split: list.splits)

lemma dseg_cong:
  "(\<And>p. p \<in> set ps \<Longrightarrow> nxt p = nxt' p \<and> prv p = prv' p) \<Longrightarrow>
   dseg nxt prv b ps a = dseg nxt' prv' b ps a"
  by (induction ps arbitrary: b) auto

end
