(* ===== verification/Chartab.thy ===== *)
theory Chartab
  imports Irc_Prelude
begin

text \<open>
  The character tables at the end of \<^verbatim>\<open>src/match.c\<close> (\<open>ToLowerTab\<close>, \<open>ToUpperTab\<close>,
  \<open>CharAttrs\<close>), entry by entry, and the classification macros of \<^verbatim>\<open>include/irc_string.h\<close>
  over them. The lemmas replace each table by the range of character codes it describes:
  the case tables are the RFC 1459 folding (codes 0x41-0x5e against 0x61-0x7e, so the
  brackets, backslash and caret fold too), folding is idempotent, and the two tables
  identify the same characters.
\<close>

subsection \<open>The case tables\<close>

definition ToLowerTab :: "nat list" where
  "ToLowerTab = [
    0, 1, 2, 3, 4, 5, 6, 7, 8, 9, 10, 11, 12, 13, 14, 15,
    16, 17, 18, 19, 20, 21, 22, 23, 24, 25, 26, 27, 28, 29, 30, 31,
    32, 33, 34, 35, 36, 37, 38, 39, 40, 41, 42, 43, 44, 45, 46, 47,
    48, 49, 50, 51, 52, 53, 54, 55, 56, 57, 58, 59, 60, 61, 62, 63,
    64, 97, 98, 99, 100, 101, 102, 103, 104, 105, 106, 107, 108, 109, 110, 111,
    112, 113, 114, 115, 116, 117, 118, 119, 120, 121, 122, 123, 124, 125, 126, 95,
    96, 97, 98, 99, 100, 101, 102, 103, 104, 105, 106, 107, 108, 109, 110, 111,
    112, 113, 114, 115, 116, 117, 118, 119, 120, 121, 122, 123, 124, 125, 126, 127,
    128, 129, 130, 131, 132, 133, 134, 135, 136, 137, 138, 139, 140, 141, 142, 143,
    144, 145, 146, 147, 148, 149, 150, 151, 152, 153, 154, 155, 156, 157, 158, 159,
    160, 161, 162, 163, 164, 165, 166, 167, 168, 169, 170, 171, 172, 173, 174, 175,
    176, 177, 178, 179, 180, 181, 182, 183, 184, 185, 186, 187, 188, 189, 190, 191,
    192, 193, 194, 195, 196, 197, 198, 199, 200, 201, 202, 203, 204, 205, 206, 207,
    208, 209, 210, 211, 212, 213, 214, 215, 216, 217, 218, 219, 220, 221, 222, 223,
    224, 225, 226, 227, 228, 229, 230, 231, 232, 233, 234, 235, 236, 237, 238, 239,
    240, 241, 242, 243, 244, 245, 246, 247, 248, 249, 250, 251, 252, 253, 254, 255]"

definition ToUpperTab :: "nat list" where
  "ToUpperTab = [
    0, 1, 2, 3, 4, 5, 6, 7, 8, 9, 10, 11, 12, 13, 14, 15,
    16, 17, 18, 19, 20, 21, 22, 23, 24, 25, 26, 27, 28, 29, 30, 31,
    32, 33, 34, 35, 36, 37, 38, 39, 40, 41, 42, 43, 44, 45, 46, 47,
    48, 49, 50, 51, 52, 53, 54, 55, 56, 57, 58, 59, 60, 61, 62, 63,
    64, 65, 66, 67, 68, 69, 70, 71, 72, 73, 74, 75, 76, 77, 78, 79,
    80, 81, 82, 83, 84, 85, 86, 87, 88, 89, 90, 91, 92, 93, 94, 95,
    96, 65, 66, 67, 68, 69, 70, 71, 72, 73, 74, 75, 76, 77, 78, 79,
    80, 81, 82, 83, 84, 85, 86, 87, 88, 89, 90, 91, 92, 93, 94, 127,
    128, 129, 130, 131, 132, 133, 134, 135, 136, 137, 138, 139, 140, 141, 142, 143,
    144, 145, 146, 147, 148, 149, 150, 151, 152, 153, 154, 155, 156, 157, 158, 159,
    160, 161, 162, 163, 164, 165, 166, 167, 168, 169, 170, 171, 172, 173, 174, 175,
    176, 177, 178, 179, 180, 181, 182, 183, 184, 185, 186, 187, 188, 189, 190, 191,
    192, 193, 194, 195, 196, 197, 198, 199, 200, 201, 202, 203, 204, 205, 206, 207,
    208, 209, 210, 211, 212, 213, 214, 215, 216, 217, 218, 219, 220, 221, 222, 223,
    224, 225, 226, 227, 228, 229, 230, 231, 232, 233, 234, 235, 236, 237, 238, 239,
    240, 241, 242, 243, 244, 245, 246, 247, 248, 249, 250, 251, 252, 253, 254, 255]"

definition ToLower :: "char \<Rightarrow> char" where
  "ToLower c = char_of (ToLowerTab ! ord c)"

definition ToUpper :: "char \<Rightarrow> char" where
  "ToUpper c = char_of (ToUpperTab ! ord c)"

subsection \<open>The attribute table\<close>

abbreviation PRINT_C :: u32 where
  "PRINT_C \<equiv> 0x1"

abbreviation CNTRL_C :: u32 where
  "CNTRL_C \<equiv> 0x2"

abbreviation ALPHA_C :: u32 where
  "ALPHA_C \<equiv> 0x4"

abbreviation PUNCT_C :: u32 where
  "PUNCT_C \<equiv> 0x8"

abbreviation DIGIT_C :: u32 where
  "DIGIT_C \<equiv> 0x10"

abbreviation SPACE_C :: u32 where
  "SPACE_C \<equiv> 0x20"

abbreviation NICK_C :: u32 where
  "NICK_C \<equiv> 0x40"

abbreviation CHAN_C :: u32 where
  "CHAN_C \<equiv> 0x80"

abbreviation KWILD_C :: u32 where
  "KWILD_C \<equiv> 0x100"

abbreviation CHANPFX_C :: u32 where
  "CHANPFX_C \<equiv> 0x200"

abbreviation USER_C :: u32 where
  "USER_C \<equiv> 0x400"

abbreviation HOST_C :: u32 where
  "HOST_C \<equiv> 0x800"

abbreviation NONEOS_C :: u32 where
  "NONEOS_C \<equiv> 0x1000"

abbreviation SERV_C :: u32 where
  "SERV_C \<equiv> 0x2000"

abbreviation EOL_C :: u32 where
  "EOL_C \<equiv> 0x4000"

abbreviation MWILD_C :: u32 where
  "MWILD_C \<equiv> 0x8000"

definition CharAttrs_ascii :: "u32 list" where
  "CharAttrs_ascii = [
    CNTRL_C,
    CNTRL_C OR CHAN_C OR NONEOS_C,
    CNTRL_C OR CHAN_C OR NONEOS_C,
    CNTRL_C OR CHAN_C OR NONEOS_C,
    CNTRL_C OR CHAN_C OR NONEOS_C,
    CNTRL_C OR CHAN_C OR NONEOS_C,
    CNTRL_C OR CHAN_C OR NONEOS_C,
    CNTRL_C OR NONEOS_C,
    CNTRL_C OR CHAN_C OR NONEOS_C,
    CNTRL_C OR SPACE_C OR CHAN_C OR NONEOS_C,
    CNTRL_C OR SPACE_C OR CHAN_C OR NONEOS_C OR EOL_C,
    CNTRL_C OR SPACE_C OR CHAN_C OR NONEOS_C,
    CNTRL_C OR SPACE_C OR CHAN_C OR NONEOS_C,
    CNTRL_C OR SPACE_C OR CHAN_C OR NONEOS_C OR EOL_C,
    CNTRL_C OR CHAN_C OR NONEOS_C,
    CNTRL_C OR CHAN_C OR NONEOS_C,
    CNTRL_C OR CHAN_C OR NONEOS_C,
    CNTRL_C OR CHAN_C OR NONEOS_C,
    CNTRL_C OR CHAN_C OR NONEOS_C,
    CNTRL_C OR CHAN_C OR NONEOS_C,
    CNTRL_C OR CHAN_C OR NONEOS_C,
    CNTRL_C OR CHAN_C OR NONEOS_C,
    CNTRL_C OR CHAN_C OR NONEOS_C,
    CNTRL_C OR CHAN_C OR NONEOS_C,
    CNTRL_C OR CHAN_C OR NONEOS_C,
    CNTRL_C OR CHAN_C OR NONEOS_C,
    CNTRL_C OR CHAN_C OR NONEOS_C,
    CNTRL_C OR CHAN_C OR NONEOS_C,
    CNTRL_C OR CHAN_C OR NONEOS_C,
    CNTRL_C OR CHAN_C OR NONEOS_C,
    CNTRL_C OR CHAN_C OR NONEOS_C,
    CNTRL_C OR CHAN_C OR NONEOS_C,
    PRINT_C OR SPACE_C,
    PRINT_C OR KWILD_C OR CHAN_C OR NONEOS_C,
    PRINT_C OR CHAN_C OR NONEOS_C,
    PRINT_C OR KWILD_C OR MWILD_C OR CHANPFX_C OR CHAN_C OR NONEOS_C,
    PRINT_C OR CHAN_C OR NONEOS_C OR USER_C,
    PRINT_C OR CHAN_C OR NONEOS_C,
    PRINT_C OR CHANPFX_C OR CHAN_C OR NONEOS_C,
    PRINT_C OR CHAN_C OR NONEOS_C,
    PRINT_C OR CHAN_C OR NONEOS_C,
    PRINT_C OR CHAN_C OR NONEOS_C,
    PRINT_C OR KWILD_C OR MWILD_C OR CHAN_C OR NONEOS_C OR SERV_C,
    PRINT_C OR CHAN_C OR NONEOS_C,
    PRINT_C OR NONEOS_C,
    PRINT_C OR NICK_C OR CHAN_C OR NONEOS_C OR USER_C OR HOST_C,
    PRINT_C OR KWILD_C OR CHAN_C OR NONEOS_C OR USER_C OR HOST_C OR SERV_C,
    PRINT_C OR CHAN_C OR NONEOS_C,
    PRINT_C OR DIGIT_C OR NICK_C OR CHAN_C OR NONEOS_C OR USER_C OR HOST_C,
    PRINT_C OR DIGIT_C OR NICK_C OR CHAN_C OR NONEOS_C OR USER_C OR HOST_C,
    PRINT_C OR DIGIT_C OR NICK_C OR CHAN_C OR NONEOS_C OR USER_C OR HOST_C,
    PRINT_C OR DIGIT_C OR NICK_C OR CHAN_C OR NONEOS_C OR USER_C OR HOST_C,
    PRINT_C OR DIGIT_C OR NICK_C OR CHAN_C OR NONEOS_C OR USER_C OR HOST_C,
    PRINT_C OR DIGIT_C OR NICK_C OR CHAN_C OR NONEOS_C OR USER_C OR HOST_C,
    PRINT_C OR DIGIT_C OR NICK_C OR CHAN_C OR NONEOS_C OR USER_C OR HOST_C,
    PRINT_C OR DIGIT_C OR NICK_C OR CHAN_C OR NONEOS_C OR USER_C OR HOST_C,
    PRINT_C OR DIGIT_C OR NICK_C OR CHAN_C OR NONEOS_C OR USER_C OR HOST_C,
    PRINT_C OR DIGIT_C OR NICK_C OR CHAN_C OR NONEOS_C OR USER_C OR HOST_C,
    PRINT_C OR KWILD_C OR CHAN_C OR NONEOS_C OR HOST_C,
    PRINT_C OR CHAN_C OR NONEOS_C,
    PRINT_C OR CHAN_C OR NONEOS_C,
    PRINT_C OR CHAN_C OR NONEOS_C,
    PRINT_C OR CHAN_C OR NONEOS_C,
    PRINT_C OR KWILD_C OR MWILD_C OR CHAN_C OR NONEOS_C,
    PRINT_C OR KWILD_C OR CHAN_C OR NONEOS_C,
    PRINT_C OR ALPHA_C OR NICK_C OR CHAN_C OR NONEOS_C OR USER_C OR HOST_C,
    PRINT_C OR ALPHA_C OR NICK_C OR CHAN_C OR NONEOS_C OR USER_C OR HOST_C,
    PRINT_C OR ALPHA_C OR NICK_C OR CHAN_C OR NONEOS_C OR USER_C OR HOST_C,
    PRINT_C OR ALPHA_C OR NICK_C OR CHAN_C OR NONEOS_C OR USER_C OR HOST_C,
    PRINT_C OR ALPHA_C OR NICK_C OR CHAN_C OR NONEOS_C OR USER_C OR HOST_C,
    PRINT_C OR ALPHA_C OR NICK_C OR CHAN_C OR NONEOS_C OR USER_C OR HOST_C,
    PRINT_C OR ALPHA_C OR NICK_C OR CHAN_C OR NONEOS_C OR USER_C OR HOST_C,
    PRINT_C OR ALPHA_C OR NICK_C OR CHAN_C OR NONEOS_C OR USER_C OR HOST_C,
    PRINT_C OR ALPHA_C OR NICK_C OR CHAN_C OR NONEOS_C OR USER_C OR HOST_C,
    PRINT_C OR ALPHA_C OR NICK_C OR CHAN_C OR NONEOS_C OR USER_C OR HOST_C,
    PRINT_C OR ALPHA_C OR NICK_C OR CHAN_C OR NONEOS_C OR USER_C OR HOST_C,
    PRINT_C OR ALPHA_C OR NICK_C OR CHAN_C OR NONEOS_C OR USER_C OR HOST_C,
    PRINT_C OR ALPHA_C OR NICK_C OR CHAN_C OR NONEOS_C OR USER_C OR HOST_C,
    PRINT_C OR ALPHA_C OR NICK_C OR CHAN_C OR NONEOS_C OR USER_C OR HOST_C,
    PRINT_C OR ALPHA_C OR NICK_C OR CHAN_C OR NONEOS_C OR USER_C OR HOST_C,
    PRINT_C OR ALPHA_C OR NICK_C OR CHAN_C OR NONEOS_C OR USER_C OR HOST_C,
    PRINT_C OR ALPHA_C OR NICK_C OR CHAN_C OR NONEOS_C OR USER_C OR HOST_C,
    PRINT_C OR ALPHA_C OR NICK_C OR CHAN_C OR NONEOS_C OR USER_C OR HOST_C,
    PRINT_C OR ALPHA_C OR NICK_C OR CHAN_C OR NONEOS_C OR USER_C OR HOST_C,
    PRINT_C OR ALPHA_C OR NICK_C OR CHAN_C OR NONEOS_C OR USER_C OR HOST_C,
    PRINT_C OR ALPHA_C OR NICK_C OR CHAN_C OR NONEOS_C OR USER_C OR HOST_C,
    PRINT_C OR ALPHA_C OR NICK_C OR CHAN_C OR NONEOS_C OR USER_C OR HOST_C,
    PRINT_C OR ALPHA_C OR NICK_C OR CHAN_C OR NONEOS_C OR USER_C OR HOST_C,
    PRINT_C OR ALPHA_C OR NICK_C OR CHAN_C OR NONEOS_C OR USER_C OR HOST_C,
    PRINT_C OR ALPHA_C OR NICK_C OR CHAN_C OR NONEOS_C OR USER_C OR HOST_C,
    PRINT_C OR ALPHA_C OR NICK_C OR CHAN_C OR NONEOS_C OR USER_C OR HOST_C,
    PRINT_C OR ALPHA_C OR NICK_C OR CHAN_C OR NONEOS_C OR USER_C,
    PRINT_C OR ALPHA_C OR NICK_C OR CHAN_C OR NONEOS_C OR USER_C,
    PRINT_C OR ALPHA_C OR NICK_C OR CHAN_C OR NONEOS_C OR USER_C,
    PRINT_C OR ALPHA_C OR NICK_C OR CHAN_C OR NONEOS_C OR USER_C,
    PRINT_C OR NICK_C OR CHAN_C OR NONEOS_C OR USER_C,
    PRINT_C OR NICK_C OR CHAN_C OR NONEOS_C OR USER_C,
    PRINT_C OR ALPHA_C OR NICK_C OR CHAN_C OR NONEOS_C OR USER_C OR HOST_C,
    PRINT_C OR ALPHA_C OR NICK_C OR CHAN_C OR NONEOS_C OR USER_C OR HOST_C,
    PRINT_C OR ALPHA_C OR NICK_C OR CHAN_C OR NONEOS_C OR USER_C OR HOST_C,
    PRINT_C OR ALPHA_C OR NICK_C OR CHAN_C OR NONEOS_C OR USER_C OR HOST_C,
    PRINT_C OR ALPHA_C OR NICK_C OR CHAN_C OR NONEOS_C OR USER_C OR HOST_C,
    PRINT_C OR ALPHA_C OR NICK_C OR CHAN_C OR NONEOS_C OR USER_C OR HOST_C,
    PRINT_C OR ALPHA_C OR NICK_C OR CHAN_C OR NONEOS_C OR USER_C OR HOST_C,
    PRINT_C OR ALPHA_C OR NICK_C OR CHAN_C OR NONEOS_C OR USER_C OR HOST_C,
    PRINT_C OR ALPHA_C OR NICK_C OR CHAN_C OR NONEOS_C OR USER_C OR HOST_C,
    PRINT_C OR ALPHA_C OR NICK_C OR CHAN_C OR NONEOS_C OR USER_C OR HOST_C,
    PRINT_C OR ALPHA_C OR NICK_C OR CHAN_C OR NONEOS_C OR USER_C OR HOST_C,
    PRINT_C OR ALPHA_C OR NICK_C OR CHAN_C OR NONEOS_C OR USER_C OR HOST_C,
    PRINT_C OR ALPHA_C OR NICK_C OR CHAN_C OR NONEOS_C OR USER_C OR HOST_C,
    PRINT_C OR ALPHA_C OR NICK_C OR CHAN_C OR NONEOS_C OR USER_C OR HOST_C,
    PRINT_C OR ALPHA_C OR NICK_C OR CHAN_C OR NONEOS_C OR USER_C OR HOST_C,
    PRINT_C OR ALPHA_C OR NICK_C OR CHAN_C OR NONEOS_C OR USER_C OR HOST_C,
    PRINT_C OR ALPHA_C OR NICK_C OR CHAN_C OR NONEOS_C OR USER_C OR HOST_C,
    PRINT_C OR ALPHA_C OR NICK_C OR CHAN_C OR NONEOS_C OR USER_C OR HOST_C,
    PRINT_C OR ALPHA_C OR NICK_C OR CHAN_C OR NONEOS_C OR USER_C OR HOST_C,
    PRINT_C OR ALPHA_C OR NICK_C OR CHAN_C OR NONEOS_C OR USER_C OR HOST_C,
    PRINT_C OR ALPHA_C OR NICK_C OR CHAN_C OR NONEOS_C OR USER_C OR HOST_C,
    PRINT_C OR ALPHA_C OR NICK_C OR CHAN_C OR NONEOS_C OR USER_C OR HOST_C,
    PRINT_C OR ALPHA_C OR NICK_C OR CHAN_C OR NONEOS_C OR USER_C OR HOST_C,
    PRINT_C OR ALPHA_C OR NICK_C OR CHAN_C OR NONEOS_C OR USER_C OR HOST_C,
    PRINT_C OR ALPHA_C OR NICK_C OR CHAN_C OR NONEOS_C OR USER_C OR HOST_C,
    PRINT_C OR ALPHA_C OR NICK_C OR CHAN_C OR NONEOS_C OR USER_C OR HOST_C,
    PRINT_C OR ALPHA_C OR NICK_C OR CHAN_C OR NONEOS_C OR USER_C,
    PRINT_C OR ALPHA_C OR NICK_C OR CHAN_C OR NONEOS_C OR USER_C,
    PRINT_C OR ALPHA_C OR NICK_C OR CHAN_C OR NONEOS_C OR USER_C,
    PRINT_C OR ALPHA_C OR CHAN_C OR NONEOS_C OR USER_C,
    CHAN_C OR NONEOS_C]"

definition CharAttrs_high :: "u32 list" where
  "CharAttrs_high = [
    CHAN_C OR NONEOS_C,
    CHAN_C OR NONEOS_C,
    CHAN_C OR NONEOS_C,
    CHAN_C OR NONEOS_C,
    CHAN_C OR NONEOS_C,
    CHAN_C OR NONEOS_C,
    CHAN_C OR NONEOS_C,
    CHAN_C OR NONEOS_C,
    CHAN_C OR NONEOS_C,
    CHAN_C OR NONEOS_C,
    CHAN_C OR NONEOS_C,
    CHAN_C OR NONEOS_C,
    CHAN_C OR NONEOS_C,
    CHAN_C OR NONEOS_C,
    CHAN_C OR NONEOS_C,
    CHAN_C OR NONEOS_C,
    CHAN_C OR NONEOS_C,
    CHAN_C OR NONEOS_C,
    CHAN_C OR NONEOS_C,
    CHAN_C OR NONEOS_C,
    CHAN_C OR NONEOS_C,
    CHAN_C OR NONEOS_C,
    CHAN_C OR NONEOS_C,
    CHAN_C OR NONEOS_C,
    CHAN_C OR NONEOS_C,
    CHAN_C OR NONEOS_C,
    CHAN_C OR NONEOS_C,
    CHAN_C OR NONEOS_C,
    CHAN_C OR NONEOS_C,
    CHAN_C OR NONEOS_C,
    CHAN_C OR NONEOS_C,
    CHAN_C OR NONEOS_C,
    CHAN_C OR NONEOS_C,
    CHAN_C OR NONEOS_C,
    CHAN_C OR NONEOS_C,
    CHAN_C OR NONEOS_C,
    CHAN_C OR NONEOS_C,
    CHAN_C OR NONEOS_C,
    CHAN_C OR NONEOS_C,
    CHAN_C OR NONEOS_C,
    CHAN_C OR NONEOS_C,
    CHAN_C OR NONEOS_C,
    CHAN_C OR NONEOS_C,
    CHAN_C OR NONEOS_C,
    CHAN_C OR NONEOS_C,
    CHAN_C OR NONEOS_C,
    CHAN_C OR NONEOS_C,
    CHAN_C OR NONEOS_C,
    CHAN_C OR NONEOS_C,
    CHAN_C OR NONEOS_C,
    CHAN_C OR NONEOS_C,
    CHAN_C OR NONEOS_C,
    CHAN_C OR NONEOS_C,
    CHAN_C OR NONEOS_C,
    CHAN_C OR NONEOS_C,
    CHAN_C OR NONEOS_C,
    CHAN_C OR NONEOS_C,
    CHAN_C OR NONEOS_C,
    CHAN_C OR NONEOS_C,
    CHAN_C OR NONEOS_C,
    CHAN_C OR NONEOS_C,
    CHAN_C OR NONEOS_C,
    CHAN_C OR NONEOS_C,
    CHAN_C OR NONEOS_C,
    CHAN_C OR NONEOS_C,
    CHAN_C OR NONEOS_C,
    CHAN_C OR NONEOS_C,
    CHAN_C OR NONEOS_C,
    CHAN_C OR NONEOS_C,
    CHAN_C OR NONEOS_C,
    CHAN_C OR NONEOS_C,
    CHAN_C OR NONEOS_C,
    CHAN_C OR NONEOS_C,
    CHAN_C OR NONEOS_C,
    CHAN_C OR NONEOS_C,
    CHAN_C OR NONEOS_C,
    CHAN_C OR NONEOS_C,
    CHAN_C OR NONEOS_C,
    CHAN_C OR NONEOS_C,
    CHAN_C OR NONEOS_C,
    CHAN_C OR NONEOS_C,
    CHAN_C OR NONEOS_C,
    CHAN_C OR NONEOS_C,
    CHAN_C OR NONEOS_C,
    CHAN_C OR NONEOS_C,
    CHAN_C OR NONEOS_C,
    CHAN_C OR NONEOS_C,
    CHAN_C OR NONEOS_C,
    CHAN_C OR NONEOS_C,
    CHAN_C OR NONEOS_C,
    CHAN_C OR NONEOS_C,
    CHAN_C OR NONEOS_C,
    CHAN_C OR NONEOS_C,
    CHAN_C OR NONEOS_C,
    CHAN_C OR NONEOS_C,
    CHAN_C OR NONEOS_C,
    CHAN_C OR NONEOS_C,
    CHAN_C OR NONEOS_C,
    CHAN_C OR NONEOS_C,
    CHAN_C OR NONEOS_C,
    CHAN_C OR NONEOS_C,
    CHAN_C OR NONEOS_C,
    CHAN_C OR NONEOS_C,
    CHAN_C OR NONEOS_C,
    CHAN_C OR NONEOS_C,
    CHAN_C OR NONEOS_C,
    CHAN_C OR NONEOS_C,
    CHAN_C OR NONEOS_C,
    CHAN_C OR NONEOS_C,
    CHAN_C OR NONEOS_C,
    CHAN_C OR NONEOS_C,
    CHAN_C OR NONEOS_C,
    CHAN_C OR NONEOS_C,
    CHAN_C OR NONEOS_C,
    CHAN_C OR NONEOS_C,
    CHAN_C OR NONEOS_C,
    CHAN_C OR NONEOS_C,
    CHAN_C OR NONEOS_C,
    CHAN_C OR NONEOS_C,
    CHAN_C OR NONEOS_C,
    CHAN_C OR NONEOS_C,
    CHAN_C OR NONEOS_C,
    CHAN_C OR NONEOS_C,
    CHAN_C OR NONEOS_C,
    CHAN_C OR NONEOS_C,
    CHAN_C OR NONEOS_C,
    CHAN_C OR NONEOS_C,
    CHAN_C OR NONEOS_C]"

definition CharAttrs :: "u32 list" where
  "CharAttrs = CharAttrs_ascii @ CharAttrs_high"

definition has_attr :: "u32 \<Rightarrow> char \<Rightarrow> bool" where
  "has_attr f c \<longleftrightarrow> CharAttrs ! ord c AND f \<noteq> 0"

definition IsHostChar :: "char \<Rightarrow> bool" where
  "IsHostChar c \<longleftrightarrow> has_attr HOST_C c"

definition IsUserChar :: "char \<Rightarrow> bool" where
  "IsUserChar c \<longleftrightarrow> has_attr USER_C c"

definition IsChanPrefix :: "char \<Rightarrow> bool" where
  "IsChanPrefix c \<longleftrightarrow> has_attr CHANPFX_C c"

definition IsChanChar :: "char \<Rightarrow> bool" where
  "IsChanChar c \<longleftrightarrow> has_attr CHAN_C c"

definition IsKWildChar :: "char \<Rightarrow> bool" where
  "IsKWildChar c \<longleftrightarrow> has_attr KWILD_C c"

definition IsMWildChar :: "char \<Rightarrow> bool" where
  "IsMWildChar c \<longleftrightarrow> has_attr MWILD_C c"

definition IsNickChar :: "char \<Rightarrow> bool" where
  "IsNickChar c \<longleftrightarrow> has_attr NICK_C c"

definition IsServChar :: "char \<Rightarrow> bool" where
  "IsServChar c \<longleftrightarrow> has_attr (NICK_C OR SERV_C) c"

definition IsCntrl :: "char \<Rightarrow> bool" where
  "IsCntrl c \<longleftrightarrow> has_attr CNTRL_C c"

definition IsAlpha :: "char \<Rightarrow> bool" where
  "IsAlpha c \<longleftrightarrow> has_attr ALPHA_C c"

definition IsSpace :: "char \<Rightarrow> bool" where
  "IsSpace c \<longleftrightarrow> has_attr SPACE_C c"

definition IsDigit :: "char \<Rightarrow> bool" where
  "IsDigit c \<longleftrightarrow> has_attr DIGIT_C c"

definition IsPrint :: "char \<Rightarrow> bool" where
  "IsPrint c \<longleftrightarrow> has_attr PRINT_C c"

definition IsEol :: "char \<Rightarrow> bool" where
  "IsEol c \<longleftrightarrow> has_attr EOL_C c"

definition IsXDigit :: "char \<Rightarrow> bool" where
  "IsXDigit c \<longleftrightarrow> IsDigit c \<or> (ord CHR ''a'' \<le> ord c \<and> ord c \<le> ord CHR ''f'') \<or>
     (ord CHR ''A'' \<le> ord c \<and> ord c \<le> ord CHR ''F'')"

subsection \<open>What the tables say\<close>

lemma ToLowerTab_eq:
  "ToLowerTab = map (\<lambda>n. if 65 \<le> n \<and> n \<le> 94 then n + 32 else n) [0..<256]"
  by code_simp

lemma ToUpperTab_eq:
  "ToUpperTab = map (\<lambda>n. if 97 \<le> n \<and> n \<le> 126 then n - 32 else n) [0..<256]"
  by code_simp

lemma length_CharAttrs [simp]: "length CharAttrs = 256"
  by code_simp

lemma ToLower_eq [ctype]:
  "ToLower c = (if 65 \<le> ord c \<and> ord c \<le> (94::nat) then char_of (ord c + 32 :: nat) else c)"
  by (simp add: ToLower_def ToLowerTab_eq)

lemma ToUpper_eq [ctype]:
  "ToUpper c = (if 97 \<le> ord c \<and> ord c \<le> (126::nat) then char_of (ord c - 32 :: nat) else c)"
  by (simp add: ToUpper_def ToUpperTab_eq)

lemma ord_ToLower: "ord (ToLower c) = (if 65 \<le> ord c \<and> ord c \<le> (94::nat) then ord c + 32 else ord c)"
  by (auto simp: ToLower_eq)

lemma ord_ToUpper: "ord (ToUpper c) = (if 97 \<le> ord c \<and> ord c \<le> (126::nat) then ord c - 32 else ord c)"
  using ord_less_256[of c] by (auto simp: ToUpper_eq simp del: ord_less_256)

lemma char_eq_iff_ord: "c = d \<longleftrightarrow> ord c = (ord d :: nat)"
  by (metis char_of_char)

lemma ToLower_idem [simp]: "ToLower (ToLower c) = ToLower c"
  by (simp add: char_eq_iff_ord ord_ToLower)

lemma ToUpper_idem [simp]: "ToUpper (ToUpper c) = ToUpper c"
  by (auto simp: char_eq_iff_ord ord_ToUpper)

lemma ToUpper_eq_iff_ToLower_eq: "ToUpper c = ToUpper d \<longleftrightarrow> ToLower c = ToLower d"
proof -
  have *: "ord c = (ord d :: nat) \<longleftrightarrow> c = d"
    using char_eq_iff_ord by simp
  show ?thesis
    unfolding char_eq_iff_ord[of "ToUpper c"] char_eq_iff_ord[of "ToLower c"] ord_ToLower ord_ToUpper
    by (simp add: * split: if_splits) (use * in linarith)
qed

lemma ToUpper_NUL_iff [simp]: "ToUpper c = NUL \<longleftrightarrow> c = NUL"
  unfolding char_eq_iff_ord ord_ToUpper by auto

lemma ToLower_NUL_iff [simp]: "ToLower c = NUL \<longleftrightarrow> c = NUL"
  unfolding char_eq_iff_ord ord_ToLower by auto

lemma attr_table:
  "map (\<lambda>w. w AND DIGIT_C \<noteq> 0) CharAttrs = map (\<lambda>n. 48 \<le> n \<and> n \<le> 57) [0..<256]"
  "map (\<lambda>w. w AND ALPHA_C \<noteq> 0) CharAttrs =
     map (\<lambda>n. 65 \<le> n \<and> n \<le> 94 \<or> 97 \<le> n \<and> n \<le> 126) [0..<256]"
  "map (\<lambda>w. w AND EOL_C \<noteq> 0) CharAttrs = map (\<lambda>n. n = 10 \<or> n = 13) [0..<256]"
  "map (\<lambda>w. w AND PRINT_C \<noteq> 0) CharAttrs = map (\<lambda>n. 32 \<le> n \<and> n \<le> 126) [0..<256]"
  "map (\<lambda>w. w AND CHAN_C \<noteq> 0) CharAttrs =
     map (\<lambda>n. n \<noteq> 0 \<and> n \<noteq> 7 \<and> n \<noteq> 32 \<and> n \<noteq> 44) [0..<256]"
  by code_simp+

lemma has_attr_table:
  assumes "map (\<lambda>w. w AND f \<noteq> 0) CharAttrs = map P [0..<256]"
  shows "has_attr f c \<longleftrightarrow> P (ord c)"
proof -
  have "map (\<lambda>w. w AND f \<noteq> 0) CharAttrs ! ord c = map P [0..<256] ! ord c"
    using assms by simp
  then show ?thesis by (simp add: has_attr_def)
qed

lemma IsDigit_eq [ctype]: "IsDigit c \<longleftrightarrow> 48 \<le> ord c \<and> ord c \<le> (57::nat)"
  unfolding IsDigit_def by (rule has_attr_table) (rule attr_table)

lemma IsAlpha_eq [ctype]:
  "IsAlpha c \<longleftrightarrow> 65 \<le> ord c \<and> ord c \<le> (94::nat) \<or> 97 \<le> ord c \<and> ord c \<le> (126::nat)"
  unfolding IsAlpha_def by (rule has_attr_table) (rule attr_table)

lemma IsEol_eq [ctype]: "IsEol c \<longleftrightarrow> ord c = (10::nat) \<or> ord c = (13::nat)"
  unfolding IsEol_def by (rule has_attr_table) (rule attr_table)

lemma IsPrint_eq [ctype]: "IsPrint c \<longleftrightarrow> 32 \<le> ord c \<and> ord c \<le> (126::nat)"
  unfolding IsPrint_def by (rule has_attr_table) (rule attr_table)

lemma IsChanChar_eq [ctype]:
  "IsChanChar c \<longleftrightarrow> ord c \<noteq> (0::nat) \<and> ord c \<noteq> (7::nat) \<and> ord c \<noteq> (32::nat) \<and> ord c \<noteq> (44::nat)"
  unfolding IsChanChar_def by (rule has_attr_table) (rule attr_table)

lemma IsXDigit_eq [ctype]:
  "IsXDigit c \<longleftrightarrow> 48 \<le> ord c \<and> ord c \<le> (57::nat) \<or> 97 \<le> ord c \<and> ord c \<le> (102::nat) \<or>
     65 \<le> ord c \<and> ord c \<le> (70::nat)"
  by (auto simp: IsXDigit_def IsDigit_eq)

lemma is_c_digit_IsDigit: "is_c_digit = IsDigit"
  by (auto simp: is_c_digit_def IsDigit_eq fun_eq_iff)

end
