(* ===== verification/Glob.thy ===== *)
theory Glob
  imports Chartab
begin

text \<open>
  The wildcard loop of \<^verbatim>\<open>src/match.c\<close>. \<open>match\<close> and \<open>match_esc\<close> are the same loop around
  a different comparison of one mask position with one character, so the loop is written
  once, over that comparison. Its state is the C code's: \<open>m\<close> and \<open>n\<close> (the current
  positions), \<open>ma\<close> (the position after the last star, NULL before the first one) and \<open>na\<close>
  (where the last attempt for that star started).

  The specification is \<open>globs\<close>, the usual meaning of a wildcard mask as an inductive
  predicate. The locale \<open>glob_step\<close> states what the loop needs of the comparison (the mask
  advances in a way that does not depend on the character); inside it the backtracking loop
  is proved to decide \<open>globs\<close>, to end, and never to step outside its strings.
  \<open>glob_step_any\<close> adds that a question mark stands for any character, which makes the
  code's shortcut at the end of the mask sound. Theory \<open>Match\<close> interprets both.
\<close>

subsection \<open>The backtracking loop\<close>

text \<open>What comparing one mask position with a character does: go on behind the mask
  element, fail here (and retry from the last star), or leave the function with 0.\<close>

datatype step_result = Adv string | Miss | Abort

text \<open>\<open>for (m--; (m > mask) \<and> (*m == '?'); m--)\<close> from the end of the mask, on the reversed
  mask, and then the test \<open>*m == '*'\<close>.\<close>

fun back_scan :: "string \<Rightarrow> bool" where
  "back_scan [] = False"
| "back_scan [c] = (c = CHR ''*'')"
| "back_scan (c # d # cs) = (if c = CHR ''?'' then back_scan (d # cs) else c = CHR ''*'')"

text \<open>\<open>while (*m == '*') m++\<close>\<close>

fun skip_stars :: "string \<Rightarrow> string" where
  "skip_stars [] = []"
| "skip_stars (c # cs) = (if c = CHR ''*'' then skip_stars cs else c # cs)"

text \<open>The mask element at \<open>m\<close> against the character at \<open>n\<close>: the lower half of the loop body.
  Advancing past the terminator of either string is undefined (\<open>None\<close>); \<open>Some (Inl b)\<close> is a
  return, \<open>Some (Inr (m, n, na))\<close> the next turn.\<close>

definition compare_at ::
  "(string \<Rightarrow> char \<Rightarrow> step_result) \<Rightarrow> string option \<Rightarrow> string \<Rightarrow> string \<Rightarrow> string \<Rightarrow>
     (bool + string \<times> string \<times> string) option" where
  "compare_at step ma m n na =
     (case step m (deref n) of
        Abort \<Rightarrow> Some (Inl False)
      | Adv m' \<Rightarrow> (if m = [] \<or> n = [] then None else Some (Inr (m', tl n, na)))
      | Miss \<Rightarrow>
          (case ma of
             None \<Rightarrow> Some (Inl False)
           | Some a \<Rightarrow> (if na = [] then None else Some (Inr (a, tl na, tl na)))))"

text \<open>The top of the loop body: a star records where to resume.\<close>

definition at_star :: "string option \<Rightarrow> string \<Rightarrow> string \<Rightarrow> string \<Rightarrow> string option \<times> string \<times> string" where
  "at_star ma m n na =
     (if deref m = CHR ''*'' then (Some (skip_stars m), skip_stars m, n) else (ma, m, na))"

text \<open>One turn of \<open>while (1)\<close>.\<close>

definition glob_turn ::
  "(string \<Rightarrow> char \<Rightarrow> step_result) \<Rightarrow> string \<Rightarrow> string option \<Rightarrow> string \<Rightarrow> string \<Rightarrow> string \<Rightarrow>
     string option \<times> (bool + string \<times> string \<times> string) option" where
  "glob_turn step msk ma0 m0 n na0 =
     (case at_star ma0 m0 n na0 of (ma, m, na) \<Rightarrow>
        (ma,
         if m = [] then
           (if n = [] then Some (Inl True)
            else case ma of
                None \<Rightarrow> Some (Inl False)
              | Some a \<Rightarrow>
                  (if back_scan (rev msk) then Some (Inl True)
                   else if na = [] then None
                   else compare_at step ma a (tl na) (tl na)))
         else if n = [] then Some (Inl (skip_stars m = []))
         else compare_at step ma m n na))"

lemma compare_at_shrinks:
  "compare_at step ma m n na = Some (Inr (m', n', na')) \<Longrightarrow>
     na' = na \<and> length n' < length n \<or>
     length na' < length na \<and> length n' < length na"
  by (cases n; cases na) (auto simp: compare_at_def split: if_splits step_result.splits option.splits)

lemma glob_turn_shrinks:
  assumes "glob_turn step msk ma m n na = (ma', Some (Inr (m', n', na')))"
  shows "max (length na') (length n') < max (length na) (length n) \<or>
     max (length na') (length n') = max (length na) (length n) \<and> length n' < length n"
  using assms
  by (auto simp: glob_turn_def at_star_def max_def split: if_splits option.splits
      dest!: compare_at_shrinks)

function (sequential) glob_loop ::
  "(string \<Rightarrow> char \<Rightarrow> step_result) \<Rightarrow> string \<Rightarrow> string option \<Rightarrow> string \<Rightarrow> string \<Rightarrow> string \<Rightarrow> bool option" where
  "glob_loop step msk ma m n na =
     (case glob_turn step msk ma m n na of
        (_, None) \<Rightarrow> None
      | (_, Some (Inl b)) \<Rightarrow> Some b
      | (ma', Some (Inr (m', n', na'))) \<Rightarrow> glob_loop step msk ma' m' n' na')"
  by pat_completeness auto
termination
  by (relation "measures [\<lambda>(step, msk, ma, m, n, na). max (length na) (length n),
                          \<lambda>(step, msk, ma, m, n, na). length n]")
     (auto dest!: sym[of _ "glob_turn _ _ _ _ _ _"] dest: glob_turn_shrinks)

declare glob_loop.simps [simp del]

subsection \<open>The meaning of a mask\<close>

inductive globs :: "(string \<Rightarrow> char \<Rightarrow> step_result) \<Rightarrow> string \<Rightarrow> string \<Rightarrow> bool" for step where
  globs_nil: "globs step [] []"
| globs_star_none: "globs step m n \<Longrightarrow> globs step (CHR ''*'' # m) n"
| globs_star_more: "globs step (CHR ''*'' # m) n \<Longrightarrow> globs step (CHR ''*'' # m) (c # n)"
| globs_element: "deref m \<noteq> CHR ''*'' \<Longrightarrow> m \<noteq> [] \<Longrightarrow> step m c = Adv m' \<Longrightarrow> globs step m' n \<Longrightarrow>
     globs step m (c # n)"

inductive_cases globs_Cons_e: "globs step (x # m) n"
inductive_simps globs_Nil_mask: "globs step [] n"

lemma globs_Nil [simp]: "globs step [] n \<longleftrightarrow> n = []"
  by (simp add: globs_Nil_mask)

text \<open>A star stands for any string.\<close>

lemma globs_starI: "globs step m t \<Longrightarrow> globs step (CHR ''*'' # m) (s @ t)"
  by (induction s) (auto intro: globs.intros)

lemma globs_starD: "globs step p n \<Longrightarrow> p = CHR ''*'' # m \<Longrightarrow> \<exists>s t. n = s @ t \<and> globs step m t"
proof (induction arbitrary: m rule: globs.induct)
  case (globs_star_none m' n)
  then show ?case by (metis append_Nil list.inject)
next
  case (globs_star_more m' n c)
  then obtain s t where "n = s @ t" "globs step m t" by blast
  then show ?case by (metis append_Cons)
qed auto

lemma globs_star: "globs step (CHR ''*'' # m) n \<longleftrightarrow> (\<exists>t. suffix t n \<and> globs step m t)"
  by (metis globs_starI globs_starD suffix_def)

lemma globs_element_iff:
  assumes "deref m \<noteq> CHR ''*''" "m \<noteq> []"
  shows "globs step m n \<longleftrightarrow> (\<exists>c n' m'. n = c # n' \<and> step m c = Adv m' \<and> globs step m' n')"
  using assms by (auto elim: globs.cases intro: globs.intros)

lemma skip_stars_not_star [simp]: "deref (skip_stars m) \<noteq> CHR ''*''"
  by (induction m) auto

lemma skip_stars_id: "deref m \<noteq> CHR ''*'' \<Longrightarrow> skip_stars m = m"
  by (cases m) auto

lemma skip_stars_split: "\<exists>k. m = replicate k CHR ''*'' @ skip_stars m"
proof (induction m)
  case Nil
  then show ?case by simp
next
  case (Cons c m)
  then obtain k where "m = replicate k CHR ''*'' @ skip_stars m" by blast
  then show ?case
    by (cases "c = CHR ''*''") (force intro: exI[of _ "Suc k"], auto intro: exI[of _ 0])
qed

lemma globs_stars: "globs step (replicate k CHR ''*'' @ CHR ''*'' # m) n \<longleftrightarrow> globs step (CHR ''*'' # m) n"
proof (induction k arbitrary: n)
  case 0
  then show ?case by simp
next
  case (Suc k)
  then show ?case
    by (auto simp: globs_star intro: suffix_order.trans)
qed

lemma globs_skip_stars:
  assumes "deref m = CHR ''*''"
  shows "globs step m n \<longleftrightarrow> (\<exists>t. suffix t n \<and> globs step (skip_stars m) t)"
proof -
  obtain k where k: "m = replicate k CHR ''*'' @ skip_stars m" using skip_stars_split by blast
  with assms have "k \<noteq> 0" by (metis replicate_0 append_Nil skip_stars_not_star)
  then obtain j where "k = Suc j" by (cases k) auto
  with k have "m = replicate j CHR ''*'' @ CHR ''*'' # skip_stars m"
    by (metis replicate_append_same append.assoc append_Cons append_Nil replicate_Suc)
  then show ?thesis by (metis globs_stars globs_star)
qed

subsection \<open>The interface of a comparison, and the correctness of the loop\<close>

text \<open>\<open>walk m n m' n'\<close>: comparing element after element, without meeting a star, leads from
  the positions \<open>m\<close>, \<open>n\<close> to \<open>m'\<close>, \<open>n'\<close>.\<close>

inductive walk ::
  "(string \<Rightarrow> char \<Rightarrow> step_result) \<Rightarrow> string \<Rightarrow> string \<Rightarrow> string \<Rightarrow> string \<Rightarrow> bool" for step where
  walk_here: "walk step m n m n"
| walk_on: "walk step m n m1 (c # n1) \<Longrightarrow> deref m1 \<noteq> CHR ''*'' \<Longrightarrow> m1 \<noteq> [] \<Longrightarrow> step m1 c = Adv m2 \<Longrightarrow>
     walk step m n m2 n1"

lemma walk_suffix: "walk step m n m' n' \<Longrightarrow> suffix n' n"
proof (induction rule: walk.induct)
  case (walk_on m n m1 c n1 m2)
  then show ?case by (meson suffix_ConsD)
qed simp

lemma walk_first_step:
  "walk step m n m' n' \<Longrightarrow> m' \<noteq> m \<Longrightarrow> deref m \<noteq> CHR ''*'' \<and> m \<noteq> [] \<and> strict_suffix n' n"
proof (induction rule: walk.induct)
  case (walk_on m n m1 c n1 m2)
  then show ?case
    by (cases "m1 = m")
      (use walk_suffix[of step m n m1 "c # n1"] in \<open>auto simp: strict_suffix_def dest: suffix_ConsD suffix_length_le\<close>)
qed simp

locale glob_step =
  fixes step :: "string \<Rightarrow> char \<Rightarrow> step_result"
  assumes uniform: "step m c = Adv m1 \<Longrightarrow> step m d = Adv m2 \<Longrightarrow> m1 = m2"
    and advance: "m \<noteq> [] \<Longrightarrow> step m c = Adv m' \<Longrightarrow> \<exists>p. p \<noteq> [] \<and> m = p @ m'"
    and abort: "step m c = Abort \<Longrightarrow> step m d \<noteq> Adv m'"
begin

text \<open>If the mask from \<open>m\<close> matches a later string, the walk leads to a match of what is left
  of the mask with what is left of that string.\<close>

lemma walk_globs:
  "walk step m n m' n' \<Longrightarrow> globs step m k \<Longrightarrow>
     \<exists>k'. suffix k' k \<and> globs step m' k' \<and> length k + length n' = length k' + length n"
proof (induction rule: walk.induct)
  case (walk_here m n)
  then show ?case by blast
next
  case (walk_on m n m1 c n1 m2)
  from walk_on.IH[OF walk_on.prems] obtain k1 where
    k1: "suffix k1 k" "globs step m1 k1" "length k + length (c # n1) = length k1 + length n" by blast
  from k1(2) walk_on.hyps(2,3) obtain d k2 m3 where
    k2: "k1 = d # k2" "step m1 d = Adv m3" "globs step m3 k2"
    by (auto simp: globs_element_iff)
  with walk_on.hyps(4) uniform have "m3 = m2" by blast
  with k1 k2 show ?case by (auto intro!: exI[of _ k2] dest: suffix_ConsD)
qed

text \<open>What one position of the loop still has to find out: whether the rest matches from here,
  or the part behind the last star matches from a later start.\<close>

definition pending :: "string option \<Rightarrow> string \<Rightarrow> string \<Rightarrow> string \<Rightarrow> bool" where
  "pending ma m n na \<longleftrightarrow> globs step m n \<or>
     (\<exists>a t. ma = Some a \<and> strict_suffix t na \<and> globs step a t)"

text \<open>The loop invariant. The last conjunct is what the shortcut at the end of the mask rests on.\<close>

definition loop_inv :: "string \<Rightarrow> string option \<Rightarrow> string \<Rightarrow> string \<Rightarrow> string \<Rightarrow> bool" where
  "loop_inv msk ma m n na \<longleftrightarrow> suffix m msk \<and> suffix n na \<and>
     (\<forall>a. ma = Some a \<longrightarrow> walk step a na m n \<and> suffix (CHR ''*'' # a) msk)"

text \<open>The shortcut at the end of the mask is sound: when the scan back from the end finds a
  star, what follows the last star can be matched at the end of the name.\<close>

definition scan_ok :: "string \<Rightarrow> bool" where
  "scan_ok msk \<longleftrightarrow> (\<forall>a n n'. back_scan (rev msk) \<longrightarrow> suffix (CHR ''*'' # a) msk \<longrightarrow>
     walk step a n [] n' \<longrightarrow> n' \<noteq> [] \<longrightarrow> (\<exists>t. strict_suffix t n \<and> globs step a t))"

lemma strict_suffix_tl: "na \<noteq> [] \<Longrightarrow> strict_suffix t na \<longleftrightarrow> suffix t (tl na)"
  by (cases na) (auto simp: strict_suffix_def suffix_Cons dest: suffix_length_le)

lemma pending_restart:
  "na \<noteq> [] \<Longrightarrow> pending (Some a) a (tl na) (tl na) \<longleftrightarrow> (\<exists>t. strict_suffix t na \<and> globs step a t)"
  using strict_suffix_tl[of na] suffix_order.le_less[of _ "tl na"] by (auto simp: pending_def)

lemma star_inv:
  assumes inv: "loop_inv msk ma m n na" and st: "at_star ma m n na = (ma', m', na')"
  shows "loop_inv msk ma' m' n na' \<and> pending ma' m' n na' = pending ma m n na \<and> deref m' \<noteq> CHR ''*''"
proof (cases "deref m = CHR ''*''")
  case False
  with st inv show ?thesis by (simp add: at_star_def)
next
  case True
  then have eq: "ma' = Some (skip_stars m)" "m' = skip_stars m" "na' = n"
    using st by (auto simp: at_star_def)
  obtain k where k: "m = replicate k CHR ''*'' @ skip_stars m" using skip_stars_split by blast
  with True have "k \<noteq> 0" by (metis replicate_0 append_Nil skip_stars_not_star)
  then obtain j where "m = replicate j CHR ''*'' @ CHR ''*'' # skip_stars m"
    using k by (cases k) (auto simp: replicate_app_Cons_same)
  then have "suffix (CHR ''*'' # skip_stars m) m" by (metis suffix_def)
  with inv have suf: "suffix (CHR ''*'' # skip_stars m) msk"
    by (auto simp: loop_inv_def intro: suffix_order.trans)
  have later: "globs step m n"
    if a: "ma = Some a" "strict_suffix t na" "globs step a t" for a t
  proof -
    from inv a(1) have w: "walk step a na m n" by (simp add: loop_inv_def)
    from walk_globs[OF w a(3)] obtain t' where
      t': "suffix t' t" "globs step m t'" "length t + length n = length t' + length na" by blast
    from a(2) t'(1) have "suffix t' na" by (auto simp: strict_suffix_def intro: suffix_order.trans)
    moreover have "suffix n na" using w by (rule walk_suffix)
    moreover have "length t' \<le> length n"
      using a(2) t'(3) suffix_length_le[of t na] by (auto simp: strict_suffix_def)
    ultimately have "suffix t' n" by (rule suffix_length_suffix)
    then show ?thesis
      using t'(2) True by (auto simp: globs_skip_stars intro: suffix_order.trans)
  qed
  have "pending ma m n na \<longleftrightarrow> globs step m n"
    using later by (auto simp: pending_def)
  also have "\<dots> \<longleftrightarrow> (\<exists>t. suffix t n \<and> globs step (skip_stars m) t)"
    using True by (rule globs_skip_stars)
  also have "\<dots> \<longleftrightarrow> pending ma' m' n na'"
    by (auto simp: pending_def eq strict_suffix_def)
  finally show ?thesis
    using suf inv eq by (auto simp: loop_inv_def intro: walk_here suffix_ConsD)
qed

lemma compare_inv:
  assumes inv: "loop_inv msk ma m n na" and m: "deref m \<noteq> CHR ''*''" "m \<noteq> []" and n: "n \<noteq> []"
  obtains (ret) b where "compare_at step ma m n na = Some (Inl b)" "b = pending ma m n na"
  | (go) m' n' na' where "compare_at step ma m n na = Some (Inr (m', n', na'))"
      "loop_inv msk ma m' n' na'" "pending ma m' n' na' = pending ma m n na"
proof -
  obtain c n1 where nc: "n = c # n1" using n by (cases n) auto
  have na: "na \<noteq> []" using inv n by (auto simp: loop_inv_def)
  have el: "globs step m n \<longleftrightarrow> (\<exists>m'. step m c = Adv m' \<and> globs step m' n1)"
    using m nc by (simp add: globs_element_iff)
  show thesis
  proof (cases "step m c")
    case (Adv m')
    have "suffix m' m" using advance[OF m(2) Adv] by (auto simp: suffix_def)
    then have "loop_inv msk ma m' n1 na"
      using inv m Adv nc by (auto simp: loop_inv_def intro: walk_on suffix_order.trans dest: suffix_ConsD)
    moreover have "pending ma m' n1 na = pending ma m n na"
      using el Adv by (simp add: pending_def)
    ultimately show ?thesis using Adv m n nc by (intro go[of m' n1 na]) (auto simp: compare_at_def)
  next
    case Abort
    have "\<not> globs step a t" if a: "ma = Some a" for a t
    proof
      assume "globs step a t"
      moreover from inv a have "walk step a na m n" by (simp add: loop_inv_def)
      ultimately obtain t' where "globs step m t'" using walk_globs by blast
      then show False using m Abort abort by (auto simp: globs_element_iff)
    qed
    then have "\<not> pending ma m n na" using el Abort by (auto simp: pending_def)
    then show ?thesis using Abort nc by (intro ret[of False]) (auto simp: compare_at_def)
  next
    case Miss
    show ?thesis
    proof (cases ma)
      case None
      then show ?thesis using Miss el nc by (intro ret[of False]) (auto simp: compare_at_def pending_def)
    next
      case (Some a)
      have "loop_inv msk ma a (tl na) (tl na)"
        using inv Some by (auto simp: loop_inv_def intro: walk_here dest: suffix_ConsD)
      moreover have "pending ma a (tl na) (tl na) = pending ma m n na"
        using na el Miss Some by (simp add: pending_restart) (simp add: pending_def)
      ultimately show ?thesis
        using Miss nc na Some by (intro go[of a "tl na" "tl na"]) (auto simp: compare_at_def)
    qed
  qed
qed

lemma turn_inv:
  assumes inv: "loop_inv msk ma m n na" and ok: "scan_ok msk"
  obtains (ret) ma' b where "glob_turn step msk ma m n na = (ma', Some (Inl b))"
      "b = pending ma m n na"
  | (go) ma' m' n' na' where "glob_turn step msk ma m n na = (ma', Some (Inr (m', n', na')))"
      "loop_inv msk ma' m' n' na'" "pending ma' m' n' na' = pending ma m n na"
proof -
  obtain ma1 m1 na1 where st: "at_star ma m n na = (ma1, m1, na1)" by (metis prod_cases3)
  from star_inv[OF inv st] have inv1: "loop_inv msk ma1 m1 n na1"
    and pe: "pending ma1 m1 n na1 = pending ma m n na" and ns: "deref m1 \<noteq> CHR ''*''" by auto
  have pend_n: "\<not> pending ma1 m1 [] na1" if "n = []" "m1 \<noteq> []"
  proof -
    have "\<not> globs step a t" if a: "ma1 = Some a" "strict_suffix t na1" for a t
    proof
      assume g: "globs step a t"
      from inv1 a(1) have "walk step a na1 m1 n" by (simp add: loop_inv_def)
      from walk_globs[OF this g] obtain t' where
        "suffix t' t \<and> globs step m1 t' \<and> length t + length n = length t' + length na1" ..
      then show False using a(2) \<open>n = []\<close> suffix_length_less[of t na1] by auto
    qed
    then show ?thesis using that ns by (auto simp: pending_def globs_element_iff)
  qed
  show thesis
  proof (cases "m1 = []"; cases "n = []")
    assume "m1 = []" "n = []"
    then show thesis using st pe by (intro ret[of ma1 True]) (auto simp: glob_turn_def pending_def)
  next
    assume m1: "m1 \<noteq> []" and n: "n = []"
    then have "skip_stars m1 \<noteq> []" using ns by (simp add: skip_stars_id)
    then show thesis
      using st pe pend_n[OF n m1] m1 n by (intro ret[of ma1 False]) (auto simp: glob_turn_def)
  next
    assume m1: "m1 \<noteq> []" and n: "n \<noteq> []"
    then have turn: "glob_turn step msk ma m n na = (ma1, compare_at step ma1 m1 n na1)"
      using st by (simp add: glob_turn_def)
    show thesis
      using inv1 ns m1 n by (rule compare_inv) (use turn pe ret go in \<open>metis+\<close>)
  next
    assume m1: "m1 = []" and n: "n \<noteq> []"
    show thesis
    proof (cases ma1)
      case None
      then show thesis
        using st pe m1 n by (intro ret[of ma1 False]) (auto simp: glob_turn_def pending_def)
    next
      case (Some a)
      with inv1 m1 have w: "walk step a na1 [] n" and a: "suffix (CHR ''*'' # a) msk"
        by (auto simp: loop_inv_def)
      have na1: "na1 \<noteq> []" using inv1 n by (auto simp: loop_inv_def)
      show thesis
      proof (cases "back_scan (rev msk)")
        case True
        then have "pending ma1 m1 n na1"
          using ok a w n Some by (auto simp: scan_ok_def pending_def)
        then show thesis
          using st pe m1 n Some True by (intro ret[of ma1 True]) (auto simp: glob_turn_def)
      next
        case False
        have "a \<noteq> []"
        proof
          assume "a = []"
          with a obtain p where "msk = p @ [CHR ''*'']" by (auto simp: suffix_def)
          then show False using False by (cases "rev p") auto
        qed
        have "deref a \<noteq> CHR ''*'' \<and> a \<noteq> [] \<and> strict_suffix n na1"
          using \<open>a \<noteq> []\<close> by (intro walk_first_step[OF w]) simp
        then have wk: "deref a \<noteq> CHR ''*''" "tl na1 \<noteq> []"
          using n na1 by (auto simp: strict_suffix_tl)
        have turn: "glob_turn step msk ma m n na = (ma1, compare_at step ma1 a (tl na1) (tl na1))"
          using st m1 n Some False na1 by (simp add: glob_turn_def)
        have inv2: "loop_inv msk ma1 a (tl na1) (tl na1)"
          using Some a inv1 by (auto simp: loop_inv_def intro: walk_here dest: suffix_ConsD)
        have pe2: "pending ma1 a (tl na1) (tl na1) = pending ma m n na"
          using pe m1 n Some na1 by (simp add: pending_restart) (simp add: pending_def)
        show thesis
          by (rule compare_inv[OF inv2]) (use wk \<open>a \<noteq> []\<close> turn pe2 ret go in \<open>metis+\<close>)
      qed
    qed
  qed
qed

theorem glob_loop_correct:
  assumes "loop_inv msk ma m n na" and "scan_ok msk"
  shows "glob_loop step msk ma m n na = Some (pending ma m n na)"
proof -
  have "s = step \<Longrightarrow> loop_inv msk ma m n na \<Longrightarrow> scan_ok msk \<Longrightarrow>
      glob_loop s msk ma m n na = Some (pending ma m n na)" for s
  proof (induction s msk ma m n na rule: glob_loop.induct)
    case (1 s msk ma m n na)
    note s = "1.prems"(1)
    from "1.prems"(2,3) show ?case
    proof (cases rule: turn_inv)
      case (ret ma' b)
      then show ?thesis using s by (simp add: glob_loop.simps)
    next
      case (go ma' m' n' na')
      have "(ma', Some (Inr (m', n', na'))) = glob_turn s msk ma m n na"
        using go(1) s by simp
      then have "glob_loop s msk ma' m' n' na' = Some (pending ma' m' n' na')"
        by (rule "1.IH"[OF _ refl refl refl refl s go(2) "1.prems"(3)])
      then show ?thesis using go s by (subst glob_loop.simps) simp
    qed
  qed
  then show ?thesis using assms by blast
qed

corollary glob_loop_start:
  assumes "scan_ok msk"
  shows "glob_loop step msk None msk n n = Some (globs step msk n)"
  using glob_loop_correct[OF _ assms, of None msk n n] by (simp add: loop_inv_def pending_def)

end

text \<open>Both comparisons let a question mark stand for any character. Then the scan back from the
  end of the mask is a sound shortcut wherever the star it finds is really a star.\<close>

lemma back_scan_split:
  "back_scan (rev msk) \<Longrightarrow> \<exists>p k. msk = p @ CHR ''*'' # replicate k CHR ''?''"
proof (induction "rev msk" arbitrary: msk rule: back_scan.induct)
  case (2 c)
  then have "msk = [CHR ''*'']" by (metis back_scan.simps(2) rev_singleton_conv)
  then show ?case by (intro exI[of _ "[]"] exI[of _ 0]) simp
next
  case (3 c d cs)
  from 3(2) have msk: "msk = rev (d # cs) @ [c]" by (metis rev.simps(2) rev_rev_ident)
  show ?case
  proof (cases "c = CHR ''?''")
    case True
    with 3 msk have "back_scan (rev (rev (d # cs)))" by simp
    with 3(1)[OF True, of "rev (d # cs)"] obtain p k where
      "rev (d # cs) = p @ CHR ''*'' # replicate k CHR ''?''" by auto
    then have "msk = p @ CHR ''*'' # replicate (Suc k) CHR ''?''"
      using msk True by (simp add: replicate_append_same)
    then show ?thesis by blast
  next
    case False
    with 3(3) have "c = CHR ''*''" unfolding 3(2)[symmetric] by simp
    then show ?thesis using msk by (intro exI[of _ "rev (d # cs)"] exI[of _ 0]) simp
  qed
qed auto

locale glob_step_any = glob_step +
  assumes any: "step (CHR ''?'' # m) c = Adv m"
begin

lemma globs_any: "globs step (replicate k CHR ''?'') t \<longleftrightarrow> length t = k"
proof (induction k arbitrary: t)
  case 0
  then show ?case by simp
next
  case (Suc k)
  then show ?case
    using globs_element_iff[of "replicate (Suc k) CHR ''?''" step t]
    by (cases t) (auto simp: any)
qed

lemma walk_any:
  "walk step a n m' n' \<Longrightarrow> a = replicate k CHR ''?'' \<Longrightarrow>
     \<exists>j. m' = replicate j CHR ''?'' \<and> j \<le> k \<and> length n + j = length n' + k"
proof (induction rule: walk.induct)
  case (walk_here m n)
  then show ?case by auto
next
  case (walk_on m n m1 c n1 m2)
  then obtain j where j: "m1 = replicate j CHR ''?''" "j \<le> k" "length n + j = Suc (length n1) + k"
    by auto
  with walk_on.hyps(3) obtain i where "j = Suc i" by (cases j) auto
  with j walk_on.hyps(4) any show ?case by (intro exI[of _ i]) auto
qed

lemma scan_okI:
  assumes "\<And>p x k n n'. msk = p @ CHR ''*'' # x @ CHR ''*'' # replicate k CHR ''?'' \<Longrightarrow>
      \<not> walk step (x @ CHR ''*'' # replicate k CHR ''?'') n [] n'"
  shows "scan_ok msk"
  unfolding scan_ok_def
proof (intro allI impI)
  fix a n n'
  assume b: "back_scan (rev msk)" and a: "suffix (CHR ''*'' # a) msk" and w: "walk step a n [] n'" and n': "n' \<noteq> []"
  obtain p k where msk: "msk = p @ CHR ''*'' # replicate k CHR ''?''" using back_scan_split[OF b] by blast
  from a obtain q where q: "msk = q @ CHR ''*'' # a" by (auto simp: suffix_def)
  have "a = replicate k CHR ''?''"
  proof -
    from q msk have "q @ CHR ''*'' # a = p @ CHR ''*'' # replicate k CHR ''?''" by simp
    then consider (l) us where "us @ CHR ''*'' # a = CHR ''*'' # replicate k CHR ''?''"
      | (r) us where "CHR ''*'' # a = us @ CHR ''*'' # replicate k CHR ''?''"
      by (auto simp: append_eq_append_conv2)
    then show ?thesis
    proof cases
      case (l us)
      then show ?thesis
      proof (cases us)
        case (Cons u vs)
        with l have "CHR ''*'' \<in> set (replicate k CHR ''?'')" by (metis append_Cons in_set_conv_decomp list.inject)
        then show ?thesis by simp
      qed simp
    next
      case (r us)
      then show ?thesis
      proof (cases us)
        case (Cons u vs)
        with r have "a = vs @ CHR ''*'' # replicate k CHR ''?''" by simp
        then show ?thesis using assms q w by blast
      qed simp
    qed
  qed
  with walk_any[OF w this] have len: "length n = k + length n'" by auto
  let ?t = "drop (length n') n"
  have t: "length ?t = k" using len by simp
  moreover have "?t \<noteq> n"
  proof
    assume "?t = n"
    with t len n' show False by simp
  qed
  ultimately have "length ?t = k" "strict_suffix ?t n"
    by (simp_all add: strict_suffix_def suffix_drop)
  then show "\<exists>t. strict_suffix t n \<and> globs step a t"
    using globs_any \<open>a = replicate k CHR ''?''\<close> by blast
qed

end

end
