(* ===== verification/Match.thy ===== *)
theory Match
  imports Glob
begin

text \<open>
  \<^verbatim>\<open>src/match.c\<close>: the wildcard matchers \<open>match\<close>, \<open>match_esc\<close> and \<open>match_chan\<close> on the loop of
  theory \<open>Glob\<close>, CIDR matching, the mask collapsers and the case-insensitive comparisons.

  The lemmas show that \<open>match\<close> decides the wildcard relation \<open>glob\<close> on all inputs, where
  \<open>match_esc\<close> agrees with its own relation and where its shortcut accepts too much, that
  collapsing a mask removes runs of stars and nothing of its meaning, that
  \<open>comp_with_mask\<close> compares exactly the leading bits, and that \<open>irccmp\<close> is equality up to
  the case folding of theory \<open>Chartab\<close>.
\<close>

subsection \<open>match\<close>

definition match_step :: "string \<Rightarrow> char \<Rightarrow> step_result" where
  "match_step m c =
     (if ToLower (deref m) \<noteq> ToLower c \<and> deref m \<noteq> CHR ''?'' \<and>
         (deref m \<noteq> CHR ''#'' \<or> \<not> IsDigit c)
      then Miss else Adv (tl m))"

definition match :: "string \<Rightarrow> string \<Rightarrow> bool option" where
  "match msk name = glob_loop match_step msk None msk name name"

text \<open>How callers use the result.\<close>

definition matches :: "string \<Rightarrow> string \<Rightarrow> bool" where
  "matches msk name \<longleftrightarrow> match msk name = Some True"

text \<open>The wildcard relation: a star is any string, a question mark any character, a hash any
  digit or a hash, anything else itself up to case.\<close>

definition glob_char :: "char \<Rightarrow> char \<Rightarrow> bool" where
  "glob_char c d \<longleftrightarrow> c = CHR ''?'' \<or> c = CHR ''#'' \<and> IsDigit d \<or> ToLower c = ToLower d"

fun glob :: "string \<Rightarrow> string \<Rightarrow> bool" where
  "glob [] n = (n = [])"
| "glob (c # m) [] = (c = CHR ''*'' \<and> glob m [])"
| "glob (c # m) (d # n) =
     (if c = CHR ''*'' then glob m (d # n) \<or> glob (c # m) n
      else glob_char c d \<and> glob m n)"

lemma match_step_Adv: "match_step m d = Adv m' \<longleftrightarrow> m' = tl m \<and> glob_char (deref m) d"
  by (auto simp: match_step_def glob_char_def)

lemma match_step_not_Abort [simp]: "match_step m d \<noteq> Abort"
  by (simp add: match_step_def)

interpretation plain: glob_step_any match_step
proof unfold_locales
  show "\<exists>p. p \<noteq> [] \<and> m = p @ m'" if "m \<noteq> []" "match_step m c = Adv m'" for m c m'
    using that by (intro exI[of _ "[hd m]"]) (simp add: match_step_Adv)
  show "match_step (CHR ''?'' # m) c = Adv m" for m c
    by (simp add: match_step_Adv glob_char_def)
qed (simp_all add: match_step_Adv)

lemma walk_match_step:
  "walk match_step m n m' n' \<Longrightarrow> \<exists>p. m = p @ m' \<and> CHR ''*'' \<notin> set p"
proof (induction rule: walk.induct)
  case (walk_on m n m1 c n1 m2)
  then obtain p where p: "m = p @ m1" "CHR ''*'' \<notin> set p" by blast
  from walk_on.hyps have "m1 = deref m1 # m2" by (cases m1) (auto simp: match_step_Adv)
  then show ?case using p walk_on.hyps(2) by (intro exI[of _ "p @ [deref m1]"]) auto
qed simp

lemma scan_ok_match: "plain.scan_ok msk"
proof (rule plain.scan_okI, rule notI)
  fix p x k n n'
  assume "walk match_step (x @ CHR ''*'' # replicate k CHR ''?'') n [] n'"
  then show False by (auto dest: walk_match_step)
qed

lemma globs_match_step: "globs match_step m n \<longleftrightarrow> glob m n"
proof (induction m n rule: glob.induct)
  case (1 n)
  then show ?case by simp
next
  case (2 c m)
  then show ?case
    by (cases "c = CHR ''*''") (auto simp: globs_star globs_element_iff)
next
  case (3 c m d n)
  then show ?case
    by (cases "c = CHR ''*''") (auto simp: globs_star globs_element_iff match_step_Adv suffix_Cons)
qed

lemma match_glob: "match msk name = Some (glob msk name)"
  by (simp add: match_def plain.glob_loop_start scan_ok_match globs_match_step)

lemma matches_glob [simp]: "matches msk name \<longleftrightarrow> glob msk name"
  by (simp add: matches_def match_glob)

lemma glob_star: "glob (CHR ''*'' # m) n \<longleftrightarrow> (\<exists>t. suffix t n \<and> glob m t)"
  by (simp add: globs_star flip: globs_match_step)

lemma glob_refl: "CHR ''*'' \<notin> set m \<Longrightarrow> glob m m"
  by (induction m) (auto simp: glob_char_def)

subsection \<open>match_esc and match_chan\<close>

definition match_esc_step :: "string \<Rightarrow> char \<Rightarrow> step_result" where
  "match_esc_step m c =
     (if deref m \<noteq> CHR ''?'' \<and> (deref m \<noteq> CHR ''#'' \<or> IsDigit c)
      then (if deref m = CHR 0x5C
            then (if tl m = [] then Abort
                  else if ToLower (deref (tl m)) \<noteq> ToLower c then Miss else Adv (tl (tl m)))
            else if ToLower (deref m) \<noteq> ToLower c then Miss else Adv (tl m))
      else Adv (tl m))"

definition match_esc :: "string \<Rightarrow> string \<Rightarrow> bool option" where
  "match_esc msk name = glob_loop match_esc_step msk None msk name name"

definition match_chan :: "string \<Rightarrow> string \<Rightarrow> bool option" where
  "match_chan msk name =
     (if msk \<noteq> [] then (if name \<noteq> [] \<and> deref msk = deref name then match_esc (tl msk) (tl name) else Some False)
      else Some (name = []))"

text \<open>What a mask with escapes is documented to mean: as \<open>glob\<close>, but a backslash makes the next
  mask character stand for itself.\<close>

fun glob_esc :: "string \<Rightarrow> string \<Rightarrow> bool" where
  "glob_esc [] n = (n = [])"
| "glob_esc (c # m) [] = (c = CHR ''*'' \<and> glob_esc m [])"
| "glob_esc (c # m) (d # n) =
     (if c = CHR ''*'' then glob_esc m (d # n) \<or> glob_esc (c # m) n
      else if c = CHR 0x5C then (m \<noteq> [] \<and> ToLower (hd m) = ToLower d \<and> glob_esc (tl m) n)
      else (c = CHR ''?'' \<or> c = CHR ''#'' \<and> IsDigit d \<or> ToLower c = ToLower d) \<and> glob_esc m n)"

text \<open>What it means to the code: the test of the hash is inverted, so that it stands for any
  character that is no digit.\<close>

fun glob_esc_code :: "string \<Rightarrow> string \<Rightarrow> bool" where
  "glob_esc_code [] n = (n = [])"
| "glob_esc_code (c # m) [] = (c = CHR ''*'' \<and> glob_esc_code m [])"
| "glob_esc_code (c # m) (d # n) =
     (if c = CHR ''*'' then glob_esc_code m (d # n) \<or> glob_esc_code (c # m) n
      else if c = CHR 0x5C then (m \<noteq> [] \<and> ToLower (hd m) = ToLower d \<and> glob_esc_code (tl m) n)
      else (c = CHR ''?'' \<or> c = CHR ''#'' \<and> \<not> IsDigit d \<or> ToLower c = ToLower d) \<and> glob_esc_code m n)"

text \<open>The two differ only on masks with a hash that is not escaped; without backslashes the first is
  the relation of \<open>match\<close>.\<close>

fun bare_hash :: "string \<Rightarrow> bool" where
  "bare_hash [] \<longleftrightarrow> False"
| "bare_hash (c # m) \<longleftrightarrow> (if c = CHR 0x5C then bare_hash (tl m) else c = CHR ''#'' \<or> bare_hash m)"

lemma glob_esc_code_eq: "\<not> bare_hash m \<Longrightarrow> glob_esc_code m n = glob_esc m n"
  by (induction m n rule: glob_esc.induct) (auto split: if_splits)

lemma glob_esc_no_escape: "CHR 0x5C \<notin> set m \<Longrightarrow> glob_esc m n = glob m n"
  by (induction m n rule: glob_esc.induct) (auto simp: glob_char_def)

lemma hash_vs_digit: "IsDigit d \<Longrightarrow> ToLower CHR ''#'' \<noteq> ToLower d"
  by (auto simp: char_eq_iff_ord ord_ToLower IsDigit_eq)

lemma match_esc_step_Adv:
  "match_esc_step m d = Adv m' \<longleftrightarrow>
     (if deref m = CHR 0x5C then tl m \<noteq> [] \<and> ToLower (deref (tl m)) = ToLower d \<and> m' = tl (tl m)
      else m' = tl m \<and>
        (deref m = CHR ''?'' \<or> deref m = CHR ''#'' \<and> \<not> IsDigit d \<or> ToLower (deref m) = ToLower d))"
  using hash_vs_digit[of d] by (auto simp: match_esc_step_def)

lemma match_esc_step_Abort: "match_esc_step m d = Abort \<longleftrightarrow> deref m = CHR 0x5C \<and> tl m = []"
  by (auto simp: match_esc_step_def)

interpretation esc: glob_step_any match_esc_step
proof unfold_locales
  show "\<exists>p. p \<noteq> [] \<and> m = p @ m'" if "m \<noteq> []" "match_esc_step m c = Adv m'" for m c m'
    using that
    by (cases "deref m = CHR 0x5C"; cases m; cases "tl m")
      (auto simp: match_esc_step_Adv intro: exI[of _ "[_, _]"] exI[of _ "[_]"])
  show "m1 = m2" if "match_esc_step m c = Adv m1" "match_esc_step m d = Adv m2" for m c d m1 m2
    using that by (auto simp: match_esc_step_Adv split: if_splits)
  show "match_esc_step m d \<noteq> Adv m'" if "match_esc_step m c = Abort" for m c d m'
    using that by (auto simp: match_esc_step_Adv match_esc_step_Abort)
  show "match_esc_step (CHR ''?'' # m) c = Adv m" for m c
    by (simp add: match_esc_step_Adv)
qed

lemma snoc_starD:
  assumes eq: "p @ [c] = x @ CHR ''*'' # y" and c: "c \<noteq> CHR ''*''"
    and star: "\<And>x y. p = x @ CHR ''*'' # y \<Longrightarrow> Q x"
  shows "Q x"
proof (cases y rule: rev_cases)
  case Nil
  with eq c show ?thesis by simp
next
  case (snoc ys z)
  with eq have "p = x @ CHR ''*'' # ys" by simp
  then show ?thesis by (rule star)
qed

text \<open>On a walk a star is only passed behind a backslash.\<close>

lemma walk_match_esc_step:
  "walk match_esc_step m n m' n' \<Longrightarrow>
     \<exists>p. m = p @ m' \<and> (\<forall>x y. p = x @ CHR ''*'' # y \<longrightarrow> x \<noteq> [] \<and> last x = CHR 0x5C)"
proof (induction rule: walk.induct)
  case (walk_on m n m1 c n1 m2)
  then obtain p where p: "m = p @ m1"
    and star: "\<And>x y. p = x @ CHR ''*'' # y \<Longrightarrow> x \<noteq> [] \<and> last x = CHR 0x5C" by blast
  show ?case
  proof (cases "deref m1 = CHR 0x5C")
    case False
    with walk_on.hyps have m1: "m1 = deref m1 # m2" by (cases m1) (auto simp: match_esc_step_Adv)
    have "x \<noteq> [] \<and> last x = CHR 0x5C" if eq: "p @ [deref m1] = x @ CHR ''*'' # y" for x y
      by (rule snoc_starD[OF eq walk_on.hyps(2) star])
    then show ?thesis using p m1 by (intro exI[of _ "p @ [deref m1]"]) simp
  next
    case True
    with walk_on.hyps(3,4) obtain e where m1: "m1 = CHR 0x5C # e # m2"
      by (cases m1; cases "tl m1") (simp_all add: match_esc_step_Adv)
    have "x \<noteq> [] \<and> last x = CHR 0x5C" if eq: "(p @ [CHR 0x5C]) @ [e] = x @ CHR ''*'' # y" for x y
    proof (cases y rule: rev_cases)
      case Nil
      with eq have "x = p @ [CHR 0x5C]" by simp
      then show ?thesis by simp
    next
      case (snoc ys z)
      with eq have "p @ [CHR 0x5C] = x @ CHR ''*'' # ys" by simp
      then show ?thesis by (rule snoc_starD) (use star in simp_all)
    qed
    then show ?thesis using p m1 by (intro exI[of _ "p @ [CHR 0x5C, e]"]) simp
  qed
qed simp

text \<open>The scan back from the end of the mask does not know about escapes: it is fooled by a mask
  that ends in an escaped star, with or without question marks after it.\<close>

definition ends_in_escaped_star :: "string \<Rightarrow> bool" where
  "ends_in_escaped_star msk \<longleftrightarrow>
     (\<exists>j \<le> length msk. drop (length msk - j) msk = CHR ''*'' # replicate (j - 1) CHR ''?'' \<and>
        j < length msk \<and> msk ! (length msk - j - 1) = CHR 0x5C)"

lemma ends_in_escaped_starI:
  "msk = q @ CHR 0x5C # CHR ''*'' # replicate k CHR ''?'' \<Longrightarrow> ends_in_escaped_star msk"
  unfolding ends_in_escaped_star_def
  by (intro exI[of _ "Suc k"]) (simp add: nth_append)

lemma scan_ok_match_esc: "\<not> ends_in_escaped_star msk \<Longrightarrow> esc.scan_ok msk"
proof (rule esc.scan_okI, rule notI)
  fix p x k n n'
  assume e: "\<not> ends_in_escaped_star msk"
    and msk: "msk = p @ CHR ''*'' # x @ CHR ''*'' # replicate k CHR ''?''"
    and w: "walk match_esc_step (x @ CHR ''*'' # replicate k CHR ''?'') n [] n'"
  from walk_match_esc_step[OF w] have "x \<noteq> []" "last x = CHR 0x5C" by auto
  then obtain x' where "x = x' @ [CHR 0x5C]" by (metis append_butlast_last_id)
  with msk have "msk = (p @ CHR ''*'' # x') @ CHR 0x5C # CHR ''*'' # replicate k CHR ''?''" by simp
  then show False using e ends_in_escaped_starI by blast
qed

lemma globs_match_esc_step: "globs match_esc_step m n \<longleftrightarrow> glob_esc_code m n"
proof (induction m n rule: glob_esc_code.induct)
  case (1 n)
  then show ?case by simp
next
  case (2 c m)
  then show ?case
    by (cases "c = CHR ''*''") (auto simp: globs_star globs_element_iff)
next
  case (3 c m d n)
  consider (star) "c = CHR ''*''" | (esc) "c = CHR 0x5C" | (other) "c \<noteq> CHR ''*''" "c \<noteq> CHR 0x5C" by auto
  then show ?case
  proof cases
    case star
    then show ?thesis
      using 3(1,2) globs_star[of match_esc_step m] by (auto simp: suffix_Cons)
  next
    case esc
    then show ?thesis
      using 3(3) by (cases m) (simp_all add: globs_element_iff match_esc_step_Adv)
  next
    case other
    then show ?thesis
      using 3(4) by (simp add: globs_element_iff match_esc_step_Adv)
  qed
qed

lemma match_esc_glob_esc_code:
  "\<not> ends_in_escaped_star msk \<Longrightarrow> match_esc msk name = Some (glob_esc_code msk name)"
  by (simp add: match_esc_def esc.glob_loop_start scan_ok_match_esc globs_match_esc_step)

lemma match_esc_hash: "match_esc ''#'' [d] = Some (\<not> IsDigit d)"
proof -
  have "\<not> ends_in_escaped_star ''#''" by (auto simp: ends_in_escaped_star_def)
  then show ?thesis
    using hash_vs_digit[of d]
    by (auto simp: match_esc_glob_esc_code IsDigit_eq ToLower_eq)
qed

subsection \<open>collapse and collapse_esc\<close>

text \<open>The read pointer \<open>p\<close> is always ahead of the write pointer \<open>po\<close>, so rewriting the buffer in
  place gives the string these functions compute.\<close>

fun collapse_str :: "string \<Rightarrow> string" where
  "collapse_str [] = []"
| "collapse_str (c # p) =
     (if c \<noteq> CHR ''*'' then c # collapse_str p
      else if deref p \<noteq> CHR ''*'' then CHR ''*'' # collapse_str p
      else collapse_str p)"

definition collapse :: "string option \<Rightarrow> string option" where
  "collapse pattern = map_option collapse_str pattern"

fun collapse_esc_str :: "string \<Rightarrow> string" where
  "collapse_esc_str [] = []"
| "collapse_esc_str [c] = [c]"
| "collapse_esc_str (c # d # p) =
     (if c \<noteq> CHR ''*''
      then (if c = CHR 0x5C then c # d # collapse_esc_str p else c # collapse_esc_str (d # p))
      else if d \<noteq> CHR ''*'' then CHR ''*'' # collapse_esc_str (d # p)
      else collapse_esc_str (d # p))"

definition collapse_esc :: "string option \<Rightarrow> string option" where
  "collapse_esc pattern = map_option collapse_esc_str pattern"

fun no_double_star :: "string \<Rightarrow> bool" where
  "no_double_star (c # d # p) = ((c \<noteq> CHR ''*'' \<or> d \<noteq> CHR ''*'') \<and> no_double_star (d # p))"
| "no_double_star _ = True"

lemma deref_collapse [simp]: "deref (collapse_str m) = deref m"
  by (induction m) auto

lemma no_double_star_Cons:
  "no_double_star (c # m) \<longleftrightarrow> (c = CHR ''*'' \<longrightarrow> deref m \<noteq> CHR ''*'') \<and> no_double_star m"
  by (cases m) auto

lemma no_double_star_collapse: "no_double_star (collapse_str m)"
  by (induction m) (auto simp: no_double_star_Cons)

lemma collapse_fixed: "no_double_star m \<Longrightarrow> collapse_str m = m"
  by (induction m) (auto simp: no_double_star_Cons)

lemma length_collapse: "length (collapse_str m) \<le> length m"
  by (induction m) auto

lemma glob_cong_tail:
  assumes "\<And>n. glob m n = glob m' n"
  shows "glob (c # m) n = glob (c # m') n"
  by (induction n) (auto simp: assms)

lemma glob_star_star: "glob (CHR ''*'' # CHR ''*'' # m) n = glob (CHR ''*'' # m) n"
  by (auto simp: glob_star intro: suffix_order.trans)

lemma glob_collapse: "glob (collapse_str m) n = glob m n"
proof (induction m arbitrary: n)
  case Nil
  then show ?case by simp
next
  case (Cons c m)
  show ?case
  proof (cases "c = CHR ''*'' \<and> deref m = CHR ''*''")
    case True
    then obtain m' where "m = CHR ''*'' # m'" by (cases m) auto
    then show ?thesis using True Cons glob_star_star[of m' n] by simp
  next
    case False
    then have "collapse_str (c # m) = c # collapse_str m" by auto
    then show ?thesis using glob_cong_tail[OF Cons.IH] by simp
  qed
qed

lemma glob_esc_code_star: "glob_esc_code (CHR ''*'' # m) n \<longleftrightarrow> (\<exists>t. suffix t n \<and> glob_esc_code m t)"
  by (simp add: globs_star flip: globs_match_esc_step)

lemma glob_esc_code_star_star: "glob_esc_code (CHR ''*'' # CHR ''*'' # m) n = glob_esc_code (CHR ''*'' # m) n"
  by (auto simp: glob_esc_code_star intro: suffix_order.trans)

lemma glob_esc_code_cong_tail:
  assumes "\<And>n. glob_esc_code m n = glob_esc_code m' n" "c \<noteq> CHR 0x5C"
  shows "glob_esc_code (c # m) n = glob_esc_code (c # m') n"
  by (induction n) (auto simp: assms)

lemma glob_esc_code_cong_tail2:
  assumes "\<And>n. glob_esc_code m n = glob_esc_code m' n"
  shows "glob_esc_code (CHR 0x5C # d # m) n = glob_esc_code (CHR 0x5C # d # m') n"
  by (cases n) (simp_all add: assms)

lemma glob_esc_code_collapse_esc: "glob_esc_code (collapse_esc_str m) n = glob_esc_code m n"
proof (induction m arbitrary: n rule: collapse_esc_str.induct)
  case (3 c d p)
  consider (ss) "c = CHR ''*''" "d = CHR ''*''" | (esc) "c = CHR 0x5C"
    | (tl) "c \<noteq> CHR 0x5C" "c \<noteq> CHR ''*'' \<or> d \<noteq> CHR ''*''" by auto
  then show ?case
  proof cases
    case ss
    then show ?thesis using 3(4) glob_esc_code_star_star[of p n] by simp
  next
    case esc
    then show ?thesis using 3(1) glob_esc_code_cong_tail2[of "collapse_esc_str p" p d n] by simp
  next
    case tl
    then have "glob_esc_code (collapse_esc_str (d # p)) n = glob_esc_code (d # p) n" for n
      using 3(2,3) by (cases "c = CHR ''*''") simp_all
    from glob_esc_code_cong_tail[OF this tl(1)] show ?thesis using tl by auto
  qed
qed simp_all

subsection \<open>Case-insensitive comparison\<close>

text \<open>The terminating NUL folds to itself and nothing else does (\<open>ToUpper_NUL_iff\<close>), so two
  strings of different length stop the loop with a difference.\<close>

fun irccmp :: "string \<Rightarrow> string \<Rightarrow> int" where
  "irccmp [] [] = 0"
| "irccmp (a # s) (b # t) = (if ToUpper a = ToUpper b then irccmp s t else 1)"
| "irccmp _ _ = 1"

definition same_name :: "string \<Rightarrow> string \<Rightarrow> bool" where
  "same_name s t \<longleftrightarrow> irccmp s t = 0"

lemma irccmp_iff: "irccmp s t = 0 \<longleftrightarrow> map ToLower s = map ToLower t"
  by (induction s t rule: irccmp.induct) (auto simp: ToUpper_eq_iff_ToLower_eq)

lemma irccmp_range: "irccmp s t = 0 \<or> irccmp s t = 1"
  by (induction s t rule: irccmp.induct) auto

lemma same_name_iff [casefold]: "same_name s t \<longleftrightarrow> map ToLower s = map ToLower t"
  by (simp add: same_name_def irccmp_iff)

lemma same_name_refl [simp]: "same_name s s"
  by (simp add: same_name_iff)

lemma same_name_sym: "same_name s t \<longleftrightarrow> same_name t s"
  by (auto simp: same_name_iff)

lemma same_name_trans: "same_name s t \<Longrightarrow> same_name t u \<Longrightarrow> same_name s u"
  by (simp add: same_name_iff)

text \<open>\<open>ircncmp\<close>: the loop compares first and counts afterwards, so it steps over the terminator
  when both strings are empty and more than one character was asked for (\<open>None\<close>).\<close>

fun ircncmp :: "string \<Rightarrow> string \<Rightarrow> u64 \<Rightarrow> int option" where
  "ircncmp s1 s2 n =
     (let res = int (ord (ToUpper (deref s1))) - int (ord (ToUpper (deref s2))) in
      if res \<noteq> 0 then Some res
      else if n - 1 = 0 then Some 0
      else case (s1, s2) of
             (_ # t1, _ # t2) \<Rightarrow> if t1 = [] \<and> t2 = [] then Some 0 else ircncmp t1 t2 (n - 1)
           | _ \<Rightarrow> None)"

declare ircncmp.simps [simp del]

definition cstr :: "string \<Rightarrow> bool" where
  "cstr s \<longleftrightarrow> NUL \<notin> set s"

lemma fold_diff_zero: "int (ord (ToUpper a)) - int (ord (ToUpper b)) = 0 \<longleftrightarrow> ToLower a = ToLower b"
  using char_eq_iff_ord[of "ToUpper a" "ToUpper b"] ToUpper_eq_iff_ToLower_eq[of a b] by auto

lemma ircncmp_empty: "n \<noteq> 1 \<Longrightarrow> ircncmp [] [] n = None"
  by (subst ircncmp.simps) (simp add: Let_def)

lemma ircncmp_diff:
  "ToLower (deref s) \<noteq> ToLower (deref t) \<Longrightarrow> \<exists>r. ircncmp s t n = Some r \<and> r \<noteq> 0"
  using fold_diff_zero[of "deref s" "deref t"] by (subst ircncmp.simps) (simp add: Let_def)

lemma ircncmp_same:
  assumes "ToLower a = ToLower b"
  shows "ircncmp (a # s) (b # t) n =
    (if n - 1 = 0 \<or> s = [] \<and> t = [] then Some 0 else ircncmp s t (n - 1))"
  using assms fold_diff_zero[of a b] by (subst ircncmp.simps) (simp add: Let_def)

lemma unat_Suc_pred: "(n :: u64) \<noteq> 0 \<Longrightarrow> unat n = Suc (unat (n - 1))"
  by (metis Suc_pred' unat_gt_0 unat_minus_one)

lemma ircncmp_correct:
  assumes "cstr s" "cstr t" "s \<noteq> [] \<or> t \<noteq> []" "n \<noteq> 0"
  shows "\<exists>r. ircncmp s t n = Some r \<and>
    (r = 0 \<longleftrightarrow> map ToLower (take (unat n) s) = map ToLower (take (unat n) t))"
  using assms
proof (induction s arbitrary: t n)
  case Nil
  then obtain b t' where t: "t = b # t'" "b \<noteq> NUL" by (cases t) (auto simp: cstr_def)
  then have "ToLower (deref []) \<noteq> ToLower (deref t)" by (metis ToLower_NUL_iff deref.simps)
  from ircncmp_diff[OF this, of n] show ?case
    using t unat_Suc_pred[OF Nil.prems(4)] by auto
next
  case (Cons a s)
  note n = unat_Suc_pred[OF Cons.prems(4)]
  have a: "a \<noteq> NUL" "cstr s" using Cons.prems(1) by (auto simp: cstr_def)
  show ?case
  proof (cases "ToLower a = ToLower (deref t)")
    case False
    then have "\<exists>r. ircncmp (a # s) t n = Some r \<and> r \<noteq> 0" by (intro ircncmp_diff) simp
    moreover have "map ToLower (take (unat n) (a # s)) \<noteq> map ToLower (take (unat n) t)"
      using False n by (cases t) auto
    ultimately show ?thesis by auto
  next
    case True
    with a ToLower_NUL_iff[of a] ToLower_NUL_iff[of NUL] obtain b t' where t: "t = b # t'"
      by (cases t) auto
    have t': "cstr t'" using Cons.prems(2) t by (auto simp: cstr_def)
    have ab: "ToLower a = ToLower b" using True t by simp
    show ?thesis
    proof (cases "n - 1 = 0 \<or> s = [] \<and> t' = []")
      case True
      then show ?thesis using ab t n by (auto simp: ircncmp_same)
    next
      case False
      then show ?thesis
        using Cons.IH[OF a(2) t', of "n - 1"] ab t n by (auto simp: ircncmp_same)
    qed
  qed
qed

subsection \<open>CIDR masks\<close>

text \<open>\<open>comp_with_mask\<close> on the bytes at the two addresses: \<open>memcmp\<close> of the whole bytes, then the
  leading bits of the next one. \<open>None\<close> is a read past the bytes given.\<close>

definition comp_with_mask :: "u8 list \<Rightarrow> u8 list \<Rightarrow> u32 \<Rightarrow> bool option" where
  "comp_with_mask addr dest bits =
     (let n = unat (bits div 8); r = unat (bits mod 8);
          m = push_bit (8 - r) (- 1) :: u8
      in if length addr < n \<or> length dest < n then None
         else if take n addr \<noteq> take n dest then Some False
         else if r = 0 then Some True
         else if length addr \<le> n \<or> length dest \<le> n then None
         else Some (addr ! n AND m = dest ! n AND m))"

definition NICKLEN :: nat where "NICKLEN = 10"
definition USERLEN :: nat where "USERLEN = 10"
definition HOSTLEN :: nat where "HOSTLEN = 63"

text \<open>\<open>match_cidr\<close>. The resolver call with \<open>AI_NUMERICHOST\<close> is the parameter \<open>numeric_host\<close>: the
  bytes of the socket address it gives, or \<open>None\<close> for a NULL result. Nothing defines \<open>INET6\<close>,
  so the address is always taken to start at the offset of \<open>sin_addr\<close>, 4 bytes in.\<close>

definition match_cidr :: "(string \<Rightarrow> u8 list option) \<Rightarrow> string \<Rightarrow> string \<Rightarrow> bool option" where
  "match_cidr numeric_host s1 s2 =
     (let bufsiz = NICKLEN + USERLEN + HOSTLEN + 6;
          msk = c_strlcpy s1 bufsiz; address = c_strlcpy s2 bufsiz; offset = 4
      in case c_strrchr msk CHR ''@'' of None \<Rightarrow> Some False | Some (umask, ipmask) \<Rightarrow>
         case c_strrchr address CHR ''@'' of None \<Rightarrow> Some False | Some (user, ip) \<Rightarrow>
         case c_strrchr ipmask CHR ''/'' of None \<Rightarrow> Some False | Some (ipm, len) \<Rightarrow>
         let cidrlen = c_atoi len in
         if cidrlen = 0 then Some False
         else case numeric_host ip of None \<Rightarrow> Some False | Some ipaddr \<Rightarrow>
           if cidrlen > int (length ipaddr) * 8 then Some False
           else case numeric_host ipm of None \<Rightarrow> Some False | Some maskaddr \<Rightarrow>
             if length maskaddr \<noteq> length ipaddr then Some False
             else case comp_with_mask (drop offset ipaddr) (drop offset maskaddr) (word_of_int cidrlen) of
                 None \<Rightarrow> None
               | Some b \<Rightarrow> (if b then match umask user else Some False))"

text \<open>Bit \<open>i\<close> of an address, counted from the most significant bit of its first byte.\<close>

definition addr_bit :: "u8 list \<Rightarrow> nat \<Rightarrow> bool" where
  "addr_bit a i \<longleftrightarrow> bit (a ! (i div 8)) (7 - i mod 8)"

lemma u8_eq_iff: "(x :: u8) = y \<longleftrightarrow> (\<forall>j < 8. bit x (7 - j) = bit y (7 - j))"
proof
  assume *: "\<forall>j < 8. bit x (7 - j) = bit y (7 - j)"
  show "x = y"
  proof (rule bit_word_eqI)
    fix n assume "n < LENGTH(8)"
    then show "bit x n = bit y n" using *[rule_format, of "7 - n"] by simp
  qed
qed simp

lemma u8_high_bits_eq_iff:
  assumes "r \<le> 8"
  shows "(x :: u8) AND push_bit (8 - r) (- 1) = y AND push_bit (8 - r) (- 1) \<longleftrightarrow>
    (\<forall>j < r. bit x (7 - j) = bit y (7 - j))"
proof -
  have "bit (push_bit (8 - r) (- 1) :: u8) (7 - j) \<longleftrightarrow> j < r" if "j < 8" for j
    using that assms by (auto simp: bit_simps)
  then have "(x AND push_bit (8 - r) (- 1) = y AND push_bit (8 - r) (- 1)) \<longleftrightarrow>
      (\<forall>j < 8. (bit x (7 - j) \<and> j < r) = (bit y (7 - j) \<and> j < r))"
    unfolding u8_eq_iff[of "x AND _"] bit_and_iff by simp
  also have "\<dots> \<longleftrightarrow> (\<forall>j < r. bit x (7 - j) = bit y (7 - j))"
    using assms by (meson less_le_trans)
  finally show ?thesis .
qed

lemma take_eq_bits:
  assumes "n \<le> length a" "n \<le> length d"
  shows "take n a = take n d \<longleftrightarrow> (\<forall>i < 8 * n. addr_bit a i = addr_bit d i)"
proof
  assume "take n a = take n d"
  then have "a ! k = d ! k" if "k < n" for k by (metis nth_take that)
  then show "\<forall>i < 8 * n. addr_bit a i = addr_bit d i"
    by (simp add: addr_bit_def less_mult_imp_div_less mult.commute)
next
  assume *: "\<forall>i < 8 * n. addr_bit a i = addr_bit d i"
  have "a ! k = d ! k" if "k < n" for k
    unfolding u8_eq_iff
  proof (intro allI impI)
    fix j :: nat assume "j < 8"
    then show "bit (a ! k) (7 - j) = bit (d ! k) (7 - j)"
      using *[rule_format, of "8 * k + j"] that by (simp add: addr_bit_def)
  qed
  then show "take n a = take n d" using assms by (simp add: list_eq_iff_nth_eq)
qed

lemma comp_with_mask_bits:
  assumes "unat bits \<le> 8 * length a" "unat bits \<le> 8 * length d"
  shows "comp_with_mask a d bits = Some (\<forall>i < unat bits. addr_bit a i = addr_bit d i)"
proof -
  define n r where "n = unat bits div 8" and "r = unat bits mod 8"
  have nr: "unat bits = 8 * n + r" "r < 8" by (simp_all add: n_def r_def)
  have "(\<forall>i < unat bits. addr_bit a i = addr_bit d i) \<longleftrightarrow>
      (\<forall>i < 8 * n. addr_bit a i = addr_bit d i) \<and> (\<forall>j < r. addr_bit a (8 * n + j) = addr_bit d (8 * n + j))"
    unfolding nr(1) by (rule all_less_add)
  also have "(\<forall>j < r. addr_bit a (8 * n + j) = addr_bit d (8 * n + j)) \<longleftrightarrow>
      (\<forall>j < r. bit (a ! n) (7 - j) = bit (d ! n) (7 - j))"
    using nr(2) by (auto simp: addr_bit_def)
  finally have split: "(\<forall>i < unat bits. addr_bit a i = addr_bit d i) \<longleftrightarrow>
      (\<forall>i < 8 * n. addr_bit a i = addr_bit d i) \<and> (\<forall>j < r. bit (a ! n) (7 - j) = bit (d ! n) (7 - j))" .
  have le: "n \<le> length a" "n \<le> length d" using assms nr by linarith+
  have lt: "r \<noteq> 0 \<Longrightarrow> n < length a \<and> n < length d" using assms nr by linarith
  have w: "unat (bits div 8) = n" "unat (bits mod 8) = r"
    by (simp_all add: n_def r_def unat_div unat_mod)
  show ?thesis
    unfolding comp_with_mask_def Let_def w split take_eq_bits[OF le, symmetric]
    using le lt u8_high_bits_eq_iff[of r "a ! n" "d ! n"] nr(2) by auto
qed

lemma match_cidr_needs_at: "CHR ''@'' \<notin> set s1 \<Longrightarrow> match_cidr nh s1 s2 = Some False"
proof -
  assume "CHR ''@'' \<notin> set s1"
  then have "CHR ''@'' \<notin> set (c_strlcpy s1 k)" for k by (auto simp: c_strlcpy_def dest: in_set_takeD)
  then have "c_strrchr (c_strlcpy s1 k) CHR ''@'' = None" for k by simp
  then show ?thesis unfolding match_cidr_def Let_def by (simp only: option.case)
qed

subsection \<open>Properties\<close>

text \<open>C11. \<open>match\<close> decides the wildcard relation of masks: it always returns, never reads past
  either string, and returns true exactly when the name is matched by the mask, where a star
  stands for any string, a question mark for any character, a hash for a digit, and letters
  and the RFC 1459 bracket pairs are compared without case.\<close>

theorem match_decides_glob: "match msk name = Some (glob msk name)"
  by (rule match_glob)

text \<open>C34. \<open>match_esc\<close> always returns, never reads past either string, and decides the documented
  wildcard relation with backslash escapes, in which an escaped character stands for itself and
  a hash for a digit; on a mask without backslashes its answer is that of \<open>match\<close>. Two kinds of
  masks are excluded, on which the code departs from this: those with a hash that is not escaped,
  whose test the code inverts (\<open>match_esc_hash\<close>), and those that end in an escaped star followed by
  question marks (\<open>match_esc_escaped_star\<close>).\<close>

theorem match_esc_decides_glob_esc:
  assumes "\<not> ends_in_escaped_star msk" "\<not> bare_hash msk"
  shows "match_esc msk name = Some (glob_esc msk name) \<and>
    (CHR 0x5C \<notin> set msk \<longrightarrow> match_esc msk name = match msk name)"
  using assms by (simp add: match_esc_glob_esc_code glob_esc_code_eq glob_esc_no_escape match_glob)

lemma ends_in_escaped_star_last:
  assumes "ends_in_escaped_star msk"
  shows "last msk = CHR ''*'' \<or> last msk = CHR ''?''"
proof -
  from assms obtain j where "drop (length msk - j) msk = CHR ''*'' # replicate (j - 1) CHR ''?''"
    by (auto simp: ends_in_escaped_star_def)
  then have "last msk = last (CHR ''*'' # replicate (j - 1) CHR ''?'')"
    by (metis append_take_drop_id last_appendR list.discI)
  then show ?thesis by (cases "j - 1") (auto simp del: replicate_Suc simp: last_replicate)
qed

lemma match_esc_decides_glob_esc_witness:
  "match_esc ''*c'' ''abc'' = Some (glob_esc ''*c'' ''abc'') \<and> glob_esc ''*c'' ''abc'' \<and>
   match_esc ''*c'' ''abc'' = match ''*c'' ''abc'' \<and>
   match_esc [CHR 0x5C, CHR ''#'', CHR ''?'', CHR 0x5C, CHR ''*'', CHR ''c''] ''#1*c'' =
     Some (glob_esc [CHR 0x5C, CHR ''#'', CHR ''?'', CHR 0x5C, CHR ''*'', CHR ''c''] ''#1*c'') \<and>
   glob_esc [CHR 0x5C, CHR ''#'', CHR ''?'', CHR 0x5C, CHR ''*'', CHR ''c''] ''#1*c''"
proof -
  let ?m = "[CHR 0x5C, CHR ''#'', CHR ''?'', CHR 0x5C, CHR ''*'', CHR ''c'']"
  have 1: "\<not> ends_in_escaped_star ''*c''" using ends_in_escaped_star_last[of "''*c''"] by auto
  have 2: "\<not> ends_in_escaped_star ?m"
    using ends_in_escaped_star_last[of ?m] by auto
  from match_esc_decides_glob_esc[OF 1, of "''abc''"] match_esc_decides_glob_esc[OF 2, of "''#1*c''"]
  show ?thesis by auto
qed

text \<open>\<open>collapse\<close> leaves a mask without consecutive stars, never makes it longer, and does not
  change what \<open>match\<close> accepts.\<close>

theorem collapse_preserves_match:
  "match (collapse_str msk) name = match msk name \<and> no_double_star (collapse_str msk) \<and>
   length (collapse_str msk) \<le> length msk"
  by (simp add: match_glob glob_collapse no_double_star_collapse length_collapse)

text \<open>\<open>comp_with_mask\<close>, the CIDR comparison, reads only bytes of the two addresses and tells
  whether their first \<open>bits\<close> bits agree, for every prefix length that fits the addresses.\<close>

theorem comp_with_mask_prefix:
  assumes "unat bits \<le> 8 * length a" "unat bits \<le> 8 * length d"
  shows "comp_with_mask a d bits = Some (\<forall>i < unat bits. addr_bit a i = addr_bit d i)"
  using assms by (rule comp_with_mask_bits)

lemma comp_with_mask_prefix_witness:
  "comp_with_mask [192, 168, 7, 9] [192, 168, 4, 1] 22 =
     Some (\<forall>i < 22. addr_bit [192, 168, 7, 9] i = addr_bit [192, 168, 4, 1] i) \<and>
   comp_with_mask [192, 168, 7, 9] [192, 168, 4, 1] 22 = Some True"
proof
  show "comp_with_mask [192, 168, 7, 9] [192, 168, 4, 1] 22 =
     Some (\<forall>i < 22. addr_bit [192, 168, 7, 9] i = addr_bit [192, 168, 4, 1] i)"
    using comp_with_mask_prefix[of 22 "[192, 168, 7, 9]" "[192, 168, 4, 1]"] by simp
  show "comp_with_mask [192, 168, 7, 9] [192, 168, 4, 1] 22 = Some True"
    by (simp add: comp_with_mask_def Let_def mask_eq_exp_minus_1)
qed

text \<open>\<open>ircncmp\<close> on two strings that are not both empty compares exactly their first \<open>n\<close>
  characters without case, for every positive \<open>n\<close>.\<close>

theorem ircncmp_prefix:
  assumes "cstr s" "cstr t" "s \<noteq> [] \<or> t \<noteq> []" "n \<noteq> 0"
  shows "\<exists>r. ircncmp s t n = Some r \<and>
    (r = 0 \<longleftrightarrow> map ToLower (take (unat n) s) = map ToLower (take (unat n) t))"
  using assms by (rule ircncmp_correct)

lemma ircncmp_prefix_witness:
  "\<exists>r. ircncmp ''NickServ'' ''nick[x'' 4 = Some r \<and>
     (r = 0 \<longleftrightarrow> map ToLower (take 4 ''NickServ'') = map ToLower (take 4 ''nick[x''))"
  using ircncmp_prefix[of "''NickServ''" "''nick[x''" 4] by (simp add: cstr_def)

text \<open>Two masks on which the code departs from its own rules: the backwards scan at the end of the
  mask takes an escaped star for a wildcard, and the hash matches what is not a digit.\<close>

lemma match_esc_escaped_star:
  "match_esc [CHR ''*'', CHR ''a'', CHR 0x5C, CHR ''*''] ''xa*b'' = Some True"
  "\<not> glob_esc [CHR ''*'', CHR ''a'', CHR 0x5C, CHR ''*''] ''xa*b''"
  subgoal by (code_simp)
  subgoal by (code_simp)
  done

end
