(* ===== verification/Netmask.thy ===== *)
theory Netmask
  imports Match "HOL-Library.Signed_Division"
begin

text \<open>
  The first half of \<^verbatim>\<open>src/hostmask.c\<close>: telling host masks, IPv4 and IPv6 masks apart
  (\<open>parse_netmask\<close>), comparing an address with a mask, \<open>mask_addr\<close> and the hashes of
  addresses and host masks. The code is the one compiled with \<open>IPV6\<close>.

  \<open>None\<close> is undefined behaviour: an index outside an array or a shift by more than the width
  of an \<open>int\<close>. An IPv4 address is its 32 bits in host order, an IPv6 address its 16 bytes in
  network order. \<open>unsigned long\<close> has 64 bits.

  The lemmas show which bit lengths the parser can give, that the parsed IPv4 mask matches
  exactly the addresses that agree with it on its leading bits, what dotted quads parse to,
  and, for each family, the fact the hash table of theory \<open>Hostmask\<close> rests on: an address that
  matches a mask hashes, at the mask's rounded length, to the mask's bucket.
\<close>

datatype netmask = HM_HOST | HM_IPV4 u32 int | HM_IPV6 "u8 list" int

datatype irc_addr = In4 u32 | In6 "u8 list"

subsection \<open>IPv6 masks\<close>

definition hex_val :: "char \<Rightarrow> nat" where
  "hex_val ch =
     (if is_c_digit ch then ord ch - ord CHR ''0''
      else if ord CHR ''A'' \<le> (ord ch :: nat) \<and> ord ch \<le> (ord CHR ''F'' :: nat) then ord ch - ord CHR ''A'' + 10
      else if ord CHR ''a'' \<le> (ord ch :: nat) \<and> ord ch \<le> (ord CHR ''f'' :: nat) then ord ch - ord CHR ''a'' + 10
      else ord ch)"

record v6_scan =
  v6_d :: "u32 list"
  v6_dp :: nat
  v6_nyble :: nat
  v6_finsert :: int
  v6_bits :: int

definition v6_start :: v6_scan where
  "v6_start = \<lparr>v6_d = replicate 8 0, v6_dp = 0, v6_nyble = 4, v6_finsert = - 1, v6_bits = 128\<rparr>"

text \<open>\<open>d[dp] = d[dp] >> 4 * nyble\<close>\<close>

definition v6_align :: "v6_scan \<Rightarrow> v6_scan" where
  "v6_align s = s\<lparr>v6_d := (v6_d s)[v6_dp s := drop_bit (4 * v6_nyble s) (v6_d s ! v6_dp s)]\<rparr>"

text \<open>The scanning loop: \<open>None\<close> is a return of \<open>HM_HOST\<close>; the flag says whether the loop ended at
  the end of the text (and not at a slash). The first argument is the character before \<open>p\<close>.\<close>

fun v6_loop :: "char option \<Rightarrow> string \<Rightarrow> v6_scan \<Rightarrow> (v6_scan \<times> bool) option" where
  "v6_loop pre [] s = Some (s, True)"
| "v6_loop pre (c # cs) s =
     (if IsXDigit c then
        (if v6_nyble s = 0 then None
         else let k = v6_nyble s - 1
              in v6_loop (Some c) cs
                   (s\<lparr>v6_nyble := k,
                      v6_d := (v6_d s)[v6_dp s := (v6_d s ! v6_dp s) OR push_bit (4 * k) (of_nat (hex_val c))]\<rparr>))
      else if c = CHR '':'' then
        (if pre = Some CHR '':'' then
           (if v6_finsert s \<ge> 0 then None
            else v6_loop (Some c) cs (s\<lparr>v6_finsert := int (v6_dp s)\<rparr>))
         else let s = (v6_align s)\<lparr>v6_nyble := 4, v6_dp := v6_dp s + 1\<rparr>
              in if v6_dp s \<ge> 8 then None else v6_loop (Some c) cs s)
      else if c = CHR ''*'' then
        (if v6_finsert s \<ge> 0 \<or> cs \<noteq> [] \<or> v6_dp s = 0 \<or> pre \<noteq> Some CHR '':'' then None
         else v6_loop (Some c) cs (s\<lparr>v6_bits := int (v6_dp s) * 16\<rparr>))
      else if c = CHR ''/'' then
        (let s = (v6_align s)\<lparr>v6_dp := v6_dp s + 1\<rparr>;
             (v, after) = c_strtoul cs;
             bits = ulong_to_int v
         in if bits < 0 \<or> after \<noteq> [] then None
            else if bits > int (v6_dp s) * 4 \<and> \<not> (v6_finsert s \<ge> 0 \<and> bits \<le> 128) then None
            else Some (s\<lparr>v6_bits := bits\<rparr>, False))
      else None)"

text \<open>The loop that fills the gap of a double colon, \<open>k\<close> places still to go.\<close>

fun v6_fill :: "nat \<Rightarrow> u32 list \<Rightarrow> int \<Rightarrow> nat \<Rightarrow> int \<Rightarrow> 16 word list" where
  "v6_fill 0 d finsert nyble deficit = []"
| "v6_fill (Suc k) d finsert nyble deficit =
     (if int nyble = finsert \<and> deficit \<noteq> 0 then 0 # v6_fill k d finsert nyble (deficit - 1)
      else ucast (d ! nyble) # v6_fill k d finsert (nyble + 1) deficit)"

definition clear_bits16 :: "nat \<Rightarrow> 16 word \<Rightarrow> 16 word" where
  "clear_bits16 k w = w AND ucast (NOT (push_bit k 1 - 1 :: u32))"

definition v6_finish :: "v6_scan \<Rightarrow> bool \<Rightarrow> netmask option" where
  "v6_finish s at_end =
     (if v6_dp s \<ge> 8 then None
      else
        let s = v6_align s;
            dp = (if at_end then v6_dp s + 1 else v6_dp s);
            bits = (if v6_finsert s < 0 \<and> v6_bits s = 0 then int dp * 16 else v6_bits s);
            full = bits div 16 + (if bits mod 16 \<noteq> 0 then 1 else 0);
            dc = v6_fill 8 (v6_d s) (v6_finsert s) 0 (full - int dp);
            dc = (if bits < 128 \<and> bits mod 16 \<noteq> 0
                  then dc[nat (bits div 16) := clear_bits16 (nat (15 - bits mod 16)) (dc ! nat (bits div 16))]
                  else dc);
            dc = take (nat full) dc @ replicate (8 - nat full) 0
        in Some (HM_IPV6 (concat (map (\<lambda>w. [ucast (drop_bit 8 w), ucast w]) dc)) bits))"

definition try_parse_v6_netmask :: "string \<Rightarrow> netmask option" where
  "try_parse_v6_netmask text =
     (case v6_loop None text v6_start of
        None \<Rightarrow> Some HM_HOST
      | Some (s, at_end) \<Rightarrow> v6_finish s at_end)"

subsection \<open>IPv4 masks\<close>

text \<open>The scanning loop collects the positions after the dots; \<open>None\<close> is a return of \<open>HM_HOST\<close>.\<close>

fun v4_loop :: "char option \<Rightarrow> string \<Rightarrow> string list \<Rightarrow> (string list \<times> int) option" where
  "v4_loop pre [] digits = Some (digits, 0)"
| "v4_loop pre (c # cs) digits =
     (if is_c_digit c then v4_loop (Some c) cs digits
      else if c = CHR ''.'' then
        (if length digits \<ge> 4 then None else v4_loop (Some c) cs (digits @ [cs]))
      else if c = CHR ''*'' then
        (if cs \<noteq> [] \<or> digits = [] \<or> pre \<noteq> Some CHR ''.'' then None
         else Some (digits, (int (length digits) - 1) * 8))
      else if c = CHR ''/'' then
        (case c_strtoul cs of (v, after) \<Rightarrow>
           let bits = ulong_to_int v
           in if bits = 0 \<or> after \<noteq> [] then None
              else if bits > int (length digits) * 8 then None
              else Some (digits, bits))
      else None)"

text \<open>\<open>addb[0] << 24 | addb[1] << 16 | addb[2] << 8 | addb[3]\<close>\<close>

definition v4_of :: "u8 list \<Rightarrow> u32" where
  "v4_of b = push_bit 24 (ucast (b ! 0)) OR push_bit 16 (ucast (b ! 1)) OR push_bit 8 (ucast (b ! 2)) OR
     ucast (b ! 3)"

definition v4_finish :: "string list \<Rightarrow> int \<Rightarrow> netmask option" where
  "v4_finish digits bits =
     (let n = length digits;
          bits = (if n < 4 \<and> bits = 0 then int n * 8 else bits);
          digits = (if bits \<noteq> 0 then digits @ replicate (4 - n) ''0'' else digits);
          addb = map (\<lambda>t. ucast (fst (c_strtoul t)) :: u8) digits;
          bits = (if bits = 0 then 32 else bits);
          at = bits sdiv 8; part = bits smod 8;
          start = at + (if part \<noteq> 0 then 1 else 0)
      in if (bits < 32 \<and> part \<noteq> 0 \<and> at < 0) \<or> start < 0 then None
         else
           let addb = (if bits < 32 \<and> part \<noteq> 0
                       then addb[nat at := (addb ! nat at) AND ucast (NOT (push_bit (nat (8 - part)) 1 - 1 :: u32))]
                       else addb);
               addb = take (nat start) addb @ replicate (4 - nat start) 0
           in Some (HM_IPV4 (v4_of addb) bits))"

definition try_parse_v4_netmask :: "string \<Rightarrow> netmask option" where
  "try_parse_v4_netmask text =
     (case v4_loop None text [text] of
        None \<Rightarrow> Some HM_HOST
      | Some (digits, bits) \<Rightarrow> v4_finish digits bits)"

definition parse_netmask :: "string \<Rightarrow> netmask option" where
  "parse_netmask text =
     (if CHR '':'' \<in> set text then try_parse_v6_netmask text
      else if CHR ''.'' \<in> set text then try_parse_v4_netmask text
      else Some HM_HOST)"

subsection \<open>Matching and masking addresses\<close>

text \<open>The model gives no result for a bit length outside the address.\<close>

definition match_ipv6 :: "u8 list \<Rightarrow> u8 list \<Rightarrow> int \<Rightarrow> bool option" where
  "match_ipv6 addr msk bits =
     (if bits < 0 \<or> bits > 128 then None
      else let n = nat (bits div 8); m = nat (bits mod 8)
           in if \<not> (\<forall>i < n. addr ! i = msk ! i) then Some False
              else if m = 0 then Some True
              else Some ((addr ! n) AND ucast (NOT (push_bit (8 - m) 1 - 1 :: u32)) = msk ! n))"

text \<open>\<open>~((1 << (32 - bits)) - 1)\<close>, two's complement arithmetic wrapping at \<open>bits = 1\<close>.\<close>

definition v4_bitmask :: "int \<Rightarrow> u32 option" where
  "v4_bitmask bits = (if bits \<le> 0 \<or> bits > 32 then None else Some (NOT (push_bit (nat (32 - bits)) 1 - 1)))"

definition match_ipv4 :: "u32 \<Rightarrow> u32 \<Rightarrow> int \<Rightarrow> bool option" where
  "match_ipv4 addr msk bits = map_option (\<lambda>b. addr AND b = msk) (v4_bitmask bits)"

text \<open>\<open>mask_addr\<close>. The loop of the IPv6 case tests \<open>n\<close>, which it does not change; \<open>v6_clear\<close> runs
  it for \<open>fuel\<close> turns.\<close>

datatype mask_result = Masked irc_addr | Undefined | Out_of_fuel

fun v6_clear :: "nat \<Rightarrow> nat \<Rightarrow> nat \<Rightarrow> u8 list \<Rightarrow> u8 list option" where
  "v6_clear 0 n i bs = None"
| "v6_clear (Suc fuel) n i bs = (if n < 16 then v6_clear fuel n (i + 1) (bs[n := 0]) else Some bs)"

definition mask_addr :: "nat \<Rightarrow> irc_addr \<Rightarrow> int \<Rightarrow> mask_result" where
  "mask_addr fuel ip bits =
     (case ip of
        In4 a \<Rightarrow> (case v4_bitmask bits of None \<Rightarrow> Undefined | Some b \<Rightarrow> Masked (In4 (a AND b)))
      | In6 bs \<Rightarrow>
          if bits < 0 \<or> bits div 8 \<ge> 16 then Undefined
          else let n = nat (bits div 8); m = nat (bits mod 8);
                   bs = bs[n := (bs ! n) AND ucast (NOT (push_bit (8 - m) 1 - 1 :: u32))]
               in (case v6_clear fuel n (n + 1) bs of
                     None \<Rightarrow> Out_of_fuel
                   | Some bs \<Rightarrow> Masked (In6 bs)))"

subsection \<open>Hashes\<close>

definition ATABLE_SIZE :: nat where "ATABLE_SIZE = 0x1000"

definition hash_ipv4 :: "u32 \<Rightarrow> int \<Rightarrow> nat option" where
  "hash_ipv4 addr bits =
     (if bits \<noteq> 0
      then map_option (\<lambda>b. let av = addr AND b
             in unat ((av XOR drop_bit 12 av XOR drop_bit 24 av) AND of_nat (ATABLE_SIZE - 1))) (v4_bitmask bits)
      else Some 0)"

fun hash_ipv6_loop :: "u8 list \<Rightarrow> int \<Rightarrow> u64 \<Rightarrow> u64" where
  "hash_ipv6_loop [] bits v = v"
| "hash_ipv6_loop (b # bs) bits v =
     (if bits \<ge> 8 then hash_ipv6_loop bs (bits - 8) (v XOR ucast b)
      else if bits \<noteq> 0 then v XOR ucast (b AND ucast (NOT (push_bit (nat (8 - bits)) 1 - 1 :: u32)))
      else v)"

definition hash_ipv6 :: "u8 list \<Rightarrow> int \<Rightarrow> nat" where
  "hash_ipv6 addr bits = unat (hash_ipv6_loop addr bits 0 AND of_nat (ATABLE_SIZE - 1))"

definition hash_text_step :: "u64 \<Rightarrow> char \<Rightarrow> u64" where
  "hash_text_step h c = push_bit 4 h - (h + of_nat (ord (ToLower c)))"

definition hash_text :: "string \<Rightarrow> nat" where
  "hash_text start = unat (foldl hash_text_step 0 start AND of_nat (ATABLE_SIZE - 1))"

text \<open>\<open>get_mask_hash\<close> scans the text from its end; the first argument is the part already
  scanned, the second the rest reversed, the third \<open>hp\<close>.\<close>

fun mask_hash_scan :: "string \<Rightarrow> string \<Rightarrow> string \<Rightarrow> string option" where
  "mask_hash_scan seen [] hp = None"
| "mask_hash_scan seen (c # cs) hp =
     (if c = CHR ''*'' \<or> c = CHR ''?'' then Some hp
      else mask_hash_scan (c # seen) cs (if c = CHR ''.'' then seen else hp))"

definition get_mask_hash :: "string \<Rightarrow> nat" where
  "get_mask_hash text =
     (case mask_hash_scan [] (rev text) [] of
        Some hp \<Rightarrow> hash_text hp
      | None \<Rightarrow> hash_text text)"

subsection \<open>What IPv4 masks match\<close>

lemma nat_le_3_cases: "n \<le> 3 \<Longrightarrow> n = 0 \<or> n = 1 \<or> n = 2 \<or> n = (3::nat)"
  by auto

lemma bit_v4_of:
  assumes "j < 32"
  shows "bit (v4_of b) j \<longleftrightarrow> bit (b ! (3 - j div 8)) (j mod 8)"
proof -
  define k m where "k = j div 8" and "m = j mod 8"
  have j: "j = 8 * k + m" "m < 8" by (simp_all add: k_def m_def)
  have "k \<le> 3" using assms by (simp add: k_def)
  have hi: "\<not> bit (b ! i) n" if "8 \<le> n" for i n using that by (auto dest: bit_imp_le_length)
  from nat_le_3_cases[OF \<open>k \<le> 3\<close>] j(2) show ?thesis unfolding k_def[symmetric] m_def[symmetric]
    by (elim disjE; subst j(1), auto simp: v4_of_def bit_or_iff bit_push_bit_iff bit_ucast_iff hi)
qed

definition v4_masked :: "u32 \<Rightarrow> int \<Rightarrow> bool" where
  "v4_masked a bits \<longleftrightarrow> (\<forall>j. int j < 32 - bits \<longrightarrow> \<not> bit a j)"

lemma bit_v4_bitmask:
  assumes "v4_bitmask bits = Some m"
  shows "bit m j \<longleftrightarrow> 32 - bits \<le> int j \<and> j < 32"
proof -
  have b: "0 < bits" "bits \<le> 32" "m = NOT (push_bit (nat (32 - bits)) 1 - 1)"
    using assms by (auto simp: v4_bitmask_def split: if_splits)
  have "m = NOT (mask (nat (32 - bits)))" unfolding b(3) by (simp add: mask_eq_exp_minus_1)
  then show ?thesis using b by (auto simp: bit_not_iff bit_mask_iff)
qed

lemma match_ipv4_iff:
  assumes "v4_masked a bits" "0 < bits" "bits \<le> 32"
  shows "match_ipv4 x a bits = Some (\<forall>j < 32. 32 - bits \<le> int j \<longrightarrow> (bit x j \<longleftrightarrow> bit a j))"
proof -
  obtain m where m: "v4_bitmask bits = Some m" using assms by (auto simp: v4_bitmask_def)
  have "x AND m = a \<longleftrightarrow> (\<forall>j < 32. (bit x j \<and> bit m j) = bit a j)"
    by (auto simp: bit_eq_iff bit_and_iff)
  then show ?thesis using assms(1) bit_v4_bitmask[OF m]
    by (auto simp: match_ipv4_def m v4_masked_def not_le)
qed

lemma match_ipv4_hash:
  assumes "match_ipv4 x a bits = Some True" "0 \<le> low" "low \<le> bits"
  shows "hash_ipv4 x low = hash_ipv4 a low"
proof (cases "low = 0")
  case False
  from assms obtain m where m: "v4_bitmask bits = Some m" "a = x AND m" by (auto simp: match_ipv4_def)
  obtain l where l: "v4_bitmask low = Some l"
    using False assms m by (auto simp: v4_bitmask_def split: if_splits)
  have "m AND l = l" using assms(3)
    by (auto simp: bit_eq_iff bit_and_iff bit_v4_bitmask[OF m(1)] bit_v4_bitmask[OF l])
  then have "x AND l = a AND l" by (simp add: m(2) and.assoc)
  then show ?thesis by (simp only: hash_ipv4_def l option.map Let_def)
qed (simp add: hash_ipv4_def)

lemma v4_loop_bits:
  assumes "v4_loop pre t ds = Some (ds', b)" "ds \<noteq> []" "length ds \<le> 4"
  shows "ds' \<noteq> [] \<and> length ds' \<le> 4 \<and> b \<le> int (length ds') * 8"
  using assms
proof (induction pre t ds arbitrary: ds' b rule: v4_loop.induct)
  case (2 pre c cs ds)
  then show ?case by (auto simp: Let_def split: if_splits prod.splits)
qed auto

lemma v4_masked_cut:
  fixes n :: nat
  assumes "length addb = 4" "0 < n" "n \<le> 32"
  defines "start \<equiv> n div 8 + (if n mod 8 \<noteq> 0 then 1 else 0)"
  defines "addb' \<equiv> if n < 32 \<and> n mod 8 \<noteq> 0
    then addb[n div 8 := (addb ! (n div 8)) AND ucast (NOT (push_bit (8 - n mod 8) 1 - 1 :: u32))] else addb"
  shows "v4_masked (v4_of (take start addb' @ replicate (4 - start) 0)) (int n)"
  unfolding v4_masked_def
proof (intro allI impI)
  fix j :: nat
  assume "int j < 32 - int n"
  then have j: "j + n < 32" by simp
  define k where "k = 3 - j div 8"
  have len: "length addb' = 4" using assms(1) by (simp add: addb'_def)
  have start: "start \<le> 4" using assms(3) unfolding start_def by presburger
  have k: "k \<le> 3" "n div 8 \<le> k" using j by (auto simp: k_def)
  have "\<not> bit ((take start addb' @ replicate (4 - start) 0) ! k) (j mod 8)"
  proof (cases "start \<le> k")
    case True
    then show ?thesis using k(1) len start by (simp add: nth_append)
  next
    case False
    then have r: "n mod 8 \<noteq> 0" "k = n div 8" using k(2) by (auto simp: start_def split: if_splits)
    have "j div 8 + n div 8 = 3" using r(2) k j by (auto simp: k_def)
    then have "j mod 8 < 8 - n mod 8"
      using j mult_div_mod_eq[of 8 j] mult_div_mod_eq[of 8 n] by linarith
    then have "\<not> bit (NOT (push_bit (8 - n mod 8) 1 - 1 :: u32)) (j mod 8)"
      by (simp add: bit_not_iff bit_mask_iff flip: mask_eq_exp_minus_1)
    then show ?thesis using False r j len assms(1) k(1)
      by (simp add: nth_append addb'_def bit_and_iff bit_ucast_iff)
  qed
  then show "\<not> bit (v4_of (take start addb' @ replicate (4 - start) 0)) j"
    using j by (simp add: bit_v4_of k_def)
qed

lemma v4_finish_masked:
  assumes "v4_finish ds bits = Some (HM_IPV4 a b)" "ds \<noteq> []" "length ds \<le> 4" "bits \<le> int (length ds) * 8"
  shows "b \<noteq> 0 \<and> b \<le> 32 \<and> (0 < b \<longrightarrow> v4_masked a b)"
proof -
  define bits1 where "bits1 = (if length ds < 4 \<and> bits = 0 then int (length ds) * 8 else bits)"
  define ds1 where "ds1 = (if bits1 \<noteq> 0 then ds @ replicate (4 - length ds) ''0'' else ds)"
  define addb where "addb = map (\<lambda>t. ucast (fst (c_strtoul t)) :: u8) ds1"
  define bits2 where "bits2 = (if bits1 = 0 then 32 else bits1)"
  have len: "length addb = 4" using assms(2,3) by (auto simp: addb_def ds1_def bits1_def)
  have b2: "bits2 \<noteq> 0" "bits2 \<le> 32" using assms(3,4) by (auto simp: bits2_def bits1_def)
  note fin = assms(1)[unfolded v4_finish_def Let_def, folded bits1_def, folded ds1_def, folded addb_def,
    folded bits2_def]
  have b: "b = bits2" using fin by (simp split: if_splits)
  show ?thesis
  proof (cases "0 < bits2")
    case True
    then obtain n where n: "bits2 = int n" "0 < n" "n \<le> 32" using b2 by (metis zero_less_imp_eq_int of_nat_le_iff of_nat_numeral)
    have dm: "int n sdiv 8 = int (n div 8)" "int n smod 8 = int (n mod 8)"
      using n(2) by (simp_all add: signed_divide_int_def signed_modulo_int_def zdiv_int zmod_int)
    have Suc: "nat (int q + 1) = Suc q" "nat (8 - int q) = 8 - q" for q by auto
    have "a = v4_of (take (n div 8 + (if n mod 8 \<noteq> 0 then 1 else 0))
        (if n < 32 \<and> n mod 8 \<noteq> 0
         then addb[n div 8 := (addb ! (n div 8)) AND ucast (NOT (push_bit (8 - n mod 8) 1 - 1 :: u32))] else addb)
        @ replicate (4 - (n div 8 + (if n mod 8 \<noteq> 0 then 1 else 0))) 0)"
      using fin n by (auto simp: dm Suc split: if_splits)
    then show ?thesis using v4_masked_cut[OF len n(2,3)] b2 unfolding b n(1) by simp
  qed (use b b2 in auto)
qed

lemma parse_netmask_v4:
  assumes "parse_netmask t = Some (HM_IPV4 a b)"
  shows "b \<noteq> 0" "b \<le> 32" "0 < b \<Longrightarrow> v4_masked a b"
proof -
  from assms obtain ds bits where "v4_loop None t [t] = Some (ds, bits)" "v4_finish ds bits = Some (HM_IPV4 a b)"
    by (auto simp: parse_netmask_def try_parse_v4_netmask_def try_parse_v6_netmask_def v6_finish_def Let_def
        split: if_splits option.splits)
  with v4_loop_bits[OF this(1)] v4_finish_masked[OF this(2)]
  show "b \<noteq> 0" "b \<le> 32" "0 < b \<Longrightarrow> v4_masked a b" by auto
qed

subsection \<open>IPv6 masks and their hash\<close>

lemma hash_ipv6_loop_take:
  "k \<le> length bs \<Longrightarrow>
     hash_ipv6_loop bs (8 * int k) v = foldl (\<lambda>v b. v XOR ucast b) v (take k bs)"
proof (induction bs arbitrary: k v)
  case (Cons b bs)
  then show ?case by (cases k) (simp_all add: algebra_simps)
qed simp

lemma match_ipv6_hash:
  assumes "match_ipv6 x a bits = Some True" "length x = 16" "length a = 16"
  shows "hash_ipv6 x (bits - bits mod 16) = hash_ipv6 a (bits - bits mod 16)"
proof -
  define k where "k = nat (2 * (bits div 16))"
  from assms(1) have b: "0 \<le> bits" "bits \<le> 128" "\<forall>i < nat (bits div 8). x ! i = a ! i"
    by (auto simp: match_ipv6_def Let_def split: if_splits)
  have k: "bits - bits mod 16 = 8 * int k" "k \<le> nat (bits div 8)" "k \<le> 16"
    using b(1,2) by (auto simp: k_def nat_mult_distrib minus_mod_eq_mult_div)
  have "take k x = take k a" using b(3) k(2,3) assms(2,3) by (intro nth_equalityI) auto
  then show ?thesis using k(1,3) assms(2,3) by (simp add: hash_ipv6_def hash_ipv6_loop_take)
qed

text \<open>Which lengths the parser gives.\<close>

definition v6_scan_ok :: "v6_scan \<Rightarrow> bool" where
  "v6_scan_ok s \<longleftrightarrow> length (v6_d s) = 8 \<and> v6_dp s \<le> 8 \<and> - 1 \<le> v6_finsert s \<and> 0 \<le> v6_bits s \<and> v6_bits s \<le> 128"

lemma v6_start_ok [simp]: "v6_scan_ok v6_start"
  by (simp add: v6_scan_ok_def v6_start_def)

lemma v6_align_simps [simp]:
  "length (v6_d (v6_align s)) = length (v6_d s)" "v6_dp (v6_align s) = v6_dp s"
  "v6_finsert (v6_align s) = v6_finsert s" "v6_bits (v6_align s) = v6_bits s"
  by (simp_all add: v6_align_def)

lemma v6_loop_ok:
  assumes "v6_loop pre t s = Some (s', e)" "v6_scan_ok s" "v6_dp s < 8"
  shows "v6_scan_ok s' \<and> (e \<longrightarrow> v6_dp s' < 8)"
  using assms
proof (induction pre t s arbitrary: s' e rule: v6_loop.induct)
  case (2 pre c cs s)
  then show ?case
    by (auto simp: Let_def v6_scan_ok_def not_le split: if_splits prod.splits)
qed auto

lemma length_v6_fill [simp]: "length (v6_fill k d f n e) = k"
  by (induction k d f n e rule: v6_fill.induct) auto

lemma length_concat_pairs: "length (concat (map (\<lambda>w. [f w, g w]) ws)) = 2 * length ws"
  by (induction ws) auto

lemma length_concat_replicate: "length (concat (replicate n [x, y])) = 2 * n"
  by (induction n) auto

lemma v6_finish_ok:
  assumes "v6_finish s e = Some (HM_IPV6 a b)" "v6_scan_ok s"
  shows "length a = 16 \<and> 0 \<le> b \<and> b \<le> 128"
proof -
  have dp: "v6_dp s < 8" using assms(1) by (simp add: v6_finish_def Let_def split: if_splits)
  define s' where "s' = v6_align s"
  define b1 where "b1 = (if v6_finsert s' < 0 \<and> v6_bits s' = 0
    then int (if e then v6_dp s' + 1 else v6_dp s') * 16 else v6_bits s')"
  have b1: "0 \<le> b1" "b1 \<le> 128" using assms(2) dp by (auto simp: b1_def s'_def v6_scan_ok_def)
  have full: "nat (b1 div 16 + (if b1 mod 16 \<noteq> 0 then 1 else 0)) \<le> 8"
  proof -
    have "b1 = 16 * (b1 div 16) + b1 mod 16" "0 \<le> b1 mod 16" by simp_all
    then have "b1 div 16 \<le> 8" "b1 mod 16 \<noteq> 0 \<Longrightarrow> b1 div 16 + 1 \<le> 8" using b1(2) by linarith+
    then show ?thesis by (cases "b1 mod 16 = 0") simp_all
  qed
  note fin = assms(1)[unfolded v6_finish_def Let_def, folded s'_def, folded b1_def]
  have "b = b1" using fin dp by simp
  moreover have "length a = 16" using fin dp full by (auto simp: length_concat_pairs length_concat_replicate)
  ultimately show ?thesis using b1 by simp
qed

lemma parse_netmask_v6:
  assumes "parse_netmask t = Some (HM_IPV6 a b)"
  shows "length a = 16" "0 \<le> b" "b \<le> 128"
proof -
  from assms obtain s e where l: "v6_loop None t v6_start = Some (s, e)" "v6_finish s e = Some (HM_IPV6 a b)"
    by (auto simp: parse_netmask_def try_parse_v6_netmask_def try_parse_v4_netmask_def v4_finish_def Let_def
        split: if_splits option.splits)
  have "v6_scan_ok s" using v6_loop_ok[OF l(1) v6_start_ok] by (simp add: v6_start_def)
  from v6_finish_ok[OF l(2) this] show "length a = 16" "0 \<le> b" "b \<le> 128" by auto
qed

subsection \<open>Host masks and their hash\<close>

lemma hash_text_cong: "map ToLower s = map ToLower t \<Longrightarrow> hash_text s = hash_text t"
proof -
  have "foldl hash_text_step h s = foldl hash_text_step h t" if "map ToLower s = map ToLower t" for h
    using that
  proof (induction s arbitrary: t h)
    case (Cons c s)
    then obtain d t' where "t = d # t'" "ToLower c = ToLower d" "map ToLower s = map ToLower t'" by auto
    then show ?case using Cons.IH by (simp add: hash_text_step_def)
  qed simp
  then show "map ToLower s = map ToLower t \<Longrightarrow> hash_text s = hash_text t" by (simp add: hash_text_def)
qed

definition no_wild :: "string \<Rightarrow> bool" where
  "no_wild s \<longleftrightarrow> CHR ''*'' \<notin> set s \<and> CHR ''?'' \<notin> set s"

text \<open>What follows the first dots of a name: the positions at which \<open>find_conf_by_address\<close> probes.\<close>

fun dot_tails :: "string \<Rightarrow> string list" where
  "dot_tails [] = []"
| "dot_tails (c # cs) = (if c = CHR ''.'' then cs # dot_tails cs else dot_tails cs)"

lemma dot_tails_append: "t \<in> set (dot_tails (u @ CHR ''.'' # t))"
  by (induction u) auto

lemma mask_hash_scan_None: "mask_hash_scan seen r hp = None \<longleftrightarrow> no_wild r"
  by (induction seen r hp rule: mask_hash_scan.induct) (auto simp: no_wild_def)

lemma mask_hash_scan_Some:
  assumes "mask_hash_scan seen r hp = Some h" "no_wild seen" "hp = [] \<or> (\<exists>w. seen = w @ CHR ''.'' # hp)"
  shows "h = [] \<or> (\<exists>u. rev r @ seen = u @ CHR ''.'' # h \<and> no_wild h)"
  using assms
proof (induction seen r hp rule: mask_hash_scan.induct)
  case (2 seen c cs hp)
  show ?case
  proof (cases "c = CHR ''*'' \<or> c = CHR ''?''")
    case True
    then have "h = hp" using 2(2) by simp
    then show ?thesis using 2(3,4) by (auto simp: no_wild_def)
  next
    case False
    define hp' where "hp' = (if c = CHR ''.'' then seen else hp)"
    have "hp' = [] \<or> (\<exists>w. c # seen = w @ CHR ''.'' # hp')"
      using 2(4) by (auto simp: hp'_def intro: exI[of _ "[]"] exI[of _ "c # _"])
    moreover have "no_wild (c # seen)" using 2(3) False by (auto simp: no_wild_def)
    moreover have "mask_hash_scan (c # seen) cs hp' = Some h" using 2(2) False by (simp add: hp'_def)
    ultimately show ?thesis using 2(1)[OF False] by (simp add: hp'_def)
  qed
qed simp

lemma ToLower_dot [simp]: "ToLower c = ToLower CHR ''.'' \<longleftrightarrow> c = CHR ''.''"
  unfolding char_eq_iff_ord ord_ToLower by auto

lemma glob_literal:
  assumes "no_wild m" "CHR ''#'' \<notin> set m"
  shows "glob m n \<longleftrightarrow> map ToLower n = map ToLower m"
  using assms
proof (induction m n rule: glob.induct)
  case (3 c m d n)
  then show ?case by (auto simp: no_wild_def glob_char_def)
qed (auto simp: no_wild_def)

lemma glob_append_literal:
  assumes "no_wild l" "CHR ''#'' \<notin> set l" "glob (u @ l) n"
  shows "\<exists>v w. n = v @ w \<and> map ToLower w = map ToLower l"
  using assms(3)
proof (induction u n rule: glob.induct)
  case (1 n)
  then show ?case using assms(1,2) by (intro exI[of _ "[]"] exI[of _ n]) (simp add: glob_literal)
next
  case (2 c u)
  then show ?case by auto
next
  case (3 c u d n)
  consider "c = CHR ''*''" "glob (u @ l) (d # n)" | "c = CHR ''*''" "glob ((c # u) @ l) n" | "glob (u @ l) n" "c \<noteq> CHR ''*''"
    using 3(4) by (auto split: if_splits)
  then show ?case
  proof cases
    case 1
    then show ?thesis by (rule "3.IH"(1))
  next
    case 2
    then obtain v w where "n = v @ w" "map ToLower w = map ToLower l" using "3.IH"(2) by auto
    then show ?thesis by (intro exI[of _ "d # v"] exI[of _ w]) simp
  next
    case 3
    then obtain v w where "n = v @ w" "map ToLower w = map ToLower l" using "3.IH"(3) by auto
    then show ?thesis by (intro exI[of _ "d # v"] exI[of _ w]) simp
  qed
qed

text \<open>The bucket of a mask without the digit wildcard is among those probed for any name the mask
  matches.\<close>

definition host_probes :: "string \<Rightarrow> nat list" where
  "host_probes name = map hash_text (name # dot_tails name) @ [0]"

lemma hash_text_Nil [simp]: "hash_text [] = 0"
  by (simp add: hash_text_def)

lemma mask_hash_probed:
  assumes "glob msk name" "CHR ''#'' \<notin> set msk"
  shows "get_mask_hash msk \<in> set (host_probes name)"
proof (cases "mask_hash_scan [] (rev msk) []")
  case None
  then have "no_wild msk" by (simp add: mask_hash_scan_None no_wild_def)
  then have "map ToLower name = map ToLower msk" using assms by (simp add: glob_literal)
  then have "hash_text msk = hash_text name" by (intro hash_text_cong) simp
  then show ?thesis by (simp add: get_mask_hash_def None host_probes_def)
next
  case (Some h)
  consider "h = []" | u where "msk = u @ CHR ''.'' # h" "no_wild h"
    using mask_hash_scan_Some[OF Some] by (auto simp: no_wild_def)
  then show ?thesis
  proof cases
    case 1
    then show ?thesis by (simp add: get_mask_hash_def Some host_probes_def)
  next
    case 2
    then obtain v w where vw: "name = v @ w" "map ToLower w = map ToLower (CHR ''.'' # h)"
      using glob_append_literal[of "CHR ''.'' # h" u name] assms by (auto simp: no_wild_def)
    then obtain t where t: "w = CHR ''.'' # t" "map ToLower t = map ToLower h" by (cases w) auto
    then have "hash_text h = hash_text t" by (intro hash_text_cong) simp
    moreover have "t \<in> set (dot_tails name)" unfolding vw(1) t(1) by (rule dot_tails_append)
    ultimately show ?thesis by (simp add: get_mask_hash_def Some host_probes_def)
  qed
qed

end
