(* ===== verification/Hostmask.thy ===== *)
theory Hostmask
  imports Netmask
begin

text \<open>
  The second half of \<^verbatim>\<open>src/hostmask.c\<close>: the table of address records behind the auth blocks,
  K-, D- and G-lines and their exemptions. \<open>atable\<close> maps a bucket to the chain of its
  records; a record holds its parsed mask, its type, its precedence, its user mask and the
  \<open>AccessItem\<close> it stands for. \<open>items\<close> is the heap of access items, \<open>None\<close> one that has been
  freed. A result \<open>None\<close> is undefined behaviour: a read of a freed item or a NULL mask, or what
  theory \<open>Netmask\<close> calls undefined. \<open>crypt\<close> is the parameter for the system's password hash.

  The locale \<open>bucket_search\<close> is what a search needs of a family of masks: a record that matches
  lies in one of the buckets probed. It is interpreted for IPv4, IPv6 and host masks, and
  makes \<open>find_conf_by_address\<close> the search for the oldest matching entry of a plain list.
\<close>

subsection \<open>Items, records and the table\<close>

definition CONF_ILLEGAL :: u32 where "CONF_ILLEGAL = 0x80000000"
definition CONF_CLIENT :: u32 where "CONF_CLIENT = 0x00000002"
definition CONF_KILL :: u32 where "CONF_KILL = 0x00000010"
definition CONF_EXEMPTKLINE :: u32 where "CONF_EXEMPTKLINE = 0x00000200"
definition CONF_DLINE :: u32 where "CONF_DLINE = 0x00000800"
definition CONF_EXEMPTDLINE :: u32 where "CONF_EXEMPTDLINE = 0x00004000"
definition CONF_GLINE :: u32 where "CONF_GLINE = 0x00008000"

definition CONF_FLAGS_EXEMPTKLINE :: u32 where "CONF_FLAGS_EXEMPTKLINE = 0x00000040"
definition CONF_FLAGS_EXEMPTGLINE :: u32 where "CONF_FLAGS_EXEMPTGLINE = 0x00001000"
definition CONF_FLAGS_ENCRYPTED :: u32 where "CONF_FLAGS_ENCRYPTED = 0x00010000"
definition CONF_FLAGS_TEMPORARY :: u32 where "CONF_FLAGS_TEMPORARY = 0x00040000"
definition CONF_FLAGS_NEED_PASSWORD :: u32 where "CONF_FLAGS_NEED_PASSWORD = 0x00200000"

record access_item =
  ai_status :: u32
  ai_flags :: u32
  ai_clients :: int
  ai_host :: "string option"
  ai_user :: "string option"
  ai_passwd :: "string option"

text \<open>\<open>masktype\<close> and the union \<open>Mask\<close>.\<close>

datatype host_mask = Host_mask string | Ip4_mask u32 int | Ip6_mask "u8 list" int

record address_rec =
  ar_mask :: host_mask
  ar_type :: u32
  precedence :: u64
  ar_user :: "string option"
  ar_aconf :: ptr

record conf_table =
  atable :: "nat \<Rightarrow> address_rec list"
  prec_value :: u64
  items :: "ptr \<Rightarrow> access_item option"

definition init_host_hash :: "conf_table \<Rightarrow> conf_table" where
  "init_host_hash s = s\<lparr>atable := \<lambda>_. []\<rparr>"

subsection \<open>Searching\<close>

definition match_conf_password ::
  "(string \<Rightarrow> string \<Rightarrow> string) \<Rightarrow> string option \<Rightarrow> access_item \<Rightarrow> bool" where
  "match_conf_password crypt password aconf =
     (case password of
        None \<Rightarrow> False
      | Some pw \<Rightarrow>
          (case ai_passwd aconf of
             None \<Rightarrow> False
           | Some cpw \<Rightarrow>
               let encr = (if ai_flags aconf AND CONF_FLAGS_ENCRYPTED \<noteq> 0
                           then (if cpw \<noteq> [] then crypt pw cpw else [])
                           else pw)
               in encr = cpw))"

definition password_test ::
  "(string \<Rightarrow> string \<Rightarrow> string) \<Rightarrow> (ptr \<Rightarrow> access_item option) \<Rightarrow> string \<Rightarrow> ptr \<Rightarrow> bool option" where
  "password_test crypt it password p =
     (case it p of
        None \<Rightarrow> None
      | Some aconf \<Rightarrow>
          Some (ai_flags aconf AND CONF_FLAGS_NEED_PASSWORD \<noteq> 0 \<or> ai_passwd aconf = None \<or>
                match_conf_password crypt (Some password) aconf))"

definition user_test :: "u32 \<Rightarrow> string \<Rightarrow> string option \<Rightarrow> bool option" where
  "user_test ty username msk =
     c_or (Some (ty AND 1 \<noteq> 0)) (case msk of None \<Rightarrow> None | Some m \<Rightarrow> match m username)"

text \<open>The condition of the search loops after the type and the precedence; \<open>addr_test\<close> is the
  test of the mask type and the mask.\<close>

definition record_test ::
  "(string \<Rightarrow> string \<Rightarrow> string) \<Rightarrow> (ptr \<Rightarrow> access_item option) \<Rightarrow> (host_mask \<Rightarrow> bool option) \<Rightarrow>
     u32 \<Rightarrow> string \<Rightarrow> string \<Rightarrow> address_rec \<Rightarrow> bool option" where
  "record_test crypt it addr_test ty username password arec =
     c_and (addr_test (ar_mask arec))
       (c_and (user_test ty username (ar_user arec)) (password_test crypt it password (ar_aconf arec)))"

text \<open>\<open>hprecv\<close> and \<open>hprec\<close>.\<close>

type_synonym search = "u64 \<times> ptr option"

fun scan_chain :: "(address_rec \<Rightarrow> bool option) \<Rightarrow> u32 \<Rightarrow> address_rec list \<Rightarrow> search \<Rightarrow> search option" where
  "scan_chain test ty [] best = Some best"
| "scan_chain test ty (arec # rest) (hprecv, hprec) =
     (case c_and (Some (ar_type arec = ty AND NOT 1)) (c_and (Some (precedence arec > hprecv)) (test arec)) of
        None \<Rightarrow> None
      | Some True \<Rightarrow> scan_chain test ty rest (precedence arec, Some (ar_aconf arec))
      | Some False \<Rightarrow> scan_chain test ty rest (hprecv, hprec))"

fun scan_buckets ::
  "(address_rec \<Rightarrow> bool option) \<Rightarrow> u32 \<Rightarrow> (nat \<Rightarrow> address_rec list) \<Rightarrow> nat list \<Rightarrow> search \<Rightarrow> search option" where
  "scan_buckets test ty tab [] best = Some best"
| "scan_buckets test ty tab (h # hs) best =
     Option.bind (scan_chain test ty (tab h) best) (scan_buckets test ty tab hs)"

definition ipv4_test :: "u32 \<Rightarrow> host_mask \<Rightarrow> bool option" where
  "ipv4_test a m = (case m of Ip4_mask b bits \<Rightarrow> match_ipv4 a b bits | _ \<Rightarrow> Some False)"

definition ipv6_test :: "u8 list \<Rightarrow> host_mask \<Rightarrow> bool option" where
  "ipv6_test a m = (case m of Ip6_mask b bits \<Rightarrow> match_ipv6 a b bits | _ \<Rightarrow> Some False)"

definition host_test :: "string \<Rightarrow> host_mask \<Rightarrow> bool option" where
  "host_test name m = (case m of Host_mask h \<Rightarrow> match h name | _ \<Rightarrow> Some False)"

definition ipv4_probes :: "u32 \<Rightarrow> nat list option" where
  "ipv4_probes a = those (map (hash_ipv4 a) [32, 24, 16, 8, 0])"

definition ipv6_probes :: "u8 list \<Rightarrow> nat list" where
  "ipv6_probes a = map (hash_ipv6 a) [128, 112, 96, 80, 64, 48, 32, 16, 0]"

definition find_conf_by_address ::
  "(string \<Rightarrow> string \<Rightarrow> string) \<Rightarrow> string option \<Rightarrow> irc_addr option \<Rightarrow> u32 \<Rightarrow> string option \<Rightarrow> string option \<Rightarrow>
     conf_table \<Rightarrow> ptr option option" where
  "find_conf_by_address crypt name addr ty username password s =
     (let username = (case username of None \<Rightarrow> [] | Some u \<Rightarrow> u);
          password = (case password of None \<Rightarrow> [] | Some p \<Rightarrow> p);
          test = (\<lambda>addr_test. record_test crypt (items s) addr_test ty username password);
          scan = (\<lambda>addr_test hs. scan_buckets (test addr_test) ty (atable s) hs);
          by_addr = (case addr of
                       None \<Rightarrow> Some (0, None)
                     | Some (In6 a) \<Rightarrow> scan (ipv6_test a) (ipv6_probes a) (0, None)
                     | Some (In4 a) \<Rightarrow>
                         Option.bind (ipv4_probes a) (\<lambda>hs. scan (ipv4_test a) hs (0, None)));
          by_name = (case name of
                       None \<Rightarrow> by_addr
                     | Some n \<Rightarrow> Option.bind by_addr (scan (host_test n) (host_probes n)))
      in map_option snd by_name)"

definition find_address_conf ::
  "(string \<Rightarrow> string \<Rightarrow> string) \<Rightarrow> string option \<Rightarrow> string option \<Rightarrow> irc_addr option \<Rightarrow> string option \<Rightarrow>
     conf_table \<Rightarrow> ptr option option" where
  "find_address_conf crypt host user ip password s =
     (let srch = (\<lambda>ty pw. find_conf_by_address crypt host ip ty user pw s);
          flag = (\<lambda>p f. map_option (\<lambda>a. ai_flags a AND f \<noteq> 0) (items s p))
      in case srch CONF_CLIENT password of
           None \<Rightarrow> None
         | Some None \<Rightarrow> Some None
         | Some (Some iconf) \<Rightarrow>
             (case flag iconf CONF_FLAGS_EXEMPTKLINE of
                None \<Rightarrow> None
              | Some True \<Rightarrow> Some (Some iconf)
              | Some False \<Rightarrow>
                  (case srch CONF_KILL None of
                     None \<Rightarrow> None
                   | Some (Some kconf) \<Rightarrow> Some (Some kconf)
                   | Some None \<Rightarrow>
                       (case srch CONF_GLINE None of
                          None \<Rightarrow> None
                        | Some None \<Rightarrow> Some (Some iconf)
                        | Some (Some kconf) \<Rightarrow>
                            map_option (\<lambda>e. Some (if \<not> e then kconf else iconf))
                              (flag iconf CONF_FLAGS_EXEMPTGLINE)))))"

definition find_exempt_first ::
  "(u32 \<Rightarrow> ptr option option) \<Rightarrow> u32 \<Rightarrow> u32 \<Rightarrow> ptr option option" where
  "find_exempt_first srch exempt ban =
     (case srch exempt of
        None \<Rightarrow> None
      | Some (Some eline) \<Rightarrow> Some (Some eline)
      | Some None \<Rightarrow> srch ban)"

definition find_gline_conf ::
  "(string \<Rightarrow> string \<Rightarrow> string) \<Rightarrow> string option \<Rightarrow> string option \<Rightarrow> irc_addr option \<Rightarrow> conf_table \<Rightarrow> ptr option option" where
  "find_gline_conf crypt host user ip s =
     find_exempt_first (\<lambda>ty. find_conf_by_address crypt host ip ty user None s) CONF_EXEMPTKLINE CONF_GLINE"

definition find_kline_conf ::
  "(string \<Rightarrow> string \<Rightarrow> string) \<Rightarrow> string option \<Rightarrow> string option \<Rightarrow> irc_addr option \<Rightarrow> conf_table \<Rightarrow> ptr option option" where
  "find_kline_conf crypt host user ip s =
     find_exempt_first (\<lambda>ty. find_conf_by_address crypt host ip ty user None s) CONF_EXEMPTKLINE CONF_KILL"

definition find_dline_conf ::
  "(string \<Rightarrow> string \<Rightarrow> string) \<Rightarrow> irc_addr option \<Rightarrow> conf_table \<Rightarrow> ptr option option" where
  "find_dline_conf crypt addr s =
     find_exempt_first (\<lambda>ty. find_conf_by_address crypt None addr ty None None s)
       (CONF_EXEMPTDLINE OR 1) (CONF_DLINE OR 1)"

subsection \<open>Adding and deleting\<close>

text \<open>The bucket of a mask; \<open>masktype\<close> and \<open>bits\<close> as \<open>parse_netmask\<close> gives them.\<close>

definition mask_of :: "string \<Rightarrow> host_mask option" where
  "mask_of address =
     map_option (\<lambda>m. case m of
        HM_HOST \<Rightarrow> Host_mask address | HM_IPV4 a b \<Rightarrow> Ip4_mask a b | HM_IPV6 a b \<Rightarrow> Ip6_mask a b)
       (parse_netmask address)"

definition mask_bucket :: "host_mask \<Rightarrow> nat option" where
  "mask_bucket m =
     (case m of
        Ip6_mask a bits \<Rightarrow> Some (hash_ipv6 a (bits - bits smod 16))
      | Ip4_mask a bits \<Rightarrow> hash_ipv4 a (bits - bits smod 8)
      | Host_mask h \<Rightarrow> Some (get_mask_hash h))"

definition no_match :: string where "no_match = ''/NOMATCH!/''"

definition add_conf_by_address :: "u32 \<Rightarrow> ptr \<Rightarrow> conf_table \<Rightarrow> conf_table option" where
  "add_conf_by_address ty p s =
     Option.bind (items s p) (\<lambda>aconf.
       let address = (case ai_host aconf of None \<Rightarrow> no_match | Some h \<Rightarrow> if h = [] then no_match else h)
       in Option.bind (mask_of address) (\<lambda>m.
          Option.bind (mask_bucket m) (\<lambda>hv.
            let arec = \<lparr>ar_mask = m, ar_type = ty, precedence = prec_value s,
                        ar_user = ai_user aconf, ar_aconf = p\<rparr>
            in Some (s\<lparr>atable := (atable s)(hv := arec # atable s hv),
                       prec_value := prec_value s - 1\<rparr>))))"

text \<open>Setting an item illegal, and freeing it when no client uses it. \<open>free_access_item\<close> takes the
  item apart; the model only forgets it.\<close>

definition retire :: "ptr \<Rightarrow> conf_table \<Rightarrow> conf_table option" where
  "retire p s =
     map_option (\<lambda>aconf.
        let aconf = aconf\<lparr>ai_status := ai_status aconf OR CONF_ILLEGAL\<rparr>
        in s\<lparr>items := (items s)(p := if ai_clients aconf = 0 then None else Some aconf)\<rparr>)
       (items s p)"

definition delete_one_address_conf :: "string \<Rightarrow> ptr \<Rightarrow> conf_table \<Rightarrow> conf_table option" where
  "delete_one_address_conf address p s =
     Option.bind (Option.bind (mask_of address) mask_bucket) (\<lambda>hv.
       case List.extract (\<lambda>a. ar_aconf a = p) (atable s hv) of
         None \<Rightarrow> Some s
       | Some (before_recs, arec, after_recs) \<Rightarrow>
           retire p (s\<lparr>atable := (atable s)(hv := before_recs @ after_recs)\<rparr>))"

text \<open>One chain of \<open>clear_out_address_conf\<close>: temporary entries stay.\<close>

fun clear_chain :: "address_rec list \<Rightarrow> conf_table \<Rightarrow> (address_rec list \<times> conf_table) option" where
  "clear_chain [] s = Some ([], s)"
| "clear_chain (a # as) s =
     (case items s (ar_aconf a) of
        None \<Rightarrow> None
      | Some aconf \<Rightarrow>
          if ai_flags aconf AND CONF_FLAGS_TEMPORARY \<noteq> 0
          then map_option (\<lambda>(r, s). (a # r, s)) (clear_chain as s)
          else Option.bind (retire (ar_aconf a) s) (clear_chain as))"

fun clear_buckets :: "nat list \<Rightarrow> conf_table \<Rightarrow> conf_table option" where
  "clear_buckets [] s = Some s"
| "clear_buckets (i # is) s =
     (case clear_chain (atable s i) s of
        None \<Rightarrow> None
      | Some (r, s) \<Rightarrow> clear_buckets is (s\<lparr>atable := (atable s)(i := r)\<rparr>))"

definition clear_out_address_conf :: "conf_table \<Rightarrow> conf_table option" where
  "clear_out_address_conf s = clear_buckets [0..<ATABLE_SIZE] s"

subsection \<open>A search finds the best record\<close>

text \<open>\<open>best_of S b\<close>: of the records \<open>S\<close> met so far that match, \<open>b\<close> holds one of highest precedence.\<close>

definition best_of :: "address_rec set \<Rightarrow> search \<Rightarrow> bool" where
  "best_of S b \<longleftrightarrow>
     (if S = {} then b = (0, None)
      else \<exists>r \<in> S. b = (precedence r, Some (ar_aconf r)) \<and> (\<forall>r' \<in> S. precedence r' \<le> precedence r))"

lemma best_of_empty [simp]: "best_of {} b \<longleftrightarrow> b = (0, None)"
  by (simp add: best_of_def)

lemma best_of_better:
  assumes "best_of S (hp, hr)" "hp < precedence r"
  shows "best_of (insert r S) (precedence r, Some (ar_aconf r))"
  using assms by (auto simp: best_of_def split: if_splits)

lemma best_of_worse:
  assumes "best_of S (hp, hr)" "precedence r \<le> hp" "0 < precedence r"
  shows "best_of (insert r S) (hp, hr)"
proof (cases "S = {}")
  case False
  with assms show ?thesis by (auto simp: best_of_def)
qed (use assms in auto)

definition hits :: "(address_rec \<Rightarrow> bool option) \<Rightarrow> u32 \<Rightarrow> address_rec \<Rightarrow> bool" where
  "hits test ty r \<longleftrightarrow> ar_type r = ty AND NOT 1 \<and> test r = Some True"

lemma scan_chain_best:
  assumes "best_of S b" "\<forall>r \<in> set rs. 0 < precedence r \<and> (ar_type r = ty AND NOT 1 \<longrightarrow> test r \<noteq> None)"
  shows "\<exists>b'. scan_chain test ty rs b = Some b' \<and> best_of (S \<union> {r \<in> set rs. hits test ty r}) b'"
  using assms
proof (induction rs arbitrary: S b)
  case (Cons r rs)
  obtain hp hr where b: "b = (hp, hr)" by (cases b)
  define T where "T = (if hits test ty r then insert r S else S)"
  have "\<exists>b1. scan_chain test ty (r # rs) b = scan_chain test ty rs b1 \<and> best_of T b1"
  proof (cases "ar_type r = ty AND NOT 1 \<and> hp < precedence r")
    case True
    then obtain x where "test r = Some x" using Cons.prems(2) by auto
    then show ?thesis using True Cons.prems(1) best_of_better[of S hp hr r]
      by (cases x) (auto simp: b T_def hits_def)
  next
    case False
    moreover have "best_of T b"
    proof (cases "hits test ty r")
      case True
      then have "precedence r \<le> hp" using False by (auto simp: hits_def)
      then show ?thesis using best_of_worse[of S hp hr r] Cons.prems True by (auto simp: b T_def)
    qed (use Cons.prems(1) in \<open>simp add: T_def\<close>)
    ultimately show ?thesis by (auto simp: b c_and_def)
  qed
  then obtain b1 where b1: "scan_chain test ty (r # rs) b = scan_chain test ty rs b1" "best_of T b1" by blast
  have "T \<union> {x \<in> set rs. hits test ty x} = S \<union> {x \<in> set (r # rs). hits test ty x}" by (auto simp: T_def)
  then show ?case using Cons.IH[OF b1(2)] Cons.prems(2) b1(1) by auto
qed simp

lemma scan_buckets_best:
  assumes "best_of S b"
    "\<forall>h \<in> set hs. \<forall>r \<in> set (tab h). 0 < precedence r \<and> (ar_type r = ty AND NOT 1 \<longrightarrow> test r \<noteq> None)"
  shows "\<exists>b'. scan_buckets test ty tab hs b = Some b' \<and>
    best_of (S \<union> {r. \<exists>h \<in> set hs. r \<in> set (tab h) \<and> hits test ty r}) b'"
  using assms
proof (induction hs arbitrary: S b)
  case (Cons h hs)
  have pre: "\<forall>r \<in> set (tab h). 0 < precedence r \<and> (ar_type r = ty AND NOT 1 \<longrightarrow> test r \<noteq> None)"
    "\<forall>h \<in> set hs. \<forall>r \<in> set (tab h). 0 < precedence r \<and> (ar_type r = ty AND NOT 1 \<longrightarrow> test r \<noteq> None)"
    using Cons.prems(2) by (meson list.set_intros)+
  obtain b1 where b1: "scan_chain test ty (tab h) b = Some b1" "best_of (S \<union> {r \<in> set (tab h). hits test ty r}) b1"
    using scan_chain_best[OF Cons.prems(1) pre(1)] by blast
  obtain b2 where "scan_buckets test ty tab hs b1 = Some b2" "best_of (S \<union> {r \<in> set (tab h). hits test ty r} \<union>
      {r. \<exists>h \<in> set hs. r \<in> set (tab h) \<and> hits test ty r}) b2"
    using Cons.IH[OF b1(2) pre(2)] by blast
  moreover have "S \<union> {r \<in> set (tab h). hits test ty r} \<union> {r. \<exists>k \<in> set hs. r \<in> set (tab k) \<and> hits test ty r} =
      S \<union> {r. \<exists>k \<in> set (h # hs). r \<in> set (tab k) \<and> hits test ty r}" by auto
  ultimately show ?case using b1(1) by simp
qed simp

text \<open>In a list whose precedences fall, a record of highest precedence is the first one.\<close>

lemma best_of_first:
  assumes "sorted_wrt (\<lambda>a b. precedence b < precedence a) recs" "best_of {r \<in> set recs. P r} b"
  shows "snd b = map_option ar_aconf (List.find P recs)"
proof (cases "List.find P recs")
  case None
  then have e: "{r \<in> set recs. P r} = {}" by (auto simp: find_None_iff)
  from assms(2) None show ?thesis unfolding e by simp
next
  case (Some r)
  then obtain i where i: "i < length recs" "P r" "r = recs ! i" "\<forall>j < i. \<not> P (recs ! j)"
    by (auto simp: find_Some_iff)
  then have "r \<in> {r \<in> set recs. P r}" by auto
  then obtain r' where r': "r' \<in> set recs" "P r'" "b = (precedence r', Some (ar_aconf r'))"
      "precedence r \<le> precedence r'"
    using assms(2) by (fastforce simp: best_of_def split: if_splits)
  then obtain k where k: "k < length recs" "r' = recs ! k" by (auto simp: in_set_conv_nth)
  have "\<not> k < i" using i(4) r'(2) k(2) by auto
  moreover have "\<not> i < k"
    using sorted_wrt_nth_less[OF assms(1), of i k] k r'(4) i(3) by auto
  ultimately show ?thesis using r'(3) k i Some by (simp add: nat_neq_iff)
qed

subsection \<open>The table and the interface of the searches\<close>

definition mask_ok :: "host_mask \<Rightarrow> bool" where
  "mask_ok m =
     (case m of
        Host_mask h \<Rightarrow> CHR ''#'' \<notin> set h
      | Ip4_mask a bits \<Rightarrow> v4_masked a bits \<and> 0 < bits \<and> bits \<le> 32
      | Ip6_mask a bits \<Rightarrow> length a = 16 \<and> 0 \<le> bits \<and> bits \<le> 128)"

definition table_ok :: "conf_table \<Rightarrow> address_rec list \<Rightarrow> bool" where
  "table_ok s recs \<longleftrightarrow>
     (\<forall>h. atable s h = filter (\<lambda>r. mask_bucket (ar_mask r) = Some h) (rev recs)) \<and>
     sorted_wrt (\<lambda>a b. precedence b < precedence a) recs \<and>
     (\<forall>r \<in> set recs. prec_value s < precedence r \<and> mask_ok (ar_mask r) \<and> items s (ar_aconf r) \<noteq> None)"

lemma table_ok_prec: "table_ok s recs \<Longrightarrow> r \<in> set recs \<Longrightarrow> 0 < precedence r"
  using le_less_trans[OF word_zero_le] by (auto simp: table_ok_def)

locale bucket_search =
  fixes addr_test :: "'k \<Rightarrow> host_mask \<Rightarrow> bool option" and probes :: "'k \<Rightarrow> nat list"
    and key_ok :: "'k \<Rightarrow> bool"
  assumes test_defined: "key_ok k \<Longrightarrow> mask_ok m \<Longrightarrow> addr_test k m \<noteq> None"
    and probed: "key_ok k \<Longrightarrow> mask_ok m \<Longrightarrow> addr_test k m = Some True \<Longrightarrow>
      \<exists>h \<in> set (probes k). mask_bucket m = Some h"
begin

lemma search_best:
  fixes crypt :: "string \<Rightarrow> string \<Rightarrow> string" and username password :: string
  assumes "table_ok s recs" "key_ok k" "best_of S b"
    and user: "ty AND 1 \<noteq> 0 \<or> (\<forall>r \<in> set recs. ar_type r = ty AND NOT 1 \<longrightarrow> ar_user r \<noteq> None)"
  defines "test \<equiv> record_test crypt (items s) (addr_test k) ty username password"
  shows "\<exists>b'. scan_buckets test ty (atable s) (probes k) b = Some b' \<and>
    best_of (S \<union> {r \<in> set recs. hits test ty r}) b'"
proof -
  have mem: "r \<in> set (atable s h) \<longleftrightarrow> r \<in> set recs \<and> mask_bucket (ar_mask r) = Some h" for r h
    using assms(1) by (simp add: table_ok_def)
  have def: "test r \<noteq> None" if r: "r \<in> set recs" "ar_type r = ty AND NOT 1" for r
  proof -
    obtain x where "addr_test k (ar_mask r) = Some x"
      using test_defined[OF assms(2)] assms(1) r(1) by (fastforce simp: table_ok_def)
    moreover have "user_test ty username (ar_user r) \<noteq> None"
      using user r by (cases "ty AND 1 = 0") (auto simp: user_test_def match_glob)
    moreover have "password_test crypt (items s) password (ar_aconf r) \<noteq> None"
      using assms(1) r(1) by (auto simp: table_ok_def password_test_def)
    ultimately show ?thesis by (auto simp: test_def record_test_def c_and_def split: option.splits)
  qed
  have hit: "\<exists>h \<in> set (probes k). mask_bucket (ar_mask r) = Some h" if "r \<in> set recs" "hits test ty r" for r
  proof (rule probed[OF assms(2)])
    show "mask_ok (ar_mask r)" using assms(1) that(1) by (simp add: table_ok_def)
    show "addr_test k (ar_mask r) = Some True"
      using that(2) by (auto simp: hits_def test_def record_test_def c_and_def split: option.splits if_splits)
  qed
  have "{r. \<exists>h \<in> set (probes k). r \<in> set (atable s h) \<and> hits test ty r} = {r \<in> set recs. hits test ty r}"
    using hit by (auto simp: mem)
  then show ?thesis
    using scan_buckets_best[OF assms(3), of "probes k" "atable s" ty test] table_ok_prec[OF assms(1)] def
    by (auto simp: mem)
qed

end

text \<open>The three families of masks.\<close>

lemma ipv4_probes_Some: "ipv4_probes a = Some (map (\<lambda>b. the (hash_ipv4 a b)) [32, 24, 16, 8, 0])"
  by (simp add: ipv4_probes_def hash_ipv4_def v4_bitmask_def)

lemma hash_ipv4_defined: "0 \<le> b \<Longrightarrow> b \<le> 32 \<Longrightarrow> \<exists>h. hash_ipv4 a b = Some h"
  by (simp add: hash_ipv4_def v4_bitmask_def)

lemma round_down_8: "0 < b \<Longrightarrow> b \<le> 32 \<Longrightarrow> b - b mod 8 \<in> {32, 24, 16, 8, 0}" for b :: int
proof -
  assume b: "0 < b" "b \<le> 32"
  then have "b div 8 \<in> {0..4}" using zdiv_mono1[OF b(2), of 8] by (simp add: pos_imp_zdiv_nonneg_iff)
  moreover have "b - b mod 8 = 8 * (b div 8)" by (simp add: minus_mod_eq_mult_div)
  ultimately show ?thesis by auto
qed

lemma round_down_16: "0 \<le> b \<Longrightarrow> b \<le> 128 \<Longrightarrow> b - b mod 16 \<in> {128, 112, 96, 80, 64, 48, 32, 16, 0}" for b :: int
proof -
  assume b: "0 \<le> b" "b \<le> 128"
  then have "b div 16 \<in> {0..8}" using zdiv_mono1[OF b(2), of 16] by (simp add: pos_imp_zdiv_nonneg_iff)
  moreover have "b - b mod 16 = 16 * (b div 16)" by (simp add: minus_mod_eq_mult_div)
  ultimately show ?thesis by auto
qed

lemma smod_nonneg: "0 \<le> b \<Longrightarrow> 0 < n \<Longrightarrow> b smod n = b mod n" for b n :: int
  by (cases "b = 0") (simp_all add: signed_modulo_int_def)

interpretation v4: bucket_search ipv4_test "\<lambda>a. the (ipv4_probes a)" "\<lambda>_. True"
proof
  show "ipv4_test k m \<noteq> None" if "mask_ok m" for k m
    using that by (auto simp: ipv4_test_def mask_ok_def match_ipv4_iff split: host_mask.splits)
  show "\<exists>h \<in> set (the (ipv4_probes k)). mask_bucket m = Some h"
    if ok: "mask_ok m" "ipv4_test k m = Some True" for k m
  proof (cases m)
    case (Ip4_mask a b)
    then have b: "0 < b" "b \<le> 32" "match_ipv4 k a b = Some True" using ok by (auto simp: mask_ok_def ipv4_test_def)
    define low where "low = b - b mod 8"
    have low: "low \<in> {32, 24, 16, 8, 0}" "0 \<le> low" "low \<le> b" using round_down_8[OF b(1,2)] by (auto simp: low_def)
    have "mask_bucket m = hash_ipv4 k low"
      using match_ipv4_hash[OF b(3) low(2,3)] b(1) Ip4_mask by (simp add: mask_bucket_def smod_nonneg low_def)
    moreover obtain h where "hash_ipv4 k low = Some h" using hash_ipv4_defined low b by fastforce
    ultimately show ?thesis using low(1) by (auto simp: ipv4_probes_Some)
  qed (use ok in \<open>auto simp: ipv4_test_def\<close>)
qed

lemma match_ipv6_None: "match_ipv6 a b bits = None \<longleftrightarrow> bits < 0 \<or> 128 < bits"
  by (auto simp: match_ipv6_def Let_def simp del: not_None_eq split: if_splits)

interpretation v6: bucket_search ipv6_test ipv6_probes "\<lambda>a. length a = 16"
proof
  show "ipv6_test k m \<noteq> None" if "mask_ok m" for k m
    using that by (cases m) (simp_all add: ipv6_test_def mask_ok_def match_ipv6_None)
  show "\<exists>h \<in> set (ipv6_probes k). mask_bucket m = Some h"
    if ok: "length k = 16" "mask_ok m" "ipv6_test k m = Some True" for k m
  proof (cases m)
    case (Ip6_mask a b)
    then have b: "0 \<le> b" "b \<le> 128" "length a = 16" "match_ipv6 k a b = Some True"
      using ok by (auto simp: mask_ok_def ipv6_test_def)
    have "mask_bucket m = Some (hash_ipv6 k (b - b mod 16))"
      using match_ipv6_hash[OF b(4) ok(1) b(3)] b(1) Ip6_mask by (simp add: mask_bucket_def smod_nonneg)
    moreover have "hash_ipv6 k (b - b mod 16) \<in> set (ipv6_probes k)"
      unfolding ipv6_probes_def set_map by (rule imageI) (use round_down_16[OF b(1,2)] in simp)
    ultimately show ?thesis by blast
  qed (use ok in \<open>auto simp: ipv6_test_def\<close>)
qed

interpretation host: bucket_search host_test host_probes "\<lambda>_. True"
proof
  show "host_test k m \<noteq> None" if "mask_ok m" for k m
    by (auto simp: host_test_def match_glob split: host_mask.splits)
  show "\<exists>h \<in> set (host_probes k). mask_bucket m = Some h"
    if "mask_ok m" "host_test k m = Some True" for k m
    using that by (auto simp: host_test_def mask_ok_def mask_bucket_def match_glob mask_hash_probed
      split: host_mask.splits)
qed

subsection \<open>A search finds the oldest record that matches\<close>

text \<open>The condition of a record, with what the code relies on evaluated: the mask accepts the
  address or the host name, the user mask the user name, and the password fits.\<close>

definition addr_hit :: "string option \<Rightarrow> irc_addr option \<Rightarrow> host_mask \<Rightarrow> bool" where
  "addr_hit name addr m \<longleftrightarrow>
     (case m of
        Host_mask h \<Rightarrow> (case name of None \<Rightarrow> False | Some n \<Rightarrow> glob h n)
      | Ip4_mask a bits \<Rightarrow> (case addr of Some (In4 x) \<Rightarrow> match_ipv4 x a bits = Some True | _ \<Rightarrow> False)
      | Ip6_mask a bits \<Rightarrow> (case addr of Some (In6 x) \<Rightarrow> match_ipv6 x a bits = Some True | _ \<Rightarrow> False))"

definition applies ::
  "(string \<Rightarrow> string \<Rightarrow> string) \<Rightarrow> (ptr \<Rightarrow> access_item option) \<Rightarrow> string option \<Rightarrow> irc_addr option \<Rightarrow> u32 \<Rightarrow>
     string option \<Rightarrow> string option \<Rightarrow> address_rec \<Rightarrow> bool" where
  "applies crypt it name addr ty username password r \<longleftrightarrow>
     ar_type r = ty AND NOT 1 \<and> addr_hit name addr (ar_mask r) \<and>
     user_test ty (case username of None \<Rightarrow> [] | Some u \<Rightarrow> u) (ar_user r) = Some True \<and>
     password_test crypt it (case password of None \<Rightarrow> [] | Some p \<Rightarrow> p) (ar_aconf r) = Some True"

definition in6_ok :: "irc_addr option \<Rightarrow> bool" where
  "in6_ok addr \<longleftrightarrow> (\<forall>a. addr = Some (In6 a) \<longrightarrow> length a = 16)"

lemma c_and_True: "c_and a b = Some True \<longleftrightarrow> a = Some True \<and> b = Some True"
  by (auto simp: c_and_def split: option.splits)

lemma find_conf_first:
  assumes "table_ok s recs" "in6_ok addr"
    "ty AND 1 \<noteq> 0 \<or> (\<forall>r \<in> set recs. ar_type r = ty AND NOT 1 \<longrightarrow> ar_user r \<noteq> None)"
  shows "find_conf_by_address crypt name addr ty username password s =
    Some (map_option ar_aconf (List.find (applies crypt (items s) name addr ty username password) recs))"
proof -
  define us pw where "us = (case username of None \<Rightarrow> [] | Some u \<Rightarrow> u)"
    and "pw = (case password of None \<Rightarrow> [] | Some p \<Rightarrow> p)"
  define test where "test = (\<lambda>addr_test. record_test crypt (items s) addr_test ty us pw)"
  define H where "H = (\<lambda>addr_test. {r \<in> set recs. hits (test addr_test) ty r})"
  define by_addr where "by_addr = (case addr of
      None \<Rightarrow> Some (0, None)
    | Some (In6 a) \<Rightarrow> scan_buckets (test (ipv6_test a)) ty (atable s) (ipv6_probes a) (0, None)
    | Some (In4 a) \<Rightarrow> Option.bind (ipv4_probes a) (\<lambda>hs. scan_buckets (test (ipv4_test a)) ty (atable s) hs (0, None)))"
  define HA where "HA = (case addr of None \<Rightarrow> {} | Some (In6 a) \<Rightarrow> H (ipv6_test a) | Some (In4 a) \<Rightarrow> H (ipv4_test a))"
  have start: "best_of {} (0, None)" by simp
  obtain b1 where b1: "by_addr = Some b1" "best_of HA b1"
  proof (cases addr)
    case None
    then show ?thesis using that start by (simp add: by_addr_def HA_def)
  next
    case (Some x)
    show ?thesis
    proof (cases x)
      case (In4 a)
      then show ?thesis using that Some v4.search_best[OF assms(1) TrueI start assms(3), of crypt a us pw]
        by (auto simp: by_addr_def HA_def H_def test_def ipv4_probes_Some)
    next
      case (In6 a)
      then have "length a = 16" using assms(2) Some by (simp add: in6_ok_def)
      then show ?thesis using that Some In6 v6.search_best[OF assms(1) _ start assms(3), of a crypt us pw]
        by (auto simp: by_addr_def HA_def H_def test_def)
    qed
  qed
  define HN where "HN = (case name of None \<Rightarrow> {} | Some n \<Rightarrow> H (host_test n))"
  obtain b2 where b2: "(case name of None \<Rightarrow> by_addr | Some n \<Rightarrow>
      Option.bind by_addr (scan_buckets (test (host_test n)) ty (atable s) (host_probes n))) = Some b2"
    "best_of (HA \<union> HN) b2"
  proof (cases name)
    case None
    then show ?thesis using that b1 by (simp add: HN_def)
  next
    case (Some n)
    then show ?thesis using that b1 host.search_best[OF assms(1) TrueI b1(2) assms(3), of crypt n us pw]
      by (auto simp: HN_def H_def test_def)
  qed
  have hit: "hits (test f) ty r \<longleftrightarrow> ar_type r = ty AND NOT 1 \<and> f (ar_mask r) = Some True \<and>
      user_test ty us (ar_user r) = Some True \<and> password_test crypt (items s) pw (ar_aconf r) = Some True" for f r
    by (auto simp: hits_def test_def record_test_def c_and_True)
  have "HA \<union> HN = {r \<in> set recs. applies crypt (items s) name addr ty username password r}"
    by (auto simp: HA_def HN_def H_def hit applies_def addr_hit_def us_def[symmetric] pw_def[symmetric]
        ipv4_test_def ipv6_test_def host_test_def match_glob split: option.splits irc_addr.splits host_mask.splits)
  then have "snd b2 = map_option ar_aconf (List.find (applies crypt (items s) name addr ty username password) recs)"
    using best_of_first b2(2) assms(1) by (simp add: table_ok_def)
  moreover have "find_conf_by_address crypt name addr ty username password s = map_option snd (Some b2)"
    unfolding b2(1)[symmetric] find_conf_by_address_def Let_def by_addr_def test_def us_def pw_def by (rule refl)
  ultimately show ?thesis by simp
qed

subsection \<open>Adding, deleting and clearing keep the table\<close>

lemma pred_less: "w \<noteq> 0 \<Longrightarrow> w - 1 < w" for w :: u64
  by (simp add: word_less_nat_alt unat_minus_one unat_gt_0)

lemma ATABLE_SIZE_pos [simp]: "0 < ATABLE_SIZE"
  by (simp add: ATABLE_SIZE_def)

lemma and_mask_less [simp]: "unat (w AND of_nat (ATABLE_SIZE - Suc 0)) < ATABLE_SIZE" for w :: "'a::len word"
proof -
  have "unat (w AND of_nat (ATABLE_SIZE - Suc 0)) \<le> unat (of_nat (ATABLE_SIZE - Suc 0) :: 'a word)"
    by (simp add: word_and_le1 flip: word_le_nat_alt)
  also have "\<dots> \<le> ATABLE_SIZE - Suc 0" by (simp add: unat_of_nat)
  finally show ?thesis by (simp add: ATABLE_SIZE_def)
qed

lemma mask_bucket_less: "mask_bucket m = Some h \<Longrightarrow> h < ATABLE_SIZE"
  by (auto simp: mask_bucket_def hash_ipv4_def hash_ipv6_def get_mask_hash_def hash_text_def Let_def
      split: host_mask.splits if_splits option.splits)

lemma mask_bucket_defined: "mask_ok m \<Longrightarrow> \<exists>h. mask_bucket m = Some h"
proof (cases m)
  case (Ip4_mask a b)
  assume "mask_ok m"
  then have "0 < b" "b \<le> 32" using Ip4_mask by (auto simp: mask_ok_def)
  then show ?thesis using round_down_8[of b] by (auto simp: Ip4_mask mask_bucket_def smod_nonneg intro!: hash_ipv4_defined)
qed (simp_all add: mask_bucket_def)

lemma add_conf_ok:
  assumes "table_ok s recs" "items s p = Some a" "ai_host a = Some h" "h \<noteq> []"
    "mask_of h = Some m" "mask_ok m" "prec_value s \<noteq> 0"
  shows "\<exists>s'. add_conf_by_address ty p s = Some s' \<and> items s' = items s \<and> prec_value s' = prec_value s - 1 \<and>
    table_ok s' (recs @ [\<lparr>ar_mask = m, ar_type = ty, precedence = prec_value s, ar_user = ai_user a, ar_aconf = p\<rparr>])"
proof -
  obtain hv where hv: "mask_bucket m = Some hv" using mask_bucket_defined[OF assms(6)] by blast
  have lt: "prec_value s - 1 < prec_value s" using assms(7) by (rule pred_less)
  show ?thesis using assms lt
    by (auto simp: add_conf_by_address_def hv table_ok_def sorted_wrt_append intro: less_trans)
qed

definition retired :: "access_item option \<Rightarrow> access_item option" where
  "retired a = (case a of
     None \<Rightarrow> None
   | Some a \<Rightarrow> if ai_clients a = 0 then None else Some (a\<lparr>ai_status := ai_status a OR CONF_ILLEGAL\<rparr>))"

lemma retire_eq: "items s p \<noteq> None \<Longrightarrow> retire p s = Some (s\<lparr>items := (items s)(p := retired (items s p))\<rparr>)"
  by (auto simp: retire_def retired_def Let_def)

lemma table_ok_subset:
  assumes "table_ok s recs" "\<forall>h. atable s' h = filter P (atable s h)" "prec_value s' = prec_value s"
    "\<forall>r \<in> set recs. P r \<longrightarrow> items s' (ar_aconf r) \<noteq> None"
  shows "table_ok s' (filter P recs)"
  using assms by (auto simp: table_ok_def sorted_wrt_filter rev_filter filter_filter conj_commute)

lemma filter_extract:
  assumes "List.extract P xs = Some (ys, y, zs)" "distinct (map f xs)" "\<And>x. P x \<longleftrightarrow> f x = v"
  shows "ys @ zs = filter (\<lambda>x. f x \<noteq> v) xs" "y \<in> set xs" "f y = v"
proof -
  have x: "xs = ys @ y # zs" "P y" using assms(1) by (auto simp: extract_Some_iff)
  then show "y \<in> set xs" "f y = v" using assms(3) by auto
  have "\<forall>x \<in> set ys \<union> set zs. f x \<noteq> f y" using assms(2) unfolding x(1)
    by (auto simp: image_iff)
  then show "ys @ zs = filter (\<lambda>x. f x \<noteq> v) xs" unfolding x(1) using \<open>f y = v\<close>
    by (metis (mono_tags, lifting) Un_iff filter.simps(2) filter_True filter_append)
qed

lemma delete_conf_ok:
  assumes "table_ok s recs" "distinct (map ar_aconf recs)" "r \<in> set recs" "ar_aconf r = p"
    "mask_of address = Some (ar_mask r)"
  shows "\<exists>s'. delete_one_address_conf address p s = Some s' \<and> prec_value s' = prec_value s \<and>
    items s' = (items s)(p := retired (items s p)) \<and> table_ok s' (filter (\<lambda>x. ar_aconf x \<noteq> p) recs)"
proof -
  have ok: "mask_ok (ar_mask r)" "items s p \<noteq> None" using assms(1,3,4) by (auto simp: table_ok_def)
  obtain hv where hv: "mask_bucket (ar_mask r) = Some hv" using mask_bucket_defined[OF ok(1)] by blast
  have tab: "atable s h = filter (\<lambda>r. mask_bucket (ar_mask r) = Some h) (rev recs)" for h
    using assms(1) by (simp add: table_ok_def)
  have d: "distinct (map ar_aconf (atable s h))" for h
    unfolding tab using assms(2) by (simp add: distinct_map inj_on_def)
  have "r \<in> set (atable s hv)" using assms(3) hv by (simp add: tab)
  then obtain ys y zs where e: "List.extract (\<lambda>a. ar_aconf a = p) (atable s hv) = Some (ys, y, zs)"
    using assms(4) by (cases "List.extract (\<lambda>a. ar_aconf a = p) (atable s hv)") (auto simp: extract_None_iff)
  have ex: "ys @ zs = filter (\<lambda>x. ar_aconf x \<noteq> p) (atable s hv)" by (rule filter_extract[OF e d]) simp
  have other: "filter (\<lambda>x. ar_aconf x \<noteq> p) (atable s h) = atable s h" if "h \<noteq> hv" for h
  proof (rule filter_True, rule ballI, rule notI)
    fix x assume x: "x \<in> set (atable s h)" "ar_aconf x = p"
    then have "x = r" using assms(2,3,4) by (auto simp: tab distinct_map inj_on_def)
    then show False using x(1) hv that by (simp add: tab)
  qed
  define s1 where "s1 = s\<lparr>atable := (atable s)(hv := ys @ zs), items := (items s)(p := retired (items s p))\<rparr>"
  have "delete_one_address_conf address p s = Some s1"
    using ok(2) by (simp add: delete_one_address_conf_def assms(5) hv e retire_eq s1_def)
  moreover have "table_ok s1 (filter (\<lambda>x. ar_aconf x \<noteq> p) recs)"
  proof (rule table_ok_subset[OF assms(1)])
    show "\<forall>h. atable s1 h = filter (\<lambda>x. ar_aconf x \<noteq> p) (atable s h)" using ex other by (auto simp: s1_def)
    show "\<forall>x \<in> set recs. ar_aconf x \<noteq> p \<longrightarrow> items s1 (ar_aconf x) \<noteq> None"
      using assms(1) by (auto simp: s1_def table_ok_def)
  qed (simp add: s1_def)
  ultimately show ?thesis by (auto simp: s1_def)
qed

definition temporary :: "(ptr \<Rightarrow> access_item option) \<Rightarrow> ptr \<Rightarrow> bool" where
  "temporary it p \<longleftrightarrow> ai_flags (the (it p)) AND CONF_FLAGS_TEMPORARY \<noteq> 0"

definition clear_items :: "ptr set \<Rightarrow> (ptr \<Rightarrow> access_item option) \<Rightarrow> ptr \<Rightarrow> access_item option" where
  "clear_items D it p = (if p \<in> D \<and> \<not> temporary it p then retired (it p) else it p)"

lemma clear_chain_eq:
  assumes "distinct (map ar_aconf rs)" "\<forall>r \<in> set rs. items s (ar_aconf r) \<noteq> None"
  shows "clear_chain rs s = Some (filter (\<lambda>r. temporary (items s) (ar_aconf r)) rs,
    s\<lparr>items := clear_items (ar_aconf ` set rs) (items s)\<rparr>)"
  using assms
proof (induction rs arbitrary: s)
  case Nil
  then show ?case by (simp add: clear_items_def)
next
  case (Cons r rs)
  let ?p = "ar_aconf r"
  obtain a where a: "items s ?p = Some a" using Cons.prems(2) by auto
  show ?case
  proof (cases "temporary (items s) ?p")
    case True
    have "clear_items (ar_aconf ` set rs) (items s) = clear_items (insert ?p (ar_aconf ` set rs)) (items s)"
      using True by (auto simp: clear_items_def fun_eq_iff)
    then show ?thesis using Cons a True by (simp add: temporary_def)
  next
    case False
    define s1 where "s1 = s\<lparr>items := (items s)(?p := retired (items s ?p))\<rparr>"
    have ne: "ar_aconf x \<noteq> ?p" if "x \<in> set rs" for x
      using Cons.prems(1) that by (auto simp: image_iff)
    have t: "temporary (items s1) (ar_aconf x) = temporary (items s) (ar_aconf x)" if "x \<in> set rs" for x
      using ne[OF that] by (simp add: s1_def temporary_def)
    have "clear_chain rs s1 = Some (filter (\<lambda>r. temporary (items s1) (ar_aconf r)) rs,
        s1\<lparr>items := clear_items (ar_aconf ` set rs) (items s1)\<rparr>)"
    proof (rule Cons.IH)
      show "\<forall>x \<in> set rs. items s1 (ar_aconf x) \<noteq> None" using Cons.prems(2) ne by (simp add: s1_def)
    qed (use Cons.prems(1) in simp)
    moreover have "filter (\<lambda>r. temporary (items s1) (ar_aconf r)) rs = filter (\<lambda>r. temporary (items s) (ar_aconf r)) rs"
      using t by (intro filter_cong) auto
    moreover have "clear_items (ar_aconf ` set rs) (items s1) = clear_items (insert ?p (ar_aconf ` set rs)) (items s)"
      using Cons.prems(1) False by (auto simp: clear_items_def s1_def fun_eq_iff temporary_def)
    moreover have "clear_chain (r # rs) s = clear_chain rs s1"
      using a False by (simp add: temporary_def retire_eq s1_def)
    ultimately show ?thesis using False by (simp add: s1_def)
  qed
qed

lemma clear_buckets_eq:
  assumes "distinct is" "\<forall>i \<in> set is. distinct (map ar_aconf (atable s i)) \<and> (\<forall>r \<in> set (atable s i). items s (ar_aconf r) \<noteq> None)"
    "\<forall>i \<in> set is. \<forall>j \<in> set is. i \<noteq> j \<longrightarrow> ar_aconf ` set (atable s i) \<inter> ar_aconf ` set (atable s j) = {}"
  shows "clear_buckets is s = Some (s\<lparr>
    atable := \<lambda>i. if i \<in> set is then filter (\<lambda>r. temporary (items s) (ar_aconf r)) (atable s i) else atable s i,
    items := clear_items (\<Union>i \<in> set is. ar_aconf ` set (atable s i)) (items s)\<rparr>)"
  using assms
proof (induction "is" arbitrary: s)
  case Nil
  then show ?case by (simp add: clear_items_def)
next
  case (Cons i "is")
  let ?t = "\<lambda>r. temporary (items s) (ar_aconf r)" and ?D = "ar_aconf ` set (atable s i)"
  define s1 where "s1 = s\<lparr>items := clear_items ?D (items s), atable := (atable s)(i := filter ?t (atable s i))\<rparr>"
  have step: "clear_buckets (i # is) s = clear_buckets is s1"
    using clear_chain_eq[of "atable s i" s] Cons.prems(2) by (simp add: s1_def)
  have old: "items s1 (ar_aconf r) = items s (ar_aconf r)" "atable s1 j = atable s j"
    if "j \<in> set is" "r \<in> set (atable s j)" for j r
  proof -
    have "i \<noteq> j" using that(1) Cons.prems(1) by auto
    then have "?D \<inter> ar_aconf ` set (atable s j) = {}" using Cons.prems(3) that(1) by simp
    then have "ar_aconf r \<notin> ?D" using that(2) by blast
    then show "items s1 (ar_aconf r) = items s (ar_aconf r)" by (simp add: s1_def clear_items_def)
    show "atable s1 j = atable s j" using \<open>i \<noteq> j\<close> by (simp add: s1_def)
  qed
  have tab: "atable s1 j = atable s j" if "j \<in> set is" for j
    using that Cons.prems(1) by (auto simp: s1_def)
  have "clear_buckets is s1 = Some (s1\<lparr>
      atable := \<lambda>i. if i \<in> set is then filter (\<lambda>r. temporary (items s1) (ar_aconf r)) (atable s1 i) else atable s1 i,
      items := clear_items (\<Union>i \<in> set is. ar_aconf ` set (atable s1 i)) (items s1)\<rparr>)"
    using Cons.prems by (intro Cons.IH) (auto simp: tab old(1))
  moreover have "(\<lambda>j. if j \<in> set is then filter (\<lambda>r. temporary (items s1) (ar_aconf r)) (atable s1 j) else atable s1 j) =
      (\<lambda>j. if j \<in> set (i # is) then filter ?t (atable s j) else atable s j)"
    using Cons.prems(1) old(1) by (fastforce simp: tab s1_def temporary_def intro!: filter_cong)
  moreover have "clear_items (\<Union>i \<in> set is. ar_aconf ` set (atable s1 i)) (items s1) =
      clear_items (\<Union>i \<in> set (i # is). ar_aconf ` set (atable s i)) (items s)"
  proof
    fix p
    show "clear_items (\<Union>i \<in> set is. ar_aconf ` set (atable s1 i)) (items s1) p =
        clear_items (\<Union>i \<in> set (i # is). ar_aconf ` set (atable s i)) (items s) p"
    proof (cases "p \<in> (\<Union>i \<in> set is. ar_aconf ` set (atable s i))")
      case True
      then have "items s1 p = items s p" using old(1) by auto
      then show ?thesis using True by (simp add: clear_items_def tab temporary_def)
    next
      case False
      moreover have "i \<notin> set is" using Cons.prems(1) by simp
      ultimately show ?thesis by (simp add: clear_items_def tab s1_def)
    qed
  qed
  ultimately show ?case unfolding step by (simp add: s1_def)
qed

lemma clear_out_ok:
  assumes "table_ok s recs" "distinct (map ar_aconf recs)"
  shows "\<exists>s'. clear_out_address_conf s = Some s' \<and> prec_value s' = prec_value s \<and>
    items s' = clear_items (ar_aconf ` set recs) (items s) \<and>
    table_ok s' (filter (\<lambda>r. temporary (items s) (ar_aconf r)) recs)"
proof -
  let ?t = "\<lambda>r. temporary (items s) (ar_aconf r)"
  have tab: "atable s h = filter (\<lambda>r. mask_bucket (ar_mask r) = Some h) (rev recs)" for h
    using assms(1) by (simp add: table_ok_def)
  have inj: "x = y" if "x \<in> set recs" "y \<in> set recs" "ar_aconf x = ar_aconf y" for x y
    using assms(2) that by (auto simp: distinct_map inj_on_def)
  have all: "(\<Union>i \<in> set [0..<ATABLE_SIZE]. ar_aconf ` set (atable s i)) = ar_aconf ` set recs"
  proof -
    have "\<exists>i < ATABLE_SIZE. r \<in> set (atable s i)" if "r \<in> set recs" for r
    proof -
      have "mask_ok (ar_mask r)" using assms(1) that by (simp add: table_ok_def)
      then obtain h where "mask_bucket (ar_mask r) = Some h" using mask_bucket_defined by blast
      then show ?thesis using mask_bucket_less that by (auto simp: tab)
    qed
    then have "set recs \<subseteq> (\<Union>i \<in> set [0..<ATABLE_SIZE]. set (atable s i))"
      by (auto simp: atLeast0LessThan Bex_def)
    moreover have "set (atable s i) \<subseteq> set recs" for i by (auto simp: tab)
    ultimately have "(\<Union>i \<in> set [0..<ATABLE_SIZE]. set (atable s i)) = set recs" by blast
    then show ?thesis by (simp only: flip: image_UN)
  qed
  define s1 where "s1 = s\<lparr>
    atable := \<lambda>i. if i \<in> set [0..<ATABLE_SIZE] then filter ?t (atable s i) else atable s i,
    items := clear_items (ar_aconf ` set recs) (items s)\<rparr>"
  have "clear_out_address_conf s = Some s1"
    unfolding clear_out_address_conf_def s1_def all[symmetric]
  proof (rule clear_buckets_eq)
    show "\<forall>i \<in> set [0..<ATABLE_SIZE]. distinct (map ar_aconf (atable s i)) \<and>
        (\<forall>r \<in> set (atable s i). items s (ar_aconf r) \<noteq> None)"
      using assms by (auto simp: tab distinct_map inj_on_def table_ok_def)
    show "\<forall>i \<in> set [0..<ATABLE_SIZE]. \<forall>j \<in> set [0..<ATABLE_SIZE].
        i \<noteq> j \<longrightarrow> ar_aconf ` set (atable s i) \<inter> ar_aconf ` set (atable s j) = {}"
    proof (intro ballI impI equals0I)
      fix i j p
      assume "i \<noteq> j" "p \<in> ar_aconf ` set (atable s i) \<inter> ar_aconf ` set (atable s j)"
      then obtain x y where xy: "x \<in> set (atable s i)" "y \<in> set (atable s j)" "ar_aconf x = ar_aconf y" by auto
      then have "x = y" by (intro inj) (simp_all add: tab)
      then show False using xy(1,2) \<open>i \<noteq> j\<close> by (simp add: tab)
    qed
  qed simp
  moreover have "table_ok s1 (filter ?t recs)"
  proof (rule table_ok_subset[OF assms(1)])
    have "atable s h = []" if "ATABLE_SIZE \<le> h" for h
      using that by (auto simp: tab filter_empty_conv dest: mask_bucket_less)
    then show "\<forall>h. atable s1 h = filter ?t (atable s h)" by (auto simp: s1_def not_less)
    show "\<forall>r \<in> set recs. ?t r \<longrightarrow> items s1 (ar_aconf r) \<noteq> None"
      using assms(1) by (auto simp: s1_def clear_items_def table_ok_def)
  qed (simp add: s1_def)
  ultimately show ?thesis by (auto simp: s1_def)
qed

subsection \<open>The table as a list of entries\<close>

text \<open>An entry is its type and its item. \<open>it\<close> gives the items as they were when they were entered:
  while an entry is in the table its host, user, password and flags do not change.\<close>

type_synonym entry = "u32 \<times> ptr"

definition entry_mask :: "(ptr \<Rightarrow> access_item) \<Rightarrow> ptr \<Rightarrow> host_mask" where
  "entry_mask it p = the (mask_of (the (ai_host (it p))))"

definition usable :: "(ptr \<Rightarrow> access_item) \<Rightarrow> ptr \<Rightarrow> bool" where
  "usable it p \<longleftrightarrow> (\<exists>h m. ai_host (it p) = Some h \<and> h \<noteq> [] \<and> mask_of h = Some m \<and> mask_ok m)"

definition same_item :: "access_item \<Rightarrow> access_item \<Rightarrow> bool" where
  "same_item a b \<longleftrightarrow> ai_host a = ai_host b \<and> ai_user a = ai_user b \<and> ai_passwd a = ai_passwd b \<and> ai_flags a = ai_flags b"

definition entry_applies ::
  "(string \<Rightarrow> string \<Rightarrow> string) \<Rightarrow> (ptr \<Rightarrow> access_item) \<Rightarrow> string option \<Rightarrow> irc_addr option \<Rightarrow> u32 \<Rightarrow>
     string option \<Rightarrow> string option \<Rightarrow> entry \<Rightarrow> bool" where
  "entry_applies crypt it name addr ty username password e =
     (case e of (t, p) \<Rightarrow>
        t = ty AND NOT 1 \<and> addr_hit name addr (entry_mask it p) \<and>
        (ty AND 1 \<noteq> 0 \<or> glob (the (ai_user (it p))) (case username of None \<Rightarrow> [] | Some u \<Rightarrow> u)) \<and>
        (ai_flags (it p) AND CONF_FLAGS_NEED_PASSWORD \<noteq> 0 \<or> ai_passwd (it p) = None \<or>
         match_conf_password crypt (Some (case password of None \<Rightarrow> [] | Some w \<Rightarrow> w)) (it p)))"

definition conf_repr :: "(ptr \<Rightarrow> access_item) \<Rightarrow> conf_table \<Rightarrow> entry list \<Rightarrow> bool" where
  "conf_repr it s L \<longleftrightarrow>
     (\<exists>recs. table_ok s recs \<and> L = map (\<lambda>r. (ar_type r, ar_aconf r)) recs \<and> distinct (map ar_aconf recs) \<and>
        (\<forall>r \<in> set recs. usable it (ar_aconf r) \<and> ar_mask r = entry_mask it (ar_aconf r) \<and>
           ar_user r = ai_user (it (ar_aconf r)) \<and>
           (\<exists>a. items s (ar_aconf r) = Some a \<and> same_item a (it (ar_aconf r)))))"

lemma find_map: "List.find P (map f xs) = map_option f (List.find (P \<circ> f) xs)"
  by (induction xs) auto

lemma find_cong_set: "(\<And>x. x \<in> set xs \<Longrightarrow> P x = Q x) \<Longrightarrow> List.find P xs = List.find Q xs"
  by (induction xs) auto

lemma match_conf_password_same: "same_item a b \<Longrightarrow> match_conf_password crypt pw a = match_conf_password crypt pw b"
  by (simp add: match_conf_password_def same_item_def split: option.split)

lemma find_conf_entries:
  assumes "conf_repr it s L" "in6_ok addr"
    "ty AND 1 \<noteq> 0 \<or> (\<forall>(t, p) \<in> set L. t = ty AND NOT 1 \<longrightarrow> ai_user (it p) \<noteq> None)"
  shows "find_conf_by_address crypt name addr ty username password s =
    Some (map_option snd (List.find (entry_applies crypt it name addr ty username password) L))"
proof -
  obtain recs where recs: "table_ok s recs" "L = map (\<lambda>r. (ar_type r, ar_aconf r)) recs"
    "\<forall>r \<in> set recs. usable it (ar_aconf r) \<and> ar_mask r = entry_mask it (ar_aconf r) \<and>
       ar_user r = ai_user (it (ar_aconf r)) \<and> (\<exists>a. items s (ar_aconf r) = Some a \<and> same_item a (it (ar_aconf r)))"
    using assms(1) by (auto simp: conf_repr_def)
  have users: "ty AND 1 \<noteq> 0 \<or> (\<forall>r \<in> set recs. ar_type r = ty AND NOT 1 \<longrightarrow> ar_user r \<noteq> None)"
    using assms(3) recs(2,3) by (auto simp: split_beta)
  have "List.find (applies crypt (items s) name addr ty username password) recs =
      List.find (entry_applies crypt it name addr ty username password \<circ> (\<lambda>r. (ar_type r, ar_aconf r))) recs"
  proof (rule find_cong_set)
    fix r assume r: "r \<in> set recs"
    then obtain a where a: "items s (ar_aconf r) = Some a" "same_item a (it (ar_aconf r))"
      "ar_mask r = entry_mask it (ar_aconf r)" "ar_user r = ai_user (it (ar_aconf r))" using recs(3) by auto
    have u: "ty AND 1 \<noteq> 0 \<or> ar_type r \<noteq> ty AND NOT 1 \<or> (\<exists>u. ai_user (it (ar_aconf r)) = Some u)"
      using users r a(4) by (metis not_None_eq)
    show "applies crypt (items s) name addr ty username password r =
        (entry_applies crypt it name addr ty username password \<circ> (\<lambda>r. (ar_type r, ar_aconf r))) r"
      using u a(2) match_conf_password_same[OF a(2)]
      by (auto simp: applies_def entry_applies_def user_test_def password_test_def a match_glob same_item_def c_or_def)
  qed
  then show ?thesis
    by (simp add: find_conf_first[OF recs(1) assms(2) users] recs(2) find_map option.map_comp comp_def)
qed

text \<open>Operations on the table, and what they are on a list of entries in the order of entering.\<close>

datatype conf_op = Enter_conf u32 ptr | Remove_conf ptr | Clear_conf

fun conf_step :: "(ptr \<Rightarrow> access_item) \<Rightarrow> conf_op \<Rightarrow> conf_table \<Rightarrow> conf_table option" where
  "conf_step it (Enter_conf ty p) s = add_conf_by_address ty p s"
| "conf_step it (Remove_conf p) s = delete_one_address_conf (the (ai_host (it p))) p s"
| "conf_step it Clear_conf s = clear_out_address_conf s"

fun conf_run :: "(ptr \<Rightarrow> access_item) \<Rightarrow> conf_op list \<Rightarrow> conf_table \<Rightarrow> conf_table option" where
  "conf_run it [] s = Some s"
| "conf_run it (x # xs) s = Option.bind (conf_step it x s) (conf_run it xs)"

fun entry_step :: "(ptr \<Rightarrow> access_item) \<Rightarrow> conf_op \<Rightarrow> entry list \<Rightarrow> entry list" where
  "entry_step it (Enter_conf ty p) L = L @ [(ty, p)]"
| "entry_step it (Remove_conf p) L = filter (\<lambda>(t, q). q \<noteq> p) L"
| "entry_step it Clear_conf L = filter (\<lambda>(t, q). ai_flags (it q) AND CONF_FLAGS_TEMPORARY \<noteq> 0) L"

text \<open>Every item is entered once, while it is fresh, and removed only while it is in the table.\<close>

fun conf_proper :: "(ptr \<Rightarrow> access_item) \<Rightarrow> conf_op list \<Rightarrow> ptr set \<Rightarrow> entry list \<Rightarrow> bool" where
  "conf_proper it [] used L = True"
| "conf_proper it (x # xs) used L =
     ((case x of
         Enter_conf ty p \<Rightarrow> p \<notin> used \<and> usable it p
       | Remove_conf p \<Rightarrow> p \<in> snd ` set L
       | Clear_conf \<Rightarrow> True) \<and>
      conf_proper it xs (case x of Enter_conf ty p \<Rightarrow> insert p used | _ \<Rightarrow> used) (entry_step it x L))"

definition fresh_items :: "(ptr \<Rightarrow> access_item) \<Rightarrow> ptr set \<Rightarrow> conf_table \<Rightarrow> bool" where
  "fresh_items it used s \<longleftrightarrow> (\<forall>p. p \<notin> used \<longrightarrow> items s p = Some (it p))"

lemma same_item_refl [simp]: "same_item a a"
  by (simp add: same_item_def)

lemma conf_repr_enter:
  assumes "conf_repr it s L" "fresh_items it used s" "p \<notin> used" "usable it p" "snd ` set L \<subseteq> used" "prec_value s \<noteq> 0"
  shows "\<exists>s'. conf_step it (Enter_conf ty p) s = Some s' \<and> conf_repr it s' (L @ [(ty, p)]) \<and>
    fresh_items it (insert p used) s' \<and> prec_value s' = prec_value s - 1"
proof -
  obtain recs where recs: "table_ok s recs" "L = map (\<lambda>r. (ar_type r, ar_aconf r)) recs" "distinct (map ar_aconf recs)"
    "\<forall>r \<in> set recs. usable it (ar_aconf r) \<and> ar_mask r = entry_mask it (ar_aconf r) \<and>
       ar_user r = ai_user (it (ar_aconf r)) \<and> (\<exists>a. items s (ar_aconf r) = Some a \<and> same_item a (it (ar_aconf r)))"
    using assms(1) by (auto simp: conf_repr_def)
  obtain h m where m: "ai_host (it p) = Some h" "h \<noteq> []" "mask_of h = Some m" "mask_ok m"
    using assms(4) by (auto simp: usable_def)
  have p: "items s p = Some (it p)" using assms(2,3) by (simp add: fresh_items_def)
  define r where "r = \<lparr>ar_mask = m, ar_type = ty, precedence = prec_value s, ar_user = ai_user (it p), ar_aconf = p\<rparr>"
  obtain s' where s': "add_conf_by_address ty p s = Some s'" "items s' = items s" "prec_value s' = prec_value s - 1"
    "table_ok s' (recs @ [r])"
    using add_conf_ok[OF recs(1) p m assms(6)] by (auto simp: r_def)
  have new: "p \<notin> ar_aconf ` set recs" using assms(3,5) recs(2) by force
  have "conf_repr it s' (L @ [(ty, p)])" unfolding conf_repr_def
    using s' recs new assms(4) p m by (intro exI[of _ "recs @ [r]"]) (auto simp: r_def entry_mask_def)
  then show ?thesis using s' assms(2) by (auto simp: fresh_items_def)
qed

lemma table_ok_alive: "table_ok s recs \<Longrightarrow> r \<in> set recs \<Longrightarrow> items s (ar_aconf r) \<noteq> None"
  by (simp add: table_ok_def)

lemma conf_repr_filter:
  assumes "L = map (\<lambda>r. (ar_type r, ar_aconf r)) recs"
    "distinct (map ar_aconf recs)" "table_ok s' (filter (\<lambda>r. P (ar_aconf r)) recs)"
    "\<forall>r \<in> set recs. usable it (ar_aconf r) \<and> ar_mask r = entry_mask it (ar_aconf r) \<and>
       ar_user r = ai_user (it (ar_aconf r)) \<and> (\<exists>a. items s (ar_aconf r) = Some a \<and> same_item a (it (ar_aconf r)))"
    "\<forall>r \<in> set recs. P (ar_aconf r) \<longrightarrow> items s' (ar_aconf r) = items s (ar_aconf r)"
  shows "conf_repr it s' (filter (\<lambda>(t, p). P p) L)"
  unfolding conf_repr_def
proof (intro exI[of _ "filter (\<lambda>r. P (ar_aconf r)) recs"] conjI)
  show "filter (\<lambda>(t, p). P p) L = map (\<lambda>r. (ar_type r, ar_aconf r)) (filter (\<lambda>r. P (ar_aconf r)) recs)"
    using assms(1) by (simp add: filter_map comp_def)
  show "distinct (map ar_aconf (filter (\<lambda>r. P (ar_aconf r)) recs))" using assms(2) by (simp add: distinct_map_filter)
qed (use assms(3-5) in auto)

lemma conf_repr_remove:
  assumes "conf_repr it s L" "fresh_items it used s" "p \<in> snd ` set L" "snd ` set L \<subseteq> used"
  shows "\<exists>s'. conf_step it (Remove_conf p) s = Some s' \<and> conf_repr it s' (filter (\<lambda>(t, q). q \<noteq> p) L) \<and>
    fresh_items it used s' \<and> prec_value s' = prec_value s"
proof -
  obtain recs where recs: "table_ok s recs" "L = map (\<lambda>r. (ar_type r, ar_aconf r)) recs" "distinct (map ar_aconf recs)"
    "\<forall>r \<in> set recs. usable it (ar_aconf r) \<and> ar_mask r = entry_mask it (ar_aconf r) \<and>
       ar_user r = ai_user (it (ar_aconf r)) \<and> (\<exists>a. items s (ar_aconf r) = Some a \<and> same_item a (it (ar_aconf r)))"
    using assms(1) by (auto simp: conf_repr_def)
  obtain r where r: "r \<in> set recs" "ar_aconf r = p" using assms(3) recs(2) by auto
  then have "usable it p" "ar_mask r = entry_mask it p" using recs(4) by auto
  then have "mask_of (the (ai_host (it p))) = Some (ar_mask r)" by (auto simp: usable_def entry_mask_def)
  then obtain s' where s': "delete_one_address_conf (the (ai_host (it p))) p s = Some s'" "prec_value s' = prec_value s"
    "items s' = (items s)(p := retired (items s p))" "table_ok s' (filter (\<lambda>x. ar_aconf x \<noteq> p) recs)"
    using delete_conf_ok[OF recs(1,3) r] by blast
  have "conf_repr it s' (filter (\<lambda>(t, q). q \<noteq> p) L)"
    by (rule conf_repr_filter[OF recs(2,3) s'(4) recs(4)]) (simp add: s'(3))
  moreover have "p \<in> used" using assms(3,4) by blast
  ultimately show ?thesis using s' assms(2) by (auto simp: fresh_items_def)
qed

lemma conf_repr_clear:
  assumes "conf_repr it s L" "fresh_items it used s" "snd ` set L \<subseteq> used"
  shows "\<exists>s'. conf_step it Clear_conf s = Some s' \<and> conf_repr it s' (entry_step it Clear_conf L) \<and>
    fresh_items it used s' \<and> prec_value s' = prec_value s"
proof -
  obtain recs where recs: "table_ok s recs" "L = map (\<lambda>r. (ar_type r, ar_aconf r)) recs" "distinct (map ar_aconf recs)"
    "\<forall>r \<in> set recs. usable it (ar_aconf r) \<and> ar_mask r = entry_mask it (ar_aconf r) \<and>
       ar_user r = ai_user (it (ar_aconf r)) \<and> (\<exists>a. items s (ar_aconf r) = Some a \<and> same_item a (it (ar_aconf r)))"
    using assms(1) by (auto simp: conf_repr_def)
  obtain s' where s': "clear_out_address_conf s = Some s'" "prec_value s' = prec_value s"
    "items s' = clear_items (ar_aconf ` set recs) (items s)"
    "table_ok s' (filter (\<lambda>r. temporary (items s) (ar_aconf r)) recs)"
    using clear_out_ok[OF recs(1,3)] by blast
  have "conf_repr it s' (filter (\<lambda>(t, q). temporary (items s) q) L)"
    by (rule conf_repr_filter[OF recs(2,3) s'(4) recs(4)]) (simp add: s'(3) clear_items_def)
  moreover have "filter (\<lambda>(t, q). temporary (items s) q) L = entry_step it Clear_conf L"
    unfolding entry_step.simps
  proof (rule filter_cong[OF refl])
    fix e assume "e \<in> set L"
    then obtain r where "r \<in> set recs" "e = (ar_type r, ar_aconf r)" using recs(2) by auto
    then show "(case e of (t, q) \<Rightarrow> temporary (items s) q) = (case e of (t, q) \<Rightarrow> ai_flags (it q) AND CONF_FLAGS_TEMPORARY \<noteq> 0)"
      using recs(4) by (auto simp: temporary_def same_item_def)
  qed
  moreover have "ar_aconf ` set recs \<subseteq> used" using assms(3) recs(2) by (simp add: image_image)
  ultimately show ?thesis using s' assms(2) by (auto simp: fresh_items_def clear_items_def)
qed

lemma entry_step_used:
  "snd ` set L \<subseteq> used \<Longrightarrow>
     snd ` set (entry_step it x L) \<subseteq> (case x of Enter_conf ty p \<Rightarrow> insert p used | _ \<Rightarrow> used)"
  by (cases x) auto

lemma conf_run_repr:
  assumes "conf_repr it s L" "fresh_items it used s" "snd ` set L \<subseteq> used" "conf_proper it xs used L"
    "length xs \<le> unat (prec_value s)"
  shows "\<exists>s'. conf_run it xs s = Some s' \<and> conf_repr it s' (fold (entry_step it) xs L)"
  using assms
proof (induction xs arbitrary: s L used)
  case (Cons x xs)
  let ?used = "case x of Enter_conf ty p \<Rightarrow> insert p used | _ \<Rightarrow> used"
  have nz: "prec_value s \<noteq> 0" using Cons.prems(5) by auto
  have "\<exists>s'. conf_step it x s = Some s' \<and> conf_repr it s' (entry_step it x L) \<and> fresh_items it ?used s' \<and>
      unat (prec_value s) \<le> Suc (unat (prec_value s'))"
  proof (cases x)
    case (Enter_conf ty p)
    then show ?thesis using conf_repr_enter[OF Cons.prems(1,2) _ _ Cons.prems(3) nz, of p ty] Cons.prems(4) nz
      by (auto simp: unat_minus_one)
  next
    case (Remove_conf p)
    then show ?thesis using conf_repr_remove[OF Cons.prems(1,2) _ Cons.prems(3), of p] Cons.prems(4) by auto
  next
    case Clear_conf
    then show ?thesis using conf_repr_clear[OF Cons.prems(1,2,3)] by auto
  qed
  then obtain s' where s': "conf_step it x s = Some s'" "conf_repr it s' (entry_step it x L)" "fresh_items it ?used s'"
    "unat (prec_value s) \<le> Suc (unat (prec_value s'))" by blast
  have "length xs \<le> unat (prec_value s')" using Cons.prems(5) s'(4) by simp
  moreover have "conf_proper it xs ?used (entry_step it x L)" using Cons.prems(4) by simp
  ultimately show ?case
    using Cons.IH[OF s'(2,3) entry_step_used[OF Cons.prems(3)]] s'(1) by auto
qed simp

subsection \<open>Properties\<close>

text \<open>C13. The address table: starting empty, whatever entries are entered, removed and cleared, no
  operation fails, and a search by host name and address finds exactly the oldest remaining
  entry of the type asked for whose mask, user and password fit, as a linear search through
  all entries would; hashing the masks loses none. (Masks are those without the digit
  wildcard, fewer than \<open>2 ^ 32 - 1\<close> operations.)\<close>

theorem conf_table_search:
  assumes "conf_proper it xs {} []" "length xs < 2 ^ 32 - 1" "in6_ok addr"
    and L: "L = fold (entry_step it) xs []"
    and users: "ty AND 1 \<noteq> 0 \<or> (\<forall>(t, p) \<in> set L. t = ty AND NOT 1 \<longrightarrow> ai_user (it p) \<noteq> None)"
  shows "\<exists>s. conf_run it xs (init_host_hash \<lparr>atable = tab, prec_value = 0xFFFFFFFF, items = \<lambda>p. Some (it p)\<rparr>) = Some s \<and>
    find_conf_by_address crypt name addr ty username password s =
      Some (map_option snd (List.find (entry_applies crypt it name addr ty username password) L))"
proof -
  let ?s = "init_host_hash \<lparr>atable = tab, prec_value = 0xFFFFFFFF, items = \<lambda>p. Some (it p)\<rparr>"
  have "conf_repr it ?s []" by (simp add: conf_repr_def table_ok_def init_host_hash_def)
  moreover have "fresh_items it {} ?s" by (simp add: fresh_items_def init_host_hash_def)
  moreover have "length xs \<le> unat (prec_value ?s)" using assms(2) by (simp add: init_host_hash_def)
  ultimately obtain s where s: "conf_run it xs ?s = Some s" "conf_repr it s L"
    using conf_run_repr[of it ?s "[]" "{}" xs] assms(1) L by auto
  then show ?thesis using find_conf_entries[OF s(2) assms(3) users] by blast
qed

definition sample_items :: "ptr \<Rightarrow> access_item" where
  "sample_items p =
     (if p = 1 then \<lparr>ai_status = CONF_KILL, ai_flags = CONF_FLAGS_NEED_PASSWORD, ai_clients = 0,
          ai_host = Some ''*.example.org'', ai_user = Some ''*'', ai_passwd = None\<rparr>
      else \<lparr>ai_status = CONF_KILL, ai_flags = CONF_FLAGS_NEED_PASSWORD, ai_clients = 0,
          ai_host = Some ''host.example.org'', ai_user = Some ''bob'', ai_passwd = None\<rparr>)"

lemma sample_items_usable: "usable sample_items p"
  unfolding usable_def
  by (rule exI[of _ "the (ai_host (sample_items p))"], rule exI[of _ "Host_mask (the (ai_host (sample_items p)))"])
    (simp add: sample_items_def mask_of_def parse_netmask_def try_parse_v4_netmask_def is_c_digit_def mask_ok_def)

lemma conf_table_search_witness:
  "\<exists>s. conf_run sample_items [Enter_conf CONF_KILL 1, Enter_conf CONF_KILL 2]
      (init_host_hash \<lparr>atable = \<lambda>_. [], prec_value = 0xFFFFFFFF, items = \<lambda>p. Some (sample_items p)\<rparr>) = Some s \<and>
    find_conf_by_address (\<lambda>pw salt. pw) (Some ''host.example.org'') None CONF_KILL (Some ''bob'') None s = Some (Some 1)"
proof -
  let ?L = "[(CONF_KILL, 1), (CONF_KILL, 2)] :: entry list"
  have p: "conf_proper sample_items [Enter_conf CONF_KILL 1, Enter_conf CONF_KILL 2] {} []"
    by (simp add: sample_items_usable)
  have L: "?L = fold (entry_step sample_items) [Enter_conf CONF_KILL 1, Enter_conf CONF_KILL 2] []" by simp
  have u: "CONF_KILL AND 1 \<noteq> 0 \<or>
      (\<forall>(t, p) \<in> set ?L. t = CONF_KILL AND NOT 1 \<longrightarrow> ai_user (sample_items p) \<noteq> None)"
    by (simp add: sample_items_def)
  have m: "entry_mask sample_items (Suc 0) = Host_mask ''*.example.org''"
    by (simp add: entry_mask_def sample_items_def mask_of_def parse_netmask_def try_parse_v4_netmask_def is_c_digit_def)
  have "entry_applies (\<lambda>pw salt. pw) sample_items (Some ''host.example.org'') None CONF_KILL (Some ''bob'') None (CONF_KILL, 1)"
    by (simp add: entry_applies_def m addr_hit_def sample_items_def CONF_KILL_def CONF_FLAGS_NEED_PASSWORD_def
        glob_char_def)
  then show ?thesis
    using conf_table_search[OF p _ _ L u, of None "\<lambda>_. []" "\<lambda>pw salt. pw" "Some ''host.example.org''" "Some ''bob''" None]
    by (simp add: in6_ok_def)
qed

text \<open>C36. An IPv4 mask that \<open>parse_netmask\<close> accepts with a positive length has between 1 and 32 bits,
  and \<open>match_ipv4\<close> accepts exactly the addresses that agree with it on that many leading bits.\<close>

theorem ipv4_mask_matches_prefix:
  assumes "parse_netmask text = Some (HM_IPV4 a bits)" "0 < bits"
  shows "bits \<le> 32 \<and> match_ipv4 x a bits = Some (\<forall>j < 32. 32 - bits \<le> int j \<longrightarrow> bit x j = bit a j)"
  using match_ipv4_iff parse_netmask_v4[OF assms(1)] assms(2) by blast

lemma parse_ten_twenty: "parse_netmask ''10.20.*'' = Some (HM_IPV4 0x0A140000 16)"
proof -
  have "v4_loop None ''10.20.*'' [''10.20.*''] = Some ([''10.20.*'', ''20.*'', ''*''], 16)"
    by (simp add: is_c_digit_def)
  moreover have "c_strtoul ''10.20.*'' = (10, ''.20.*'')" "c_strtoul ''20.*'' = (20, ''.*'')"
    "c_strtoul ''*'' = (0, ''*'')" "c_strtoul ''0'' = (0, [])"
    by (simp_all add: c_strtoul_def Let_def is_c_digit_def is_c_space_def digits_val_def)
  then have "v4_finish [''10.20.*'', ''20.*'', ''*''] 16 = Some (HM_IPV4 0x0A140000 16)"
    by (simp add: v4_finish_def Let_def signed_divide_int_def signed_modulo_int_def v4_of_def)
  ultimately show ?thesis by (simp add: parse_netmask_def try_parse_v4_netmask_def del: v4_loop.simps)
qed

lemma ipv4_mask_matches_prefix_witness: "match_ipv4 0x0A140101 0x0A140000 16 = Some True"
proof -
  have "\<forall>j < 32. 32 - 16 \<le> int j \<longrightarrow> bit (0x0A140101 :: u32) j = bit (0x0A140000 :: u32) j"
    by (simp add: eval_nat_numeral All_less_Suc)
  then show ?thesis using ipv4_mask_matches_prefix[OF parse_ten_twenty, of "0x0A140101"] by simp
qed

text \<open>C37. \<open>mask_addr\<close> on an IPv6 address never returns: the loop that should clear the bytes after
  the mask tests the wrong variable, however long it runs.\<close>

theorem mask_addr_v6_never_returns:
  assumes "0 \<le> bits" "bits < 128"
  shows "mask_addr fuel (In6 bs) bits = Out_of_fuel"
proof -
  have loop: "v6_clear fuel n i bs = None" if "n < 16" for n i bs
    using that by (induction fuel arbitrary: i bs) auto
  have "nat (bits div 8) < 16" using assms by auto
  then show ?thesis using assms by (simp add: mask_addr_def Let_def loop)
qed

lemma mask_addr_v6_never_returns_witness:
  "mask_addr 1000 (In6 (replicate 16 0xFF)) 64 = Out_of_fuel"
  by (rule mask_addr_v6_never_returns) simp_all

subsection \<open>Masks that never match\<close>

text \<open>An IPv6 mask whose length is not a multiple of 16 keeps one bit too many
  (\<open>15 - bits % 16\<close>); if that bit is set, no address matches the mask.\<close>

lemma clear_bits16_extra_bit: "r < 16 \<Longrightarrow> bit (clear_bits16 (15 - r) w) (15 - r) = bit w (15 - r)"
  by (auto simp: clear_bits16_def bit_and_iff bit_ucast_iff bit_not_iff bit_mask_iff dest: bit_imp_le_length
      simp flip: mask_eq_exp_minus_1)

lemma v6_extra_bit_never_matches:
  assumes "bits mod 8 \<noteq> 0" "bit (msk ! nat (bits div 8)) (7 - nat (bits mod 8))"
  shows "match_ipv6 a msk bits \<noteq> Some True"
proof -
  define m where "m = nat (bits mod 8)"
  have m: "0 < m" "m < 8" using assms(1) by (auto simp: m_def nat_less_iff)
  have "\<not> bit ((a ! nat (bits div 8)) AND ucast (NOT (push_bit (8 - m) 1 - 1 :: u32))) (7 - m)"
    using m by (auto simp: bit_and_iff bit_ucast_iff bit_not_iff bit_mask_iff simp flip: mask_eq_exp_minus_1)
  then have "(a ! nat (bits div 8)) AND ucast (NOT (push_bit (8 - m) 1 - 1 :: u32)) \<noteq> msk ! nat (bits div 8)"
    using assms(2) by (auto simp: m_def)
  then show ?thesis using m by (auto simp: match_ipv6_def Let_def m_def[symmetric])
qed

text \<open>\<open>get_mask_hash\<close> does not know the digit wildcard: a mask with one is filed under the hash of
  its own text, and the names it matches are looked up elsewhere.\<close>

lemma digit_mask_not_probed: "glob ''a#'' ''a1'' \<and> get_mask_hash ''a#'' \<notin> set (host_probes ''a1'')"
proof
  show "glob ''a#'' ''a1''" by (simp add: glob_char_def IsDigit_eq)
  show "get_mask_hash ''a#'' \<notin> set (host_probes ''a1'')"
    by (simp add: get_mask_hash_def host_probes_def hash_text_def hash_text_step_def ToLower_eq ATABLE_SIZE_def)
qed

text \<open>A negative length makes the parser write in front of its address bytes.\<close>

lemma negative_length_undefined: "parse_netmask ''1.2.3.4/-8'' = None"
proof -
  have "c_strtoul ''-8'' = (- 8, [])"
    by (simp add: c_strtoul_def Let_def is_c_digit_def is_c_space_def digits_val_def)
  then have "v4_loop None ''1.2.3.4/-8'' [''1.2.3.4/-8''] =
      Some ([''1.2.3.4/-8'', ''2.3.4/-8'', ''3.4/-8'', ''4/-8''], - 8)"
    by (simp add: is_c_digit_def ulong_to_int_def)
  moreover have "v4_finish [''1.2.3.4/-8'', ''2.3.4/-8'', ''3.4/-8'', ''4/-8''] (- 8) = None"
    by (simp add: v4_finish_def Let_def signed_divide_int_def signed_modulo_int_def)
  ultimately show ?thesis by (simp add: parse_netmask_def try_parse_v4_netmask_def del: v4_loop.simps)
qed

end
