(* ===== verification/Tools.thy ===== *)
theory Tools
  imports Irc_Prelude
begin

text \<open>
  \<^verbatim>\<open>src/tools.c\<close>: the intrusive doubly linked lists every component uses. The heap maps
  each node pointer to its node, the list header holds head, tail and length, and each
  operation performs the C code's assignments in their order. \<open>None\<close> is a NULL dereference
  (or, for the searching loops, a loop that does not end). Assertions are compiled out, as
  configure does by default.

  \<open>dlist h l ps\<close> says that header \<open>l\<close> in heap \<open>h\<close> holds exactly the nodes \<open>ps\<close>, in both
  directions; each operation is shown to implement the list operation it stands for and to
  leave all other nodes alone. The locale \<open>node_list\<close> is the interface clients use: inside
  it, any sequence of additions and deletions is shown to behave as on plain lists.
\<close>

record 'd dlink_node =
  node_data :: 'd
  prev :: "ptr option"
  "next" :: "ptr option"

record dlink_list =
  head :: "ptr option"
  tail :: "ptr option"
  list_length :: u64

type_synonym 'd dl_heap = "ptr \<Rightarrow> 'd dlink_node"

definition empty_list :: dlink_list where
  "empty_list = \<lparr>head = None, tail = None, list_length = 0\<rparr>"

abbreviation set_next :: "ptr \<Rightarrow> ptr option \<Rightarrow> 'd dl_heap \<Rightarrow> 'd dl_heap" where
  "set_next p v h \<equiv> h(p := (h p)\<lparr>next := v\<rparr>)"

abbreviation set_prev :: "ptr \<Rightarrow> ptr option \<Rightarrow> 'd dl_heap \<Rightarrow> 'd dl_heap" where
  "set_prev p v h \<equiv> h(p := (h p)\<lparr>prev := v\<rparr>)"

subsection \<open>The operations\<close>

definition dlinkAdd :: "'d \<Rightarrow> ptr \<Rightarrow> dlink_list \<Rightarrow> 'd dl_heap \<Rightarrow> 'd dl_heap \<times> dlink_list" where
  "dlinkAdd d m l h =
     (let h = h(m := \<lparr>node_data = d, prev = None, next = head l\<rparr>);
          (h, l) = (case head l of
                      Some f \<Rightarrow> (set_prev f (Some m) h, l)
                    | None \<Rightarrow> (h, l\<lparr>tail := Some m\<rparr>))
      in (h, l\<lparr>head := Some m, list_length := list_length l + 1\<rparr>))"

definition dlinkAddBefore ::
  "ptr \<Rightarrow> 'd \<Rightarrow> ptr \<Rightarrow> dlink_list \<Rightarrow> 'd dl_heap \<Rightarrow> ('d dl_heap \<times> dlink_list) option" where
  "dlinkAddBefore b d m l h =
     (if Some b = head l then Some (dlinkAdd d m l h)
      else let h = h(m := (h m)\<lparr>node_data := d\<rparr>) in
        case prev (h b) of
          None \<Rightarrow> None
        | Some bp \<Rightarrow>
            let h = set_next bp (Some m) h;
                h = set_prev m (prev (h b)) h;
                h = set_prev b (Some m) h;
                h = set_next m (Some b) h
            in Some (h, l\<lparr>list_length := list_length l + 1\<rparr>))"

definition dlinkAddTail :: "'d \<Rightarrow> ptr \<Rightarrow> dlink_list \<Rightarrow> 'd dl_heap \<Rightarrow> 'd dl_heap \<times> dlink_list" where
  "dlinkAddTail d m l h =
     (let h = h(m := \<lparr>node_data = d, prev = tail l, next = None\<rparr>);
          (h, l) = (case tail l of
                      Some t \<Rightarrow> (set_next t (Some m) h, l)
                    | None \<Rightarrow> (h, l\<lparr>head := Some m\<rparr>))
      in (h, l\<lparr>tail := Some m, list_length := list_length l + 1\<rparr>))"

definition dlinkDelete :: "ptr \<Rightarrow> dlink_list \<Rightarrow> 'd dl_heap \<Rightarrow> 'd dl_heap \<times> dlink_list" where
  "dlinkDelete m l h =
     (let (h, l) = (case next (h m) of
                      Some n \<Rightarrow> (set_prev n (prev (h m)) h, l)
                    | None \<Rightarrow> (h, l\<lparr>tail := prev (h m)\<rparr>));
          (h, l) = (case prev (h m) of
                      Some p \<Rightarrow> (set_next p (next (h m)) h, l)
                    | None \<Rightarrow> (h, l\<lparr>head := next (h m)\<rparr>));
          h = h(m := (h m)\<lparr>prev := None, next := None\<rparr>)
      in (h, l\<lparr>list_length := list_length l - 1\<rparr>))"

text \<open>\<open>DLINK_FOREACH\<close> with the early return of \<open>dlinkFind\<close>.\<close>

partial_function (option) find_from :: "'d dl_heap \<Rightarrow> 'd \<Rightarrow> ptr option \<Rightarrow> ptr option option" where
  "find_from h d p =
     (case p of
        None \<Rightarrow> Some None
      | Some q \<Rightarrow> if node_data (h q) = d then Some (Some q) else find_from h d (next (h q)))"

definition dlinkFind :: "dlink_list \<Rightarrow> 'd \<Rightarrow> 'd dl_heap \<Rightarrow> ptr option option" where
  "dlinkFind l d h = find_from h d (head l)"

definition dlinkMoveList ::
  "dlink_list \<Rightarrow> dlink_list \<Rightarrow> 'd dl_heap \<Rightarrow> ('d dl_heap \<times> dlink_list \<times> dlink_list) option" where
  "dlinkMoveList from to h =
     (case head from of
        None \<Rightarrow> Some (h, from, to)
      | Some fh \<Rightarrow>
          (case head to of
             None \<Rightarrow> Some (h, \<lparr>head = None, tail = None, list_length = 0\<rparr>,
                        \<lparr>head = head from, tail = tail from, list_length = list_length from\<rparr>)
           | Some th \<Rightarrow>
               (case tail from of
                  None \<Rightarrow> None
                | Some ft \<Rightarrow>
                    let h = set_next ft (Some th) h;
                        h = set_prev fh (prev (h th)) h;
                        h = set_prev th (Some ft) h
                    in Some (h, \<lparr>head = None, tail = None, list_length = 0\<rparr>,
                             to\<lparr>head := head from, list_length := list_length to + list_length from\<rparr>))))"

definition dlinkFindDelete ::
  "dlink_list \<Rightarrow> 'd \<Rightarrow> 'd dl_heap \<Rightarrow> (ptr option \<times> 'd dl_heap \<times> dlink_list) option" where
  "dlinkFindDelete l d h =
     (case find_from h d (head l) of
        None \<Rightarrow> None
      | Some None \<Rightarrow> Some (None, h, l)
      | Some (Some m) \<Rightarrow> (case dlinkDelete m l h of (h, l) \<Rightarrow> Some (Some m, h, l)))"

subsection \<open>What a header stands for\<close>

definition dlist :: "'d dl_heap \<Rightarrow> dlink_list \<Rightarrow> ptr list \<Rightarrow> bool" where
  "dlist h l ps \<longleftrightarrow> distinct ps \<and> dseg (next \<circ> h) (prev \<circ> h) None ps None \<and>
     head l = first_or None ps \<and> tail l = last_or None ps \<and> list_length l = of_nat (length ps)"

definition same_outside :: "ptr set \<Rightarrow> 'd dl_heap \<Rightarrow> 'd dl_heap \<Rightarrow> bool" where
  "same_outside S h h' \<longleftrightarrow> (\<forall>p. p \<notin> S \<longrightarrow> h' p = h p)"

lemma dlist_empty: "dlist h empty_list []"
  by (simp add: dlist_def empty_list_def)

lemma dlist_chain: "dlist h l ps \<Longrightarrow> chain (next \<circ> h) (head l) ps"
  by (auto simp: dlist_def intro: dseg_chain)

lemma dlist_unique: "dlist h l ps \<Longrightarrow> dlist h l qs \<Longrightarrow> ps = qs"
  by (meson chain_unique dlist_chain)

lemma dlist_frame: "dlist h l ps \<Longrightarrow> same_outside S h h' \<Longrightarrow> S \<inter> set ps = {} \<Longrightarrow> dlist h' l ps"
proof -
  assume a: "dlist h l ps" "same_outside S h h'" "S \<inter> set ps = {}"
  then have "h' p = h p" if "p \<in> set ps" for p using that by (auto simp: same_outside_def)
  then have "dseg (next \<circ> h) (prev \<circ> h) None ps None = dseg (next \<circ> h') (prev \<circ> h') None ps None"
    by (intro dseg_cong) simp
  with a show ?thesis by (simp add: dlist_def)
qed

lemma dlinkAdd_dlist:
  assumes "dlist h l ps" "m \<notin> set ps" "dlinkAdd d m l h = (h', l')"
  shows "dlist h' l' (m # ps)" "same_outside (set (m # ps)) h h'"
    "node_data (h' m) = d" "\<forall>p \<in> set ps. node_data (h' p) = node_data (h p)"
proof -
  from assms show "dlist h' l' (m # ps)"
    by (cases ps) (auto simp: dlist_def dlinkAdd_def Let_def fun_upd_comp dseg_frame_nxt dseg_frame_prv)
  from assms show "same_outside (set (m # ps)) h h'"
    "node_data (h' m) = d" "\<forall>p \<in> set ps. node_data (h' p) = node_data (h p)"
    by (cases ps; auto simp: dlist_def dlinkAdd_def Let_def same_outside_def)+
qed

lemma dlinkAddTail_dlist:
  assumes "dlist h l ps" "m \<notin> set ps" "dlinkAddTail d m l h = (h', l')"
  shows "dlist h' l' (ps @ [m])" "same_outside (set (m # ps)) h h'"
    "node_data (h' m) = d" "\<forall>p \<in> set ps. node_data (h' p) = node_data (h p)"
proof -
  from assms show "dlist h' l' (ps @ [m])"
    by (cases ps rule: rev_cases)
      (auto simp: dlist_def dlinkAddTail_def Let_def fun_upd_comp dseg_frame_nxt dseg_frame_prv dseg_append)
  from assms show "same_outside (set (m # ps)) h h'"
    "node_data (h' m) = d" "\<forall>p \<in> set ps. node_data (h' p) = node_data (h p)"
    by (cases ps rule: rev_cases; auto simp: dlist_def dlinkAddTail_def Let_def same_outside_def)+
qed

lemma dlinkDelete_dlist:
  assumes "dlist h l (xs @ m # ys)" "dlinkDelete m l h = (h', l')"
  shows "dlist h' l' (xs @ ys)" "same_outside (set (xs @ m # ys)) h h'"
    "\<forall>p. node_data (h' p) = node_data (h p)" "next (h' m) = None" "prev (h' m) = None"
proof -
  from assms show "dlist h' l' (xs @ ys)"
    by (cases xs rule: rev_cases; cases ys)
      (auto simp: dlist_def dlinkDelete_def Let_def fun_upd_comp dseg_frame_nxt dseg_frame_prv dseg_append)
  from assms show "same_outside (set (xs @ m # ys)) h h'"
    "\<forall>p. node_data (h' p) = node_data (h p)" "next (h' m) = None" "prev (h' m) = None"
    by (cases xs rule: rev_cases; cases ys;
        auto simp: dlist_def dlinkDelete_def Let_def same_outside_def dseg_append)+
qed

lemma dlinkAddBefore_dlist:
  assumes "dlist h l (xs @ b # ys)" "m \<notin> set (xs @ b # ys)"
  shows "\<exists>h' l'. dlinkAddBefore b d m l h = Some (h', l') \<and> dlist h' l' (xs @ m # b # ys) \<and>
    node_data (h' m) = d \<and> (\<forall>p \<in> set (xs @ b # ys). node_data (h' p) = node_data (h p))"
proof (cases xs rule: rev_cases)
  case Nil
  obtain h' l' where a: "dlinkAdd d m l h = (h', l')" by fastforce
  have "head l = Some b" using assms(1) Nil by (simp add: dlist_def)
  with a have "dlinkAddBefore b d m l h = Some (h', l')" by (simp add: dlinkAddBefore_def)
  with dlinkAdd_dlist[OF _ _ a, of "b # ys"] assms Nil show ?thesis by simp
next
  case (snoc ws a)
  have "head l \<noteq> Some b" using assms(1) snoc by (cases ws) (auto simp: dlist_def)
  with assms snoc show ?thesis
    by (auto simp: dlist_def dlinkAddBefore_def Let_def fun_upd_comp dseg_frame_nxt
        dseg_frame_prv dseg_append)
qed

lemma dlinkMoveList_dlist:
  assumes "dlist h from ps" "dlist h to qs" "set ps \<inter> set qs = {}"
  shows "\<exists>h' from' to'. dlinkMoveList from to h = Some (h', from', to') \<and>
    dlist h' from' [] \<and> dlist h' to' (ps @ qs) \<and> (\<forall>p. node_data (h' p) = node_data (h p)) \<and>
    same_outside (set (ps @ qs)) h h'"
proof (cases ps)
  case Nil
  with assms show ?thesis by (auto simp: dlinkMoveList_def dlist_def same_outside_def)
next
  case (Cons p ps')
  show ?thesis
  proof (cases qs)
    case Nil
    with assms Cons show ?thesis by (auto simp: dlinkMoveList_def dlist_def same_outside_def)
  next
    fix q qs' assume qs: "qs = q # qs'"
    from Cons show ?thesis
      using assms qs
      by (cases ps' rule: rev_cases)
        (auto simp: dlinkMoveList_def dlist_def Let_def fun_upd_comp dseg_frame_nxt dseg_frame_prv
          dseg_append same_outside_def)
  qed
qed

lemma find_from_chain:
  "chain (next \<circ> h) p ps \<Longrightarrow> find_from h d p = Some (List.find (\<lambda>q. node_data (h q) = d) ps)"
  by (induction ps arbitrary: p) (auto simp: find_from.simps)

lemma dlinkFind_dlist:
  "dlist h l ps \<Longrightarrow> dlinkFind l d h = Some (List.find (\<lambda>q. node_data (h q) = d) ps)"
  by (simp add: dlinkFind_def find_from_chain dlist_chain)

lemma dlinkFindDelete_dlist:
  assumes "dlist h l ps"
  shows "d \<notin> (node_data \<circ> h) ` set ps \<Longrightarrow> dlinkFindDelete l d h = Some (None, h, l)"
    "ps = xs @ m # ys \<Longrightarrow> node_data (h m) = d \<Longrightarrow> d \<notin> (node_data \<circ> h) ` set xs \<Longrightarrow>
     \<exists>h' l'. dlinkFindDelete l d h = Some (Some m, h', l') \<and> dlist h' l' (xs @ ys)"
proof -
  note f = find_from_chain[OF dlist_chain[OF assms]]
  show "d \<notin> (node_data \<circ> h) ` set ps \<Longrightarrow> dlinkFindDelete l d h = Some (None, h, l)"
  proof -
    assume "d \<notin> (node_data \<circ> h) ` set ps"
    then have "List.find (\<lambda>q. node_data (h q) = d) ps = None" by (auto simp: find_None_iff)
    with f[of d] show ?thesis by (simp add: dlinkFindDelete_def)
  qed
  assume a: "ps = xs @ m # ys" "node_data (h m) = d" "d \<notin> (node_data \<circ> h) ` set xs"
  have "List.find (\<lambda>q. node_data (h q) = d) (xs @ m # ys) = Some m" 
    using a(2,3) by (induction xs) auto
  moreover obtain h' l' where del: "dlinkDelete m l h = (h', l')" by fastforce
  ultimately have "dlinkFindDelete l d h = Some (Some m, h', l')"
    using f[of d] a(1) by (simp add: dlinkFindDelete_def)
  moreover have "dlist h' l' (xs @ ys)" using dlinkDelete_dlist(1)[OF _ del] assms a(1) by simp
  ultimately show "\<exists>h' l'. dlinkFindDelete l d h = Some (Some m, h', l') \<and> dlist h' l' (xs @ ys)"
    by blast
qed

subsection \<open>The interface the other components use\<close>

text \<open>A list of (node, data) pairs and the operations on it. \<open>abs_op\<close> is undefined where a
  client would misuse a list: adding a node that is already on it, deleting one that is not.\<close>

datatype 'd list_op = Add 'd ptr | AddTail 'd ptr | Delete ptr

fun abs_op :: "'d list_op \<Rightarrow> (ptr \<times> 'd) list \<Rightarrow> (ptr \<times> 'd) list option" where
  "abs_op (Add d p) xs = (if p \<in> fst ` set xs then None else Some ((p, d) # xs))"
| "abs_op (AddTail d p) xs = (if p \<in> fst ` set xs then None else Some (xs @ [(p, d)]))"
| "abs_op (Delete p) xs =
     (if p \<in> fst ` set xs then Some (filter (\<lambda>e. fst e \<noteq> p) xs) else None)"

fun abs_run :: "'d list_op list \<Rightarrow> (ptr \<times> 'd) list \<Rightarrow> (ptr \<times> 'd) list option" where
  "abs_run [] xs = Some xs"
| "abs_run (x # ops) xs = Option.bind (abs_op x xs) (abs_run ops)"

locale node_list =
  fixes repr :: "'s \<Rightarrow> (ptr \<times> 'd) list \<Rightarrow> bool"
    and add :: "'d \<Rightarrow> ptr \<Rightarrow> 's \<Rightarrow> 's"
    and add_tail :: "'d \<Rightarrow> ptr \<Rightarrow> 's \<Rightarrow> 's"
    and del :: "ptr \<Rightarrow> 's \<Rightarrow> 's"
  assumes repr_distinct: "repr s xs \<Longrightarrow> distinct (map fst xs)"
    and repr_add: "repr s xs \<Longrightarrow> p \<notin> fst ` set xs \<Longrightarrow> repr (add d p s) ((p, d) # xs)"
    and repr_add_tail: "repr s xs \<Longrightarrow> p \<notin> fst ` set xs \<Longrightarrow> repr (add_tail d p s) (xs @ [(p, d)])"
    and repr_del: "repr s (xs @ (p, d) # ys) \<Longrightarrow> repr (del p s) (xs @ ys)"
begin

fun op :: "'d list_op \<Rightarrow> 's \<Rightarrow> 's" where
  "op (Add d p) s = add d p s"
| "op (AddTail d p) s = add_tail d p s"
| "op (Delete p) s = del p s"

lemma op_refines: "repr s xs \<Longrightarrow> abs_op a xs = Some ys \<Longrightarrow> repr (op a s) ys"
proof (cases a)
  case (Delete p)
  assume r: "repr s xs" and a: "abs_op a xs = Some ys"
  with Delete obtain d where "(p, d) \<in> set xs" by (auto split: if_splits)
  then obtain us vs where xs: "xs = us @ (p, d) # vs" by (meson split_list)
  from repr_distinct[OF r] xs have "p \<notin> fst ` set us" "p \<notin> fst ` set vs" by auto
  then have "\<forall>e \<in> set us. fst e \<noteq> p" "\<forall>e \<in> set vs. fst e \<noteq> p" by auto
  then have "filter (\<lambda>e. fst e \<noteq> p) us = us" "filter (\<lambda>e. fst e \<noteq> p) vs = vs"
    by (simp_all add: filter_id_conv)
  then have "filter (\<lambda>e. fst e \<noteq> p) xs = us @ vs" using xs by simp
  with a Delete have "ys = us @ vs" by (auto split: if_splits)
  with Delete repr_del[of s us p d vs] r xs show ?thesis by simp
qed (auto split: if_splits simp: repr_add repr_add_tail)

lemma run_refines: "repr s xs \<Longrightarrow> abs_run ops xs = Some ys \<Longrightarrow> repr (fold op ops s) ys"
  by (induction ops arbitrary: s xs) (auto simp: bind_eq_Some_conv intro: op_refines)

end

definition dl_repr :: "'d dl_heap \<times> dlink_list \<Rightarrow> (ptr \<times> 'd) list \<Rightarrow> bool" where
  "dl_repr s xs \<longleftrightarrow> dlist (fst s) (snd s) (map fst xs) \<and>
     (\<forall>e \<in> set xs. node_data (fst s (fst e)) = snd e)"

definition dl_add :: "'d \<Rightarrow> ptr \<Rightarrow> 'd dl_heap \<times> dlink_list \<Rightarrow> 'd dl_heap \<times> dlink_list" where
  "dl_add d p s = dlinkAdd d p (snd s) (fst s)"

definition dl_add_tail :: "'d \<Rightarrow> ptr \<Rightarrow> 'd dl_heap \<times> dlink_list \<Rightarrow> 'd dl_heap \<times> dlink_list" where
  "dl_add_tail d p s = dlinkAddTail d p (snd s) (fst s)"

definition dl_del :: "ptr \<Rightarrow> 'd dl_heap \<times> dlink_list \<Rightarrow> 'd dl_heap \<times> dlink_list" where
  "dl_del p s = dlinkDelete p (snd s) (fst s)"

lemma dl_repr_add: "dl_repr s xs \<Longrightarrow> p \<notin> fst ` set xs \<Longrightarrow> dl_repr (dl_add d p s) ((p, d) # xs)"
  using dlinkAdd_dlist[of "fst s" "snd s" "map fst xs" p d]
  by (cases "dlinkAdd d p (snd s) (fst s)") (auto simp: dl_repr_def dl_add_def)

lemma dl_repr_add_tail:
  "dl_repr s xs \<Longrightarrow> p \<notin> fst ` set xs \<Longrightarrow> dl_repr (dl_add_tail d p s) (xs @ [(p, d)])"
  using dlinkAddTail_dlist[of "fst s" "snd s" "map fst xs" p d]
  by (cases "dlinkAddTail d p (snd s) (fst s)") (auto simp: dl_repr_def dl_add_tail_def)

lemma dl_repr_del: "dl_repr s (xs @ (p, d) # ys) \<Longrightarrow> dl_repr (dl_del p s) (xs @ ys)"
  using dlinkDelete_dlist[of "fst s" "snd s" "map fst xs" p "map fst ys"]
  by (cases "dlinkDelete p (snd s) (fst s)") (auto simp: dl_repr_def dl_del_def)

interpretation dl: node_list dl_repr dl_add dl_add_tail dl_del
proof
  show "distinct (map fst xs)" if "dl_repr s xs" for s :: "'d dl_heap \<times> dlink_list" and xs
    using that by (simp add: dl_repr_def dlist_def)
qed (auto simp: dl_repr_add dl_repr_add_tail intro: dl_repr_del)

fun dl_op :: "'d list_op \<Rightarrow> 'd dl_heap \<times> dlink_list \<Rightarrow> 'd dl_heap \<times> dlink_list" where
  "dl_op (Add d p) s = dlinkAdd d p (snd s) (fst s)"
| "dl_op (AddTail d p) s = dlinkAddTail d p (snd s) (fst s)"
| "dl_op (Delete p) s = dlinkDelete p (snd s) (fst s)"

lemma dl_op_eq: "dl_op a s = dl.op a s"
  by (cases a) (auto simp: dl_add_def dl_add_tail_def dl_del_def)

lemma dl_run_refines: "dl_repr s xs \<Longrightarrow> abs_run ops xs = Some ys \<Longrightarrow> dl_repr (fold dl_op ops s) ys"
  using dl.run_refines[of s xs ops ys] by (simp add: dl_op_eq[abs_def])

subsection \<open>Properties\<close>

text \<open>C32. Any sequence of \<open>dlinkAdd\<close>, \<open>dlinkAddTail\<close> and \<open>dlinkDelete\<close> that adds no node twice and
  deletes only nodes of the list leaves header, links, length and data of the list as the
  same operations on a plain list do.\<close>

theorem dlink_run_refines:
  assumes "dl_repr s xs" "abs_run ops xs = Some ys"
  shows "dl_repr (fold dl_op ops s) ys"
  using assms by (rule dl_run_refines)

lemma dlink_run_refines_witness:
  "dl_repr (fold dl_op [Add (10::nat) 1, AddTail 20 2, Add 30 3, Delete 1]
     (\<lambda>_. \<lparr>node_data = 0, prev = None, next = None\<rparr>, empty_list)) [(3, 30), (2, 20)]"
  by (rule dlink_run_refines[where xs = "[]"]) (simp_all add: dl_repr_def dlist_empty)

text \<open>\<open>dlinkMoveList\<close> empties the first list and puts its nodes, in their order, before those of
  the second, for any two lists without a common node.\<close>

theorem dlinkMoveList_appends:
  assumes "dlist h from ps" "dlist h to qs" "set ps \<inter> set qs = {}"
  shows "\<exists>h' from' to'. dlinkMoveList from to h = Some (h', from', to') \<and>
    dlist h' from' [] \<and> dlist h' to' (ps @ qs) \<and> (\<forall>p. node_data (h' p) = node_data (h p)) \<and>
    same_outside (set (ps @ qs)) h h'"
  using assms by (rule dlinkMoveList_dlist)

lemma dlinkMoveList_appends_witness:
  "\<exists>h' from' to'. dlinkMoveList \<lparr>head = Some 1, tail = Some 1, list_length = 1\<rparr>
      \<lparr>head = Some 2, tail = Some 2, list_length = 1\<rparr>
      (\<lambda>p. \<lparr>node_data = p, prev = None, next = None\<rparr>) = Some (h', from', to') \<and>
    dlist h' from' [] \<and> dlist h' to' ([1] @ [2]) \<and> (\<forall>p. node_data (h' p) = p) \<and>
    same_outside (set ([1] @ [2])) (\<lambda>p. \<lparr>node_data = p, prev = None, next = None\<rparr>) h'"
  using dlinkMoveList_appends[of "\<lambda>p. \<lparr>node_data = p, prev = None, next = None\<rparr>"
      "\<lparr>head = Some 1, tail = Some 1, list_length = 1\<rparr>" "[1]"
      "\<lparr>head = Some 2, tail = Some 2, list_length = 1\<rparr>" "[2]"]
  by (simp add: dlist_def)

end
