(* ===== verification/Irc_String.thy ===== *)
theory Irc_String
  imports Chartab
begin

text \<open>
  The string helpers of \<^verbatim>\<open>src/irc_string.c\<close>: \<open>clean_string\<close>, \<open>strip_tabs\<close>, \<open>strtoken\<close>,
  \<open>basename\<close>, \<open>strlcat\<close>, \<open>strlcpy\<close> and \<open>xstrldup\<close> (address formatting is in theory Inet).
  Routines that fill a caller's buffer take that buffer as a list of its bytes; a write
  past its end is undefined behaviour and gives \<open>None\<close>. Lengths are \<open>size_t\<close>, 64-bit words.

  The lemmas give each routine its contract: the copying routines stay inside the buffer
  and leave the truncated string, \<open>strtoken\<close> enumerates exactly the separator-free pieces,
  \<open>clean_string\<close> produces printable text as long as its length does not wrap around.
\<close>

subsection \<open>\<open>clean_string\<close> and \<open>strip_tabs\<close>\<close>

text \<open>The loop of \<open>clean_string\<close>, as the characters it writes: \<open>len\<close> is decremented twice on a
  control character but tested only once, so it can wrap around.\<close>

fun clean_loop :: "string \<Rightarrow> u64 \<Rightarrow> string" where
  "clean_loop [] len = []"
| "clean_loop (c # src) len =
     (if len = 0 then []
      else if 128 \<le> ord c then CHR ''.'' # clean_loop src (len - 2)
      else if \<not> IsPrint c
        then CHR ''^'' # char_of (64 + ord c) # clean_loop src (len - 2)
        else c # clean_loop src (len - 1))"

definition clean_string :: "nat \<Rightarrow> string \<Rightarrow> u64 \<Rightarrow> string option" where
  "clean_string dest_size src len =
     (let out = clean_loop src (len - 3)
      in if length out < dest_size then Some out else None)"

definition is_clean :: "char \<Rightarrow> bool" where
  "is_clean c \<longleftrightarrow> 32 \<le> ord c \<and> ord c \<le> (126::nat)"

lemma clean_loop_clean:
  "CHR 0x7F \<notin> set src \<Longrightarrow> list_all is_clean (clean_loop src len)"
proof (induction src len rule: clean_loop.induct)
  case (2 c src len)
  have "ord c \<noteq> (127::nat)" using 2(4) by (auto simp: char_eq_iff_ord)
  then show ?case using 2
    by (auto simp: is_clean_def IsPrint_eq)
qed simp

lemma word_pred_less: "len \<noteq> 0 \<Longrightarrow> unat (len - 1 :: u64) = unat len - 1"
  by (metis unat_minus_one)

lemma unat_minus_two: "2 \<le> unat (len :: u64) \<Longrightarrow> unat (len - 2) = unat len - 2"
  by (simp add: unat_sub word_le_nat_alt)

text \<open>As long as no double decrement meets \<open>len = 1\<close>, the loop writes at most \<open>len\<close>
  characters: an even length with only control characters, or no control or high-bit
  character at all.\<close>

lemma clean_loop_length_plain:
  "list_all is_clean src \<Longrightarrow> clean_loop src len = take (unat len) src"
proof (induction src len rule: clean_loop.induct)
  case (2 c src len)
  then show ?case
    by (cases "unat len") (auto simp: is_clean_def IsPrint_eq word_pred_less unat_eq_zero)
qed simp

lemma clean_string_plain:
  assumes "list_all is_clean src" "3 \<le> unat len" "unat len \<le> dest_size"
  shows "clean_string dest_size src len = Some (take (unat len - 3) src)"
proof -
  have "unat (len - 3) = unat len - 3" using assms(2) by (simp add: unat_sub word_le_nat_alt)
  with assms show ?thesis by (simp add: clean_string_def clean_loop_length_plain)
qed

text \<open>When a control character arrives with one character of room left, the length wraps
  to the largest \<open>size_t\<close> and the rest of the source is copied without a limit.\<close>

lemma clean_loop_wraps:
  assumes "list_all is_clean pre" "unat len = Suc (length pre)" "ord c < 32" "list_all is_clean post"
    "length post < 2 ^ 64 - 1"
  shows "clean_loop (pre @ c # post) len = pre @ CHR ''^'' # char_of (64 + ord c) # post"
  using assms
proof (induction pre arbitrary: len)
  case Nil
  then have "len = 1" by (simp add: word_unat_eq_iff)
  moreover have "unat (- 1 :: u64) = 2 ^ 64 - 1" by (simp add: unsigned_minus_1_eq_mask mask_eq_exp_minus_1)
  ultimately show ?case using Nil by (simp add: clean_loop_length_plain IsPrint_eq)
next
  case (Cons a pre)
  then have "len \<noteq> 0" by auto
  with Cons show ?case by (simp add: word_pred_less is_clean_def IsPrint_eq)
qed

fun strip_tabs :: "string \<Rightarrow> u64 \<Rightarrow> string" where
  "strip_tabs src len =
     (if len - 1 = 0 then []
      else case src of
        [] \<Rightarrow> []
      | c # rest \<Rightarrow> (if c = CHR 0x09 then CHR '' '' else c) # strip_tabs rest (len - 1))"

declare strip_tabs.simps [simp del]

lemma strip_tabs_eq:
  "0 < unat len \<Longrightarrow>
   strip_tabs src len = map (\<lambda>c. if c = CHR 0x09 then CHR '' '' else c) (take (unat len - 1) src)"
proof (induction src arbitrary: len)
  case Nil
  then show ?case by (simp add: strip_tabs.simps)
next
  case (Cons c src)
  show ?case
  proof (cases "len - 1 = 0")
    case True
    then have "len = 1" by simp
    then show ?thesis by (simp add: strip_tabs.simps)
  next
    case False
    have u: "unat (len - 1) = unat len - 1" using Cons.prems by (intro word_pred_less) auto
    from False u have p: "0 < unat len - 1" by (metis gr0I unat_eq_zero)
    have "strip_tabs src (len - 1) =
        map (\<lambda>c. if c = CHR 0x09 then CHR '' '' else c) (take (unat len - 1 - 1) src)"
      using Cons.IH[of "len - 1"] p u by simp
    moreover obtain k where "unat len = Suc (Suc k)"
      using p by (metis Suc_diff_1 diff_Suc_1 less_imp_Suc_add zero_less_diff)
    ultimately show ?thesis using False by (subst strip_tabs.simps) simp
  qed
qed

subsection \<open>\<open>strtoken\<close>\<close>

text \<open>The separator that ends the token is overwritten with NUL, so the token is the
  characters up to it and the saved position is the suffix behind it.\<close>

definition strtoken ::
  "string option \<Rightarrow> string option \<Rightarrow> string \<Rightarrow> string option \<times> string option" where
  "strtoken save str fs =
     (let pos = (case str of Some s \<Rightarrow> Some s | None \<Rightarrow> save);
          pos = map_option (dropWhile (\<lambda>c. c \<in> set fs)) pos
      in case pos of
           None \<Rightarrow> (None, None)
         | Some [] \<Rightarrow> (None, None)
         | Some s \<Rightarrow>
             let tmp = takeWhile (\<lambda>c. c \<notin> set fs) s;
                 rest = dropWhile (\<lambda>c. c \<notin> set fs) s
             in (Some tmp, if rest \<noteq> [] then Some (tl rest) else None))"

text \<open>The loop \<open>for (t = strtoken (&p, s, fs); t; t = strtoken (&p, NULL, fs))\<close> of the callers,
  bounded by \<open>n\<close> calls.\<close>

fun strtoken_calls :: "nat \<Rightarrow> string option \<Rightarrow> string option \<Rightarrow> string \<Rightarrow> string list option" where
  "strtoken_calls 0 save str fs = None"
| "strtoken_calls (Suc n) save str fs =
     (case strtoken save str fs of
        (None, _) \<Rightarrow> Some []
      | (Some t, save') \<Rightarrow> map_option ((#) t) (strtoken_calls n save' None fs))"

fun pieces :: "(char \<Rightarrow> bool) \<Rightarrow> string \<Rightarrow> string list" where
  "pieces sep [] = [[]]"
| "pieces sep (c # cs) =
     (if sep c then [] # pieces sep cs
      else (c # hd (pieces sep cs)) # tl (pieces sep cs))"

definition tokens :: "(char \<Rightarrow> bool) \<Rightarrow> string \<Rightarrow> string list" where
  "tokens sep s = filter (\<lambda>t. t \<noteq> []) (pieces sep s)"

lemma pieces_nonempty [simp]: "pieces sep s \<noteq> []"
  by (cases s) auto

lemma pieces_token:
  "\<forall>c \<in> set t. \<not> sep c \<Longrightarrow> pieces sep t = [t]"
  "\<forall>c \<in> set t. \<not> sep c \<Longrightarrow> sep c \<Longrightarrow> pieces sep (t @ c # s) = t # pieces sep s"
  by (induction t) auto

lemma tokens_drop_sep: "tokens sep (dropWhile sep s) = tokens sep s"
  by (induction s) (auto simp: tokens_def)

lemma tokens_Cons_sep: "sep c \<Longrightarrow> tokens sep (c # s) = tokens sep s"
  by (simp add: tokens_def)

lemma tokens_takeWhile:
  assumes "s \<noteq> []" "\<not> sep (hd s)"
  shows "tokens sep s = takeWhile (\<lambda>c. \<not> sep c) s # tokens sep (tl (dropWhile (\<lambda>c. \<not> sep c) s))"
proof -
  let ?t = "takeWhile (\<lambda>c. \<not> sep c) s" and ?r = "dropWhile (\<lambda>c. \<not> sep c) s"
  have t: "\<forall>c \<in> set ?t. \<not> sep c" by (auto dest: set_takeWhileD)
  have ne: "?t \<noteq> []" using assms by (cases s) auto
  show ?thesis
  proof (cases ?r)
    case Nil
    then have "?t = s" by (metis append_Nil2 takeWhile_dropWhile_id)
    then have "pieces sep s = [s]" using pieces_token(1)[of s sep] t by metis
    with Nil \<open>?t = s\<close> assms(1) show ?thesis
      by (simp add: tokens_def del: dropWhile_eq_Nil_conv takeWhile_eq_all_conv)
  next
    case (Cons c r)
    then have "sep c" by (metis dropWhile_eq_Cons_conv)
    with pieces_token(2)[OF t, of c r] Cons takeWhile_dropWhile_id[of "\<lambda>c. \<not> sep c" s]
    have "pieces sep s = ?t # pieces sep r" by simp
    with Cons ne show ?thesis by (simp add: tokens_def del: takeWhile_eq_Nil_iff)
  qed
qed

definition token_source :: "string option \<Rightarrow> string option \<Rightarrow> string" where
  "token_source save str = (case str of Some s \<Rightarrow> s | None \<Rightarrow> (case save of Some s \<Rightarrow> s | None \<Rightarrow> []))"

lemma strtoken_tokens:
  "strtoken save str fs =
     (case tokens (\<lambda>c. c \<in> set fs) (token_source save str) of
        [] \<Rightarrow> (None, None)
      | t # _ \<Rightarrow> (Some t, snd (strtoken save str fs)))"
  "fst (strtoken save str fs) \<noteq> None \<Longrightarrow>
   tokens (\<lambda>c. c \<in> set fs) (token_source (snd (strtoken save str fs)) None) =
     tl (tokens (\<lambda>c. c \<in> set fs) (token_source save str)) \<and>
   length (token_source (snd (strtoken save str fs)) None) < length (token_source save str)"
proof -
  define sep where "sep = (\<lambda>c. c \<in> set fs)"
  define s where "s = dropWhile sep (token_source save str)"
  define tok where "tok = takeWhile (\<lambda>c. \<not> sep c) s"
  define rest where "rest = dropWhile (\<lambda>c. \<not> sep c) s"
  have eq: "strtoken save str fs =
      (if s = [] then (None, None) else (Some tok, if rest \<noteq> [] then Some (tl rest) else None))"
    unfolding strtoken_def token_source_def Let_def s_def tok_def rest_def sep_def
    unfolding sep_def[symmetric]
    by (cases str; cases save) (simp_all add: list.case_eq_if sep_def del: dropWhile_eq_Nil_conv)
  have tk: "tokens sep (token_source save str) = tokens sep s"
    unfolding s_def by (rule tokens_drop_sep[symmetric])
  have main: "tokens sep s = tok # tokens sep (tl rest)" if "s \<noteq> []"
    unfolding tok_def rest_def
    by (rule tokens_takeWhile[OF that]) (use that hd_dropWhile[of sep] in \<open>simp add: s_def\<close>)
  have main0: "tokens sep s = []" if "s = []" using that by (simp add: tokens_def)
  show "strtoken save str fs = (case tokens (\<lambda>c. c \<in> set fs) (token_source save str) of
        [] \<Rightarrow> (None, None) | t # _ \<Rightarrow> (Some t, snd (strtoken save str fs)))"
    using tk main main0 eq unfolding sep_def[symmetric] by (cases "s = []") simp_all
  assume "fst (strtoken save str fs) \<noteq> None"
  then have ne: "s \<noteq> []" by (auto simp: eq)
  then have src: "token_source (snd (strtoken save str fs)) None = tl rest"
    by (simp add: eq token_source_def)
  have "length rest \<le> length s" unfolding rest_def by (rule length_dropWhile_le)
  moreover have "length s \<le> length (token_source save str)"
    unfolding s_def by (rule length_dropWhile_le)
  moreover have "0 < length s" using ne by simp
  ultimately have "length (tl rest) < length (token_source save str)"
    by (simp only: length_tl)
  then show "tokens (\<lambda>c. c \<in> set fs) (token_source (snd (strtoken save str fs)) None) =
      tl (tokens (\<lambda>c. c \<in> set fs) (token_source save str)) \<and>
      length (token_source (snd (strtoken save str fs)) None) < length (token_source save str)"
    using src main[OF ne] tk unfolding sep_def[symmetric] by simp
qed

lemma strtoken_calls_tokens:
  "length (token_source save str) < n \<Longrightarrow>
   strtoken_calls n save str fs = Some (tokens (\<lambda>c. c \<in> set fs) (token_source save str))"
proof (induction n arbitrary: save str)
  case (Suc n)
  show ?case
  proof (cases "tokens (\<lambda>c. c \<in> set fs) (token_source save str)")
    case Nil
    with strtoken_tokens(1)[of save str fs] show ?thesis by simp
  next
    case (Cons t ts)
    let ?r = "strtoken save str fs"
    from Cons strtoken_tokens(1)[of save str fs] have r: "?r = (Some t, snd ?r)" by simp
    then have "fst ?r \<noteq> None" by (metis fst_conv option.distinct(1))
    from strtoken_tokens(2)[OF this] Cons Suc.prems
    have "strtoken_calls n (snd ?r) None fs = Some ts" by (simp add: Suc.IH)
    with r Cons show ?thesis
      by (metis (mono_tags, lifting) case_prod_conv option.simps(5,9) strtoken_calls.simps(2))
  qed
qed simp

subsection \<open>\<open>basename\<close>, \<open>strlcat\<close>, \<open>strlcpy\<close>, \<open>xstrldup\<close>\<close>

definition basename :: "string \<Rightarrow> string" where
  "basename path = (case c_strrchr path (CHR ''/'') of None \<Rightarrow> path | Some (_, s) \<Rightarrow> s)"

lemma basename_no_slash: "CHR ''/'' \<notin> set (basename path)"
proof (cases "c_strrchr path (CHR ''/'')")
  case None
  then show ?thesis using iffD1[OF c_strrchr_None_iff None] unfolding basename_def None by simp
next
  case (Some p)
  then show ?thesis by (cases p) (auto simp: basename_def dest: c_strrchr_SomeD)
qed

lemma basename_suffix: "suffix (basename path) path"
proof (cases "c_strrchr path (CHR ''/'')")
  case None
  then show ?thesis unfolding basename_def None by simp
next
  case (Some p)
  then show ?thesis by (cases p) (auto simp: basename_def suffix_def dest!: c_strrchr_SomeD)
qed

text \<open>\<open>strlcpy\<close> on the bytes \<open>buf\<close> of the destination: the copying do-while (\<open>n\<close> is what is left
  of the size, \<open>i\<close> the offset of \<open>d\<close> in \<open>buf\<close>, \<open>s\<close> the rest of the source; \<open>done\<close> tells whether
  the NUL was copied), then the terminating write.\<close>

fun copy_loop :: "nat \<Rightarrow> string \<Rightarrow> nat \<Rightarrow> string \<Rightarrow> (string \<times> nat \<times> bool) option" where
  "copy_loop 0 buf i s = Some (buf, i, False)"
| "copy_loop (Suc n) buf i s =
     (if length buf \<le> i then None
      else let buf' = buf[i := deref s]
        in case s of
             [] \<Rightarrow> Some (buf', Suc i, True)
           | c # s' \<Rightarrow> copy_loop n buf' (Suc i) s')"

definition strlcpy :: "string \<Rightarrow> string \<Rightarrow> nat \<Rightarrow> (string \<times> nat) option" where
  "strlcpy buf src siz =
     (case copy_loop (siz - 1) buf 0 src of
        None \<Rightarrow> None
      | Some (buf, i, True) \<Rightarrow> Some (buf, length src)
      | Some (buf, i, False) \<Rightarrow>
          if siz = 0 then Some (buf, length src)
          else if length buf \<le> i then None
          else Some (buf[i := NUL], length src))"

text \<open>\<open>strlcat\<close>: walk to the NUL (or to \<open>siz\<close>), then append.\<close>

fun end_walk :: "nat \<Rightarrow> string \<Rightarrow> nat \<Rightarrow> nat option" where
  "end_walk 0 buf i = Some i"
| "end_walk (Suc n) buf i =
     (if length buf \<le> i then None
      else if buf ! i = NUL then Some i else end_walk n buf (Suc i))"

fun append_loop :: "nat \<Rightarrow> string \<Rightarrow> nat \<Rightarrow> string \<Rightarrow> (string \<times> nat) option" where
  "append_loop n buf i [] = Some (buf, i)"
| "append_loop n buf i (c # s) =
     (if n \<noteq> 1
      then if length buf \<le> i then None else append_loop (n - 1) (buf[i := c]) (Suc i) s
      else append_loop n buf i s)"

definition strlcat :: "string \<Rightarrow> string \<Rightarrow> nat \<Rightarrow> (string \<times> nat) option" where
  "strlcat buf src siz =
     (case end_walk siz buf 0 of
        None \<Rightarrow> None
      | Some dlen \<Rightarrow>
          if siz - dlen = 0 then Some (buf, dlen + length src)
          else case append_loop (siz - dlen) buf dlen src of
                 None \<Rightarrow> None
               | Some (buf, i) \<Rightarrow>
                   if length buf \<le> i then None
                   else Some (buf[i := NUL], dlen + length src))"

definition xstrldup :: "string \<Rightarrow> nat \<Rightarrow> string" where
  "xstrldup s n = c_strlcpy s (min (length s + 1) n)"

lemma copy_loop_eq:
  "NUL \<notin> set s \<Longrightarrow> length pre + n \<le> length pre + length rest \<Longrightarrow>
   copy_loop n (pre @ rest) (length pre) s =
     (if length s < n
      then Some (pre @ s @ NUL # drop (Suc (length s)) rest, length pre + Suc (length s), True)
      else Some (pre @ take n s @ drop n rest, length pre + n, False))"
proof (induction n arbitrary: s pre rest)
  case (Suc n)
  from Suc.prems obtain r rs where rest: "rest = r # rs" by (cases rest) auto
  show ?case
  proof (cases s)
    case Nil
    with rest show ?thesis by (simp add: list_update_append)
  next
    case (Cons c s')
    have "copy_loop n ((pre @ [c]) @ rs) (length (pre @ [c])) s' =
       (if length s' < n
        then Some ((pre @ [c]) @ s' @ NUL # drop (Suc (length s')) rs, length (pre @ [c]) + Suc (length s'), True)
        else Some ((pre @ [c]) @ take n s' @ drop n rs, length (pre @ [c]) + n, False))"
      using Suc.prems Cons rest by (intro Suc.IH) auto
    with Cons rest show ?thesis by (simp add: list_update_append)
  qed
qed simp

lemma strlcpy_eq:
  assumes "NUL \<notin> set src" "siz \<le> length buf" "0 < siz"
  shows "strlcpy buf src siz =
    Some (c_strlcpy src siz @ NUL # drop (Suc (length (c_strlcpy src siz))) buf, length src)"
proof -
  have "copy_loop (siz - 1) buf 0 src =
     (if length src < siz - 1
      then Some (src @ NUL # drop (Suc (length src)) buf, Suc (length src), True)
      else Some (take (siz - 1) src @ drop (siz - 1) buf, siz - 1, False))"
    using copy_loop_eq[of src "[]" "siz - 1" buf] assms by simp
  moreover have "drop (siz - 1) buf = buf ! (siz - 1) # drop siz buf"
    using assms Cons_nth_drop_Suc[of "siz - 1" buf] by simp
  ultimately show ?thesis
    using assms by (auto simp: strlcpy_def c_strlcpy_def list_update_append min_def)
qed

lemma end_walk_eq:
  "NUL \<notin> set d \<Longrightarrow> length d < n \<Longrightarrow>
   end_walk n (pre @ d @ NUL # rest) (length pre) = Some (length pre + length d)"
proof (induction d arbitrary: n pre)
  case Nil
  then show ?case by (cases n) auto
next
  case (Cons c d)
  then obtain m where n: "n = Suc m" by (cases n) auto
  have "end_walk m ((pre @ [c]) @ d @ NUL # rest) (length (pre @ [c])) = Some (length (pre @ [c]) + length d)"
    using Cons.prems n by (intro Cons.IH) auto
  moreover have "c \<noteq> NUL" using Cons.prems by auto
  ultimately show ?case using n by (simp add: nth_append)
qed

lemma append_loop_full: "append_loop (Suc 0) buf i s = Some (buf, i)"
  by (induction s) auto

lemma append_loop_eq:
  "0 < n \<Longrightarrow> n \<le> length rest \<Longrightarrow>
   append_loop n (pre @ rest) (length pre) s =
     Some (pre @ take (n - 1) s @ drop (min (n - 1) (length s)) rest, length pre + min (n - 1) (length s))"
proof (induction s arbitrary: n pre rest)
  case (Cons c s)
  show ?case
  proof (cases "n = 1")
    case True
    then show ?thesis using append_loop_full[of "pre @ rest"] by simp
  next
    case False
    with Cons.prems obtain m where n: "n = Suc (Suc m)" by (cases n; cases "n - 1") auto
    from Cons.prems n obtain r rs where rest: "rest = r # rs" by (cases rest) auto
    have "append_loop (Suc m) ((pre @ [c]) @ rs) (length (pre @ [c])) s =
      Some ((pre @ [c]) @ take (Suc m - 1) s @ drop (min (Suc m - 1) (length s)) rs,
        length (pre @ [c]) + min (Suc m - 1) (length s))"
      using Cons.prems n rest by (intro Cons.IH) auto
    with n rest show ?thesis by (simp add: list_update_append)
  qed
qed simp

lemma strlcat_eq:
  assumes "NUL \<notin> set dst" "siz \<le> length dst + Suc (length rest)" "length dst < siz"
  shows "\<exists>rest'. strlcat (dst @ NUL # rest) src siz =
    Some (c_strlcpy (dst @ src) siz @ NUL # rest', length dst + length src)"
proof -
  have w: "end_walk siz (dst @ NUL # rest) 0 = Some (length dst)"
    using end_walk_eq[of dst siz "[]" rest] assms by simp
  let ?n = "siz - length dst" and ?k = "min (siz - length dst - 1) (length src)"
  have a: "append_loop ?n (dst @ NUL # rest) (length dst) src =
      Some (dst @ take (?n - 1) src @ drop ?k (NUL # rest), length dst + ?k)"
    using assms by (intro append_loop_eq) auto
  have len: "?k < length (NUL # rest)" using assms by auto
  then obtain r rs where r: "drop ?k (NUL # rest) = r # rs"
    by (metis Cons_nth_drop_Suc)
  have "length (take (?n - 1) src) = ?k" by (simp add: min.commute)
  moreover have "c_strlcpy (dst @ src) siz = dst @ take (?n - 1) src"
    using assms by (simp add: c_strlcpy_def)
  ultimately have "strlcat (dst @ NUL # rest) src siz =
      Some (c_strlcpy (dst @ src) siz @ NUL # rs, length dst + length src)"
    using w a r assms by (simp add: strlcat_def list_update_append)
  then show ?thesis by blast
qed

subsection \<open>Properties\<close>

text \<open>Calling \<open>strtoken\<close> repeatedly on a string enumerates exactly its maximal non-empty pieces
  without separators, in order, and then ends; one call more than the length of the string is
  always enough.\<close>

theorem strtoken_enumerates:
  assumes "length str < n"
  shows "strtoken_calls n save (Some str) fs = Some (tokens (\<lambda>c. c \<in> set fs) str)"
  using strtoken_calls_tokens[of save "Some str" n fs] assms by (simp add: token_source_def)

lemma strtoken_enumerates_witness:
  "strtoken_calls 9 None (Some '',a,,bc,'') '','' = Some (tokens (\<lambda>c. c \<in> set '','') '',a,,bc,'') \<and>
   tokens (\<lambda>c. c \<in> set '','') '',a,,bc,'' = [''a'', ''bc'']"
  using strtoken_enumerates[of "'',a,,bc,''" 9 None "'',''"] by (simp add: tokens_def)

text \<open>\<open>strlcpy\<close> and \<open>strlcat\<close> never write past the size given and leave the destination
  terminated, with the string they should hold cut to that size; the result is the length
  they would have liked to store.\<close>

theorem strlcpy_strlcat_bounded:
  assumes "NUL \<notin> set dst" "NUL \<notin> set src" "siz \<le> length dst + Suc (length rest)" "length dst < siz"
  shows "strlcpy (dst @ NUL # rest) src siz = Some (c_strlcpy src siz @ NUL #
      drop (Suc (length (c_strlcpy src siz))) (dst @ NUL # rest), length src) \<and>
    (\<exists>rest'. strlcat (dst @ NUL # rest) src siz =
      Some (c_strlcpy (dst @ src) siz @ NUL # rest', length dst + length src))"
  using strlcpy_eq[of src siz "dst @ NUL # rest"] strlcat_eq[OF assms(1,3,4)] assms by simp

lemma strlcpy_strlcat_bounded_witness:
  "strlcpy (''abc'' @ NUL # ''xy'') ''defgh'' 6 = Some (''defgh'' @ [NUL], 5) \<and>
   (\<exists>rest'. strlcat (''abc'' @ NUL # ''xy'') ''defgh'' 6 = Some (''abcde'' @ NUL # rest', 8))"
  using strlcpy_strlcat_bounded[of "''abc''" "''defgh''" 6 "''xy''"] by (simp add: c_strlcpy_def eval_nat_numeral)

text \<open>On a source of printable characters \<open>clean_string\<close> stays within a buffer of \<open>len\<close> bytes
  and returns its first \<open>len - 3\<close> characters unchanged.\<close>

theorem clean_string_printable:
  assumes "list_all is_clean src" "3 \<le> unat len" "unat len \<le> dest_size"
  shows "clean_string dest_size src len = Some (take (unat len - 3) src)"
  using assms by (rule clean_string_plain)

lemma clean_string_printable_witness:
  "clean_string 8 ''hello world'' 8 = Some ''hello''"
  using clean_string_printable[of "''hello world''" 8 8] by (simp add: is_clean_def)

text \<open>C35. The length of \<open>clean_string\<close> wraps around: when a control character meets the last place
  (after \<open>len - 4\<close> printable ones), the rest of the source is copied whatever its length, past
  the end of any buffer that is not longer than the source.\<close>

theorem clean_string_overflows:
  assumes "list_all is_clean pre" "unat len = length pre + 4" "ord c < 32" "list_all is_clean post"
    "length post < 2 ^ 64 - 1" "dest_size \<le> length pre + length post"
  shows "clean_string dest_size (pre @ c # post) len = None"
proof -
  have "unat (len - 3) = Suc (length pre)"
    using assms(2) by (simp add: unat_sub word_le_nat_alt)
  from clean_loop_wraps[OF assms(1) this assms(3,4,5)] assms(6) show ?thesis
    by (simp add: clean_string_def)
qed

lemma clean_string_overflows_witness:
  "clean_string 8 (''ab'' @ CHR 0x01 # ''cdefgh'') 6 = None"
  by (rule clean_string_overflows) (simp_all add: is_clean_def)

end
