(* ===== verification/Hash.thy ===== *)
theory Hash
  imports Match
begin

text \<open>
  \<^verbatim>\<open>src/hash.c\<close>, the tables that find clients, server IDs, channels, reserved names and
  user hosts by name. A table is an array of bucket heads and the link field of the objects
  (\<open>htable\<close>); adding, deleting and the move-to-front search are written once over a table
  and used for the five tables as the source writes them out five times.

  \<open>table_repr\<close> says which objects each bucket holds. The locale \<open>name_hash\<close> states what the
  tables need of the hash function and the comparison (names that compare equal hash
  equally) and is interpreted with \<open>strhash\<close> and \<open>irccmp\<close>; the locale \<open>registry\<close> is the
  contract of a table as clients see it, a set of objects found by name, and is interpreted
  with the table operations.
\<close>

subsection \<open>The hash function\<close>

definition FNV1_32_INIT :: u32 where "FNV1_32_INIT = 0x811c9dc5"
definition FNV1_32_BITS :: nat where "FNV1_32_BITS = 16"
definition HASHSIZE :: nat where "HASHSIZE = 2 ^ FNV1_32_BITS"

fun fnv_loop :: "u32 \<Rightarrow> string \<Rightarrow> u32 \<Rightarrow> u32" where
  "fnv_loop random_key [] hval = hval"
| "fnv_loop random_key (c # p) hval =
     (let hval = hval + (push_bit 1 hval + push_bit 4 hval + push_bit 7 hval +
                         push_bit 8 hval + push_bit 24 hval);
          hval = hval XOR (of_nat (ord (ToLower c)) XOR random_key)
      in fnv_loop random_key p hval)"

definition strhash :: "u32 \<Rightarrow> string \<Rightarrow> u32" where
  "strhash random_key name =
     (if name = [] then 0
      else let hval = fnv_loop random_key name FNV1_32_INIT
        in drop_bit FNV1_32_BITS hval XOR (hval AND (push_bit FNV1_32_BITS 1 - 1)))"

abbreviation hashv :: "u32 \<Rightarrow> string \<Rightarrow> nat" where
  "hashv key name \<equiv> unat (strhash key name)"

text \<open>The shifts and additions multiply by the 32-bit FNV prime.\<close>

lemma fnv_prime:
  "h + (push_bit 1 h + push_bit 4 h + push_bit 7 h + push_bit 8 h + push_bit 24 h) = 16777619 * (h :: u32)"
  by (simp add: push_bit_eq_mult algebra_simps)

lemma fnv_loop_casefold:
  "map ToLower s = map ToLower t \<Longrightarrow> fnv_loop key s h = fnv_loop key t h"
proof (induction s arbitrary: t h)
  case (Cons c s)
  then obtain d t' where "t = d # t'" "ToLower c = ToLower d" "map ToLower s = map ToLower t'"
    by (cases t) auto
  with Cons.IH[of t'] show ?case by (simp add: Let_def)
qed simp

lemma strhash_casefold: "same_name s t \<Longrightarrow> strhash key s = strhash key t"
  using fnv_loop_casefold[of s t key] by (auto simp: strhash_def same_name_iff Let_def)

lemma xor_low_less:
  fixes a b :: u32
  assumes "unat a < 2 ^ 16" "unat b < 2 ^ 16"
  shows "unat (a XOR b) < 2 ^ 16"
proof -
  have "take_bit 16 (unat a) = unat a" "take_bit 16 (unat b) = unat b"
    using assms by (simp_all add: take_bit_nat_eq_self_iff)
  then have "take_bit 16 (unat (a XOR b)) = unat (a XOR b)"
    by (simp only: unsigned_xor_eq take_bit_xor)
  then show ?thesis by (simp only: take_bit_nat_eq_self_iff)
qed

lemma strhash_bound: "hashv key name < HASHSIZE"
proof -
  have m: "(push_bit 16 1 - 1 :: u32) = mask 16" by (simp add: mask_eq_exp_minus_1)
  have "unat (drop_bit 16 h) < 2 ^ 16" for h :: u32
    using unsigned_less[of h, where ?'a = nat] by (simp add: drop_bit_eq_div unat_div less_mult_imp_div_less)
  moreover have "unat (h AND mask 16) < 2 ^ 16" for h :: u32
    using and_mask_less'[of 16 h] by (simp add: word_less_nat_alt)
  ultimately show ?thesis
    using xor_low_less m by (simp add: strhash_def Let_def HASHSIZE_def FNV1_32_BITS_def)
qed

subsection \<open>One table\<close>

record htable =
  bucket :: "nat \<Rightarrow> ptr option"
  hlink :: "ptr \<Rightarrow> ptr option"

definition table_add :: "u32 \<Rightarrow> (ptr \<Rightarrow> string) \<Rightarrow> ptr \<Rightarrow> htable \<Rightarrow> htable" where
  "table_add key nm p t =
     (let hv = hashv key (nm p)
      in t\<lparr>hlink := (hlink t)(p := bucket t hv), bucket := (bucket t)(hv := Some p)\<rparr>)"

text \<open>\<open>while (tmp->hnext != p) if ((tmp = tmp->hnext) == NULL) return;\<close>\<close>

partial_function (option) del_walk ::
  "(ptr \<Rightarrow> ptr option) \<Rightarrow> ptr \<Rightarrow> ptr \<Rightarrow> ptr option option" where
  "del_walk nxt p tmp =
     (if nxt tmp = Some p then Some (Some tmp)
      else case nxt tmp of
             None \<Rightarrow> Some None
           | Some q \<Rightarrow> del_walk nxt p q)"

definition table_del :: "u32 \<Rightarrow> (ptr \<Rightarrow> string) \<Rightarrow> ptr \<Rightarrow> htable \<Rightarrow> htable option" where
  "table_del key nm p t =
     (let hv = hashv key (nm p)
      in case bucket t hv of
           None \<Rightarrow> Some t
         | Some tmp \<Rightarrow>
             if tmp = p
             then Some (t\<lparr>bucket := (bucket t)(hv := hlink t p), hlink := (hlink t)(p := Some p)\<rparr>)
             else case del_walk (hlink t) p tmp of
                    None \<Rightarrow> None
                  | Some None \<Rightarrow> Some t
                  | Some (Some tmp) \<Rightarrow>
                      (case hlink t tmp of
                         None \<Rightarrow> None
                       | Some n \<Rightarrow>
                           let l = (hlink t)(tmp := hlink t n)
                           in Some (t\<lparr>hlink := l(p := Some p)\<rparr>)))"

text \<open>\<open>while (prev = client_p, (client_p = client_p->hnext) != NULL)\<close> up to the match \<open>P\<close>: the
  node before it and the node.\<close>

partial_function (option) find_walk ::
  "(ptr \<Rightarrow> bool) \<Rightarrow> (ptr \<Rightarrow> ptr option) \<Rightarrow> ptr \<Rightarrow> (ptr \<times> ptr) option option" where
  "find_walk P nxt prev =
     (case nxt prev of
        None \<Rightarrow> Some None
      | Some c \<Rightarrow> if P c then Some (Some (prev, c)) else find_walk P nxt c)"

definition table_find ::
  "u32 \<Rightarrow> (ptr \<Rightarrow> bool) \<Rightarrow> string \<Rightarrow> htable \<Rightarrow> (ptr option \<times> htable) option" where
  "table_find key P name t =
     (let hv = hashv key name
      in case bucket t hv of
           None \<Rightarrow> Some (None, t)
         | Some c \<Rightarrow>
             if P c then Some (Some c, t)
             else case find_walk P (hlink t) c of
                    None \<Rightarrow> None
                  | Some None \<Rightarrow> Some (None, t)
                  | Some (Some (prev, c)) \<Rightarrow>
                      let l = (hlink t)(prev := hlink t c);
                          l = l(c := bucket t hv)
                      in Some (Some c, t\<lparr>hlink := l, bucket := (bucket t)(hv := Some c)\<rparr>))"

definition table_repr :: "u32 \<Rightarrow> (ptr \<Rightarrow> string) \<Rightarrow> htable \<Rightarrow> (nat \<Rightarrow> ptr list) \<Rightarrow> bool" where
  "table_repr key nm t B \<longleftrightarrow>
     (\<forall>b. chain (hlink t) (bucket t b) (B b) \<and> (\<forall>p \<in> set (B b). hashv key (nm p) = b))"

definition members :: "(nat \<Rightarrow> ptr list) \<Rightarrow> ptr set" where
  "members B = (\<Union>b. set (B b))"

lemma table_repr_chain: "table_repr key nm t B \<Longrightarrow> chain (hlink t) (bucket t b) (B b)"
  by (simp add: table_repr_def)

lemma table_repr_hash: "table_repr key nm t B \<Longrightarrow> p \<in> set (B b) \<Longrightarrow> hashv key (nm p) = b"
  by (simp add: table_repr_def)

lemma table_repr_members:
  "table_repr key nm t B \<Longrightarrow> p \<in> members B \<longleftrightarrow> p \<in> set (B (hashv key (nm p)))"
  by (auto simp: members_def table_repr_def)

lemma table_repr_empty: "table_repr key nm \<lparr>bucket = \<lambda>_. None, hlink = l\<rparr> (\<lambda>_. [])"
  by (simp add: table_repr_def)

lemma table_add_repr:
  assumes "table_repr key nm t B" "p \<notin> members B"
  shows "table_repr key nm (table_add key nm p t) (B(hashv key (nm p) := p # B (hashv key (nm p))))"
  using assms by (auto simp: table_repr_def table_add_def Let_def chain_frame members_def)

lemma del_walk_miss:
  "chain nxt (Some a) (a # ps) \<Longrightarrow> p \<notin> set ps \<Longrightarrow> del_walk nxt p a = Some None"
proof (induction ps arbitrary: a)
  case (Cons q qs)
  then have "nxt a = Some q" "q \<noteq> p" "del_walk nxt p q = Some None" by auto
  then show ?case by (subst del_walk.simps) simp
qed (simp add: del_walk.simps)

lemma del_walk_hit:
  "chain nxt (Some a) (a # ps) \<Longrightarrow> a # ps = xs @ b # p # ys \<Longrightarrow> del_walk nxt p a = Some (Some b)"
proof (induction xs arbitrary: a ps)
  case Nil
  then show ?case by (subst del_walk.simps) simp
next
  case (Cons x xs)
  then have ps: "ps = xs @ b # p # ys" by simp
  moreover obtain q qs where "xs @ b # p # ys = q # qs" by (cases xs) auto
  ultimately have q: "ps = q # qs" by simp
  with Cons.prems(1) have n: "nxt a = Some q" "chain nxt (Some q) (q # qs)" by auto
  have "q \<noteq> p" using chain_distinct[OF n(2)] q ps by (cases xs) auto
  moreover have "del_walk nxt p q = Some (Some b)" using Cons.IH[OF n(2)] ps q by simp
  ultimately show ?case using n by (subst del_walk.simps) simp
qed

text \<open>Deleting a member takes it out of its bucket; deleting a stranger changes nothing.\<close>

lemma table_del_repr:
  assumes r: "table_repr key nm t B" and p: "p \<in> members B"
  shows "\<exists>t'. table_del key nm p t = Some t' \<and>
    table_repr key nm t' (B(hashv key (nm p) := remove1 p (B (hashv key (nm p))))) \<and> hlink t' p = Some p"
proof -
  let ?h = "hashv key (nm p)"
  have mem: "p \<in> set (B ?h)" using p table_repr_members[OF r] by blast
  have c: "chain (hlink t) (bucket t ?h) (B ?h)" by (rule table_repr_chain[OF r])
  have out: "p \<notin> set (B b)" if "b \<noteq> ?h" for b using that table_repr_hash[OF r] by blast
  from mem obtain xs ys where B: "B ?h = xs @ p # ys" by (meson split_list)
  have d: "distinct (xs @ p # ys)" using chain_distinct[OF c] B by simp
  then have rem: "remove1 p (B ?h) = xs @ ys" using B by (simp add: remove1_append)
  show ?thesis
  proof (cases xs rule: rev_cases)
    case Nil
    with c B have b: "bucket t ?h = Some p" "chain (hlink t) (hlink t p) ys" by auto
    have "table_repr key nm (t\<lparr>bucket := (bucket t)(?h := hlink t p), hlink := (hlink t)(p := Some p)\<rparr>)
        (B(?h := ys))"
      using r b d Nil B out by (auto simp: table_repr_def chain_frame)
    with b rem Nil show ?thesis by (simp add: table_del_def Let_def)
  next
    case (snoc zs a)
    have disj: "set zs \<inter> set (a # p # ys) = {}" "p \<noteq> a" "p \<notin> set (zs @ a # ys)" using d snoc by auto
    obtain h ws where hd: "B ?h = h # ws" "h \<noteq> p" using B snoc d by (cases zs) auto
    with c have b: "bucket t ?h = Some h" "chain (hlink t) (Some h) (h # ws)" by auto
    have "h # ws = zs @ a # p # ys" using hd B snoc by simp
    then have w: "del_walk (hlink t) p h = Some (Some a)" by (rule del_walk_hit[OF b(2)])
    have ca: "chain (hlink t) (bucket t ?h) (zs @ a # p # ys)" using c B snoc by simp
    then have an: "hlink t a = Some p"
    proof -
      have "\<exists>m. chain (hlink t) m (a # p # ys)" by (rule chain_append_split[OF ca])
      then show ?thesis by auto
    qed
    let ?l = "(hlink t)(a := hlink t p, p := Some p)"
    have "chain ?l (bucket t ?h) (zs @ a # ys)"
      using chain_unlink[OF ca] disj by (simp add: chain_frame)
    moreover have "chain ?l (bucket t b) (B b)" if "b \<noteq> ?h" for b
    proof -
      have "a \<in> set (B ?h)" using B snoc by simp
      then have "hashv key (nm a) = ?h" by (rule table_repr_hash[OF r])
      then have "a \<notin> set (B b)" using that table_repr_hash[OF r] by metis
      with out[OF that] table_repr_chain[OF r, of b] show ?thesis by (simp add: chain_frame)
    qed
    ultimately have "table_repr key nm (t\<lparr>hlink := ?l\<rparr>) (B(?h := zs @ a # ys))"
      using r B snoc by (auto simp: table_repr_def)
    with b hd w an rem snoc show ?thesis by (simp add: table_del_def Let_def)
  qed
qed

lemma table_del_stranger:
  assumes r: "table_repr key nm t B" and p: "p \<notin> members B"
  shows "table_del key nm p t = Some t"
proof (cases "B (hashv key (nm p))")
  case Nil
  with table_repr_chain[OF r, of "hashv key (nm p)"] show ?thesis by (simp add: table_del_def)
next
  case (Cons a ps)
  with table_repr_chain[OF r, of "hashv key (nm p)"]
  have c: "bucket t (hashv key (nm p)) = Some a" "chain (hlink t) (Some a) (a # ps)" by auto
  have "p \<notin> set (B (hashv key (nm p)))" using p unfolding members_def by blast
  then have "p \<notin> set (a # ps)" using Cons by simp
  with c del_walk_miss[OF c(2), of p] show ?thesis by (simp add: table_del_def)
qed

subsection \<open>The search\<close>

text \<open>The bucket after a hit: the found node first, the others in their order.\<close>

definition to_front :: "ptr \<Rightarrow> ptr list \<Rightarrow> ptr list" where
  "to_front p ps = p # remove1 p ps"

lemma find_walk_chain:
  "chain nxt (Some a) (a # ps) \<Longrightarrow>
   (List.find P ps = None \<longrightarrow> find_walk P nxt a = Some None) \<and>
   (\<forall>c. List.find P ps = Some c \<longrightarrow>
      (\<exists>xs b ys. a # ps = xs @ b # c # ys \<and> find_walk P nxt a = Some (Some (b, c))))"
proof (induction ps arbitrary: a)
  case Nil
  then show ?case by (subst find_walk.simps) simp
next
  case (Cons q qs)
  then have n: "nxt a = Some q" "chain nxt (Some q) (q # qs)" by auto
  show ?case
  proof (cases "P q")
    case True
    with n have "find_walk P nxt a = Some (Some (a, q))" by (subst find_walk.simps) simp
    with True show ?thesis by (auto intro: exI[of _ "[]"])
  next
    case False
    with n have "find_walk P nxt a = find_walk P nxt q" by (subst find_walk.simps) simp
    moreover have "\<exists>xs b ys. a # q # qs = xs @ b # c # ys \<and> find_walk P nxt q = Some (Some (b, c))"
      if "List.find P qs = Some c" for c
    proof -
      from Cons.IH[OF n(2)] that obtain xs b ys
        where "q # qs = xs @ b # c # ys" "find_walk P nxt q = Some (Some (b, c))" by blast
      then have "a # q # qs = (a # xs) @ b # c # ys \<and> find_walk P nxt q = Some (Some (b, c))" by simp
      then show ?thesis by blast
    qed
    ultimately show ?thesis using Cons.IH[OF n(2)] False by simp
  qed
qed

lemma table_find_repr:
  assumes r: "table_repr key nm t B"
  shows "case List.find P (B (hashv key name)) of
      None \<Rightarrow> table_find key P name t = Some (None, t)
    | Some p \<Rightarrow> \<exists>t'. table_find key P name t = Some (Some p, t') \<and>
        table_repr key nm t' (B(hashv key name := to_front p (B (hashv key name))))"
proof (cases "B (hashv key name)")
  case Nil
  with table_repr_chain[OF r, of "hashv key name"] show ?thesis by (simp add: table_find_def)
next
  let ?h = "hashv key name"
  case (Cons a ps)
  with table_repr_chain[OF r, of ?h]
  have c: "bucket t ?h = Some a" "chain (hlink t) (Some a) (a # ps)" by auto
  have d: "distinct (a # ps)" by (rule chain_distinct[OF c(2)])
  show ?thesis
  proof (cases "P a")
    case True
    then have "to_front a (a # ps) = a # ps" by (simp add: to_front_def)
    then have "B(?h := to_front a (B ?h)) = B" using Cons by (simp add: fun_upd_idem)
    with True c Cons r show ?thesis by (simp add: table_find_def)
  next
    case False
    show ?thesis
    proof (cases "List.find P ps")
      case None
      with find_walk_chain[OF c(2), of P] False c Cons show ?thesis by (simp add: table_find_def)
    next
      case (Some x)
      with find_walk_chain[OF c(2), of P] obtain xs b ys where
        sp: "a # ps = xs @ b # x # ys" "find_walk P (hlink t) a = Some (Some (b, x))" by blast
      have rem: "to_front x (a # ps) = x # xs @ b # ys"
        using d sp(1) by (auto simp: to_front_def remove1_append)
      have un: "chain ((hlink t)(b := hlink t x)) (Some a) (xs @ b # ys)"
        using c(2) chain_unlink[of "hlink t" "Some a" xs b x ys] by (simp only: sp(1))
      have xn: "x \<notin> set (xs @ b # ys)" using d sp(1) by auto
      let ?l = "(hlink t)(b := hlink t x, x := Some a)"
      have "chain ?l (Some x) (x # xs @ b # ys)" using un xn by (simp add: chain_frame)
      moreover have "chain ?l (bucket t k) (B k)" if "k \<noteq> ?h" for k
      proof -
        have "b \<in> set (B ?h)" "x \<in> set (B ?h)" unfolding Cons sp(1) by auto
        then have "hashv key (nm b) = ?h" "hashv key (nm x) = ?h" using table_repr_hash[OF r] by auto
        then have "b \<notin> set (B k)" "x \<notin> set (B k)" using that table_repr_hash[OF r] by metis+
        with table_repr_chain[OF r, of k] show ?thesis by (simp add: chain_frame)
      qed
      moreover have "set (x # xs @ b # ys) = set (B ?h)" unfolding Cons sp(1) by auto
      then have "\<forall>p \<in> set (x # xs @ b # ys). hashv key (nm p) = ?h" using table_repr_hash[OF r] by metis
      ultimately have "table_repr key nm (t\<lparr>hlink := ?l, bucket := (bucket t)(?h := Some x)\<rparr>)
          (B(?h := to_front x (a # ps)))"
        using r unfolding rem by (auto simp: table_repr_def)
      with Some False c Cons sp(2) show ?thesis by (simp add: table_find_def Let_def)
    qed
  qed
qed

lemma set_to_front: "p \<in> set ps \<Longrightarrow> distinct ps \<Longrightarrow> set (to_front p ps) = set ps"
  by (auto simp: to_front_def set_remove1_eq)

lemma members_upd: "members (B(h := ps)) = (members B - set (B h)) \<union> set ps"
  if "\<And>b. b \<noteq> h \<Longrightarrow> set (B b) \<inter> set (B h) = {}"
  using that unfolding members_def by (auto split: if_splits; blast)

lemma table_repr_disjoint: "table_repr key nm t B \<Longrightarrow> b \<noteq> h \<Longrightarrow> set (B b) \<inter> set (B h) = {}"
  by (auto dest: table_repr_hash)

subsection \<open>Interfaces\<close>

text \<open>What a bucketed search needs: names that compare equal share their bucket. Then looking
  in one bucket is looking everywhere.\<close>

locale name_hash =
  fixes hash :: "'k \<Rightarrow> nat" and same :: "'k \<Rightarrow> 'k \<Rightarrow> bool"
  assumes same_hash: "same k n \<Longrightarrow> hash k = hash n"
begin

lemma bucket_complete:
  assumes "\<And>b p. p \<in> set (B b) \<Longrightarrow> hash (nm p) = b" "\<And>p. P p \<Longrightarrow> same k (nm p)"
  shows "List.find P (B (hash k)) = None \<longleftrightarrow> (\<forall>p \<in> members B. \<not> P p)"
    "List.find P (B (hash k)) = Some p \<Longrightarrow> p \<in> members B \<and> P p"
proof -
  have "p \<in> set (B (hash k))" if "p \<in> members B" "P p" for p
  proof -
    from that(1) obtain b where b: "p \<in> set (B b)" by (auto simp: members_def)
    with assms(1) have "hash (nm p) = b" by blast
    with assms(2)[OF that(2)] same_hash b show ?thesis by metis
  qed
  then show "List.find P (B (hash k)) = None \<longleftrightarrow> (\<forall>p \<in> members B. \<not> P p)"
    unfolding find_None_iff members_def by blast
  show "List.find P (B (hash k)) = Some p \<Longrightarrow> p \<in> members B \<and> P p"
    using nth_mem by (fastforce simp: find_Some_iff members_def)
qed

end

interpretation strh: name_hash "hashv key" same_name for key
  by unfold_locales (simp add: strhash_casefold)

text \<open>A registry: a set of named objects, entered, removed and found by name. A run of operations
  with the answers of its searches (\<open>registry_run\<close>) against what it should do to a set
  (\<open>registry_spec\<close>), when no object is entered twice or removed while absent (\<open>proper\<close>).\<close>

datatype reg_op = Enter ptr | Leave ptr | Find string

fun registry_run ::
  "(ptr \<Rightarrow> 's \<Rightarrow> 's) \<Rightarrow> (ptr \<Rightarrow> 's \<Rightarrow> 's option) \<Rightarrow> (string \<Rightarrow> 's \<Rightarrow> (ptr option \<times> 's) option) \<Rightarrow>
   reg_op list \<Rightarrow> 's \<Rightarrow> (ptr option list \<times> 's) option" where
  "registry_run add del look [] s = Some ([], s)"
| "registry_run add del look (Enter p # ops) s = registry_run add del look ops (add p s)"
| "registry_run add del look (Leave p # ops) s =
     (case del p s of None \<Rightarrow> None | Some s \<Rightarrow> registry_run add del look ops s)"
| "registry_run add del look (Find k # ops) s =
     (case look k s of
        None \<Rightarrow> None
      | Some (r, s) \<Rightarrow> map_option (\<lambda>(rs, s). (r # rs, s)) (registry_run add del look ops s))"

fun registry_spec ::
  "(ptr \<Rightarrow> string) \<Rightarrow> reg_op list \<Rightarrow> ptr set \<Rightarrow> ptr option list \<Rightarrow> ptr set \<Rightarrow> bool" where
  "registry_spec nm [] M rs N \<longleftrightarrow> rs = [] \<and> N = M"
| "registry_spec nm (Enter p # ops) M rs N \<longleftrightarrow> registry_spec nm ops (insert p M) rs N"
| "registry_spec nm (Leave p # ops) M rs N \<longleftrightarrow> registry_spec nm ops (M - {p}) rs N"
| "registry_spec nm (Find k # ops) M rs N \<longleftrightarrow>
     (\<exists>r rs'. rs = r # rs' \<and> registry_spec nm ops M rs' N \<and>
       (case r of None \<Rightarrow> \<forall>p \<in> M. \<not> same_name k (nm p) | Some p \<Rightarrow> p \<in> M \<and> same_name k (nm p)))"

fun proper :: "reg_op list \<Rightarrow> ptr set \<Rightarrow> bool" where
  "proper [] M \<longleftrightarrow> True"
| "proper (Enter p # ops) M \<longleftrightarrow> p \<notin> M \<and> proper ops (insert p M)"
| "proper (Leave p # ops) M \<longleftrightarrow> p \<in> M \<and> proper ops (M - {p})"
| "proper (Find k # ops) M \<longleftrightarrow> proper ops M"

locale registry =
  fixes repr :: "'s \<Rightarrow> ptr set \<Rightarrow> bool"
    and nm :: "ptr \<Rightarrow> string"
    and add :: "ptr \<Rightarrow> 's \<Rightarrow> 's"
    and del :: "ptr \<Rightarrow> 's \<Rightarrow> 's option"
    and look :: "string \<Rightarrow> 's \<Rightarrow> (ptr option \<times> 's) option"
  assumes repr_add: "repr s M \<Longrightarrow> p \<notin> M \<Longrightarrow> repr (add p s) (insert p M)"
    and repr_del: "repr s M \<Longrightarrow> p \<in> M \<Longrightarrow> \<exists>s'. del p s = Some s' \<and> repr s' (M - {p})"
    and repr_look: "repr s M \<Longrightarrow> \<exists>r s'. look k s = Some (r, s') \<and> repr s' M \<and>
      (case r of None \<Rightarrow> \<forall>p \<in> M. \<not> same_name k (nm p) | Some p \<Rightarrow> p \<in> M \<and> same_name k (nm p))"
begin

lemma run_spec:
  "repr s M \<Longrightarrow> proper ops M \<Longrightarrow>
   \<exists>rs s' N. registry_run add del look ops s = Some (rs, s') \<and> registry_spec nm ops M rs N \<and> repr s' N"
proof (induction ops arbitrary: s M)
  case Nil
  then show ?case by simp
next
  case (Cons x ops)
  show ?case
  proof (cases x)
    case (Enter p)
    with Cons show ?thesis using Cons.IH[OF repr_add] by simp
  next
    case (Leave p)
    with Cons.prems repr_del[of s M p] obtain s' where "del p s = Some s'" "repr s' (M - {p})" by auto
    with Cons Leave show ?thesis using Cons.IH[of s' "M - {p}"] by simp
  next
    case (Find k)
    obtain r s' where "look k s = Some (r, s')" "repr s' M"
      "case r of None \<Rightarrow> \<forall>p \<in> M. \<not> same_name k (nm p) | Some p \<Rightarrow> p \<in> M \<and> same_name k (nm p)"
      using repr_look[OF Cons.prems(1), of k] by blast
    with Cons Find show ?thesis using Cons.IH[of s' M] by fastforce
  qed
qed

text \<open>With pairwise different names a search has one possible answer.\<close>

lemma look_unique:
  assumes "repr s M" "p \<in> M" "same_name k (nm p)"
    "\<And>q r. q \<in> M \<Longrightarrow> r \<in> M \<Longrightarrow> same_name (nm q) (nm r) \<Longrightarrow> q = r"
  shows "\<exists>s'. look k s = Some (Some p, s') \<and> repr s' M"
proof -
  obtain r s' where l: "look k s = Some (r, s')" "repr s' M"
    "case r of None \<Rightarrow> \<forall>p \<in> M. \<not> same_name k (nm p) | Some p \<Rightarrow> p \<in> M \<and> same_name k (nm p)"
    using repr_look[OF assms(1), of k] by blast
  with assms(2,3) obtain q where "r = Some q" "q \<in> M" "same_name k (nm q)" by (cases r) auto
  with assms(2-4) have "r = Some p" by (metis same_name_sym same_name_trans)
  with l show ?thesis by blast
qed

end

text \<open>A registry that can search by any predicate implying the name: it gives the plain one.\<close>

locale registry_search =
  fixes repr :: "'s \<Rightarrow> ptr set \<Rightarrow> bool"
    and nm :: "ptr \<Rightarrow> string"
    and add :: "ptr \<Rightarrow> 's \<Rightarrow> 's"
    and del :: "ptr \<Rightarrow> 's \<Rightarrow> 's option"
    and search :: "(ptr \<Rightarrow> bool) \<Rightarrow> string \<Rightarrow> 's \<Rightarrow> (ptr option \<times> 's) option"
  assumes search_add: "repr s M \<Longrightarrow> p \<notin> M \<Longrightarrow> repr (add p s) (insert p M)"
    and search_del: "repr s M \<Longrightarrow> p \<in> M \<Longrightarrow> \<exists>s'. del p s = Some s' \<and> repr s' (M - {p})"
    and search_law: "repr s M \<Longrightarrow> (\<And>p. P p \<Longrightarrow> same_name k (nm p)) \<Longrightarrow>
      \<exists>r s'. search P k s = Some (r, s') \<and> repr s' M \<and>
        (case r of None \<Rightarrow> \<forall>p \<in> M. \<not> P p | Some p \<Rightarrow> p \<in> M \<and> P p)"

sublocale registry_search \<subseteq> registry repr nm add del "\<lambda>k. search (\<lambda>p. same_name k (nm p)) k"
  by unfold_locales (auto intro: search_add search_del search_law)

definition table_of :: "u32 \<Rightarrow> (ptr \<Rightarrow> string) \<Rightarrow> htable \<Rightarrow> ptr set \<Rightarrow> bool" where
  "table_of key nm t M \<longleftrightarrow> (\<exists>B. table_repr key nm t B \<and> M = members B)"

lemma table_of_empty: "table_of key nm \<lparr>bucket = \<lambda>_. None, hlink = l\<rparr> {}"
  unfolding table_of_def using table_repr_empty by (intro exI[of _ "\<lambda>_. []"]) (simp add: members_def)

lemma table_of_add:
  assumes "table_of key nm t M" "p \<notin> M"
  shows "table_of key nm (table_add key nm p t) (insert p M)"
proof -
  from assms obtain B where B: "table_repr key nm t B" "M = members B" by (auto simp: table_of_def)
  let ?h = "hashv key (nm p)"
  have "members (B(?h := p # B ?h)) = insert p M"
    using members_upd[of ?h B "p # B ?h"] table_repr_disjoint[OF B(1)] B(2)
    by (auto simp: members_def)
  with table_add_repr[OF B(1)] assms(2) B(2) show ?thesis unfolding table_of_def by metis
qed

lemma table_of_del:
  assumes "table_of key nm t M" "p \<in> M"
  shows "\<exists>t'. table_del key nm p t = Some t' \<and> table_of key nm t' (M - {p}) \<and> hlink t' p = Some p"
proof -
  from assms obtain B where B: "table_repr key nm t B" "M = members B" by (auto simp: table_of_def)
  let ?h = "hashv key (nm p)"
  have d: "distinct (B ?h)" using chain_distinct table_repr_chain[OF B(1)] by blast
  have mem: "p \<in> set (B ?h)" using assms(2) B table_repr_members[OF B(1)] by blast
  have "members (B(?h := remove1 p (B ?h))) = M - {p}"
    using members_upd[of ?h B "remove1 p (B ?h)"] table_repr_disjoint[OF B(1)] B(2) d mem
    by (auto simp: members_def set_remove1_eq)
  with table_del_repr[OF B(1)] assms(2) B(2) show ?thesis unfolding table_of_def by metis
qed

lemma table_of_del_stranger: "table_of key nm t M \<Longrightarrow> p \<notin> M \<Longrightarrow> table_del key nm p t = Some t"
  using table_del_stranger by (auto simp: table_of_def)

lemma table_of_find:
  assumes t: "table_of key nm t M" and P: "\<And>p. P p \<Longrightarrow> same_name k (nm p)"
  shows "\<exists>r t'. table_find key P k t = Some (r, t') \<and> table_of key nm t' M \<and>
    (case r of None \<Rightarrow> \<forall>p \<in> M. \<not> P p | Some p \<Rightarrow> p \<in> M \<and> P p)"
proof -
  from t obtain B where B: "table_repr key nm t B" "M = members B" by (auto simp: table_of_def)
  let ?h = "hashv key k"
  note comp = strh.bucket_complete[where key = key and k = k and P = P and nm = nm and B = B]
  have hB: "\<And>b p. p \<in> set (B b) \<Longrightarrow> hashv key (nm p) = b" by (rule table_repr_hash[OF B(1)])
  show ?thesis
  proof (cases "List.find P (B ?h)")
    case None
    with comp(1)[OF hB P] table_find_repr[OF B(1), where P = P and name = k] t B(2) show ?thesis by auto
  next
    case (Some p)
    with table_find_repr[OF B(1), where P = P and name = k] obtain t' where
      t': "table_find key P k t = Some (Some p, t')" "table_repr key nm t' (B(?h := to_front p (B ?h)))"
      by auto
    have "p \<in> set (B ?h)" using Some by (auto simp: find_Some_iff)
    moreover have "distinct (B ?h)" using chain_distinct table_repr_chain[OF B(1)] by blast
    ultimately have "members (B(?h := to_front p (B ?h))) = M"
      using members_upd[of ?h B "to_front p (B ?h)"] table_repr_disjoint[OF B(1)] B(2)
      by (auto simp: members_def set_to_front)
    with t' have "table_of key nm t' M" unfolding table_of_def by metis
    with t' comp(2)[OF hB P Some] B(2) show ?thesis by auto
  qed
qed

interpretation table: registry_search "table_of key nm" nm "table_add key nm" "table_del key nm"
  "table_find key" for key nm
proof
  show "\<exists>s'. table_del key nm p s = Some s' \<and> table_of key nm s' (M - {p})"
    if "table_of key nm s M" "p \<in> M" for s M p
    using table_of_del[OF that] by blast
qed (auto intro: table_of_add table_of_find)

subsection \<open>The five tables\<close>

definition IRC_MAXSID :: nat where "IRC_MAXSID = 3"

record hash_state =
  ircd_random_key :: u32
  client_name :: "ptr \<Rightarrow> string"
  client_id :: "ptr \<Rightarrow> string"
  client_status :: "ptr \<Rightarrow> nat"
  chname :: "ptr \<Rightarrow> string"
  resv_name :: "ptr \<Rightarrow> string"
  uh_host :: "ptr \<Rightarrow> string"
  idTable :: htable
  clientTable :: htable
  channelTable :: htable
  userhostTable :: htable
  resvchannelTable :: htable

definition init_hash :: "nat \<Rightarrow> hash_state \<Rightarrow> hash_state" where
  "init_hash rand s =
     s\<lparr>ircd_random_key := of_nat (rand mod 256),
       idTable := (idTable s)\<lparr>bucket := \<lambda>_. None\<rparr>,
       clientTable := (clientTable s)\<lparr>bucket := \<lambda>_. None\<rparr>,
       channelTable := (channelTable s)\<lparr>bucket := \<lambda>_. None\<rparr>,
       userhostTable := (userhostTable s)\<lparr>bucket := \<lambda>_. None\<rparr>,
       resvchannelTable := (resvchannelTable s)\<lparr>bucket := \<lambda>_. None\<rparr>\<rparr>"

definition hash_add_client :: "ptr \<Rightarrow> hash_state \<Rightarrow> hash_state" where
  "hash_add_client p s =
     s\<lparr>clientTable := table_add (ircd_random_key s) (client_name s) p (clientTable s)\<rparr>"

definition hash_add_channel :: "ptr \<Rightarrow> hash_state \<Rightarrow> hash_state" where
  "hash_add_channel p s =
     s\<lparr>channelTable := table_add (ircd_random_key s) (chname s) p (channelTable s)\<rparr>"

definition hash_add_resv :: "ptr \<Rightarrow> hash_state \<Rightarrow> hash_state" where
  "hash_add_resv p s =
     s\<lparr>resvchannelTable := table_add (ircd_random_key s) (resv_name s) p (resvchannelTable s)\<rparr>"

definition hash_add_userhost :: "ptr \<Rightarrow> hash_state \<Rightarrow> hash_state" where
  "hash_add_userhost p s =
     s\<lparr>userhostTable := table_add (ircd_random_key s) (uh_host s) p (userhostTable s)\<rparr>"

definition hash_add_id :: "ptr \<Rightarrow> hash_state \<Rightarrow> hash_state" where
  "hash_add_id p s = s\<lparr>idTable := table_add (ircd_random_key s) (client_id s) p (idTable s)\<rparr>"

definition hash_del_id :: "ptr \<Rightarrow> hash_state \<Rightarrow> hash_state option" where
  "hash_del_id p s =
     map_option (\<lambda>t. s\<lparr>idTable := t\<rparr>) (table_del (ircd_random_key s) (client_id s) p (idTable s))"

definition hash_del_client :: "ptr \<Rightarrow> hash_state \<Rightarrow> hash_state option" where
  "hash_del_client p s =
     map_option (\<lambda>t. s\<lparr>clientTable := t\<rparr>)
       (table_del (ircd_random_key s) (client_name s) p (clientTable s))"

definition hash_del_userhost :: "ptr \<Rightarrow> hash_state \<Rightarrow> hash_state option" where
  "hash_del_userhost p s =
     map_option (\<lambda>t. s\<lparr>userhostTable := t\<rparr>)
       (table_del (ircd_random_key s) (uh_host s) p (userhostTable s))"

definition hash_del_channel :: "ptr \<Rightarrow> hash_state \<Rightarrow> hash_state option" where
  "hash_del_channel p s =
     map_option (\<lambda>t. s\<lparr>channelTable := t\<rparr>)
       (table_del (ircd_random_key s) (chname s) p (channelTable s))"

definition hash_del_resv :: "ptr \<Rightarrow> hash_state \<Rightarrow> hash_state option" where
  "hash_del_resv p s =
     map_option (\<lambda>t. s\<lparr>resvchannelTable := t\<rparr>)
       (table_del (ircd_random_key s) (resv_name s) p (resvchannelTable s))"

definition find_client :: "string \<Rightarrow> hash_state \<Rightarrow> (ptr option \<times> hash_state) option" where
  "find_client name s =
     map_option (\<lambda>(r, t). (r, s\<lparr>clientTable := t\<rparr>))
       (table_find (ircd_random_key s) (\<lambda>c. irccmp name (client_name s c) = 0) name (clientTable s))"

definition hash_find_id :: "string \<Rightarrow> hash_state \<Rightarrow> (ptr option \<times> hash_state) option" where
  "hash_find_id name s =
     map_option (\<lambda>(r, t). (r, s\<lparr>idTable := t\<rparr>))
       (table_find (ircd_random_key s) (\<lambda>c. irccmp name (client_id s c) = 0) name (idTable s))"

definition hash_find_channel :: "string \<Rightarrow> hash_state \<Rightarrow> (ptr option \<times> hash_state) option" where
  "hash_find_channel name s =
     map_option (\<lambda>(r, t). (r, s\<lparr>channelTable := t\<rparr>))
       (table_find (ircd_random_key s) (\<lambda>c. irccmp name (chname s c) = 0) name (channelTable s))"

definition hash_find_resv :: "string \<Rightarrow> hash_state \<Rightarrow> (ptr option \<times> hash_state) option" where
  "hash_find_resv name s =
     map_option (\<lambda>(r, t). (r, s\<lparr>resvchannelTable := t\<rparr>))
       (table_find (ircd_random_key s) (\<lambda>c. irccmp name (resv_name s c) = 0) name (resvchannelTable s))"

definition hash_find_userhost :: "string \<Rightarrow> hash_state \<Rightarrow> (ptr option \<times> hash_state) option" where
  "hash_find_userhost host s =
     map_option (\<lambda>(r, t). (r, s\<lparr>userhostTable := t\<rparr>))
       (table_find (ircd_random_key s) (\<lambda>c. irccmp host (uh_host s c) = 0) host (userhostTable s))"

text \<open>\<open>hash_find_masked_server\<close>: \<open>p\<close> is the rest of the buffer; \<open>*--s = '*'\<close> turns the character
  before the dot into a star, so the name looked up is a star and the string from the dot.
  At the start of the buffer there is no such character (\<open>None\<close>).\<close>

function masked_loop :: "bool \<Rightarrow> string \<Rightarrow> hash_state \<Rightarrow> (ptr option \<times> hash_state) option" where
  "masked_loop at_start p s =
     (case c_strchr p CHR ''.'' of
        None \<Rightarrow> Some (None, s)
      | Some dot \<Rightarrow>
          if at_start \<and> dot = p then None
          else case find_client (CHR ''*'' # dot) s of
                 None \<Rightarrow> None
               | Some (Some server, s) \<Rightarrow> Some (Some server, s)
               | Some (None, s) \<Rightarrow> masked_loop False (tl dot) s)"
  by pat_completeness auto

termination
proof (relation "measure (\<lambda>(_, p, _). length p)", goal_cases)
  case (2 at_start p s dot)
  then have "suffix dot p" "dot \<noteq> []" using c_strchr_SomeD[of p "CHR ''.''" dot] by auto
  then have "length (tl dot) < length p" using suffix_length_le[of dot p] by (cases dot) auto
  then show ?case by simp
qed simp

declare masked_loop.simps [simp del]

definition hash_find_masked_server :: "string \<Rightarrow> hash_state \<Rightarrow> (ptr option \<times> hash_state) option" where
  "hash_find_masked_server name s =
     (if deref name = CHR ''*'' \<or> deref name = CHR ''.'' then Some (None, s)
      else masked_loop True (c_strlcpy name (HOSTLEN + 1)) s)"

definition find_server :: "string \<Rightarrow> hash_state \<Rightarrow> (ptr option \<times> hash_state) option" where
  "find_server name s =
     (case (if IsDigit (deref name) \<and> length name = IRC_MAXSID then hash_find_id name s
            else Some (None, s)) of
        None \<Rightarrow> None
      | Some (Some c, s) \<Rightarrow> Some (Some c, s)
      | Some (None, s) \<Rightarrow>
          (case table_find (ircd_random_key s)
             (\<lambda>c. (client_status s c = STAT_SERVER \<or> client_status s c = STAT_ME) \<and>
                  irccmp name (client_name s c) = 0) name (clientTable s) of
             None \<Rightarrow> None
           | Some (Some c, t) \<Rightarrow> Some (Some c, s\<lparr>clientTable := t\<rparr>)
           | Some (None, t) \<Rightarrow> hash_find_masked_server name (s\<lparr>clientTable := t\<rparr>)))"

datatype hash_type =
  HASH_TYPE_ID | HASH_TYPE_CLIENT | HASH_TYPE_CHANNEL | HASH_TYPE_USERHOST | HASH_TYPE_RESERVED

definition hash_get_bucket :: "hash_type \<Rightarrow> nat \<Rightarrow> hash_state \<Rightarrow> ptr option" where
  "hash_get_bucket type hv s =
     (if hv \<ge> HASHSIZE then None
      else case type of
             HASH_TYPE_ID \<Rightarrow> bucket (idTable s) hv
           | HASH_TYPE_CHANNEL \<Rightarrow> bucket (channelTable s) hv
           | HASH_TYPE_CLIENT \<Rightarrow> bucket (clientTable s) hv
           | HASH_TYPE_USERHOST \<Rightarrow> bucket (userhostTable s) hv
           | HASH_TYPE_RESERVED \<Rightarrow> bucket (resvchannelTable s) hv)"

subsection \<open>The five tables are registries\<close>

definition clients :: "(ptr \<Rightarrow> string) \<Rightarrow> hash_state \<Rightarrow> ptr set \<Rightarrow> bool" where
  "clients nm s M \<longleftrightarrow> client_name s = nm \<and> table_of (ircd_random_key s) nm (clientTable s) M"

definition ids :: "(ptr \<Rightarrow> string) \<Rightarrow> hash_state \<Rightarrow> ptr set \<Rightarrow> bool" where
  "ids nm s M \<longleftrightarrow> client_id s = nm \<and> table_of (ircd_random_key s) nm (idTable s) M"

definition channels :: "(ptr \<Rightarrow> string) \<Rightarrow> hash_state \<Rightarrow> ptr set \<Rightarrow> bool" where
  "channels nm s M \<longleftrightarrow> chname s = nm \<and> table_of (ircd_random_key s) nm (channelTable s) M"

definition resvs :: "(ptr \<Rightarrow> string) \<Rightarrow> hash_state \<Rightarrow> ptr set \<Rightarrow> bool" where
  "resvs nm s M \<longleftrightarrow> resv_name s = nm \<and> table_of (ircd_random_key s) nm (resvchannelTable s) M"

definition userhosts :: "(ptr \<Rightarrow> string) \<Rightarrow> hash_state \<Rightarrow> ptr set \<Rightarrow> bool" where
  "userhosts nm s M \<longleftrightarrow> uh_host s = nm \<and> table_of (ircd_random_key s) nm (userhostTable s) M"

lemmas registry_defs = clients_def ids_def channels_def resvs_def userhosts_def
  hash_add_client_def hash_add_id_def hash_add_channel_def hash_add_resv_def hash_add_userhost_def
  hash_del_client_def hash_del_id_def hash_del_channel_def hash_del_resv_def hash_del_userhost_def
  find_client_def hash_find_id_def hash_find_channel_def hash_find_resv_def hash_find_userhost_def

text \<open>What a search in one of the tables gives, once for all five.\<close>

lemma table_find_name:
  assumes "table_of key nm t M"
  shows "\<exists>r t'. table_find key (\<lambda>c. irccmp k (nm c) = 0) k t = Some (r, t') \<and> table_of key nm t' M \<and>
    (case r of None \<Rightarrow> \<forall>p \<in> M. \<not> same_name k (nm p) | Some p \<Rightarrow> p \<in> M \<and> same_name k (nm p))"
  using table.repr_look[OF assms, of k] by (simp add: same_name_def)

lemma map_pair_Some:
  "x = Some (r, t) \<Longrightarrow> map_option (\<lambda>(r, t). (r, f t)) x = Some (r, f t)"
  by simp

interpretation client_reg: registry "clients nm" nm hash_add_client hash_del_client find_client for nm
proof
  show "\<exists>s'. hash_del_client p s = Some s' \<and> clients nm s' (M - {p})"
    if "clients nm s M" "p \<in> M" for s M p
    using that table_of_del[of "ircd_random_key s" nm "clientTable s" M p] by (auto simp: registry_defs)
  show "\<exists>r s'. find_client k s = Some (r, s') \<and> clients nm s' M \<and>
      (case r of None \<Rightarrow> \<forall>p \<in> M. \<not> same_name k (nm p) | Some p \<Rightarrow> p \<in> M \<and> same_name k (nm p))"
    if "clients nm s M" for s M k
    using that table_find_name[of "ircd_random_key s" nm "clientTable s" M k] by (fastforce simp: registry_defs)
qed (auto simp: registry_defs table_of_add)

interpretation id_reg: registry "ids nm" nm hash_add_id hash_del_id hash_find_id for nm
proof
  show "\<exists>s'. hash_del_id p s = Some s' \<and> ids nm s' (M - {p})"
    if "ids nm s M" "p \<in> M" for s M p
    using that table_of_del[of "ircd_random_key s" nm "idTable s" M p] by (auto simp: registry_defs)
  show "\<exists>r s'. hash_find_id k s = Some (r, s') \<and> ids nm s' M \<and>
      (case r of None \<Rightarrow> \<forall>p \<in> M. \<not> same_name k (nm p) | Some p \<Rightarrow> p \<in> M \<and> same_name k (nm p))"
    if "ids nm s M" for s M k
    using that table_find_name[of "ircd_random_key s" nm "idTable s" M k] by (fastforce simp: registry_defs)
qed (auto simp: registry_defs table_of_add)

interpretation channel_reg: registry "channels nm" nm hash_add_channel hash_del_channel hash_find_channel for nm
proof
  show "\<exists>s'. hash_del_channel p s = Some s' \<and> channels nm s' (M - {p})"
    if "channels nm s M" "p \<in> M" for s M p
    using that table_of_del[of "ircd_random_key s" nm "channelTable s" M p] by (auto simp: registry_defs)
  show "\<exists>r s'. hash_find_channel k s = Some (r, s') \<and> channels nm s' M \<and>
      (case r of None \<Rightarrow> \<forall>p \<in> M. \<not> same_name k (nm p) | Some p \<Rightarrow> p \<in> M \<and> same_name k (nm p))"
    if "channels nm s M" for s M k
    using that table_find_name[of "ircd_random_key s" nm "channelTable s" M k] by (fastforce simp: registry_defs)
qed (auto simp: registry_defs table_of_add)

interpretation resv_reg: registry "resvs nm" nm hash_add_resv hash_del_resv hash_find_resv for nm
proof
  show "\<exists>s'. hash_del_resv p s = Some s' \<and> resvs nm s' (M - {p})"
    if "resvs nm s M" "p \<in> M" for s M p
    using that table_of_del[of "ircd_random_key s" nm "resvchannelTable s" M p] by (auto simp: registry_defs)
  show "\<exists>r s'. hash_find_resv k s = Some (r, s') \<and> resvs nm s' M \<and>
      (case r of None \<Rightarrow> \<forall>p \<in> M. \<not> same_name k (nm p) | Some p \<Rightarrow> p \<in> M \<and> same_name k (nm p))"
    if "resvs nm s M" for s M k
    using that table_find_name[of "ircd_random_key s" nm "resvchannelTable s" M k] by (fastforce simp: registry_defs)
qed (auto simp: registry_defs table_of_add)

interpretation userhost_reg: registry "userhosts nm" nm hash_add_userhost hash_del_userhost
  hash_find_userhost for nm
proof
  show "\<exists>s'. hash_del_userhost p s = Some s' \<and> userhosts nm s' (M - {p})"
    if "userhosts nm s M" "p \<in> M" for s M p
    using that table_of_del[of "ircd_random_key s" nm "userhostTable s" M p] by (auto simp: registry_defs)
  show "\<exists>r s'. hash_find_userhost k s = Some (r, s') \<and> userhosts nm s' M \<and>
      (case r of None \<Rightarrow> \<forall>p \<in> M. \<not> same_name k (nm p) | Some p \<Rightarrow> p \<in> M \<and> same_name k (nm p))"
    if "userhosts nm s M" for s M k
    using that table_find_name[of "ircd_random_key s" nm "userhostTable s" M k] by (fastforce simp: registry_defs)
qed (auto simp: registry_defs table_of_add)

text \<open>The searches leave everything but their own table alone.\<close>

lemma find_client_frame:
  "find_client k s = Some (r, s') \<Longrightarrow> \<exists>t. s' = s\<lparr>clientTable := t\<rparr>"
  "hash_find_id k s = Some (r, s') \<Longrightarrow> \<exists>t. s' = s\<lparr>idTable := t\<rparr>"
  by (auto simp: find_client_def hash_find_id_def)

subsection \<open>Servers\<close>

text \<open>The masks \<open>hash_find_masked_server\<close> tries for a name, in order: a star and the name from
  each of its dots on.\<close>

fun dot_masks :: "string \<Rightarrow> string list" where
  "dot_masks [] = []"
| "dot_masks (c # s) = (if c = CHR ''.'' then (CHR ''*'' # c # s) # dot_masks s else dot_masks s)"

lemma dot_masks_strchr:
  "c_strchr p CHR ''.'' = None \<Longrightarrow> dot_masks p = []"
  "c_strchr p CHR ''.'' = Some d \<Longrightarrow> dot_masks p = (CHR ''*'' # d) # dot_masks (tl d)"
  by (induction p) (auto split: if_splits)

text \<open>An answer by the first of the masks that some client has as its name.\<close>

definition mask_answer :: "(ptr \<Rightarrow> string) \<Rightarrow> ptr set \<Rightarrow> string list \<Rightarrow> ptr option \<Rightarrow> bool" where
  "mask_answer nm M ms r \<longleftrightarrow>
     (case r of
        None \<Rightarrow> \<forall>q \<in> M. \<forall>m \<in> set ms. \<not> same_name m (nm q)
      | Some q \<Rightarrow> \<exists>us m vs. ms = us @ m # vs \<and> q \<in> M \<and> same_name m (nm q) \<and>
          (\<forall>q' \<in> M. \<forall>m' \<in> set us. \<not> same_name m' (nm q')))"

lemma mask_answer_hit: "q \<in> M \<Longrightarrow> same_name m (nm q) \<Longrightarrow> mask_answer nm M (m # ms) (Some q)"
  unfolding mask_answer_def by (simp, rule exI[of _ "[]"]) simp

lemma mask_answer_skip:
  assumes "mask_answer nm M ms r" "\<forall>q \<in> M. \<not> same_name m (nm q)"
  shows "mask_answer nm M (m # ms) r"
proof (cases r)
  case None
  with assms show ?thesis by (simp add: mask_answer_def)
next
  case (Some q)
  with assms obtain us m1 vs where "ms = us @ m1 # vs" "q \<in> M" "same_name m1 (nm q)"
    "\<forall>q' \<in> M. \<forall>m' \<in> set us. \<not> same_name m' (nm q')" by (auto simp: mask_answer_def)
  with assms(2) Some show ?thesis
    unfolding mask_answer_def by (simp, intro exI[of _ "m # us"]) simp
qed

lemma masked_loop_spec:
  "clients nm s M \<Longrightarrow> (at_start \<longrightarrow> deref p \<noteq> CHR ''.'') \<Longrightarrow>
   \<exists>r s'. masked_loop at_start p s = Some (r, s') \<and> clients nm s' M \<and> mask_answer nm M (dot_masks p) r"
proof (induction at_start p s rule: masked_loop.induct)
  case (1 at_start p s)
  show ?case
  proof (cases "c_strchr p CHR ''.''")
    case None
    with 1(2) dot_masks_strchr(1) show ?thesis
      by (subst masked_loop.simps) (simp add: mask_answer_def)
  next
    case (Some d)
    obtain d' where "d = CHR ''.'' # d'" using c_strchr_SomeD[OF Some] by blast
    then have d: "d \<noteq> []" "deref d = CHR ''.''" by simp_all
    then have start: "\<not> (at_start \<and> d = p)" using 1(3) by auto
    obtain r s1 where f: "find_client (CHR ''*'' # d) s = Some (r, s1)" "clients nm s1 M"
      "case r of None \<Rightarrow> \<forall>q \<in> M. \<not> same_name (CHR ''*'' # d) (nm q)
        | Some q \<Rightarrow> q \<in> M \<and> same_name (CHR ''*'' # d) (nm q)"
      using client_reg.repr_look[OF 1(2)] by blast
    note masks = dot_masks_strchr(2)[OF Some]
    show ?thesis
    proof (cases r)
      case None
      from 1(1)[OF Some start f(1) _ None f(2)] obtain r' s' where IH:
        "masked_loop False (tl d) s1 = Some (r', s')" "clients nm s' M"
        "mask_answer nm M (dot_masks (tl d)) r'" by auto
      have "masked_loop at_start p s = Some (r', s')"
        using Some start f(1) None IH(1) by (subst masked_loop.simps) simp
      moreover have "mask_answer nm M (dot_masks p) r'"
        unfolding masks using IH(3) f(3) None by (intro mask_answer_skip) simp_all
      ultimately show ?thesis using IH(2) by blast
    next
      fix q assume q: "r = Some q"
      then have "masked_loop at_start p s = Some (Some q, s1)"
        using Some start f(1) by (subst masked_loop.simps) simp
      moreover have "mask_answer nm M (dot_masks p) (Some q)"
        unfolding masks using f(3) q by (simp add: mask_answer_hit)
      ultimately show ?thesis using f(2) by blast
    qed
  qed
qed

text \<open>Whom \<open>find_server\<close> may answer with: the holder of the ID, else a server of that name, else
  the first client whose name is a mask that covers the name.\<close>

definition by_id :: "(ptr \<Rightarrow> string) \<Rightarrow> ptr set \<Rightarrow> string \<Rightarrow> ptr \<Rightarrow> bool" where
  "by_id idn N name p \<longleftrightarrow>
     IsDigit (deref name) \<and> length name = IRC_MAXSID \<and> p \<in> N \<and> same_name name (idn p)"

definition by_name :: "(ptr \<Rightarrow> string) \<Rightarrow> (ptr \<Rightarrow> nat) \<Rightarrow> ptr set \<Rightarrow> string \<Rightarrow> ptr \<Rightarrow> bool" where
  "by_name nm st M name p \<longleftrightarrow> p \<in> M \<and> (st p = STAT_SERVER \<or> st p = STAT_ME) \<and> same_name name (nm p)"

definition by_mask :: "(ptr \<Rightarrow> string) \<Rightarrow> ptr set \<Rightarrow> string \<Rightarrow> ptr \<Rightarrow> bool" where
  "by_mask nm M name p \<longleftrightarrow> deref name \<noteq> CHR ''*'' \<and> deref name \<noteq> CHR ''.'' \<and> p \<in> M \<and>
     (\<exists>m \<in> set (dot_masks (take HOSTLEN name)). same_name m (nm p))"

lemma masked_loop_frame:
  "masked_loop at_start p s = Some (r, s') \<Longrightarrow> \<exists>t. s' = s\<lparr>clientTable := t\<rparr>"
proof (induction at_start p s rule: masked_loop.induct)
  case (1 at_start p s)
  show ?case
  proof (cases "c_strchr p CHR ''.''")
    case None
    with 1(2) have "s' = s\<lparr>clientTable := clientTable s\<rparr>" by (simp add: masked_loop.simps)
    then show ?thesis by blast
  next
    case (Some d)
    with 1(2) have start: "\<not> (at_start \<and> d = p)" by (auto simp: masked_loop.simps)
    obtain r1 s1 where f: "find_client (CHR ''*'' # d) s = Some (r1, s1)"
      using 1(2) Some start by (subst (asm) masked_loop.simps) (auto split: option.splits)
    then obtain t1 where s1: "s1 = s\<lparr>clientTable := t1\<rparr>" using find_client_frame(1) by blast
    show ?thesis
    proof (cases r1)
      case None
      with 1(2) Some start f have "masked_loop False (tl d) s1 = Some (r, s')"
        by (subst (asm) masked_loop.simps) (simp split: option.splits)
      with 1(1)[OF Some start f] None obtain t where "s' = s1\<lparr>clientTable := t\<rparr>" by auto
      with s1 show ?thesis by auto
    next
      case (Some q)
      with 1(2) \<open>c_strchr p CHR ''.'' = Some d\<close> start f have "s' = s1"
        by (subst (asm) masked_loop.simps) (simp split: option.splits)
      with s1 show ?thesis by blast
    qed
  qed
qed

lemma hash_find_masked_server_frame:
  "hash_find_masked_server name s = Some (r, s') \<Longrightarrow> \<exists>t. s' = s\<lparr>clientTable := t\<rparr>"
  by (auto simp: hash_find_masked_server_def masked_loop_frame intro: exI[of _ "clientTable s"]
      split: if_splits)

lemma hash_find_masked_server_spec:
  assumes "clients nm s M"
  shows "\<exists>r s'. hash_find_masked_server name s = Some (r, s') \<and> clients nm s' M \<and>
    (case r of None \<Rightarrow> \<forall>p. \<not> by_mask nm M name p | Some p \<Rightarrow> by_mask nm M name p)"
proof (cases "deref name = CHR ''*'' \<or> deref name = CHR ''.''")
  case True
  with assms show ?thesis by (auto simp: hash_find_masked_server_def by_mask_def)
next
  case False
  let ?p = "c_strlcpy name (HOSTLEN + 1)"
  have p: "?p = take HOSTLEN name" by (simp add: c_strlcpy_def)
  have "deref ?p \<noteq> CHR ''.''" unfolding p using False by (cases name) (auto simp: HOSTLEN_def)
  with masked_loop_spec[OF assms, of True ?p] obtain r s' where
    r: "masked_loop True ?p s = Some (r, s')" "clients nm s' M"
    "mask_answer nm M (dot_masks ?p) r" by blast
  from r(3) have "case r of None \<Rightarrow> \<forall>p. \<not> by_mask nm M name p | Some p \<Rightarrow> by_mask nm M name p"
    using False unfolding p by (cases r) (auto simp: by_mask_def mask_answer_def)
  with r(1,2) False show ?thesis by (simp add: hash_find_masked_server_def)
qed

lemma find_server_spec:
  assumes c: "clients nm s M" and i: "ids idn s N"
  shows "\<exists>r s'. find_server name s = Some (r, s') \<and> clients nm s' M \<and> ids idn s' N \<and>
    (case r of
       None \<Rightarrow> \<forall>p. \<not> by_id idn N name p \<and> \<not> by_name nm (client_status s) M name p \<and> \<not> by_mask nm M name p
     | Some p \<Rightarrow> by_id idn N name p \<or>
         (\<forall>q. \<not> by_id idn N name q) \<and>
         (by_name nm (client_status s) M name p \<or>
          (\<forall>q. \<not> by_name nm (client_status s) M name q) \<and> by_mask nm M name p))"
proof -
  let ?sid = "IsDigit (deref name) \<and> length name = IRC_MAXSID"
  obtain r1 s1 where one: "(if ?sid then hash_find_id name s else Some (None, s)) = Some (r1, s1)"
    "ids idn s1 N" "case r1 of None \<Rightarrow> \<forall>p. \<not> by_id idn N name p | Some p \<Rightarrow> by_id idn N name p"
    "\<exists>t. s1 = s\<lparr>idTable := t\<rparr>"
  proof (cases ?sid)
    case True
    obtain r s' where "hash_find_id name s = Some (r, s')" "ids idn s' N"
      "case r of None \<Rightarrow> \<forall>p \<in> N. \<not> same_name name (idn p) | Some p \<Rightarrow> p \<in> N \<and> same_name name (idn p)"
      using id_reg.repr_look[OF i] by blast
    with True show ?thesis
      by (intro that[of r s']) (auto simp: by_id_def find_client_frame split: option.splits)
  next
    case False
    with i show ?thesis by (intro that[of None s]) (auto simp: by_id_def intro: exI[of _ "idTable s"])
  qed
  from one(4) obtain t1 where s1: "s1 = s\<lparr>idTable := t1\<rparr>" ..
  with c have c1: "clients nm s1 M" by (simp add: clients_def)
  show ?thesis
  proof (cases r1)
    case (Some p)
    with one c1 show ?thesis by (auto simp: find_server_def)
  next
    case None
    define P where "P = (\<lambda>c. (client_status s1 c = STAT_SERVER \<or> client_status s1 c = STAT_ME) \<and>
      irccmp name (client_name s1 c) = 0)"
    from c1 have nm: "client_name s1 = nm" by (simp add: clients_def)
    then have "\<And>c. P c \<Longrightarrow> same_name name (nm c)" by (simp add: P_def same_name_def)
    note look = table_of_find[where P = P and k = name and nm = nm, OF _ this]
    have "table_of (ircd_random_key s1) nm (clientTable s1) M" using c1 by (simp add: clients_def)
    from look[OF this]
    obtain r t where two: "table_find (ircd_random_key s1) P name (clientTable s1) = Some (r, t)"
      "table_of (ircd_random_key s1) nm t M" "case r of None \<Rightarrow> \<forall>p \<in> M. \<not> P p | Some p \<Rightarrow> p \<in> M \<and> P p"
      by blast
    have P: "p \<in> M \<and> P p \<longleftrightarrow> by_name nm (client_status s) M name p" for p
      by (auto simp: P_def by_name_def nm s1 same_name_def simp flip: nm)
    have c2: "clients nm (s1\<lparr>clientTable := t\<rparr>) M" using c1 two(2) by (simp add: clients_def)
    have i2: "ids idn (s1\<lparr>clientTable := t\<rparr>) N" using one(2) by (simp add: ids_def)
    show ?thesis
    proof (cases r)
      case (Some p)
      then have "find_server name s = Some (Some p, s1\<lparr>clientTable := t\<rparr>)"
        using one(1) two(1) None by (simp add: find_server_def P_def)
      moreover have "\<And>q. \<not> by_id idn N name q" using one(3) None by simp
      moreover have "by_name nm (client_status s) M name p" using two(3) Some by (simp flip: P)
      ultimately show ?thesis using c2 i2 by auto
    next
      case rN: None
      obtain r3 s3 where three: "hash_find_masked_server name (s1\<lparr>clientTable := t\<rparr>) = Some (r3, s3)"
        "clients nm s3 M" "case r3 of None \<Rightarrow> \<forall>p. \<not> by_mask nm M name p | Some p \<Rightarrow> by_mask nm M name p"
        using hash_find_masked_server_spec[OF c2] by blast
      from hash_find_masked_server_frame[OF three(1)] i2 have i3: "ids idn s3 N" by (auto simp: ids_def)
      have "find_server name s = Some (r3, s3)"
        using one(1) two(1) three(1) None rN by (simp add: find_server_def P_def)
      moreover have "\<And>p. \<not> by_id idn N name p" using one(3) None by simp
      moreover have "\<And>p. \<not> by_name nm (client_status s) M name p"
        using two(3) rN by (simp flip: P)
      ultimately show ?thesis using three(2,3) i3 by (cases r3) auto
    qed
  qed
qed

subsection \<open>Properties\<close>

definition no_objects :: hash_state where
  "no_objects = init_hash 77
     \<lparr>ircd_random_key = 0, client_name = (\<lambda>p. if p = 1 then ''Alice[x]'' else if p = 2 then ''*.net'' else ''bob''),
      client_id = (\<lambda>p. ''1AB''), client_status = (\<lambda>p. if p = 2 then STAT_SERVER else STAT_CLIENT),
      chname = (\<lambda>p. ''#c''), resv_name = (\<lambda>p. ''#r''), uh_host = (\<lambda>p. ''h''),
      idTable = \<lparr>bucket = \<lambda>_. Some 9, hlink = \<lambda>_. None\<rparr>,
      clientTable = \<lparr>bucket = \<lambda>_. Some 9, hlink = \<lambda>_. None\<rparr>,
      channelTable = \<lparr>bucket = \<lambda>_. Some 9, hlink = \<lambda>_. None\<rparr>,
      userhostTable = \<lparr>bucket = \<lambda>_. Some 9, hlink = \<lambda>_. None\<rparr>,
      resvchannelTable = \<lparr>bucket = \<lambda>_. Some 9, hlink = \<lambda>_. None\<rparr>\<rparr>"

lemma init_hash_empty:
  "clients (client_name s) (init_hash r s) {}" "ids (client_id s) (init_hash r s) {}"
  "channels (chname s) (init_hash r s) {}" "resvs (resv_name s) (init_hash r s) {}"
  "userhosts (uh_host s) (init_hash r s) {}"
  using table_of_empty by (simp_all add: init_hash_def clients_def ids_def channels_def resvs_def
      userhosts_def table_of_def table_repr_def members_def exI[of _ "\<lambda>_. []"])

text \<open>\<open>strhash\<close> gives every name a bucket of the tables, and names that \<open>irccmp\<close> cannot tell
  apart the same one.\<close>

theorem strhash_respects_irccmp:
  assumes "irccmp s t = 0"
  shows "strhash key s = strhash key t \<and> hashv key s < HASHSIZE"
  using strhash_casefold[of s t key] strhash_bound assms by (simp add: same_name_def)

lemma strhash_respects_irccmp_witness:
  "strhash 42 ''Nick[a]'' = strhash 42 ''nICK{A}'' \<and> hashv 42 ''Nick[a]'' < HASHSIZE"
  by (rule strhash_respects_irccmp) (simp add: irccmp_iff char_eq_iff_ord ord_ToLower del: irccmp.simps)

text \<open>C23. The client table: whatever clients are added, deleted and looked up in whatever order, no
  operation touches memory it should not and no loop runs forever, and every \<open>find_client\<close>
  answers with a client of that name (up to case) that is in the table, or with NULL exactly
  when there is none, although every search reorders its bucket.\<close>

theorem client_table_run:
  assumes "clients nm s M" "proper ops M"
  shows "\<exists>rs s' N. registry_run hash_add_client hash_del_client find_client ops s = Some (rs, s') \<and>
    registry_spec nm ops M rs N \<and> clients nm s' N"
  using assms by (rule client_reg.run_spec)

lemma client_table_run_witness:
  "\<exists>rs s' N. registry_run hash_add_client hash_del_client find_client
      [Enter 1, Find ''aLICE{X}'', Enter 3, Find ''BOB'', Leave 1, Find ''alice[x]''] no_objects = Some (rs, s') \<and>
    registry_spec (client_name no_objects)
      [Enter 1, Find ''aLICE{X}'', Enter 3, Find ''BOB'', Leave 1, Find ''alice[x]''] {} rs N \<and>
    clients (client_name no_objects) s' N"
proof (rule client_table_run)
  have "client_name (init_hash r s) = client_name s" for r s by (simp add: init_hash_def)
  then show "clients (client_name no_objects) no_objects {}"
    unfolding no_objects_def by (simp only: init_hash_empty)
qed simp

text \<open>The channel table in the same way: additions, deletions and searches by
  \<open>hash_find_channel\<close> behave as on a set of channels with case-insensitive names.\<close>

theorem channel_table_run:
  assumes "channels nm s M" "proper ops M"
  shows "\<exists>rs s' N. registry_run hash_add_channel hash_del_channel hash_find_channel ops s = Some (rs, s') \<and>
    registry_spec nm ops M rs N \<and> channels nm s' N"
  using assms by (rule channel_reg.run_spec)

lemma channel_table_run_witness:
  "\<exists>rs s' N. registry_run hash_add_channel hash_del_channel hash_find_channel
      [Enter 5, Find ''#C'', Leave 5] no_objects = Some (rs, s') \<and>
    registry_spec (chname no_objects) [Enter 5, Find ''#C'', Leave 5] {} rs N \<and>
    channels (chname no_objects) s' N"
proof (rule channel_table_run)
  have "chname (init_hash r s) = chname s" for r s by (simp add: init_hash_def)
  then show "channels (chname no_objects) no_objects {}"
    unfolding no_objects_def by (simp only: init_hash_empty)
qed simp

text \<open>\<open>find_server\<close> answers with the holder of the name as a server ID if it is one, else with a
  server (never a user) of that name, else with a client whose name is a star mask covering
  the name, and with NULL exactly when there is none of these; it keeps both tables.\<close>

theorem find_server_answers:
  assumes "clients nm s M" "ids idn s N"
  shows "\<exists>r s'. find_server name s = Some (r, s') \<and> clients nm s' M \<and> ids idn s' N \<and>
    (case r of
       None \<Rightarrow> \<forall>p. \<not> by_id idn N name p \<and> \<not> by_name nm (client_status s) M name p \<and> \<not> by_mask nm M name p
     | Some p \<Rightarrow> by_id idn N name p \<or>
         (\<forall>q. \<not> by_id idn N name q) \<and>
         (by_name nm (client_status s) M name p \<or>
          (\<forall>q. \<not> by_name nm (client_status s) M name q) \<and> by_mask nm M name p))"
  using assms by (rule find_server_spec)

lemma find_server_answers_witness:
  "\<exists>s s'. find_server ''irc.net'' s = Some (Some 2, s') \<and> clients (client_name no_objects) s {2}"
proof -
  have nm: "client_name (init_hash r s) = client_name s" "client_id (init_hash r s) = client_id s"
    for r s by (simp_all add: init_hash_def)
  then have c: "clients (client_name no_objects) no_objects {}" "ids (client_id no_objects) no_objects {}"
    unfolding no_objects_def by (simp_all only: init_hash_empty)
  let ?s = "hash_add_client 2 no_objects"
  have s: "clients (client_name no_objects) ?s {2}" using client_reg.repr_add[OF c(1), of 2] by simp
  have i: "ids (client_id no_objects) ?s {}" using c(2) by (simp add: ids_def hash_add_client_def)
  have two: "client_name no_objects 2 = ''*.net''" by (simp add: no_objects_def init_hash_def)
  have mask: "by_mask (client_name no_objects) {2} ''irc.net'' 2"
    by (simp add: by_mask_def two HOSTLEN_def)
  obtain r s' where f: "find_server ''irc.net'' ?s = Some (r, s')"
    "case r of
       None \<Rightarrow> \<forall>p. \<not> by_id (client_id no_objects) {} ''irc.net'' p \<and>
         \<not> by_name (client_name no_objects) (client_status ?s) {2} ''irc.net'' p \<and>
         \<not> by_mask (client_name no_objects) {2} ''irc.net'' p
     | Some p \<Rightarrow> by_id (client_id no_objects) {} ''irc.net'' p \<or>
         (\<forall>q. \<not> by_id (client_id no_objects) {} ''irc.net'' q) \<and>
         (by_name (client_name no_objects) (client_status ?s) {2} ''irc.net'' p \<or>
          (\<forall>q. \<not> by_name (client_name no_objects) (client_status ?s) {2} ''irc.net'' q) \<and>
          by_mask (client_name no_objects) {2} ''irc.net'' p)"
    using find_server_answers[OF s i, of "''irc.net''"] by blast
  from f(2) mask have "r = Some 2"
    by (cases r) (auto simp: by_id_def by_name_def by_mask_def)
  with f(1) s show ?thesis by blast
qed

end
