(* ===== verification/Userhost.thy ===== *)
theory Userhost
  imports Hash
begin

text \<open>
  The user@host counters of \<^verbatim>\<open>src/hash.c\<close>, which enforce the per-host and per-ident
  connection limits: \<open>count_user_host\<close>, \<open>add_user_host\<close>, \<open>delete_user_host\<close> and
  \<open>find_or_add_userhost\<close> over the user host table of theory Hash. The names on a host hang
  on a \<open>dlink_list\<close>; they are the list of their records here (theory Tools shows that the
  list operations do what the list functions do). \<open>BlockHeapAlloc\<close> gives zeroed memory at a
  pointer that is not in use, an argument of the operations.

  The specification is a multiset of sessions (user, host, global). \<open>uh_repr\<close> says that the
  counters are the numbers of sessions, and every operation is shown to keep that.
\<close>

subsection \<open>The operations\<close>

record namehost =
  nh_name :: string
  icount :: int
  gcount :: int
  lcount :: int

record uh_state =
  uh_hash :: hash_state
  uh_list :: "ptr \<Rightarrow> namehost list"

text \<open>A leading tilde marks a user without ident: \<open>(user, hasident)\<close>.\<close>

definition split_ident :: "string \<Rightarrow> string \<times> bool" where
  "split_ident user = (if deref user = CHR ''~'' then (tl user, False) else (user, True))"

fun count_loop :: "string \<Rightarrow> namehost list \<Rightarrow> (int \<times> int \<times> int) option" where
  "count_loop user [] = None"
| "count_loop user (n # ns) =
     (if irccmp user (nh_name n) = 0 then Some (gcount n, lcount n, icount n)
      else count_loop user ns)"

text \<open>The three result cells are written only when the name is found.\<close>

definition count_user_host ::
  "string \<Rightarrow> string \<Rightarrow> uh_state \<Rightarrow> ((int \<times> int \<times> int) option \<times> uh_state) option" where
  "count_user_host user host s =
     (case hash_find_userhost host (uh_hash s) of
        None \<Rightarrow> None
      | Some (None, h) \<Rightarrow> Some (None, s\<lparr>uh_hash := h\<rparr>)
      | Some (Some p, h) \<Rightarrow> Some (count_loop user (uh_list s p), s\<lparr>uh_hash := h\<rparr>))"

definition find_or_add_userhost :: "string \<Rightarrow> ptr \<Rightarrow> uh_state \<Rightarrow> (ptr \<times> uh_state) option" where
  "find_or_add_userhost host newp s =
     (case hash_find_userhost host (uh_hash s) of
        None \<Rightarrow> None
      | Some (Some p, h) \<Rightarrow> Some (p, s\<lparr>uh_hash := h\<rparr>)
      | Some (None, h) \<Rightarrow>
          let h = h\<lparr>uh_host := (uh_host h)(newp := c_strlcpy host (HOSTLEN + 1))\<rparr>
          in Some (newp, s\<lparr>uh_hash := hash_add_userhost newp h, uh_list := (uh_list s)(newp := [])\<rparr>))"

definition inc_name :: "bool \<Rightarrow> bool \<Rightarrow> namehost \<Rightarrow> namehost" where
  "inc_name hasident global n =
     (let n = n\<lparr>gcount := gcount n + 1\<rparr>
      in if \<not> global
         then (if hasident then n\<lparr>icount := icount n + 1\<rparr> else n)\<lparr>lcount := lcount n + 1\<rparr>
         else n)"

fun add_loop :: "string \<Rightarrow> bool \<Rightarrow> bool \<Rightarrow> namehost list \<Rightarrow> namehost list option" where
  "add_loop user hasident global [] = None"
| "add_loop user hasident global (n # ns) =
     (if irccmp user (nh_name n) = 0 then Some (inc_name hasident global n # ns)
      else map_option ((#) n) (add_loop user hasident global ns))"

definition new_name :: "string \<Rightarrow> bool \<Rightarrow> bool \<Rightarrow> namehost" where
  "new_name user hasident global =
     \<lparr>nh_name = c_strlcpy user (USERLEN + 1),
      icount = (if \<not> global \<and> hasident then 1 else 0),
      gcount = 1,
      lcount = (if \<not> global then 1 else 0)\<rparr>"

definition add_user_host :: "string \<Rightarrow> string \<Rightarrow> bool \<Rightarrow> ptr \<Rightarrow> uh_state \<Rightarrow> uh_state option" where
  "add_user_host user host global newp s =
     (case split_ident user of (user, hasident) \<Rightarrow>
        case find_or_add_userhost host newp s of
          None \<Rightarrow> None
        | Some (p, s) \<Rightarrow>
            (case add_loop user hasident global (uh_list s p) of
               Some ns \<Rightarrow> Some (s\<lparr>uh_list := (uh_list s)(p := ns)\<rparr>)
             | None \<Rightarrow>
                 Some (s\<lparr>uh_list := (uh_list s)(p := new_name user hasident global # uh_list s p)\<rparr>)))"

definition dec_name :: "bool \<Rightarrow> bool \<Rightarrow> namehost \<Rightarrow> namehost" where
  "dec_name hasident global n =
     (let n = (if gcount n > 0 then n\<lparr>gcount := gcount n - 1\<rparr> else n)
      in if \<not> global
         then let n = (if lcount n > 0 then n\<lparr>lcount := lcount n - 1\<rparr> else n)
              in if hasident \<and> icount n > 0 then n\<lparr>icount := icount n - 1\<rparr> else n
         else n)"

fun delete_loop :: "string \<Rightarrow> bool \<Rightarrow> bool \<Rightarrow> namehost list \<Rightarrow> namehost list option" where
  "delete_loop user hasident global [] = None"
| "delete_loop user hasident global (n # ns) =
     (if irccmp user (nh_name n) = 0
      then let n = dec_name hasident global n
           in Some (if gcount n = 0 \<and> lcount n = 0 then ns else n # ns)
      else map_option ((#) n) (delete_loop user hasident global ns))"

definition delete_user_host :: "string \<Rightarrow> string \<Rightarrow> bool \<Rightarrow> uh_state \<Rightarrow> uh_state option" where
  "delete_user_host user host global s =
     (case split_ident user of (user, hasident) \<Rightarrow>
        case hash_find_userhost host (uh_hash s) of
          None \<Rightarrow> None
        | Some (None, h) \<Rightarrow> Some (s\<lparr>uh_hash := h\<rparr>)
        | Some (Some p, h) \<Rightarrow>
            let s = s\<lparr>uh_hash := h\<rparr> in
            (case delete_loop user hasident global (uh_list s p) of
               None \<Rightarrow> Some s
             | Some ns \<Rightarrow>
                 let s = s\<lparr>uh_list := (uh_list s)(p := ns)\<rparr> in
                 if ns = [] then map_option (\<lambda>h. s\<lparr>uh_hash := h\<rparr>) (hash_del_userhost p (uh_hash s))
                 else Some s))"

subsection \<open>Sessions\<close>

type_synonym session = "string \<times> string \<times> bool"

abbreviation fold_case :: "string \<Rightarrow> string" where
  "fold_case s \<equiv> map ToLower s"

text \<open>The three tallies: global sessions, local ones, local ones with ident.\<close>

datatype tally = G | L | I

fun counted :: "tally \<Rightarrow> bool \<Rightarrow> bool \<Rightarrow> bool" where
  "counted G hasident global = True"
| "counted L hasident global = (\<not> global)"
| "counted I hasident global = (\<not> global \<and> hasident)"

fun nh_tally :: "tally \<Rightarrow> namehost \<Rightarrow> int" where
  "nh_tally G n = gcount n"
| "nh_tally L n = lcount n"
| "nh_tally I n = icount n"

fun session_counts :: "tally \<Rightarrow> string \<Rightarrow> string \<Rightarrow> session \<Rightarrow> bool" where
  "session_counts t u h (user, host, global) \<longleftrightarrow>
     fold_case (fst (split_ident user)) = u \<and> fold_case host = h \<and>
     counted t (snd (split_ident user)) global"

definition sessions :: "tally \<Rightarrow> session multiset \<Rightarrow> string \<Rightarrow> string \<Rightarrow> int" where
  "sessions t S u h = int (size (filter_mset (session_counts t u h) S))"

definition tally_of :: "tally \<Rightarrow> namehost list \<Rightarrow> string \<Rightarrow> int" where
  "tally_of t ns u =
     (case List.find (\<lambda>n. fold_case (nh_name n) = u) ns of None \<Rightarrow> 0 | Some n \<Rightarrow> nh_tally t n)"

definition names_ok :: "namehost list \<Rightarrow> bool" where
  "names_ok ns \<longleftrightarrow> distinct (map (fold_case \<circ> nh_name) ns) \<and> (\<forall>n \<in> set ns. gcount n > 0)"

lemma tally_of_Nil [simp]: "tally_of t [] u = 0"
  by (simp add: tally_of_def)

lemma tally_of_Cons [simp]:
  "tally_of t (n # ns) u = (if fold_case (nh_name n) = u then nh_tally t n else tally_of t ns u)"
  by (simp add: tally_of_def)

lemma tally_of_absent: "u \<notin> (fold_case \<circ> nh_name) ` set ns \<Longrightarrow> tally_of t ns u = 0"
  by (induction ns) auto

lemma names_ok_Cons:
  "names_ok (n # ns) \<longleftrightarrow> gcount n > 0 \<and> fold_case (nh_name n) \<notin> (fold_case \<circ> nh_name) ` set ns \<and> names_ok ns"
  by (auto simp: names_ok_def)

lemma names_ok_G_pos:
  "names_ok ns \<Longrightarrow> tally_of G ns u \<ge> 0 \<and> (tally_of G ns u = 0 \<longleftrightarrow> u \<notin> (fold_case \<circ> nh_name) ` set ns)"
  by (induction ns) (auto simp: names_ok_Cons)

lemma count_loop_tally:
  "names_ok ns \<Longrightarrow> count_loop user ns =
     (if tally_of G ns (fold_case user) = 0 then None
      else Some (tally_of G ns (fold_case user), tally_of L ns (fold_case user), tally_of I ns (fold_case user)))"
  by (induction ns) (auto simp: names_ok_Cons irccmp_iff)

definition one_if :: "bool \<Rightarrow> int" where
  "one_if b = (if b then 1 else 0)"

lemma nh_name_inc_dec [simp]:
  "nh_name (inc_name hi gl n) = nh_name n" "nh_name (dec_name hi gl n) = nh_name n"
  by (simp_all add: inc_name_def dec_name_def Let_def)

lemma nh_tally_inc: "nh_tally t (inc_name hi gl n) = nh_tally t n + one_if (counted t hi gl)"
  by (cases t) (simp_all add: inc_name_def Let_def one_if_def)

lemma nh_tally_dec:
  "(counted t hi gl \<Longrightarrow> nh_tally t n > 0) \<Longrightarrow>
   nh_tally t (dec_name hi gl n) = nh_tally t n - one_if (counted t hi gl)"
  by (cases t) (auto simp: dec_name_def Let_def one_if_def)

lemma add_loop_None: "add_loop user hi gl ns = None \<longleftrightarrow> fold_case user \<notin> (fold_case \<circ> nh_name) ` set ns"
  by (induction ns) (auto simp: irccmp_iff Let_def)

lemma add_loop_names:
  "add_loop user hi gl ns = Some ns' \<Longrightarrow> map nh_name ns' = map nh_name ns"
  by (induction ns arbitrary: ns') (auto split: if_splits)

lemma add_loop_tally:
  "names_ok ns \<Longrightarrow> add_loop user hi gl ns = Some ns' \<Longrightarrow>
   names_ok ns' \<and>
   tally_of t ns' u = tally_of t ns u + one_if (u = fold_case user \<and> counted t hi gl)"
proof (induction ns arbitrary: ns')
  case (Cons n ns)
  show ?case
  proof (cases "irccmp user (nh_name n) = 0")
    case True
    then have "ns' = inc_name hi gl n # ns" "fold_case (nh_name n) = fold_case user"
      using Cons.prems by (auto simp: irccmp_iff)
    moreover have "gcount (inc_name hi gl n) > 0"
      using Cons.prems(1) nh_tally_inc[of G hi gl n] by (simp add: names_ok_Cons one_if_def)
    ultimately show ?thesis
      using Cons.prems(1) by (simp add: names_ok_Cons nh_tally_inc one_if_def)
  next
    case False
    with Cons.prems obtain ms where ms: "add_loop user hi gl ns = Some ms" "ns' = n # ms"
      by (auto simp: names_ok_Cons)
    have "names_ok ns" using Cons.prems by (simp add: names_ok_Cons)
    note IH = Cons.IH[OF this ms(1)]
    have "nh_name ` set ms = nh_name ` set ns"
      using arg_cong[OF add_loop_names[OF ms(1)], of set] by simp
    then have "(fold_case \<circ> nh_name) ` set ms = (fold_case \<circ> nh_name) ` set ns"
      by (metis image_comp)
    with IH Cons.prems ms(2) False show ?thesis by (auto simp: names_ok_Cons irccmp_iff one_if_def)
  qed
qed simp

lemma delete_loop_None: "delete_loop user hi gl ns = None \<longleftrightarrow> fold_case user \<notin> (fold_case \<circ> nh_name) ` set ns"
  by (induction ns) (auto simp: irccmp_iff Let_def)

lemma delete_loop_names:
  "delete_loop user hi gl ns = Some ns' \<Longrightarrow> nh_name ` set ns' \<subseteq> nh_name ` set ns"
proof (induction ns arbitrary: ns')
  case (Cons n ns)
  show ?case
  proof (cases "irccmp user (nh_name n) = 0")
    case True
    with Cons.prems have "ns' = ns \<or> ns' = dec_name hi gl n # ns"
      by (simp add: Let_def split: if_split_asm)
    then show ?thesis by auto
  next
    case False
    with Cons.prems obtain ms where "delete_loop user hi gl ns = Some ms" "ns' = n # ms" by auto
    with Cons.IH[of ms] show ?thesis by auto
  qed
qed simp

definition deletable :: "string \<Rightarrow> bool \<Rightarrow> bool \<Rightarrow> namehost list \<Rightarrow> bool" where
  "deletable u hi gl ns \<longleftrightarrow> (\<forall>t. counted t hi gl \<longrightarrow> tally_of t ns u > 0) \<and>
     (tally_of G ns u = 1 \<longrightarrow> (\<forall>t. tally_of t ns u = one_if (counted t hi gl)))"

lemma deletable_Cons:
  "deletable u hi gl (n # ns) \<longleftrightarrow>
     (if fold_case (nh_name n) = u
      then (\<forall>t. counted t hi gl \<longrightarrow> nh_tally t n > 0) \<and>
        (gcount n = 1 \<longrightarrow> (\<forall>t. nh_tally t n = one_if (counted t hi gl)))
      else deletable u hi gl ns)"
  by (simp add: deletable_def)

text \<open>Deleting takes one off each tally the session is counted in, provided it is counted and
  the smaller tallies do not outlive the global one.\<close>

lemma delete_loop_tally:
  "names_ok ns \<Longrightarrow> delete_loop user hi gl ns = Some ns' \<Longrightarrow>
   deletable (fold_case user) hi gl ns \<Longrightarrow>
   names_ok ns' \<and>
   tally_of t ns' u = tally_of t ns u - one_if (u = fold_case user \<and> counted t hi gl)"
proof (induction ns arbitrary: ns')
  case (Cons n ns)
  show ?case
  proof (cases "irccmp user (nh_name n) = 0")
    case True
    then have key: "fold_case (nh_name n) = fold_case user" by (simp add: irccmp_iff)
    from Cons.prems(3) key have del: "\<forall>t. counted t hi gl \<longrightarrow> nh_tally t n > 0"
      "gcount n = 1 \<longrightarrow> (\<forall>t. nh_tally t n = one_if (counted t hi gl))"
      unfolding deletable_Cons by presburger+
    have pos: "counted t hi gl \<Longrightarrow> nh_tally t n > 0" for t using del(1) by blast
    have one: "gcount n = 1 \<Longrightarrow> nh_tally t n = one_if (counted t hi gl)" for t using del(2) by blast
    have dec: "nh_tally t (dec_name hi gl n) = nh_tally t n - one_if (counted t hi gl)" for t
      by (rule nh_tally_dec[OF pos])
    have absent: "tally_of t ns (fold_case user) = 0"
      using Cons.prems(1) key by (simp add: names_ok_Cons tally_of_absent)
    have g: "gcount (dec_name hi gl n) = gcount n - 1" using dec[of G] by (simp add: one_if_def)
    have gp: "gcount n > 0" using pos[of G] by simp
    show ?thesis
    proof (cases "gcount n = 1")
      case 1: True
      with g dec[of L] one[OF 1, of L] have "ns' = ns" using Cons.prems(2) True by simp
      with Cons.prems(1) key one[OF 1, of t] absent show ?thesis
        by (auto simp: names_ok_Cons one_if_def)
    next
      case False
      with g have "ns' = dec_name hi gl n # ns" using Cons.prems(2) True by simp
      with Cons.prems(1) g gp False key dec[of t] show ?thesis
        by (auto simp: names_ok_Cons one_if_def)
    qed
  next
    case False
    then have key: "fold_case (nh_name n) \<noteq> fold_case user" by (metis irccmp_iff)
    from False Cons.prems obtain ms where ms: "delete_loop user hi gl ns = Some ms" "ns' = n # ms"
      by (auto simp: names_ok_Cons)
    have ok: "names_ok ns" using Cons.prems by (simp add: names_ok_Cons)
    have IH: "names_ok ms \<and> tally_of t ms u = tally_of t ns u - one_if (u = fold_case user \<and> counted t hi gl)"
      using Cons.IH[OF ok ms(1)] Cons.prems(3) key unfolding deletable_Cons by presburger
    have "nh_name ` set ms \<subseteq> nh_name ` set ns" by (rule delete_loop_names[OF ms(1)])
    then have "(fold_case \<circ> nh_name) ` set ms \<subseteq> (fold_case \<circ> nh_name) ` set ns"
      by (metis image_comp image_mono)
    with IH Cons.prems(1) ms(2) key show ?thesis by (auto simp: names_ok_Cons one_if_def)
  qed
qed simp

subsection \<open>The counters are the numbers of sessions\<close>

definition uh_repr :: "uh_state \<Rightarrow> ptr set \<Rightarrow> session multiset \<Rightarrow> bool" where
  "uh_repr s M S \<longleftrightarrow>
     userhosts (uh_host (uh_hash s)) (uh_hash s) M \<and>
     (\<forall>p \<in> M. \<forall>q \<in> M. same_name (uh_host (uh_hash s) p) (uh_host (uh_hash s) q) \<longrightarrow> p = q) \<and>
     (\<forall>p \<in> M. names_ok (uh_list s p) \<and> uh_list s p \<noteq> []) \<and>
     (\<forall>p \<in> M. \<forall>t u. tally_of t (uh_list s p) u = sessions t S u (fold_case (uh_host (uh_hash s) p))) \<and>
     (\<forall>(user, host, global) \<in># S. \<exists>p \<in> M. same_name host (uh_host (uh_hash s) p))"

lemma uh_reprD:
  assumes "uh_repr s M S"
  shows "userhosts (uh_host (uh_hash s)) (uh_hash s) M"
    "p \<in> M \<Longrightarrow> q \<in> M \<Longrightarrow> same_name (uh_host (uh_hash s) p) (uh_host (uh_hash s) q) \<Longrightarrow> p = q"
    "p \<in> M \<Longrightarrow> names_ok (uh_list s p)" "p \<in> M \<Longrightarrow> uh_list s p \<noteq> []"
    "p \<in> M \<Longrightarrow> tally_of t (uh_list s p) u = sessions t S u (fold_case (uh_host (uh_hash s) p))"
    "(user, host, global) \<in># S \<Longrightarrow> \<exists>p \<in> M. same_name host (uh_host (uh_hash s) p)"
  using assms by (auto simp: uh_repr_def)

lemma sessions_add:
  "sessions t (add_mset (user, host, global) S) u h = sessions t S u h +
     one_if (u = fold_case (fst (split_ident user)) \<and> h = fold_case host \<and>
       counted t (snd (split_ident user)) global)"
  by (auto simp: sessions_def one_if_def)

lemma sessions_diff:
  assumes "(user, host, global) \<in># S"
  shows "sessions t (S - {#(user, host, global)#}) u h = sessions t S u h -
     one_if (u = fold_case (fst (split_ident user)) \<and> h = fold_case host \<and>
       counted t (snd (split_ident user)) global)"
  using sessions_add[of t user host global "S - {#(user, host, global)#}" u h] assms by simp

lemma sessions_nonneg: "sessions t S u h \<ge> 0"
  by (simp add: sessions_def)

lemma sessions_le_G: "sessions t S u h \<le> sessions G S u h"
  unfolding sessions_def by (induction S) auto

lemma sessions_no_host:
  assumes "\<And>user host global. (user, host, global) \<in># S \<Longrightarrow> fold_case host \<noteq> h"
  shows "sessions t S u h = 0"
proof -
  have "\<forall>x \<in># S. \<not> session_counts t u h x" using assms by auto
  then have "filter_mset (session_counts t u h) S = {#}" by (induction S) auto
  then show ?thesis by (simp add: sessions_def)
qed

text \<open>A host search: what it answers and that it keeps the representation.\<close>

lemma hash_find_userhost_frame:
  "hash_find_userhost k h = Some (r, h') \<Longrightarrow> \<exists>t. h' = h\<lparr>userhostTable := t\<rparr>"
  by (auto simp: hash_find_userhost_def)

lemma uh_repr_hash_cong:
  "uh_repr s M S \<Longrightarrow> userhosts (uh_host (uh_hash s)) h M \<Longrightarrow> uh_repr (s\<lparr>uh_hash := h\<rparr>) M S"
  by (simp add: uh_repr_def userhosts_def)

lemma find_userhost_repr:
  assumes "uh_repr s M S"
  shows "\<exists>r h. hash_find_userhost host (uh_hash s) = Some (r, h) \<and> uh_repr (s\<lparr>uh_hash := h\<rparr>) M S \<and>
    uh_host h = uh_host (uh_hash s) \<and>
    (case r of
       None \<Rightarrow> (\<forall>p \<in> M. \<not> same_name host (uh_host h p)) \<and> (\<forall>t u. sessions t S u (fold_case host) = 0)
     | Some p \<Rightarrow> p \<in> M \<and> same_name host (uh_host h p))"
proof -
  let ?nm = "uh_host (uh_hash s)"
  obtain r h where r: "hash_find_userhost host (uh_hash s) = Some (r, h)" "userhosts ?nm h M"
    "case r of None \<Rightarrow> \<forall>p \<in> M. \<not> same_name host (?nm p) | Some p \<Rightarrow> p \<in> M \<and> same_name host (?nm p)"
    using userhost_reg.repr_look[OF uh_reprD(1)[OF assms]] by blast
  have nm: "uh_host h = ?nm" using r(2) by (simp add: userhosts_def)
  have "sessions t S u (fold_case host) = 0" if "\<forall>p \<in> M. \<not> same_name host (?nm p)" for t u
  proof (rule sessions_no_host)
    fix user hst global assume "(user, hst, global) \<in># S"
    with uh_reprD(6)[OF assms] obtain p where "p \<in> M" "same_name hst (?nm p)" by blast
    with that show "fold_case hst \<noteq> fold_case host" by (auto simp: same_name_iff)
  qed
  with r nm uh_repr_hash_cong[OF assms r(2)] show ?thesis by (cases r) auto
qed

subsection \<open>Properties\<close>

text \<open>\<open>count_user_host\<close> reports, for a user and a host up to case, exactly the numbers of the
  sessions added and not deleted: all of them, the local ones and the local ones with ident.\<close>

theorem count_user_host_spec:
  assumes "uh_repr s M S"
  shows "\<exists>s'. uh_repr s' M S \<and> count_user_host user host s = Some
    ((if sessions G S (fold_case user) (fold_case host) = 0 then None
      else Some (sessions G S (fold_case user) (fold_case host),
        sessions L S (fold_case user) (fold_case host),
        sessions I S (fold_case user) (fold_case host))), s')"
proof -
  obtain r h where r: "hash_find_userhost host (uh_hash s) = Some (r, h)" "uh_repr (s\<lparr>uh_hash := h\<rparr>) M S"
    "uh_host h = uh_host (uh_hash s)"
    "case r of
       None \<Rightarrow> (\<forall>p \<in> M. \<not> same_name host (uh_host h p)) \<and> (\<forall>t u. sessions t S u (fold_case host) = 0)
     | Some p \<Rightarrow> p \<in> M \<and> same_name host (uh_host h p)"
    using find_userhost_repr[OF assms] by blast
  show ?thesis
  proof (cases r)
    case None
    with r show ?thesis by (simp add: count_user_host_def)
  next
    case (Some p)
    with r(3,4) have p: "p \<in> M" "fold_case (uh_host (uh_hash s) p) = fold_case host"
      by (auto simp: same_name_iff)
    with r Some count_loop_tally[OF uh_reprD(3)[OF assms p(1)]] uh_reprD(5)[OF assms p(1)]
    show ?thesis by (simp add: count_user_host_def)
  qed
qed

lemma uh_repr_set_list:
  assumes s: "uh_repr s M S" and p: "p \<in> M" and ok: "names_ok ns" "ns \<noteq> []"
    and S': "\<And>t u h. sessions t S' u h = sessions t S u h +
      (if h = fold_case (uh_host (uh_hash s) p) then tally_of t ns u - tally_of t (uh_list s p) u else 0)"
    and cov: "\<And>user host global. (user, host, global) \<in># S' \<Longrightarrow>
      \<exists>p \<in> M. same_name host (uh_host (uh_hash s) p)"
  shows "uh_repr (s\<lparr>uh_list := (uh_list s)(p := ns)\<rparr>) M S'"
proof -
  let ?nm = "uh_host (uh_hash s)"
  have "tally_of t (((uh_list s)(p := ns)) q) u = sessions t S' u (fold_case (?nm q))" if "q \<in> M" for q t u
  proof (cases "q = p")
    case True
    then show ?thesis using S' uh_reprD(5)[OF s p] by simp
  next
    case False
    with uh_reprD(2)[OF s that p] have "fold_case (?nm q) \<noteq> fold_case (?nm p)" by (auto simp: same_name_iff)
    with False show ?thesis using S' uh_reprD(5)[OF s that] by simp
  qed
  with s ok cov show ?thesis unfolding uh_repr_def by auto
qed

text \<open>\<open>newp\<close> is a block the heap had free.\<close>

lemma find_or_add_userhost_repr:
  assumes s: "uh_repr s M S" and fresh: "newp \<notin> M" and len: "length host \<le> HOSTLEN"
  shows "\<exists>p s'. find_or_add_userhost host newp s = Some (p, s') \<and>
    (p \<in> M \<and> uh_repr s' M S \<and> same_name host (uh_host (uh_hash s') p) \<or>
     p = newp \<and> uh_list s' newp = [] \<and> uh_host (uh_hash s') newp = host \<and>
     userhosts (uh_host (uh_hash s')) (uh_hash s') (insert newp M) \<and>
     (\<forall>q \<in> M. \<not> same_name host (uh_host (uh_hash s') q) \<and>
        uh_host (uh_hash s') q = uh_host (uh_hash s) q \<and> uh_list s' q = uh_list s q) \<and>
     (\<forall>t u. sessions t S u (fold_case host) = 0))"
proof -
  obtain r h where r: "hash_find_userhost host (uh_hash s) = Some (r, h)" "uh_repr (s\<lparr>uh_hash := h\<rparr>) M S"
    "uh_host h = uh_host (uh_hash s)"
    "case r of
       None \<Rightarrow> (\<forall>p \<in> M. \<not> same_name host (uh_host h p)) \<and> (\<forall>t u. sessions t S u (fold_case host) = 0)
     | Some p \<Rightarrow> p \<in> M \<and> same_name host (uh_host h p)"
    using find_userhost_repr[OF s] by blast
  show ?thesis
  proof (cases r)
    case (Some p)
    with r show ?thesis by (simp add: find_or_add_userhost_def)
  next
    case None
    have host: "c_strlcpy host (HOSTLEN + 1) = host" using len by (simp add: c_strlcpy_def)
    let ?nm = "(uh_host h)(newp := host)"
    let ?h = "h\<lparr>uh_host := ?nm\<rparr>"
    from uh_reprD(1)[OF r(2)] obtain B where
      B: "table_repr (ircd_random_key h) (uh_host h) (userhostTable h) B" "M = members B"
      by (auto simp: userhosts_def table_of_def)
    have "table_repr (ircd_random_key h) ?nm (userhostTable h) B"
      using B fresh by (auto simp: table_repr_def members_def)
    with B(2) have "userhosts ?nm ?h M" by (auto simp: userhosts_def table_of_def)
    from userhost_reg.repr_add[OF this fresh]
    have new: "userhosts ?nm (hash_add_userhost newp ?h) (insert newp M)" .
    then have "uh_host (hash_add_userhost newp ?h) = ?nm" by (simp add: userhosts_def)
    with new None r host fresh show ?thesis
      by (auto simp: find_or_add_userhost_def Let_def)
  qed
qed

text \<open>The names after an addition.\<close>

definition names_after :: "string \<Rightarrow> bool \<Rightarrow> bool \<Rightarrow> namehost list \<Rightarrow> namehost list" where
  "names_after u hi gl ns = (case add_loop u hi gl ns of Some ns' \<Rightarrow> ns' | None \<Rightarrow> new_name u hi gl # ns)"

lemma names_after_ok:
  assumes "names_ok ns" "length u \<le> USERLEN"
  shows "names_ok (names_after u hi gl ns) \<and> names_after u hi gl ns \<noteq> [] \<and>
    tally_of t (names_after u hi gl ns) v = tally_of t ns v + one_if (v = fold_case u \<and> counted t hi gl)"
proof -
  have new: "fold_case (nh_name (new_name u hi gl)) = fold_case u" "nh_tally t (new_name u hi gl) = one_if (counted t hi gl)" for t
    using assms(2) by (cases t; simp add: new_name_def c_strlcpy_def one_if_def)+
  show ?thesis
  proof (cases "add_loop u hi gl ns")
    case None
    then have abs: "fold_case u \<notin> (fold_case \<circ> nh_name) ` set ns" by (simp add: add_loop_None)
    then have "tally_of t ns (fold_case u) = 0" for t by (rule tally_of_absent)
    moreover have "gcount (new_name u hi gl) = 1" by (simp add: new_name_def)
    ultimately show ?thesis using None assms(1) abs new by (auto simp: names_after_def names_ok_Cons one_if_def)
  next
    case (Some ms)
    have "ms \<noteq> []" using add_loop_names[OF Some] Some by (cases ns) auto
    with Some add_loop_tally[OF assms(1) Some] show ?thesis by (simp add: names_after_def)
  qed
qed

lemma add_to_host:
  assumes s: "uh_repr s M S" and p: "p \<in> M" "same_name host (uh_host (uh_hash s) p)" and len: "length (fst (split_ident user)) \<le> USERLEN"
  shows "uh_repr (s\<lparr>uh_list := (uh_list s)(p := names_after (fst (split_ident user)) (snd (split_ident user)) global (uh_list s p))\<rparr>)
    M (add_mset (user, host, global) S)"
proof (rule uh_repr_set_list[OF s p(1)])
  have h: "fold_case (uh_host (uh_hash s) p) = fold_case host" using p(2) by (simp add: same_name_iff)
  note n = names_after_ok[OF uh_reprD(3)[OF s p(1)] len, of "snd (split_ident user)" global]
  show "sessions t (add_mset (user, host, global) S) u k = sessions t S u k +
      (if k = fold_case (uh_host (uh_hash s) p)
       then tally_of t (names_after (fst (split_ident user)) (snd (split_ident user)) global (uh_list s p)) u - tally_of t (uh_list s p) u else 0)" for t u k
    using n[of t u] h by (auto simp: sessions_add one_if_def)
  show "\<exists>p \<in> M. same_name host' (uh_host (uh_hash s) p)" if "(user', host', global') \<in># add_mset (user, host, global) S" for user' host' global'
    using that p uh_reprD(6)[OF s] by auto
qed (use names_after_ok[OF uh_reprD(3)[OF s p(1)] len] in auto)

lemma add_first_name:
  assumes s: "uh_repr s M S" and fresh: "newp \<notin> M" and len: "length (fst (split_ident user)) \<le> USERLEN"
    and s1: "uh_list s1 newp = []" "uh_host (uh_hash s1) newp = host"
      "userhosts (uh_host (uh_hash s1)) (uh_hash s1) (insert newp M)"
      "\<forall>q \<in> M. \<not> same_name host (uh_host (uh_hash s1) q) \<and>
         uh_host (uh_hash s1) q = uh_host (uh_hash s) q \<and> uh_list s1 q = uh_list s q"
      "\<forall>t u. sessions t S u (fold_case host) = 0"
  shows "uh_repr (s1\<lparr>uh_list := (uh_list s1)(newp := names_after (fst (split_ident user)) (snd (split_ident user)) global (uh_list s1 newp))\<rparr>)
    (insert newp M) (add_mset (user, host, global) S)"
proof -
  let ?ns = "names_after (fst (split_ident user)) (snd (split_ident user)) global (uh_list s1 newp)"
  have "names_ok (uh_list s1 newp)" using s1(1) by (simp add: names_ok_def)
  note n = names_after_ok[OF this len, of "snd (split_ident user)" global]
  show ?thesis
    unfolding uh_repr_def
proof (intro conjI, goal_cases)
  case 1
  then show ?case using s1 by simp
next
  case 2
  have "q = q'" if "q \<in> M" "q' \<in> M" "same_name (uh_host (uh_hash s1) q) (uh_host (uh_hash s1) q')" for q q'
    using that s1 uh_reprD(2)[OF s, of q q'] by simp
  then show ?case using s1 by (auto simp: same_name_sym[of _ host])
next
  case 3
  show ?case using s1(4) n uh_reprD(3,4)[OF s] by auto
next
  case 4
  have "fold_case (uh_host (uh_hash s) q) \<noteq> fold_case host" if "q \<in> M" for q
    using s1 that by (auto simp: same_name_iff)
  then show ?case using s1 fresh n uh_reprD(5)[OF s] by (auto simp: sessions_add one_if_def)
next
  case 5
  show ?case using s1 uh_reprD(6)[OF s] by fastforce
qed
qed

lemma add_user_host_repr:
  assumes s: "uh_repr s M S" and fresh: "newp \<notin> M" and len: "length host \<le> HOSTLEN"
    and ulen: "length (fst (split_ident user)) \<le> USERLEN"
  shows "\<exists>s' M'. add_user_host user host global newp s = Some s' \<and> M' \<subseteq> insert newp M \<and>
    uh_repr s' M' (add_mset (user, host, global) S)"
proof -
  obtain p s1 where f: "find_or_add_userhost host newp s = Some (p, s1)" and
    c: "(p \<in> M \<and> uh_repr s1 M S \<and> same_name host (uh_host (uh_hash s1) p)) \<or>
     (p = newp \<and> uh_list s1 newp = [] \<and> uh_host (uh_hash s1) newp = host \<and>
     userhosts (uh_host (uh_hash s1)) (uh_hash s1) (insert newp M) \<and>
     (\<forall>q \<in> M. \<not> same_name host (uh_host (uh_hash s1) q) \<and>
        uh_host (uh_hash s1) q = uh_host (uh_hash s) q \<and> uh_list s1 q = uh_list s q) \<and>
     (\<forall>t u. sessions t S u (fold_case host) = 0))"
    using find_or_add_userhost_repr[OF s fresh len] by blast
  have add: "add_user_host user host global newp s = Some (s1\<lparr>uh_list := (uh_list s1)
      (p := names_after (fst (split_ident user)) (snd (split_ident user)) global (uh_list s1 p))\<rparr>)"
    using f by (simp add: add_user_host_def names_after_def split: prod.splits option.splits)
  from c show ?thesis
  proof
    assume "p \<in> M \<and> uh_repr s1 M S \<and> same_name host (uh_host (uh_hash s1) p)"
    then show ?thesis using add add_to_host[of s1 M S p host user global] ulen by blast
  next
    assume a: "p = newp \<and> uh_list s1 newp = [] \<and> uh_host (uh_hash s1) newp = host \<and>
     userhosts (uh_host (uh_hash s1)) (uh_hash s1) (insert newp M) \<and>
     (\<forall>q \<in> M. \<not> same_name host (uh_host (uh_hash s1) q) \<and>
        uh_host (uh_hash s1) q = uh_host (uh_hash s) q \<and> uh_list s1 q = uh_list s q) \<and>
     (\<forall>t u. sessions t S u (fold_case host) = 0)"
    then have "uh_repr (s1\<lparr>uh_list := (uh_list s1)(newp := names_after (fst (split_ident user)) (snd (split_ident user)) global (uh_list s1 newp))\<rparr>)
      (insert newp M) (add_mset (user, host, global) S)" by (intro add_first_name[OF s fresh ulen]) blast+
    then show ?thesis using add a by auto
  qed
qed

text \<open>C30. \<open>add_user_host\<close> counts one more session (with a tilde: one without ident), whether or not
  the host and the name were known, for names and hosts that fit their fields.\<close>

theorem add_user_host_spec:
  assumes "uh_repr s M S" "newp \<notin> M" "length host \<le> HOSTLEN" "length (fst (split_ident user)) \<le> USERLEN"
  shows "\<exists>s' M'. add_user_host user host global newp s = Some s' \<and> M' \<subseteq> insert newp M \<and>
    uh_repr s' M' (add_mset (user, host, global) S)"
  using assms by (rule add_user_host_repr)

lemma delete_names:
  assumes s: "uh_repr s M S" and p: "p \<in> M" "same_name host (uh_host (uh_hash s) p)" and mem: "(user, host, global) \<in># S"
  shows "\<exists>ns. delete_loop (fst (split_ident user)) (snd (split_ident user)) global (uh_list s p) = Some ns \<and> names_ok ns \<and>
    (\<forall>t u k. sessions t (S - {#(user, host, global)#}) u k = sessions t S u k +
      (if k = fold_case (uh_host (uh_hash s) p) then tally_of t ns u - tally_of t (uh_list s p) u else 0))"
proof -
  let ?u = "fst (split_ident user)" and ?hi = "snd (split_ident user)"
  let ?S = "S - {#(user, host, global)#}"
  have h1: "fold_case (uh_host (uh_hash s) p) = fold_case host" using p(2) by (simp add: same_name_iff)
  have one: "sessions t S (fold_case ?u) (fold_case host) =
      sessions t ?S (fold_case ?u) (fold_case host) + one_if (counted t ?hi global)" for t
    using sessions_diff[OF mem, of t "fold_case ?u" "fold_case host"] by simp
  have pos: "sessions G S (fold_case ?u) (fold_case host) > 0"
    using one[of G] sessions_nonneg[of G ?S] by (simp add: one_if_def add_nonneg_pos)
  have tal: "tally_of t (uh_list s p) u = sessions t S u (fold_case host)" for t u
    using uh_reprD(5)[OF s p(1)] h1 by simp
  have del: "deletable (fold_case ?u) ?hi global (uh_list s p)"
    unfolding deletable_def tal
  proof (intro conjI allI impI)
    show "0 < sessions t S (fold_case ?u) (fold_case host)" if "counted t ?hi global" for t
      using one[of t] sessions_nonneg[of t ?S "fold_case ?u" "fold_case host"] that by (simp add: one_if_def)
    show "sessions t S (fold_case ?u) (fold_case host) = one_if (counted t ?hi global)"
      if "sessions G S (fold_case ?u) (fold_case host) = 1" for t
      using that one[of G] one[of t] sessions_le_G[of t ?S "fold_case ?u" "fold_case host"]
        sessions_nonneg[of t ?S "fold_case ?u" "fold_case host"] by (simp add: one_if_def)
  qed
  have "fold_case ?u \<in> (fold_case \<circ> nh_name) ` set (uh_list s p)"
    using tally_of_absent[of "fold_case ?u" "uh_list s p" G] tal pos by (metis less_irrefl)
  with delete_loop_None obtain ns where ns: "delete_loop ?u ?hi global (uh_list s p) = Some ns" by blast
  note lt = delete_loop_tally[OF uh_reprD(3)[OF s p(1)] ns del]
  have "sessions t ?S u k = sessions t S u k +
      (if k = fold_case (uh_host (uh_hash s) p) then tally_of t ns u - tally_of t (uh_list s p) u else 0)" for t u k
    using lt[of t u] h1 by (auto simp: sessions_diff[OF mem] one_if_def)
  then show ?thesis using ns lt by blast
qed

text \<open>The last name of a host goes with the host.\<close>

lemma no_sessions_left:
  assumes "\<And>t u. sessions t S u k = 0" "(user, host, global) \<in># S"
  shows "fold_case host \<noteq> k"
proof
  assume k: "fold_case host = k"
  let ?P = "session_counts G (fold_case (fst (split_ident user))) k"
  have "size (filter_mset ?P S) = 0" using assms(1)[of G "fold_case (fst (split_ident user))"] by (simp add: sessions_def)
  then have empty: "filter_mset ?P S = {#}" by simp
  have "(user, host, global) \<in># filter_mset ?P S" unfolding set_mset_filter using assms(2) k by simp
  then show False unfolding empty by simp
qed

lemma delete_host:
  assumes s: "uh_repr s M S" and p: "p \<in> M" "fold_case (uh_host (uh_hash s) p) = k"
    and sess: "\<And>t u j. sessions t S' u j = (if j = k then 0 else sessions t S u j)" and sub: "set_mset S' \<subseteq> set_mset S"
  shows "\<exists>h. hash_del_userhost p (uh_hash s) = Some h \<and> uh_repr (s\<lparr>uh_list := (uh_list s)(p := []), uh_hash := h\<rparr>) (M - {p}) S'"
proof -
  let ?nm = "uh_host (uh_hash s)"
  obtain h where h: "hash_del_userhost p (uh_hash s) = Some h" "userhosts ?nm h (M - {p})"
    using userhost_reg.repr_del[OF uh_reprD(1)[OF s] p(1)] by blast
  then have nm: "uh_host h = ?nm" by (simp add: userhosts_def)
  have other: "fold_case (?nm q) \<noteq> k" if "q \<in> M" "q \<noteq> p" for q
    using uh_reprD(2)[OF s that(1) p(1)] that(2) p(2) by (auto simp: same_name_iff)
  have "\<exists>q \<in> M - {p}. same_name host (?nm q)" if x: "(user, host, global) \<in># S'" for user host global
  proof -
    obtain q where q: "q \<in> M" "same_name host (?nm q)" using uh_reprD(6)[OF s] sub x by blast
    have "fold_case host \<noteq> k" by (rule no_sessions_left[OF _ x]) (simp add: sess)
    then have "q \<noteq> p" using q(2) p(2) by (auto simp: same_name_iff)
    with q show ?thesis by blast
  qed
  then have "uh_repr (s\<lparr>uh_list := (uh_list s)(p := []), uh_hash := h\<rparr>) (M - {p}) S'"
    using h(2) nm other uh_reprD(2,3,4,5)[OF s] by (auto simp: uh_repr_def sess)
  then show ?thesis using h(1) by blast
qed

lemma delete_user_host_repr:
  assumes s: "uh_repr s M S" and mem: "(user, host, global) \<in># S"
  shows "\<exists>s' M'. delete_user_host user host global s = Some s' \<and> M' \<subseteq> M \<and> uh_repr s' M' (S - {#(user, host, global)#})"
proof -
  let ?S = "S - {#(user, host, global)#}"
  obtain r h where r: "hash_find_userhost host (uh_hash s) = Some (r, h)" "uh_repr (s\<lparr>uh_hash := h\<rparr>) M S"
    "case r of None \<Rightarrow> (\<forall>t u. sessions t S u (fold_case host) = 0) | Some p \<Rightarrow> p \<in> M \<and> same_name host (uh_host h p)"
    using find_userhost_repr[OF s, of host] by (fastforce split: option.splits)
  obtain p where p: "r = Some p" "p \<in> M" "same_name host (uh_host h p)" using r(3) no_sessions_left[OF _ mem] by (cases r) auto
  define s1 where "s1 = s\<lparr>uh_hash := h\<rparr>"
  have s1: "uh_repr s1 M S" "same_name host (uh_host (uh_hash s1) p)" using r(2) p(3) by (simp_all add: s1_def)
  obtain ns where ns: "delete_loop (fst (split_ident user)) (snd (split_ident user)) global (uh_list s1 p) = Some ns" "names_ok ns"
    and sess: "\<And>t u k. sessions t ?S u k = sessions t S u k +
      (if k = fold_case (uh_host (uh_hash s1) p) then tally_of t ns u - tally_of t (uh_list s1 p) u else 0)"
    using delete_names[OF s1(1) p(2) s1(2) mem] by blast
  have code: "delete_user_host user host global s =
      (let s2 = s1\<lparr>uh_list := (uh_list s1)(p := ns)\<rparr>
       in if ns = [] then map_option (\<lambda>h. s2\<lparr>uh_hash := h\<rparr>) (hash_del_userhost p (uh_hash s2)) else Some s2)"
    using r(1) p(1) ns by (cases "split_ident user") (simp add: delete_user_host_def s1_def Let_def)
  show ?thesis
  proof (cases "ns = []")
    case False
    have "\<exists>p \<in> M. same_name host' (uh_host (uh_hash s1) p)" if "(user', host', global') \<in># ?S" for user' host' global'
      using uh_reprD(6)[OF s1(1)] in_diffD[OF that] by blast
    then have "uh_repr (s1\<lparr>uh_list := (uh_list s1)(p := ns)\<rparr>) M ?S"
      using uh_repr_set_list[OF s1(1) p(2) ns(2) False sess] by blast
    with code False show ?thesis by auto
  next
    case True
    have "sessions t ?S u j = (if j = fold_case (uh_host (uh_hash s1) p) then 0 else sessions t S u j)" for t u j
      using sess[of t u j] uh_reprD(5)[OF s1(1) p(2), of t u] True by simp
    moreover have "set_mset ?S \<subseteq> set_mset S" by (auto dest: in_diffD)
    ultimately obtain h2 where "hash_del_userhost p (uh_hash s1) = Some h2"
      "uh_repr (s1\<lparr>uh_list := (uh_list s1)(p := []), uh_hash := h2\<rparr>) (M - {p}) ?S"
      using delete_host[OF s1(1) p(2) refl] by blast
    moreover have "M - {p} \<subseteq> M" by blast
    ultimately show ?thesis using code True by (auto simp: Let_def)
  qed
qed

text \<open>C29. \<open>delete_user_host\<close> takes exactly one counted session back, frees the name with its last
  session and the host with its last name, and leaves all other counts alone.\<close>

theorem delete_user_host_spec:
  assumes "uh_repr s M S" "(user, host, global) \<in># S"
  shows "\<exists>s' M'. delete_user_host user host global s = Some s' \<and> M' \<subseteq> M \<and>
    uh_repr s' M' (S - {#(user, host, global)#})"
  using assms by (rule delete_user_host_repr)

lemma empty_uh_repr:
  "uh_repr \<lparr>uh_hash = init_hash 5 h, uh_list = l\<rparr> {} {#}"
proof -
  have "uh_host (init_hash 5 h) = uh_host h" by (simp add: init_hash_def)
  with init_hash_empty(5)[of h 5] show ?thesis by (simp add: uh_repr_def)
qed

lemma count_user_host_spec_witness:
  "\<exists>s'. count_user_host ''bob'' ''example.org'' \<lparr>uh_hash = init_hash 5 no_objects, uh_list = \<lambda>_. []\<rparr> =
    Some (None, s')"
  using count_user_host_spec[OF empty_uh_repr[of no_objects "\<lambda>_. []"], of "''bob''" "''example.org''"]
  by (auto simp: sessions_def)

lemma add_user_host_spec_witness:
  "\<exists>s' M'. add_user_host ''~bob'' ''example.org'' False 7
      \<lparr>uh_hash = init_hash 5 no_objects, uh_list = \<lambda>_. []\<rparr> = Some s' \<and> M' \<subseteq> {7} \<and>
    uh_repr s' M' {#(''~bob'', ''example.org'', False)#}"
  using add_user_host_spec[OF empty_uh_repr[of no_objects "\<lambda>_. []"], of 7 "''example.org''" "''~bob''" False]
  by (simp add: HOSTLEN_def USERLEN_def split_ident_def)

lemma one_session:
  "uh_repr \<lparr>uh_hash = hash_add_userhost 3 (init_hash 5 no_objects),
      uh_list = \<lambda>_. [\<lparr>nh_name = ''bob'', icount = 1, gcount = 1, lcount = 1\<rparr>]\<rparr> {3} {#(''bob'', ''h'', False)#}"
proof -
  have nm: "uh_host (init_hash 5 no_objects) = uh_host no_objects" by (simp add: init_hash_def)
  have h: "uh_host no_objects 3 = ''h''" by (simp add: no_objects_def init_hash_def)
  have u: "userhosts (uh_host no_objects) (hash_add_userhost 3 (init_hash 5 no_objects)) {3}"
    using userhost_reg.repr_add[OF init_hash_empty(5)[of no_objects 5], of 3] by simp
  then have "uh_host (hash_add_userhost 3 (init_hash 5 no_objects)) = uh_host no_objects"
    by (simp add: userhosts_def)
  moreover have "tally_of t [\<lparr>nh_name = ''bob'', icount = 1, gcount = 1, lcount = 1\<rparr>] u =
      sessions t {#(''bob'', ''h'', False)#} u (fold_case ''h'')" for t u
    by (cases t) (auto simp: sessions_def split_ident_def)
  ultimately show ?thesis using u h by (auto simp: uh_repr_def names_ok_def)
qed

lemma delete_user_host_spec_witness:
  "\<exists>s' M'. delete_user_host ''bob'' ''h'' False
      \<lparr>uh_hash = hash_add_userhost 3 (init_hash 5 no_objects),
       uh_list = \<lambda>_. [\<lparr>nh_name = ''bob'', icount = 1, gcount = 1, lcount = 1\<rparr>]\<rparr> = Some s' \<and>
    M' \<subseteq> {3} \<and> uh_repr s' M' {#}"
  using delete_user_host_spec[OF one_session, of "''bob''" "''h''" False] by simp

end
