(* ===== verification/Whowas.thy ===== *)
theory Whowas
  imports Hash
begin

text \<open>
  \<^verbatim>\<open>src/whowas.c\<close>: the nick history behind WHOWAS and the nick chase of KILL and KICK. The
  records are a ring of \<open>NICKNAMEHISTORYLENGTH\<close> slots (a configure option, the parameter
  \<open>N\<close>); a slot is on the list of its name's hash bucket and, while its client is online,
  on the list of that client. The link fields of the slots are kept as maps from slot
  numbers, the other fields as a record.

  The specification is a list of history entries, the newest first, of which the last \<open>N\<close>
  are kept. \<open>wh_repr\<close> relates the ring and its lists to it; adding, searching and the
  client's exit are shown to do on the ring what they do on the list.
\<close>

subsection \<open>The two kinds of lists\<close>

text \<open>\<open>add_whowas_to_list\<close>, \<open>add_whowas_to_clist\<close>: next links, previous links and the head.\<close>

type_synonym links = "nat \<Rightarrow> nat option"

definition link_add :: "nat \<Rightarrow> links \<times> links \<times> nat option \<Rightarrow> links \<times> links \<times> nat option" where
  "link_add p = (\<lambda>(nxt, prv, hp).
     (let prv = prv(p := None);
          nxt = nxt(p := hp);
          prv = (case hp of Some h \<Rightarrow> prv(h := Some p) | None \<Rightarrow> prv)
      in (nxt, prv, Some p)))"

definition link_del :: "nat \<Rightarrow> links \<times> links \<times> nat option \<Rightarrow> links \<times> links \<times> nat option" where
  "link_del p = (\<lambda>(nxt, prv, hp).
     (let (nxt', hp) = (case prv p of Some q \<Rightarrow> (nxt(q := nxt p), hp) | None \<Rightarrow> (nxt, nxt p));
          prv = (case nxt' p of Some r \<Rightarrow> prv(r := prv p) | None \<Rightarrow> prv)
      in (nxt', prv, hp)))"

definition dll :: "links \<Rightarrow> links \<Rightarrow> nat option \<Rightarrow> nat list \<Rightarrow> bool" where
  "dll nxt prv hp ps \<longleftrightarrow> distinct ps \<and> dseg nxt prv None ps None \<and> hp = first_or None ps"

lemma dll_chain: "dll nxt prv hp ps \<Longrightarrow> chain nxt hp ps"
  by (auto simp: dll_def intro: dseg_chain)

lemma dll_frame:
  "dll nxt prv hp ps \<Longrightarrow> (\<And>p. p \<in> set ps \<Longrightarrow> nxt' p = nxt p \<and> prv' p = prv p) \<Longrightarrow> dll nxt' prv' hp ps"
  unfolding dll_def using dseg_cong[of ps nxt nxt' prv prv' None None] by auto

lemma link_add_dll:
  assumes "dll nxt prv hp ps" "p \<notin> set ps" "link_add p (nxt, prv, hp) = (nxt', prv', hp')"
  shows "dll nxt' prv' hp' (p # ps)" "\<And>q. q \<notin> set (p # ps) \<Longrightarrow> nxt' q = nxt q \<and> prv' q = prv q"
proof -
  from assms show "dll nxt' prv' hp' (p # ps)"
    by (cases ps) (auto simp: dll_def link_add_def Let_def dseg_frame_nxt dseg_frame_prv)
  from assms show "\<And>q. q \<notin> set (p # ps) \<Longrightarrow> nxt' q = nxt q \<and> prv' q = prv q"
    by (cases ps) (auto simp: dll_def link_add_def Let_def)
qed

lemma link_del_dll:
  assumes "dll nxt prv hp (xs @ p # ys)" "link_del p (nxt, prv, hp) = (nxt', prv', hp')"
  shows "dll nxt' prv' hp' (xs @ ys)" "\<And>q. q \<notin> set (xs @ ys) \<Longrightarrow> nxt' q = nxt q \<and> prv' q = prv q"
proof -
  have d: "distinct (xs @ p # ys)" and seg: "dseg nxt prv None (xs @ p # ys) None"
    and hp: "hp = first_or None (xs @ p # ys)" using assms(1) by (simp_all add: dll_def)
  from seg have pp: "prv p = last_or None xs" "nxt p = first_or None ys" by (simp_all add: dseg_append)
  have "link_del p (nxt, prv, hp) =
     ((case last_or None xs of Some q \<Rightarrow> nxt(q := first_or None ys) | None \<Rightarrow> nxt),
      (case first_or None ys of Some r \<Rightarrow> prv(r := last_or None xs) | None \<Rightarrow> prv),
      (if xs = [] then first_or None ys else hp))"
  proof (cases xs rule: rev_cases)
    case Nil
    with pp show ?thesis by (simp add: link_del_def split: option.split)
  next
    case (snoc zs a)
    with d have "p \<noteq> a" by auto
    with snoc pp show ?thesis by (simp add: link_del_def split: option.split)
  qed
  with assms(2)
  have eq: "nxt' = (case last_or None xs of Some q \<Rightarrow> nxt(q := first_or None ys) | None \<Rightarrow> nxt)"
    "prv' = (case first_or None ys of Some r \<Rightarrow> prv(r := last_or None xs) | None \<Rightarrow> prv)"
    "hp' = (if xs = [] then first_or None ys else hp)"
    by simp_all
  show "q \<notin> set (xs @ ys) \<Longrightarrow> nxt' q = nxt q \<and> prv' q = prv q" for q
    by (cases xs rule: rev_cases; cases ys; simp add: eq)
  have "dseg nxt' prv' None (xs @ ys) None"
    using seg d by (cases xs rule: rev_cases; cases ys)
      (auto simp: eq dseg_append dseg_frame_nxt dseg_frame_prv)
  moreover have "hp' = first_or None (xs @ ys)" using hp eq(3) by (cases xs) auto
  ultimately show "dll nxt' prv' hp' (xs @ ys)" using d by (simp add: dll_def)
qed

subsection \<open>The state and the operations\<close>

record whowas_data =
  w_hashv :: int
  logoff :: time_t
  w_name :: string
  w_username :: string
  w_hostname :: string
  w_realname :: string
  w_servername :: string
  online :: "ptr option"

record wh_state =
  WHOWAS :: "nat \<Rightarrow> whowas_data"
  w_next :: links
  w_prev :: links
  w_cnext :: links
  w_cprev :: links
  WHOWASHASH :: "nat \<Rightarrow> nat option"
  whowas_next :: nat
  client_whowas :: "ptr \<Rightarrow> nat option"

record wh_client =
  wc_name :: string
  wc_username :: string
  wc_host :: string
  wc_info :: string
  wc_server :: "string option"

definition add_whowas_to_clist :: "ptr \<Rightarrow> nat \<Rightarrow> wh_state \<Rightarrow> wh_state" where
  "add_whowas_to_clist c p s =
     (case link_add p (w_cnext s, w_cprev s, client_whowas s c) of (n, v, h) \<Rightarrow>
        s\<lparr>w_cnext := n, w_cprev := v, client_whowas := (client_whowas s)(c := h)\<rparr>)"

definition del_whowas_from_clist :: "ptr \<Rightarrow> nat \<Rightarrow> wh_state \<Rightarrow> wh_state" where
  "del_whowas_from_clist c p s =
     (case link_del p (w_cnext s, w_cprev s, client_whowas s c) of (n, v, h) \<Rightarrow>
        s\<lparr>w_cnext := n, w_cprev := v, client_whowas := (client_whowas s)(c := h)\<rparr>)"

definition add_whowas_to_list :: "nat \<Rightarrow> nat \<Rightarrow> wh_state \<Rightarrow> wh_state" where
  "add_whowas_to_list b p s =
     (case link_add p (w_next s, w_prev s, WHOWASHASH s b) of (n, v, h) \<Rightarrow>
        s\<lparr>w_next := n, w_prev := v, WHOWASHASH := (WHOWASHASH s)(b := h)\<rparr>)"

definition del_whowas_from_list :: "nat \<Rightarrow> nat \<Rightarrow> wh_state \<Rightarrow> wh_state" where
  "del_whowas_from_list b p s =
     (case link_del p (w_next s, w_prev s, WHOWASHASH s b) of (n, v, h) \<Rightarrow>
        s\<lparr>w_next := n, w_prev := v, WHOWASHASH := (WHOWASHASH s)(b := h)\<rparr>)"

text \<open>The record \<open>add_history\<close> fills in for a client; \<open>name\<close> holds \<open>NICKLEN\<close> bytes.\<close>

definition history_entry :: "u32 \<Rightarrow> time_t \<Rightarrow> ptr \<Rightarrow> wh_client \<Rightarrow> string \<Rightarrow> bool \<Rightarrow> whowas_data" where
  "history_entry key now c cl server on =
     \<lparr>w_hashv = int (hashv key (wc_name cl)), logoff = now,
      w_name = c_strlcpy (wc_name cl) NICKLEN, w_username = wc_username cl,
      w_hostname = wc_host cl, w_realname = wc_info cl,
      w_servername = c_strlcpy server (HOSTLEN + 1),
      online = (if on then Some c else None)\<rparr>"

definition add_history ::
  "nat \<Rightarrow> u32 \<Rightarrow> time_t \<Rightarrow> ptr \<Rightarrow> wh_client \<Rightarrow> bool \<Rightarrow> wh_state \<Rightarrow> wh_state" where
  "add_history N key now c cl on s =
     (case wc_server cl of
        None \<Rightarrow> s
      | Some server \<Rightarrow>
          let who = whowas_next s;
              s = (if w_hashv (WHOWAS s who) \<noteq> - 1
                   then let s = (case online (WHOWAS s who) of
                                   Some oc \<Rightarrow> del_whowas_from_clist oc who s
                                 | None \<Rightarrow> s)
                        in del_whowas_from_list (nat (w_hashv (WHOWAS s who))) who s
                   else s);
              s = s\<lparr>WHOWAS := (WHOWAS s)(who := history_entry key now c cl server on)\<rparr>;
              s = (if on then add_whowas_to_clist c who s else s);
              s = add_whowas_to_list (nat (w_hashv (WHOWAS s who))) who s;
              s = s\<lparr>whowas_next := whowas_next s + 1\<rparr>
          in if whowas_next s = N then s\<lparr>whowas_next := 0\<rparr> else s)"

partial_function (option) off_loop :: "ptr \<Rightarrow> nat option \<Rightarrow> wh_state \<Rightarrow> wh_state option" where
  "off_loop c temp s =
     (case temp of
        None \<Rightarrow> Some s
      | Some t \<Rightarrow>
          let nxt = w_cnext s t;
              s = s\<lparr>WHOWAS := (WHOWAS s)(t := (WHOWAS s t)\<lparr>online := None\<rparr>)\<rparr>;
              s = del_whowas_from_clist c t s
          in off_loop c nxt s)"

definition off_history :: "ptr \<Rightarrow> wh_state \<Rightarrow> wh_state option" where
  "off_history c s = off_loop c (client_whowas s c) s"

definition get_history :: "u32 \<Rightarrow> time_t \<Rightarrow> string \<Rightarrow> time_t \<Rightarrow> wh_state \<Rightarrow> ptr option option" where
  "get_history key now nick timelimit s =
     (let timelimit = now - timelimit
      in case list_find (\<lambda>t. irccmp nick (w_name (WHOWAS s t)) = 0 \<and> \<not> logoff (WHOWAS s t) < timelimit)
                (w_next s) (WHOWASHASH s (hashv key nick)) of
           None \<Rightarrow> None
         | Some None \<Rightarrow> Some None
         | Some (Some t) \<Rightarrow> Some (online (WHOWAS s t)))"

text \<open>\<open>sizeof(struct Whowas)\<close> is a parameter.\<close>

definition count_whowas_memory :: "nat \<Rightarrow> nat \<Rightarrow> wh_state \<Rightarrow> nat \<times> nat" where
  "count_whowas_memory N size_of s =
     foldl (\<lambda>(u, um) i. if w_hashv (WHOWAS s i) \<noteq> - 1 then (u + 1, um + size_of) else (u, um))
       (0, 0) [0..<N]"

definition empty_whowas :: whowas_data where
  "empty_whowas = \<lparr>w_hashv = - 1, logoff = 0, w_name = [], w_username = [], w_hostname = [],
     w_realname = [], w_servername = [], online = None\<rparr>"

definition init_whowas :: "nat \<Rightarrow> wh_state \<Rightarrow> wh_state" where
  "init_whowas N s =
     s\<lparr>WHOWAS := (\<lambda>i. if i < N then empty_whowas else WHOWAS s i),
       w_next := (\<lambda>i. if i < N then None else w_next s i),
       w_prev := (\<lambda>i. if i < N then None else w_prev s i),
       w_cnext := (\<lambda>i. if i < N then None else w_cnext s i),
       w_cprev := (\<lambda>i. if i < N then None else w_cprev s i),
       WHOWASHASH := (\<lambda>i. if i < HASHSIZE then None else WHOWASHASH s i)\<rparr>"

subsection \<open>The ring\<close>

text \<open>The slots in use, the newest first, when \<open>w\<close> is the next to be written and \<open>n\<close> are in use.\<close>

definition ring :: "nat \<Rightarrow> nat \<Rightarrow> nat \<Rightarrow> nat list" where
  "ring N w n = map (\<lambda>k. (w + N - Suc k) mod N) [0..<n]"

lemma length_ring [simp]: "length (ring N w n) = n"
  by (simp add: ring_def)

lemma ring_less: "0 < N \<Longrightarrow> i \<in> set (ring N w n) \<Longrightarrow> i < N"
  by (auto simp: ring_def)

lemma ring_index:
  assumes "w < N" "k < N"
  shows "(w + N - Suc k) mod N = (if k < w then w - Suc k else w + N - Suc k)"
proof (cases "k < w")
  case True
  then have "w + N - Suc k = (w - Suc k) + N" by simp
  then have "(w + N - Suc k) mod N = (w - Suc k) mod N" by (metis mod_add_self2)
  then show ?thesis using True assms by simp
qed (use assms in simp)

lemma ring_distinct: "w < N \<Longrightarrow> n \<le> N \<Longrightarrow> distinct (ring N w n)"
  unfolding ring_def distinct_map by (auto simp: inj_on_def ring_index split: if_splits)

lemma ring_fresh: "w < N \<Longrightarrow> n < N \<Longrightarrow> w \<notin> set (ring N w n)"
  by (auto simp: ring_def ring_index split: if_splits)

lemma ring_full: "w < N \<Longrightarrow> ring N w N = ring N w (N - 1) @ [w]"
proof -
  assume w: "w < N"
  then obtain m where "N = Suc m" by (cases N) auto
  with w show ?thesis by (simp add: ring_def)
qed

lemma ring_step:
  assumes "w < N" "n < N"
  shows "ring N (if w + 1 = N then 0 else w + 1) (Suc n) = w # ring N w n"
proof (rule nth_equalityI)
  fix i assume "i < length (ring N (if w + 1 = N then 0 else w + 1) (Suc n))"
  then show "ring N (if w + 1 = N then 0 else w + 1) (Suc n) ! i = (w # ring N w n) ! i"
    using assms by (cases i) (auto simp: ring_def ring_index simp del: upt_Suc)
qed simp

subsection \<open>Families of lists over the same slots\<close>

text \<open>One list per key, each holding the slots of its key in the common order. Slots without a
  key are on no list.\<close>

definition family ::
  "links \<Rightarrow> links \<Rightarrow> ('k \<Rightarrow> nat option) \<Rightarrow> (nat \<Rightarrow> 'k option) \<Rightarrow> nat list \<Rightarrow> bool" where
  "family nxt prv hp key ps \<longleftrightarrow> (\<forall>k. dll nxt prv (hp k) (filter (\<lambda>i. key i = Some k) ps))"

lemma family_cong:
  "family nxt prv hp key ps \<Longrightarrow> (\<And>i. i \<in> set ps \<Longrightarrow> key' i = key i) \<Longrightarrow> family nxt prv hp key' ps"
  unfolding family_def by (metis (mono_tags, lifting) filter_cong)

lemma family_no_key: "key p = None \<Longrightarrow> family nxt prv hp key (xs @ p # ys) = family nxt prv hp key (xs @ ys)"
  by (simp add: family_def)

lemma family_add:
  assumes f: "family nxt prv hp key ps" and p: "p \<notin> set ps" "key p = Some k"
    and l: "link_add p (nxt, prv, hp k) = (nxt', prv', h')"
  shows "family nxt' prv' (hp(k := h')) key (p # ps)"
  unfolding family_def
proof
  fix k'
  let ?ps = "\<lambda>k. filter (\<lambda>i. key i = Some k) ps"
  have f: "dll nxt prv (hp k) (?ps k)" for k using f by (simp add: family_def)
  note la = link_add_dll[OF f _ l]
  have mem: "p \<notin> set (?ps k)" using p by simp
  show "dll nxt' prv' ((hp(k := h')) k') (filter (\<lambda>i. key i = Some k') (p # ps))"
  proof (cases "k' = k")
    case True
    then show ?thesis using la(1)[OF mem] p by simp
  next
    case False
    have "nxt' q = nxt q \<and> prv' q = prv q" if "q \<in> set (?ps k')" for q
      using that p False by (intro la(2)[OF mem]) auto
    then have "dll nxt' prv' (hp k') (?ps k')" using dll_frame[OF f] by blast
    then show ?thesis using False p by simp
  qed
qed

lemma family_del:
  assumes f: "family nxt prv hp key (xs @ p # ys)" and p: "key p = Some k" and d: "distinct (xs @ p # ys)"
    and l: "link_del p (nxt, prv, hp k) = (nxt', prv', h')"
  shows "family nxt' prv' (hp(k := h')) key (xs @ ys)"
  unfolding family_def
proof
  fix k'
  have f: "dll nxt prv (hp k) (filter (\<lambda>i. key i = Some k) (xs @ p # ys))" for k
    using f by (simp add: family_def)
  have fk: "dll nxt prv (hp k) (filter (\<lambda>i. key i = Some k) xs @ p # filter (\<lambda>i. key i = Some k) ys)"
    using f[of k] p by simp
  note ld = link_del_dll[OF fk l]
  show "dll nxt' prv' ((hp(k := h')) k') (filter (\<lambda>i. key i = Some k') (xs @ ys))"
  proof (cases "k' = k")
    case True
    then show ?thesis using ld(1) by simp
  next
    case False
    let ?qs = "filter (\<lambda>i. key i = Some k') (xs @ ys)"
    have "nxt' q = nxt q \<and> prv' q = prv q" if "q \<in> set ?qs" for q
      using that False by (intro ld(2)) auto
    moreover have "dll nxt prv (hp k') ?qs" using f[of k'] p False by simp
    ultimately have "dll nxt' prv' (hp k') ?qs" using dll_frame by blast
    then show ?thesis using False by simp
  qed
qed

subsection \<open>The ring implements the history\<close>

abbreviation bucket_of :: "wh_state \<Rightarrow> nat \<Rightarrow> nat option" where
  "bucket_of s \<equiv> \<lambda>i. Some (nat (w_hashv (WHOWAS s i)))"

abbreviation client_of :: "wh_state \<Rightarrow> nat \<Rightarrow> ptr option" where
  "client_of s \<equiv> \<lambda>i. online (WHOWAS s i)"

definition lists_ok :: "wh_state \<Rightarrow> nat list \<Rightarrow> bool" where
  "lists_ok s ps \<longleftrightarrow> family (w_next s) (w_prev s) (WHOWASHASH s) (bucket_of s) ps \<and>
     family (w_cnext s) (w_cprev s) (client_whowas s) (client_of s) ps"

definition wh_repr :: "nat \<Rightarrow> u32 \<Rightarrow> wh_state \<Rightarrow> whowas_data list \<Rightarrow> bool" where
  "wh_repr N key s H \<longleftrightarrow>
     whowas_next s < N \<and> length H \<le> N \<and> (length H < N \<longrightarrow> whowas_next s = length H) \<and>
     H = map (WHOWAS s) (ring N (whowas_next s) (length H)) \<and>
     (\<forall>i < N. i \<notin> set (ring N (whowas_next s) (length H)) \<longrightarrow> w_hashv (WHOWAS s i) = - 1) \<and>
     (\<forall>e \<in> set H. w_hashv e = int (hashv key (w_name e))) \<and>
     lists_ok s (ring N (whowas_next s) (length H))"

lemma del_clist_fields [simp]:
  "WHOWAS (del_whowas_from_clist c p s) = WHOWAS s"
  "whowas_next (del_whowas_from_clist c p s) = whowas_next s"
  "w_next (del_whowas_from_clist c p s) = w_next s" "w_prev (del_whowas_from_clist c p s) = w_prev s"
  "WHOWASHASH (del_whowas_from_clist c p s) = WHOWASHASH s"
  by (simp_all add: del_whowas_from_clist_def split: prod.split)

lemma del_list_fields [simp]:
  "WHOWAS (del_whowas_from_list b p s) = WHOWAS s"
  "whowas_next (del_whowas_from_list b p s) = whowas_next s"
  "w_cnext (del_whowas_from_list b p s) = w_cnext s" "w_cprev (del_whowas_from_list b p s) = w_cprev s"
  "client_whowas (del_whowas_from_list b p s) = client_whowas s"
  by (simp_all add: del_whowas_from_list_def split: prod.split)

lemma add_clist_fields [simp]:
  "WHOWAS (add_whowas_to_clist c p s) = WHOWAS s"
  "whowas_next (add_whowas_to_clist c p s) = whowas_next s"
  "w_next (add_whowas_to_clist c p s) = w_next s" "w_prev (add_whowas_to_clist c p s) = w_prev s"
  "WHOWASHASH (add_whowas_to_clist c p s) = WHOWASHASH s"
  by (simp_all add: add_whowas_to_clist_def split: prod.split)

lemma add_list_fields [simp]:
  "WHOWAS (add_whowas_to_list b p s) = WHOWAS s"
  "whowas_next (add_whowas_to_list b p s) = whowas_next s"
  "w_cnext (add_whowas_to_list b p s) = w_cnext s" "w_cprev (add_whowas_to_list b p s) = w_cprev s"
  "client_whowas (add_whowas_to_list b p s) = client_whowas s"
  by (simp_all add: add_whowas_to_list_def split: prod.split)

lemma del_clist_family:
  assumes "family (w_cnext s) (w_cprev s) (client_whowas s) key (xs @ p # ys)" "distinct (xs @ p # ys)"
    "key p = Some c"
  shows "family (w_cnext (del_whowas_from_clist c p s)) (w_cprev (del_whowas_from_clist c p s))
    (client_whowas (del_whowas_from_clist c p s)) key (xs @ ys)"
  using family_del[OF assms(1,3,2)]
  by (cases "link_del p (w_cnext s, w_cprev s, client_whowas s c)") (simp add: del_whowas_from_clist_def)

lemma del_list_family:
  assumes "family (w_next s) (w_prev s) (WHOWASHASH s) key (xs @ p # ys)" "distinct (xs @ p # ys)"
    "key p = Some b"
  shows "family (w_next (del_whowas_from_list b p s)) (w_prev (del_whowas_from_list b p s))
    (WHOWASHASH (del_whowas_from_list b p s)) key (xs @ ys)"
  using family_del[OF assms(1,3,2)]
  by (cases "link_del p (w_next s, w_prev s, WHOWASHASH s b)") (simp add: del_whowas_from_list_def)

lemma add_clist_family:
  assumes "family (w_cnext s) (w_cprev s) (client_whowas s) key ps" "p \<notin> set ps" "key p = Some c"
  shows "family (w_cnext (add_whowas_to_clist c p s)) (w_cprev (add_whowas_to_clist c p s))
    (client_whowas (add_whowas_to_clist c p s)) key (p # ps)"
  using family_add[OF assms]
  by (cases "link_add p (w_cnext s, w_cprev s, client_whowas s c)") (simp add: add_whowas_to_clist_def)

lemma add_list_family:
  assumes "family (w_next s) (w_prev s) (WHOWASHASH s) key ps" "p \<notin> set ps" "key p = Some b"
  shows "family (w_next (add_whowas_to_list b p s)) (w_prev (add_whowas_to_list b p s))
    (WHOWASHASH (add_whowas_to_list b p s)) key (p # ps)"
  using family_add[OF assms]
  by (cases "link_add p (w_next s, w_prev s, WHOWASHASH s b)") (simp add: add_whowas_to_list_def)

text \<open>The two halves of \<open>add_history\<close>: taking the slot's old record off its lists, and entering
  the new one.\<close>

definition evict :: "nat \<Rightarrow> wh_state \<Rightarrow> wh_state" where
  "evict who s =
     (let s = (case online (WHOWAS s who) of Some oc \<Rightarrow> del_whowas_from_clist oc who s | None \<Rightarrow> s)
      in del_whowas_from_list (nat (w_hashv (WHOWAS s who))) who s)"

definition enter :: "nat \<Rightarrow> whowas_data \<Rightarrow> wh_state \<Rightarrow> wh_state" where
  "enter who e s =
     (let s = s\<lparr>WHOWAS := (WHOWAS s)(who := e)\<rparr>;
          s = (case online e of Some c \<Rightarrow> add_whowas_to_clist c who s | None \<Rightarrow> s)
      in add_whowas_to_list (nat (w_hashv e)) who s)"

lemma add_history_eq:
  "wc_server cl = Some server \<Longrightarrow>
   add_history N key now c cl on s =
     (let who = whowas_next s;
          s = (if w_hashv (WHOWAS s who) \<noteq> - 1 then evict who s else s);
          s = enter who (history_entry key now c cl server on) s
      in s\<lparr>whowas_next := if who + 1 = N then 0 else who + 1\<rparr>)"
  by (cases on; cases "online (WHOWAS s (whowas_next s))")
    (auto simp: add_history_def evict_def enter_def history_entry_def Let_def)

lemma evict_fields [simp]: "WHOWAS (evict w s) = WHOWAS s" "whowas_next (evict w s) = whowas_next s"
  by (simp_all add: evict_def Let_def split: option.split)

lemma enter_fields [simp]:
  "WHOWAS (enter w e s) = (WHOWAS s)(w := e)" "whowas_next (enter w e s) = whowas_next s"
  by (simp_all add: enter_def Let_def split: option.split)

lemma evict_lists_ok:
  assumes "lists_ok s (ps @ [w])" "distinct (ps @ [w])"
  shows "lists_ok (evict w s) ps"
proof (cases "online (WHOWAS s w)")
  case None
  then have e: "evict w s = del_whowas_from_list (nat (w_hashv (WHOWAS s w))) w s" by (simp add: evict_def)
  show ?thesis
    using assms None del_list_family[of s "bucket_of s" ps w "[]"]
      family_no_key[of "client_of s" w _ _ _ ps "[]"]
    by (simp add: lists_ok_def e)
next
  case (Some oc)
  let ?s = "del_whowas_from_clist oc w s"
  from Some have e: "evict w s = del_whowas_from_list (nat (w_hashv (WHOWAS s w))) w ?s"
    by (simp add: evict_def)
  show ?thesis
    using assms Some del_list_family[of ?s "bucket_of s" ps w "[]"]
      del_clist_family[of s "client_of s" ps w "[]" oc]
    by (simp add: lists_ok_def e)
qed

lemma enter_lists_ok:
  assumes l: "lists_ok s ps" and w: "w \<notin> set ps"
  shows "lists_ok (enter w e s) (w # ps)"
proof -
  let ?s = "s\<lparr>WHOWAS := (WHOWAS s)(w := e)\<rparr>"
  have b: "family (w_next s) (w_prev s) (WHOWASHASH s) (bucket_of ?s) ps"
    using l w by (auto simp: lists_ok_def elim!: family_cong)
  have c: "family (w_cnext s) (w_cprev s) (client_whowas s) (client_of ?s) ps"
    using l w by (auto simp: lists_ok_def elim!: family_cong)
  show ?thesis
  proof (cases "online e")
    case None
    then have e: "enter w e s = add_whowas_to_list (nat (w_hashv e)) w ?s" by (simp add: enter_def)
    show ?thesis
      using b c w None add_list_family[of ?s "bucket_of ?s" ps w]
        family_no_key[of "client_of ?s" w _ _ _ "[]" ps]
      by (simp add: lists_ok_def e)
  next
    case (Some oc)
    let ?t = "add_whowas_to_clist oc w ?s"
    from Some have e: "enter w e s = add_whowas_to_list (nat (w_hashv e)) w ?t"
      by (simp add: enter_def)
    show ?thesis
      using b c w Some add_list_family[of ?t "bucket_of ?s" ps w] add_clist_family[of ?s "client_of ?s" ps w oc]
      by (simp add: lists_ok_def e)
  qed
qed

lemma lists_ok_next [simp]: "lists_ok (s\<lparr>whowas_next := n\<rparr>) ps = lists_ok s ps"
  by (simp add: lists_ok_def)

text \<open>\<open>add_history\<close> puts the entry in front and drops the oldest one when the ring is full.\<close>

lemma add_history_repr:
  assumes r: "wh_repr N key s H" and server: "wc_server cl = Some server"
    and len: "length (wc_name cl) < NICKLEN"
  shows "wh_repr N key (add_history N key now c cl on s)
    (take N (history_entry key now c cl server on # H))"
proof -
  define w where "w = whowas_next s"
  define e where "e = history_entry key now c cl server on"
  define s1 where "s1 = (if w_hashv (WHOWAS s w) \<noteq> - 1 then evict w s else s)"
  define w' where "w' = (if w + 1 = N then 0 else w + 1)"
  from r have w: "w < N" and n: "length H \<le> N" "length H < N \<longrightarrow> w = length H"
    and H: "H = map (WHOWAS s) (ring N w (length H))"
    and unused: "\<And>i. i < N \<Longrightarrow> i \<notin> set (ring N w (length H)) \<Longrightarrow> w_hashv (WHOWAS s i) = - 1"
    and hv: "\<And>e. e \<in> set H \<Longrightarrow> w_hashv e = int (hashv key (w_name e))"
    and l: "lists_ok s (ring N w (length H))" by (auto simp: wh_repr_def w_def)
  define m where "m = min (length H) (N - 1)"
  have m: "m < N" using w by (simp add: m_def)
  have H1: "take (N - 1) H = map (WHOWAS s) (ring N w m)" and l1: "lists_ok s1 (ring N w m)"
  proof -
    have "take (N - 1) H = map (WHOWAS s) (ring N w m) \<and> lists_ok s1 (ring N w m)"
    proof (cases "length H = N")
      case True
      then have m: "m = N - 1" by (simp add: m_def)
      have full: "ring N w (length H) = ring N w (N - 1) @ [w]" using ring_full[OF w] True by simp
      have Hs: "H = map (WHOWAS s) (ring N w (N - 1)) @ [WHOWAS s w]" using H unfolding full by simp
      then have last: "WHOWAS s w \<in> set H" by (metis in_set_conv_decomp)
      have "0 \<le> w_hashv (WHOWAS s w)" using hv[OF last] by (simp only: of_nat_0_le_iff)
      then have "w_hashv (WHOWAS s w) \<noteq> - 1" by simp
      moreover have "lists_ok (evict w s) (ring N w (N - 1))"
        using evict_lists_ok[of s "ring N w (N - 1)" w] l full ring_distinct[OF w, of N] True by simp
      moreover have "take (N - 1) H = map (WHOWAS s) (ring N w (N - 1))" by (subst Hs) simp
      ultimately show ?thesis by (simp add: s1_def m)
    next
      case False
      with n have "length H < N" by simp
      then have m: "m = length H" by (simp add: m_def)
      have "w_hashv (WHOWAS s w) = - 1" using unused ring_fresh w \<open>length H < N\<close> by blast
      moreover have "take (N - 1) H = H" using \<open>length H < N\<close> by simp
      ultimately show ?thesis using H l m by (simp add: s1_def)
    qed
    then show "take (N - 1) H = map (WHOWAS s) (ring N w m)" "lists_ok s1 (ring N w m)" by auto
  qed
  have f1: "WHOWAS s1 = WHOWAS s" by (simp add: s1_def)
  let ?s2 = "(enter w e s1)\<lparr>whowas_next := w'\<rparr>"
  have code: "add_history N key now c cl on s = ?s2"
    using add_history_eq[OF server, of N key now c on s]
    by (simp add: Let_def s1_def w_def e_def w'_def)
  have fresh: "w \<notin> set (ring N w m)" by (rule ring_fresh[OF w m])
  have step: "ring N w' (Suc m) = w # ring N w m" unfolding w'_def by (rule ring_step[OF w m])
  have new: "take N (e # H) = e # take (N - 1) H" using w by (cases N) auto
  have len': "length (take N (e # H)) = Suc m" using n w by (simp add: m_def)
  have "wh_repr N key ?s2 (take N (e # H))"
    unfolding wh_repr_def len'
  proof (intro conjI, goal_cases)
    case 1
    then show ?case using w by (simp add: w'_def)
  next
    case 2
    then show ?case using m by simp
  next
    case 3
    have "w' = Suc m" if "Suc m < N"
    proof -
      from that have "length H < N" "m = length H" using n by (auto simp: m_def)
      with n that show ?thesis by (simp add: w'_def)
    qed
    then show ?case by simp
  next
    case 4
    have "map ((WHOWAS s)(w := e)) (ring N w m) = map (WHOWAS s) (ring N w m)"
      using fresh by (intro map_cong) auto
    with H1 show ?case by (simp add: step f1 new del: map_eq_conv)
  next
    case 5
    have "w_hashv (WHOWAS s i) = - 1" if "i < N" "i \<noteq> w" "i \<notin> set (ring N w m)" for i
    proof (rule unused[OF that(1)])
      show "i \<notin> set (ring N w (length H))"
        using that(2,3) n ring_full[OF w] by (cases "length H = N") (auto simp: m_def)
    qed
    then show ?case by (auto simp: step f1)
  next
    case 6
    have "w_hashv e = int (hashv key (w_name e))"
      using len by (simp add: e_def history_entry_def c_strlcpy_def)
    then show ?case unfolding new using hv by (auto dest: in_set_takeD)
  next
    case 7
    then show ?case using enter_lists_ok[OF l1 fresh, of e] by (simp add: step)
  qed
  then show ?thesis unfolding code e_def .
qed

lemma get_history_repr:
  assumes r: "wh_repr N key s H"
  shows "get_history key now nick limit s =
    Some (case List.find (\<lambda>e. same_name nick (w_name e) \<and> now - limit \<le> logoff e) H of
            None \<Rightarrow> None | Some e \<Rightarrow> online e)"
proof -
  let ?ps = "ring N (whowas_next s) (length H)" and ?h = "hashv key nick"
  let ?P = "\<lambda>t. irccmp nick (w_name (WHOWAS s t)) = 0 \<and> \<not> logoff (WHOWAS s t) < now - limit"
  have H: "H = map (WHOWAS s) ?ps" using r by (simp add: wh_repr_def)
  have hv: "w_hashv (WHOWAS s i) = int (hashv key (w_name (WHOWAS s i)))" if "i \<in> set ?ps" for i
  proof -
    have "WHOWAS s i \<in> set H" using that by (subst H) simp
    then show ?thesis using r unfolding wh_repr_def by blast
  qed
  have "dll (w_next s) (w_prev s) (WHOWASHASH s ?h) (filter (\<lambda>i. bucket_of s i = Some ?h) ?ps)"
    using r by (simp add: wh_repr_def lists_ok_def family_def)
  from list_find_chain[OF dll_chain[OF this], of ?P]
  have "list_find ?P (w_next s) (WHOWASHASH s ?h) =
      Some (List.find ?P (filter (\<lambda>i. bucket_of s i = Some ?h) ?ps))" .
  also have "List.find ?P (filter (\<lambda>i. bucket_of s i = Some ?h) ?ps) = List.find ?P ?ps"
  proof -
    have "bucket_of s i = Some ?h" if "i \<in> set ?ps" "?P i" for i
      using hv[OF that(1)] that(2) strhash_casefold[of nick "w_name (WHOWAS s i)" key]
      by (simp add: same_name_def)
    then have "\<forall>i \<in> set ps. ?P i \<longrightarrow> bucket_of s i = Some ?h" if "set ps \<subseteq> set ?ps" for ps
      using that by blast
    moreover have "(\<forall>i \<in> set ps. ?P i \<longrightarrow> bucket_of s i = Some ?h) \<Longrightarrow>
        List.find ?P (filter (\<lambda>i. bucket_of s i = Some ?h) ps) = List.find ?P ps" for ps
      by (induction ps) auto
    ultimately show ?thesis by blast
  qed
  finally have f: "list_find ?P (w_next s) (WHOWASHASH s ?h) = Some (List.find ?P ?ps)" .
  have g: "List.find Q (map f ps) = map_option f (List.find (\<lambda>x. Q (f x)) ps)" for Q f and ps :: "nat list"
    by (induction ps) auto
  have "List.find (\<lambda>e. same_name nick (w_name e) \<and> now - limit \<le> logoff e) H =
      map_option (WHOWAS s) (List.find ?P ?ps)"
    by (subst H) (simp add: g same_name_def not_less)
  with f show ?thesis
    by (cases "List.find ?P ?ps") (simp_all add: get_history_def Let_def)
qed

text \<open>\<open>off_history\<close> clears the client out of every entry.\<close>

definition forget :: "ptr \<Rightarrow> whowas_data \<Rightarrow> whowas_data" where
  "forget c e = (if online e = Some c then e\<lparr>online := None\<rparr> else e)"

lemma off_loop_repr:
  "wh_repr N key s H \<Longrightarrow>
   filter (\<lambda>i. client_of s i = Some c) (ring N (whowas_next s) (length H)) = ps \<Longrightarrow>
   \<exists>s'. off_loop c (client_whowas s c) s = Some s' \<and> wh_repr N key s' (map (forget c) H)"
proof (induction ps arbitrary: s H)
  case Nil
  let ?ps = "ring N (whowas_next s) (length H)"
  have "dll (w_cnext s) (w_cprev s) (client_whowas s c) (filter (\<lambda>i. client_of s i = Some c) ?ps)"
    using Nil(1) by (simp add: wh_repr_def lists_ok_def family_def)
  then have "client_whowas s c = None" using Nil(2) by (simp add: dll_def)
  moreover have "map (forget c) H = H"
  proof -
    have "H = map (WHOWAS s) ?ps" using Nil(1) by (simp add: wh_repr_def)
    moreover have "\<forall>i \<in> set ?ps. online (WHOWAS s i) \<noteq> Some c" using Nil(2) by (simp add: filter_empty_conv)
    ultimately have "\<forall>e \<in> set H. forget c e = e" by (metis forget_def image_iff list.set_map)
    then show ?thesis by (simp add: map_idI)
  qed
  ultimately show ?case using Nil(1) by (simp add: off_loop.simps)
next
  case (Cons t ts)
  let ?w = "whowas_next s" and ?n = "length H"
  let ?ps = "ring N ?w ?n"
  let ?s0 = "s\<lparr>WHOWAS := (WHOWAS s)(t := (WHOWAS s t)\<lparr>online := None\<rparr>)\<rparr>"
  let ?s1 = "del_whowas_from_clist c t ?s0"
  have t: "t \<in> set ?ps" "online (WHOWAS s t) = Some c"
  proof -
    have "t \<in> set (filter (\<lambda>i. client_of s i = Some c) ?ps)" by (simp only: Cons.prems(2) list.set_intros)
    then show "t \<in> set ?ps" "online (WHOWAS s t) = Some c" by auto
  qed
  have w: "?w < N" "?n \<le> N" using Cons.prems(1) by (simp_all add: wh_repr_def)
  have d: "distinct ?ps" by (rule ring_distinct[OF w])
  have fc: "family (w_cnext s) (w_cprev s) (client_whowas s) (client_of s) ?ps"
    and fb: "family (w_next s) (w_prev s) (WHOWASHASH s) (bucket_of s) ?ps"
    using Cons.prems(1) by (simp_all add: wh_repr_def lists_ok_def)
  from fc have cl: "dll (w_cnext s) (w_cprev s) (client_whowas s c) (t # ts)"
    unfolding family_def using Cons.prems(2) by metis
  then have ch: "client_whowas s c = Some t" "w_cnext s t = first_or None ts" by (auto simp: dll_def)
  let ?H1 = "map (WHOWAS ?s1) ?ps"
  have r1: "wh_repr N key ?s1 ?H1"
    unfolding wh_repr_def
  proof (intro conjI, goal_cases)
    case 5
    then show ?case using Cons.prems(1) t(1) by (auto simp: wh_repr_def)
  next
    case 6
    have "H = map (WHOWAS s) ?ps" using Cons.prems(1) by (simp add: wh_repr_def)
    then have "w_hashv (WHOWAS s i) = int (hashv key (w_name (WHOWAS s i)))" if "i \<in> set ?ps" for i
      using Cons.prems(1) that by (metis wh_repr_def image_eqI list.set_map)
    then show ?case using t(1) by auto
  next
    case 7
    obtain xs ys where ps: "?ps = xs @ t # ys" using t(1) by (meson split_list)
    have "family (w_cnext ?s1) (w_cprev ?s1) (client_whowas ?s1) (client_of s) (xs @ ys)"
      using del_clist_family[of ?s0 "client_of s" xs t ys c] fc d t(2) ps by simp
    then have "family (w_cnext ?s1) (w_cprev ?s1) (client_whowas ?s1) (client_of ?s0) (xs @ ys)"
      using d ps by (elim family_cong) auto
    then have "family (w_cnext ?s1) (w_cprev ?s1) (client_whowas ?s1) (client_of ?s0) ?ps"
      unfolding ps by (subst family_no_key) simp_all
    moreover have "family (w_next s) (w_prev s) (WHOWASHASH s) (bucket_of ?s0) ?ps"
      using fb by (rule family_cong) simp
    ultimately show ?case by (simp add: lists_ok_def)
  qed (use Cons.prems(1) in \<open>auto simp: wh_repr_def\<close>)
  have filt: "filter (\<lambda>i. client_of ?s1 i = Some c) (ring N (whowas_next ?s1) (length ?H1)) = ts"
  proof -
    have "filter (\<lambda>i. client_of ?s1 i = Some c) ?ps =
        filter (\<lambda>i. i \<noteq> t) (filter (\<lambda>i. client_of s i = Some c) ?ps)"
      by (auto simp: filter_filter intro!: filter_cong)
    also have "\<dots> = filter (\<lambda>i. i \<noteq> t) (t # ts)" by (simp only: Cons.prems(2))
    also have "\<dots> = ts"
    proof -
      have "t \<notin> set ts" using cl by (simp add: dll_def)
      then show ?thesis by (auto simp: filter_id_conv)
    qed
    finally show ?thesis by simp
  qed
  have "family (w_cnext ?s1) (w_cprev ?s1) (client_whowas ?s1) (client_of ?s1)
      (ring N (whowas_next ?s1) (length ?H1))"
    using r1 by (simp only: wh_repr_def lists_ok_def)
  then have "dll (w_cnext ?s1) (w_cprev ?s1) (client_whowas ?s1 c) ts"
    unfolding family_def using filt by metis
  then have nxt: "client_whowas ?s1 c = w_cnext s t" using ch(2) by (simp add: dll_def)
  from Cons.IH[OF r1 filt] obtain s' where s': "off_loop c (client_whowas ?s1 c) ?s1 = Some s'"
    "wh_repr N key s' (map (forget c) ?H1)" by blast
  have "off_loop c (client_whowas s c) s = Some s'"
    using s'(1) unfolding nxt by (subst off_loop.simps) (simp add: ch Let_def)
  moreover have "map (forget c) ?H1 = map (forget c) H"
  proof -
    have "H = map (WHOWAS s) ?ps" using Cons.prems(1) by (simp add: wh_repr_def)
    then have "map (forget c) H = map (forget c) (map (WHOWAS s) ?ps)" by (rule arg_cong)
    moreover have "forget c (WHOWAS ?s1 i) = forget c (WHOWAS s i)" for i
      using t(2) by (simp add: forget_def)
    ultimately show ?thesis by simp
  qed
  ultimately show ?case using s'(2) by auto
qed

subsection \<open>Properties\<close>

lemma init_whowas_repr:
  assumes "0 < N" "whowas_next s = 0" "client_whowas s = (\<lambda>_. None)" "\<forall>b \<ge> HASHSIZE. WHOWASHASH s b = None"
  shows "wh_repr N key (init_whowas N s) []"
  using assms
  by (auto simp: wh_repr_def init_whowas_def ring_def lists_ok_def family_def dll_def empty_whowas_def)

text \<open>C28. \<open>add_history\<close> puts a record of the client in front of the history and, when all \<open>N\<close> slots
  are in use, drops the oldest record from its bucket and its client's list; the lists of all
  buckets and all clients stay exact.\<close>

theorem add_history_newest_first:
  assumes "wh_repr N key s H" "wc_server cl = Some server" "length (wc_name cl) < NICKLEN"
  shows "wh_repr N key (add_history N key now c cl on s)
    (take N (history_entry key now c cl server on # H))"
  using assms by (rule add_history_repr)

definition whowas_start :: wh_state where
  "whowas_start = init_whowas 2 \<lparr>WHOWAS = \<lambda>_. empty_whowas, w_next = \<lambda>_. None, w_prev = \<lambda>_. None,
     w_cnext = \<lambda>_. None, w_cprev = \<lambda>_. None, WHOWASHASH = \<lambda>_. None, whowas_next = 0,
     client_whowas = \<lambda>_. None\<rparr>"

definition whowas_alice :: wh_client where
  "whowas_alice = \<lparr>wc_name = ''Alice'', wc_username = ''a'', wc_host = ''h'', wc_info = ''i'',
     wc_server = Some ''irc.net''\<rparr>"

lemma whowas_start_repr: "wh_repr 2 key whowas_start []"
  unfolding whowas_start_def by (rule init_whowas_repr) simp_all

lemma add_history_newest_first_witness:
  "wh_repr 2 3 (add_history 2 3 100 9 whowas_alice True whowas_start)
     [history_entry 3 100 9 whowas_alice ''irc.net'' True]"
  using add_history_newest_first[OF whowas_start_repr, of whowas_alice "''irc.net''" 3 100 9 True]
  by (simp add: whowas_alice_def NICKLEN_def)

text \<open>\<open>get_history\<close>, the nick chase, finds the client behind the newest record of that nick (up
  to case) that is not older than the time limit, whatever the hash collisions, and its walk
  of the bucket always ends.\<close>

theorem get_history_newest:
  assumes "wh_repr N key s H"
  shows "get_history key now nick limit s =
    Some (case List.find (\<lambda>e. same_name nick (w_name e) \<and> now - limit \<le> logoff e) H of
            None \<Rightarrow> None | Some e \<Rightarrow> online e)"
  using assms by (rule get_history_repr)

lemma get_history_newest_witness: "get_history 3 100 ''alice'' 10 whowas_start = Some None"
  using get_history_newest[OF whowas_start_repr[of 3], of 100 "''alice''" 10] by simp

text \<open>\<open>off_history\<close> ends and takes the client out of every record of the history, so that no
  pointer to the freed client stays; nothing else of the history changes.\<close>

theorem off_history_forgets:
  assumes "wh_repr N key s H"
  shows "\<exists>s'. off_history c s = Some s' \<and> wh_repr N key s' (map (forget c) H)"
  using off_loop_repr[OF assms refl, of c] by (simp add: off_history_def)

lemma off_history_forgets_witness:
  "\<exists>s'. off_history 9 (add_history 2 3 100 9 whowas_alice True whowas_start) = Some s' \<and>
    wh_repr 2 3 s' [forget 9 (history_entry 3 100 9 whowas_alice ''irc.net'' True)]"
proof -
  have "wh_repr 2 3 (add_history 2 3 100 9 whowas_alice True whowas_start)
     [history_entry 3 100 9 whowas_alice ''irc.net'' True]"
    using add_history_repr[OF whowas_start_repr, of whowas_alice "''irc.net''" 3 100 9 True]
    by (simp add: whowas_alice_def NICKLEN_def)
  from off_history_forgets[OF this, of 9] show ?thesis by simp
qed

end
