(* ===== verification/Event.thy ===== *)
theory Event
  imports Irc_Prelude
begin

text \<open>
  \<^verbatim>\<open>src/event.c\<close>: the table of timed events and the loop of \<^verbatim>\<open>src/ircd.c\<close> that runs them.
  Functions, arguments and names are numbers and strings; an event function is a parameter
  \<open>call\<close> that may change the whole state, the table included, whose \<open>ev_world\<close> stands for the
  rest of the server. \<open>rand ()\<close> and \<open>CurrentTime\<close> are arguments.

  The lemmas: the table keeps its size and its lower bound \<open>event_time_min\<close>; \<open>eventAdd\<close> takes
  the first free slot; \<open>eventNextTime\<close> gives the earliest time; \<open>eventRun\<close> runs the due events in
  slot order and puts each one period ahead, also when the events add and delete others, so the
  loop ends after one round. An \<open>eventDelete\<close> outside the loop can make it spin for ever.
\<close>

definition MAX_EVENTS :: nat where "MAX_EVENTS = 50"

record ev_entry =
  func :: "nat option"
  arg :: "nat option"
  ev_name :: "string option"
  frequency :: time_t
  ev_when :: time_t
  active :: bool

record 'w ev_state =
  last_event_ran :: "string option"
  event_table :: "ev_entry list"
  event_time_min :: time_t
  ev_world :: 'w

definition blank_entry :: ev_entry where
  "blank_entry = \<lparr>func = None, arg = None, ev_name = None, frequency = 0, ev_when = 0, active = False\<rparr>"

definition eventInit :: "'w ev_state \<Rightarrow> 'w ev_state" where
  "eventInit s = s\<lparr>last_event_ran := None, event_table := replicate MAX_EVENTS blank_entry\<rparr>"

text \<open>The first index below \<open>n\<close> that satisfies a condition, searched upwards.\<close>

fun first_slot :: "(ev_entry \<Rightarrow> bool) \<Rightarrow> ev_entry list \<Rightarrow> nat option" where
  "first_slot P [] = None"
| "first_slot P (e # es) = (if P e then Some 0 else map_option Suc (first_slot P es))"

definition eventAdd ::
  "string \<Rightarrow> nat \<Rightarrow> nat option \<Rightarrow> time_t \<Rightarrow> time_t \<Rightarrow> 'w ev_state \<Rightarrow> 'w ev_state" where
  "eventAdd name f a period now s =
     (case first_slot (\<lambda>e. \<not> active e) (event_table s) of
        None \<Rightarrow> s
      | Some i \<Rightarrow>
          let e = \<lparr>func = Some f, arg = a, ev_name = Some name, frequency = period,
                   ev_when = now + period, active = True\<rparr>;
              s = s\<lparr>event_table := (event_table s)[i := e]\<rparr>
          in if ev_when e < event_time_min s \<or> event_time_min s = - 1
             then s\<lparr>event_time_min := ev_when e\<rparr> else s)"

definition eventFind :: "nat \<Rightarrow> nat option \<Rightarrow> 'w ev_state \<Rightarrow> nat option" where
  "eventFind f a s = first_slot (\<lambda>e. func e = Some f \<and> arg e = a \<and> active e) (event_table s)"

definition eventDelete :: "nat \<Rightarrow> nat option \<Rightarrow> 'w ev_state \<Rightarrow> 'w ev_state" where
  "eventDelete f a s =
     (case eventFind f a s of
        None \<Rightarrow> s
      | Some i \<Rightarrow>
          s\<lparr>event_table := (event_table s)
              [i := (event_table s ! i)\<lparr>ev_name := None, func := None, arg := None, active := False\<rparr>]\<rparr>)"

definition ish :: "nat \<Rightarrow> time_t \<Rightarrow> time_t" where
  "ish rand delta =
     (if delta \<ge> 3
      then let two_third = (2 * delta) div 3
           in two_third + (int (rand mod 1000) * two_third) div 1000
      else delta)"

definition eventAddIsh ::
  "nat \<Rightarrow> string \<Rightarrow> nat \<Rightarrow> nat option \<Rightarrow> time_t \<Rightarrow> time_t \<Rightarrow> 'w ev_state \<Rightarrow> 'w ev_state" where
  "eventAddIsh rand name f a delta now s = eventAdd name f a (ish rand delta) now s"

text \<open>One turn of the loop of \<open>eventRun\<close>. The entry is read again after the call, which may have
  changed the table.\<close>

type_synonym 'w event_call = "nat option \<Rightarrow> nat option \<Rightarrow> 'w ev_state \<Rightarrow> 'w ev_state"

definition run_slot :: "'w event_call \<Rightarrow> time_t \<Rightarrow> nat \<Rightarrow> 'w ev_state \<Rightarrow> 'w ev_state" where
  "run_slot call now i s =
     (let e = event_table s ! i in
      if active e \<and> ev_when e \<le> now
      then let s = s\<lparr>last_event_ran := ev_name e\<rparr>;
               s = call (func e) (arg e) s;
               e = event_table s ! i;
               s = s\<lparr>event_table := (event_table s)[i := e\<lparr>ev_when := now + frequency e\<rparr>]\<rparr>
           in s\<lparr>event_time_min := - 1\<rparr>
      else s)"

definition eventRun :: "'w event_call \<Rightarrow> time_t \<Rightarrow> 'w ev_state \<Rightarrow> 'w ev_state" where
  "eventRun call now s = fold (run_slot call now) [0..<MAX_EVENTS] s"

definition min_step :: "time_t \<Rightarrow> ev_entry \<Rightarrow> time_t" where
  "min_step m e = (if active e \<and> (ev_when e < m \<or> m = - 1) then ev_when e else m)"

definition eventNextTime :: "'w ev_state \<Rightarrow> time_t \<times> 'w ev_state" where
  "eventNextTime s =
     (let m = (if event_time_min s = - 1
               then foldl min_step (- 1)
                      (event_table s)
               else event_time_min s)
      in (m, s\<lparr>event_time_min := m\<rparr>))"

definition show_events :: "time_t \<Rightarrow> 'w ev_state \<Rightarrow> (string option \<times> time_t) list" where
  "show_events now s =
     map (\<lambda>e. (ev_name e, ev_when e - now)) (filter active (event_table s))"

definition set_back_events :: "time_t \<Rightarrow> 'w ev_state \<Rightarrow> 'w ev_state" where
  "set_back_events b s =
     s\<lparr>event_table := map (\<lambda>e. e\<lparr>ev_when := if ev_when e > b then ev_when e - b else 0\<rparr>) (event_table s)\<rparr>"

text \<open>\<open>while (eventNextTime () <= CurrentTime) eventRun ();\<close> of the main loop, at most \<open>n\<close> rounds.\<close>

fun event_loop :: "'w event_call \<Rightarrow> time_t \<Rightarrow> nat \<Rightarrow> 'w ev_state \<Rightarrow> 'w ev_state option" where
  "event_loop call now 0 s = None"
| "event_loop call now (Suc n) s =
     (case eventNextTime s of (t, s) \<Rightarrow>
        if t \<le> now then event_loop call now n (eventRun call now s) else Some s)"

subsection \<open>Slots\<close>

lemma first_slot_None: "first_slot P es = None \<longleftrightarrow> (\<forall>e \<in> set es. \<not> P e)"
  by (induction es) auto

lemma first_slot_Some:
  "first_slot P es = Some i \<longleftrightarrow> i < length es \<and> P (es ! i) \<and> (\<forall>j < i. \<not> P (es ! j))"
proof (induction es arbitrary: i)
  case (Cons e es)
  show ?case
  proof (cases i)
    case 0
    then show ?thesis by auto
  next
    case (Suc k)
    then show ?thesis using Cons.IH[of k] by (auto simp: less_Suc_eq_0_disj)
  qed
qed simp

text \<open>The lower bound: \<open>event_time_min\<close> is unknown (-1) or not later than any active event. Times
  of active events are not negative.\<close>

definition ev_inv :: "'w ev_state \<Rightarrow> bool" where
  "ev_inv s \<longleftrightarrow> length (event_table s) = MAX_EVENTS \<and>
     (\<forall>e \<in> set (event_table s). active e \<longrightarrow> 0 \<le> ev_when e) \<and>
     (event_time_min s \<noteq> - 1 \<longrightarrow> (\<forall>e \<in> set (event_table s). active e \<longrightarrow> event_time_min s \<le> ev_when e))"

text \<open>What the loop leaves: the bound is known as soon as there is an active event.\<close>

definition ev_known :: "'w ev_state \<Rightarrow> bool" where
  "ev_known s \<longleftrightarrow> ev_inv s \<and> (event_time_min s = - 1 \<longrightarrow> (\<forall>e \<in> set (event_table s). \<not> active e))"

lemma eventInit_inv: "ev_inv (eventInit s)"
  by (simp add: ev_inv_def eventInit_def blank_entry_def)

lemma eventAdd_known:
  assumes "ev_known s" "0 \<le> now + period"
  shows "ev_known (eventAdd name f a period now s)"
proof (cases "first_slot (\<lambda>e. \<not> active e) (event_table s)")
  case None
  with assms show ?thesis by (simp add: eventAdd_def)
next
  case (Some i)
  define e where "e = \<lparr>func = Some f, arg = a, ev_name = Some name, frequency = period,
    ev_when = now + period, active = True\<rparr>"
  have new: "x = e \<or> x \<in> set (event_table s)" if "x \<in> set ((event_table s)[i := e])" for x
    using that set_update_subset_insert by fastforce
  have w: "ev_when e = now + period" "active e" by (simp_all add: e_def)
  have eq: "eventAdd name f a period now s =
      (let s = s\<lparr>event_table := (event_table s)[i := e]\<rparr>
       in if ev_when e < event_time_min s \<or> event_time_min s = - 1 then s\<lparr>event_time_min := ev_when e\<rparr> else s)"
    using Some by (simp add: eventAdd_def Let_def e_def)
  from assms(1) have inv: "length (event_table s) = MAX_EVENTS"
    "\<And>x. x \<in> set (event_table s) \<Longrightarrow> active x \<Longrightarrow> 0 \<le> ev_when x"
    "\<And>x. event_time_min s \<noteq> - 1 \<Longrightarrow> x \<in> set (event_table s) \<Longrightarrow> active x \<Longrightarrow> event_time_min s \<le> ev_when x"
    "\<And>x. event_time_min s = - 1 \<Longrightarrow> x \<in> set (event_table s) \<Longrightarrow> \<not> active x"
    by (auto simp: ev_known_def ev_inv_def)
  let ?s = "eventAdd name f a period now s"
  have tab: "event_table ?s = (event_table s)[i := e]"
    and m: "event_time_min ?s = (if ev_when e < event_time_min s \<or> event_time_min s = - 1
      then ev_when e else event_time_min s)"
    unfolding eq Let_def by simp_all
  have known: "event_time_min ?s \<noteq> - 1" unfolding m using w assms(2) by auto
  moreover have "event_time_min ?s \<le> ev_when x" if "x \<in> set (event_table ?s)" "active x" for x
    using new[of x] that inv(3,4)[of x] unfolding tab m
    by (cases "event_time_min s = - 1") (auto split: if_splits)
  moreover have "0 \<le> ev_when x" if "x \<in> set (event_table ?s)" "active x" for x
    using new[of x] that inv(2)[of x] w assms(2) unfolding tab by auto
  ultimately show ?thesis using inv(1) by (simp add: ev_known_def ev_inv_def tab)
qed

lemma eventDelete_inv:
  assumes "ev_inv s"
  shows "ev_inv (eventDelete f a s)"
proof (cases "eventFind f a s")
  case None
  with assms show ?thesis by (simp add: eventDelete_def)
next
  case (Some i)
  with assms show ?thesis
    by (auto simp: eventDelete_def ev_inv_def dest!: subsetD[OF set_update_subset_insert])
qed

subsection \<open>The next time\<close>

lemma min_scan:
  "\<forall>e \<in> set es. active e \<longrightarrow> 0 \<le> ev_when e \<Longrightarrow> m = - 1 \<or> 0 \<le> m \<Longrightarrow>
   (\<forall>e \<in> set es. active e \<longrightarrow> foldl min_step m es \<noteq> - 1 \<and> foldl min_step m es \<le> ev_when e) \<and>
   (m \<noteq> - 1 \<longrightarrow> foldl min_step m es \<noteq> - 1 \<and> foldl min_step m es \<le> m) \<and>
   (foldl min_step m es = m \<or> (\<exists>e \<in> set es. active e \<and> foldl min_step m es = ev_when e))"
proof (induction es arbitrary: m)
  case (Cons e es)
  have ok: "min_step m e = - 1 \<or> 0 \<le> min_step m e" using Cons.prems by (simp add: min_step_def)
  have "\<forall>e \<in> set es. active e \<longrightarrow> 0 \<le> ev_when e" using Cons.prems(1) by simp
  note IH = Cons.IH[OF this ok]
  show ?case
  proof (cases "active e \<and> (ev_when e < m \<or> m = - 1)")
    case True
    then have s: "min_step m e = ev_when e" by (simp add: min_step_def)
    have "ev_when e \<noteq> - 1" using Cons.prems(1) True by force
    with IH True s show ?thesis by fastforce
  next
    case False
    then have s: "min_step m e = m" by (auto simp: min_step_def)
    with IH False show ?thesis by fastforce
  qed
qed simp

lemma eventNextTime_known:
  assumes "ev_inv s" "eventNextTime s = (t, s')"
  shows "ev_known s'" "event_table s' = event_table s" "ev_world s' = ev_world s" "event_time_min s' = t"
    "event_time_min s = - 1 \<Longrightarrow> t \<noteq> - 1 \<Longrightarrow> \<exists>e \<in> set (event_table s). active e \<and> ev_when e = t"
proof -
  let ?r = "foldl min_step (- 1) (event_table s)"
  have r: "\<forall>e \<in> set (event_table s). active e \<longrightarrow> ?r \<noteq> - 1 \<and> ?r \<le> ev_when e"
    "?r = - 1 \<or> (\<exists>e \<in> set (event_table s). active e \<and> ?r = ev_when e)"
    using min_scan[of "event_table s" "- 1"] assms(1) by (auto simp: ev_inv_def Let_def)
  show "event_table s' = event_table s" "ev_world s' = ev_world s" "event_time_min s' = t"
    using assms(2) by (auto simp: eventNextTime_def Let_def)
  show "\<exists>e \<in> set (event_table s). active e \<and> ev_when e = t" if "event_time_min s = - 1" "t \<noteq> - 1"
    using that r assms(2) by (auto simp: eventNextTime_def Let_def)
  show "ev_known s'"
  proof (cases "event_time_min s = - 1")
    case True
    then have "s' = s\<lparr>event_time_min := ?r\<rparr>" using assms(2) by (auto simp: eventNextTime_def Let_def)
    with r assms(1) show ?thesis by (auto simp: ev_known_def ev_inv_def)
  next
    case False
    then have "s' = s\<lparr>event_time_min := event_time_min s\<rparr>" using assms(2) by (auto simp: eventNextTime_def Let_def)
    with False assms(1) show ?thesis by (auto simp: ev_known_def ev_inv_def)
  qed
qed

subsection \<open>Running the due events\<close>

definition due :: "time_t \<Rightarrow> ev_entry \<Rightarrow> bool" where
  "due now e \<longleftrightarrow> active e \<and> ev_when e \<le> now"

definition resched :: "time_t \<Rightarrow> ev_entry \<Rightarrow> ev_entry" where
  "resched now e = (if due now e then e\<lparr>ev_when := now + frequency e\<rparr> else e)"

text \<open>What an event function may do: add events, delete some, and work outside the table.\<close>

datatype 'w ev_op = Add string nat "nat option" time_t | Del nat "nat option" | Do "'w \<Rightarrow> 'w"

fun ev_do :: "time_t \<Rightarrow> 'w ev_op \<Rightarrow> 'w ev_state \<Rightarrow> 'w ev_state" where
  "ev_do now (Add name f a period) s = eventAdd name f a period now s"
| "ev_do now (Del f a) s = eventDelete f a s"
| "ev_do now (Do g) s = s\<lparr>ev_world := g (ev_world s)\<rparr>"

fun op_ok :: "(nat \<times> nat option) set \<Rightarrow> 'w ev_op \<Rightarrow> bool" where
  "op_ok D (Add name f a period) \<longleftrightarrow> 0 < period"
| "op_ok D (Del f a) \<longleftrightarrow> (f, a) \<in> D"
| "op_ok D (Do g) \<longleftrightarrow> True"

definition tame :: "time_t \<Rightarrow> (nat \<times> nat option) set \<Rightarrow> 'w event_call \<Rightarrow> bool" where
  "tame now D call \<longleftrightarrow>
     (\<forall>f a s. \<exists>ops. call f a s = fold (ev_do now) ops s \<and> (\<forall>op \<in> set ops. op_ok D op))"

definition may_go :: "(nat \<times> nat option) set \<Rightarrow> ev_entry \<Rightarrow> bool" where
  "may_go D e \<longleftrightarrow> (\<exists>f. func e = Some f \<and> (f, arg e) \<in> D)"

text \<open>Entries stay as they are, or the slot holds nothing due and what it held might be deleted.\<close>

definition keep :: "time_t \<Rightarrow> (nat \<times> nat option) set \<Rightarrow> ev_entry \<Rightarrow> ev_entry \<Rightarrow> bool" where
  "keep now D e e' \<longleftrightarrow> e' = e \<or> \<not> due now e' \<and> (active e \<longrightarrow> may_go D e)"

definition entry_ok :: "ev_entry \<Rightarrow> bool" where
  "entry_ok e \<longleftrightarrow> (active e \<longrightarrow> 0 \<le> ev_when e \<and> 0 < frequency e)"

definition table_ok :: "'w ev_state \<Rightarrow> bool" where
  "table_ok s \<longleftrightarrow> length (event_table s) = MAX_EVENTS \<and> (\<forall>i < MAX_EVENTS. entry_ok (event_table s ! i))"

definition later :: "time_t \<Rightarrow> (nat \<times> nat option) set \<Rightarrow> 'w ev_state \<Rightarrow> 'w ev_state \<Rightarrow> bool" where
  "later now D s s' \<longleftrightarrow> (\<forall>i < MAX_EVENTS. keep now D (event_table s ! i) (event_table s' ! i))"

lemma later_trans: "later now D s s' \<Longrightarrow> later now D s' s'' \<Longrightarrow> later now D s s''"
  unfolding later_def keep_def by metis

lemma op_later:
  assumes "op_ok D op" "table_ok s" "0 \<le> now"
  shows "table_ok (ev_do now op s) \<and> later now D s (ev_do now op s)"
proof (cases op)
  case (Add name f a period)
  with assms show ?thesis
    by (auto simp: eventAdd_def Let_def table_ok_def later_def keep_def entry_ok_def due_def
        first_slot_Some nth_list_update split: option.splits)
next
  case (Del f a)
  with assms show ?thesis
    by (auto simp: eventDelete_def eventFind_def table_ok_def later_def keep_def entry_ok_def due_def
        may_go_def first_slot_Some nth_list_update split: option.splits)
next
  case (Do g)
  with assms show ?thesis by (simp add: table_ok_def later_def keep_def)
qed

lemma ops_later:
  "\<forall>op \<in> set ops. op_ok D op \<Longrightarrow> table_ok s \<Longrightarrow> 0 \<le> now \<Longrightarrow>
   table_ok (fold (ev_do now) ops s) \<and> later now D s (fold (ev_do now) ops s)"
proof (induction ops arbitrary: s)
  case Nil
  then show ?case by (simp add: later_def keep_def)
next
  case (Cons op ops)
  from op_later[of D op s now] Cons.prems
  have 1: "table_ok (ev_do now op s)" "later now D s (ev_do now op s)" by simp_all
  with Cons.IH[of "ev_do now op s"] Cons.prems show ?case by (auto intro: later_trans)
qed

lemma call_later:
  assumes "tame now D call" "table_ok s" "0 \<le> now"
  shows "table_ok (call f a s)" "later now D s (call f a s)"
proof -
  from assms(1) obtain ops where "call f a s = fold (ev_do now) ops s" "\<forall>op \<in> set ops. op_ok D op"
    unfolding tame_def by blast
  with ops_later[of ops D s now] assms(2,3) show "table_ok (call f a s)" "later now D s (call f a s)"
    by simp_all
qed

subsection \<open>A round of \<open>eventRun\<close>\<close>

text \<open>After the first \<open>n\<close> slots, of which those of \<open>is\<close> have run.\<close>

definition calls_of :: "'w ev_state \<Rightarrow> nat list \<Rightarrow> (nat option \<times> nat option) list" where
  "calls_of s is = map (\<lambda>i. (func (event_table s ! i), arg (event_table s ! i))) is"

definition round_inv ::
  "time_t \<Rightarrow> (nat \<times> nat option) set \<Rightarrow> 'w ev_state \<Rightarrow> nat \<Rightarrow> 'w ev_state \<Rightarrow> nat list \<Rightarrow> bool" where
  "round_inv now D s0 n s is \<longleftrightarrow> table_ok s \<and>
     (\<forall>i < n. \<not> due now (event_table s ! i)) \<and>
     (\<forall>i < MAX_EVENTS. n \<le> i \<longrightarrow> keep now D (event_table s0 ! i) (event_table s ! i)) \<and>
     (\<forall>i < n. active (event_table s0 ! i) \<and> \<not> may_go D (event_table s0 ! i) \<longrightarrow>
        event_table s ! i = resched now (event_table s0 ! i)) \<and>
     sorted_wrt (<) is \<and> (\<forall>i \<in> set is. i < n \<and> due now (event_table s0 ! i)) \<and>
     (\<forall>i < n. due now (event_table s0 ! i) \<and> \<not> may_go D (event_table s0 ! i) \<longrightarrow> i \<in> set is) \<and>
     (if is = [] then s = s0 else event_time_min s = - 1)"

lemma round_inv_idle:
  assumes "round_inv now D s0 n s is" "n < MAX_EVENTS" "\<not> due now (event_table s ! n)"
  shows "round_inv now D s0 (Suc n) s is"
proof -
  have k: "keep now D (event_table s0 ! n) (event_table s ! n)" using assms(1,2) by (simp add: round_inv_def)
  have "event_table s ! n = resched now (event_table s0 ! n)"
    if "active (event_table s0 ! n)" "\<not> may_go D (event_table s0 ! n)"
    using k that assms(3) by (auto simp: keep_def resched_def)
  moreover have "\<not> (due now (event_table s0 ! n) \<and> \<not> may_go D (event_table s0 ! n))"
    using k assms(3) by (auto simp: keep_def due_def)
  ultimately show ?thesis using assms unfolding round_inv_def less_Suc_eq by auto
qed

lemma round_inv_run:
  assumes inv: "round_inv now D s0 n s is" and n: "n < MAX_EVENTS" and due: "due now (event_table s ! n)"
    and tame: "tame now D call" and now: "0 \<le> now"
  shows "event_table s ! n = event_table s0 ! n" "round_inv now D s0 (Suc n) (run_slot call now n s) (is @ [n])"
proof -
  let ?e = "event_table s ! n" and ?s = "run_slot call now n s"
  define s1 where "s1 = call (func ?e) (arg ?e) (s\<lparr>last_event_ran := ev_name ?e\<rparr>)"
  have before: "\<And>i. i < n \<Longrightarrow> \<not> due now (event_table s ! i)"
    and kept: "\<And>i. i < MAX_EVENTS \<Longrightarrow> n \<le> i \<Longrightarrow> keep now D (event_table s0 ! i) (event_table s ! i)"
    and ahead: "\<And>i. i < n \<Longrightarrow> active (event_table s0 ! i) \<Longrightarrow> \<not> may_go D (event_table s0 ! i) \<Longrightarrow>
        event_table s ! i = resched now (event_table s0 ! i)"
    using inv by (simp_all add: round_inv_def)
  from kept[OF n] due show e: "?e = event_table s0 ! n" by (simp add: keep_def)
  have ok: "table_ok (s\<lparr>last_event_ran := ev_name ?e\<rparr>)" using inv by (simp add: round_inv_def table_ok_def)
  note c = call_later[OF tame ok now, of "func ?e" "arg ?e", folded s1_def]
  have len: "length (event_table s1) = MAX_EVENTS" using c(1) by (simp add: table_ok_def)
  have s': "event_table ?s = (event_table s1)[n := (event_table s1 ! n)
      \<lparr>ev_when := now + frequency (event_table s1 ! n)\<rparr>]" "event_time_min ?s = - 1"
    using due by (simp_all add: run_slot_def due_def Let_def s1_def)
  have nth: "event_table ?s ! i = (if i = n then (event_table s1 ! n)
      \<lparr>ev_when := now + frequency (event_table s1 ! n)\<rparr> else event_table s1 ! i)" if "i < MAX_EVENTS" for i
    using that len n by (simp add: s')
  have l: "keep now D (event_table s ! i) (event_table s1 ! i)" if "i < MAX_EVENTS" for i
    using c(2) that by (simp add: later_def)
  have okn: "entry_ok (event_table s1 ! i)" if "i < MAX_EVENTS" for i using c(1) that by (simp add: table_ok_def)
  have "active (event_table s1 ! n) \<longrightarrow> 0 \<le> now + frequency (event_table s1 ! n)"
    using okn[OF n] now by (auto simp: entry_ok_def)
  then have "table_ok ?s" using okn now n len by (auto simp: table_ok_def s' nth_list_update entry_ok_def)
  moreover have "\<not> due now (event_table ?s ! i)" if "i < Suc n" for i
  proof (cases "i = n")
    case True
    with okn[OF n] n show ?thesis by (auto simp: nth due_def entry_ok_def)
  next
    case False
    with that n have i: "i < n" "i < MAX_EVENTS" by simp_all
    with False l[OF i(2)] before[OF i(1)] show ?thesis by (auto simp: nth[OF i(2)] keep_def)
  qed
  moreover have "keep now D (event_table s0 ! i) (event_table ?s ! i)" if "i < MAX_EVENTS" "Suc n \<le> i" for i
    using that(2) l[OF that(1)] kept[OF that(1)] unfolding nth[OF that(1)] keep_def by auto
  moreover have "event_table ?s ! i = resched now (event_table s0 ! i)"
    if "i < Suc n" "active (event_table s0 ! i)" "\<not> may_go D (event_table s0 ! i)" for i
  proof (cases "i = n")
    case True
    with that(2,3) l[OF n] e have "event_table s1 ! n = event_table s0 ! n" by (auto simp: keep_def)
    with True e due show ?thesis by (simp add: nth[OF n] resched_def)
  next
    case False
    with that(1) n have i: "i < n" "i < MAX_EVENTS" by simp_all
    note r = ahead[OF i(1) that(2,3)]
    from that(2,3) r have "active (event_table s ! i)" "\<not> may_go D (event_table s ! i)"
      by (simp_all add: resched_def may_go_def)
    with l[OF i(2)] have "event_table s1 ! i = event_table s ! i" by (auto simp: keep_def)
    with False r show ?thesis by (simp add: nth[OF i(2)])
  qed
  moreover have "sorted_wrt (<) (is @ [n])" "\<forall>i \<in> set (is @ [n]). i < Suc n \<and> due now (event_table s0 ! i)"
    using inv due e by (auto simp: round_inv_def sorted_wrt_append)
  moreover have "\<forall>i < Suc n. due now (event_table s0 ! i) \<and> \<not> may_go D (event_table s0 ! i) \<longrightarrow> i \<in> set (is @ [n])"
    using inv unfolding round_inv_def less_Suc_eq by auto
  ultimately show "round_inv now D s0 (Suc n) ?s (is @ [n])" using s'(2) by (simp add: round_inv_def)
qed

lemma run_slot_log:
  assumes "\<forall>f a s. log (ev_world (call f a s)) = log (ev_world s) @ [(f, a)]"
  shows "log (ev_world (run_slot call now n s)) = log (ev_world s) @
    (if due now (event_table s ! n) then [(func (event_table s ! n), arg (event_table s ! n))] else [])"
  using assms by (simp add: run_slot_def due_def Let_def)

lemma round_ends:
  assumes tame: "tame now D call" and now: "0 \<le> now" and ok: "table_ok s"
    and log: "\<forall>f a s. log (ev_world (call f a s)) = log (ev_world s) @ [(f, a)]"
  shows "n \<le> MAX_EVENTS \<Longrightarrow> \<exists>is. round_inv now D s n (fold (run_slot call now) [0..<n] s) is \<and>
    log (ev_world (fold (run_slot call now) [0..<n] s)) = log (ev_world s) @ calls_of s is"
proof (induction n)
  case 0
  from ok show ?case by (intro exI[of _ "[]"]) (simp add: round_inv_def keep_def calls_of_def)
next
  case (Suc n)
  let ?s = "fold (run_slot call now) [0..<n] s"
  have n: "n < MAX_EVENTS" using Suc.prems by simp
  from Suc obtain "is" where inv: "round_inv now D s n ?s is"
    and l: "log (ev_world ?s) = log (ev_world s) @ calls_of s is" by auto
  have step: "fold (run_slot call now) [0..<Suc n] s = run_slot call now n ?s" by simp
  show ?case
  proof (cases "due now (event_table ?s ! n)")
    case True
    note r = round_inv_run[OF inv n True tame now]
    have "log (ev_world (run_slot call now n ?s)) = log (ev_world s) @ calls_of s (is @ [n])"
      using run_slot_log[OF log, of now n ?s] True l r(1) by (simp add: calls_of_def)
    with r(2) show ?thesis unfolding step by blast
  next
    case False
    then have "run_slot call now n ?s = ?s" by (auto simp: run_slot_def due_def Let_def)
    with round_inv_idle[OF inv n False] l show ?thesis unfolding step by auto
  qed
qed

text \<open>The bound is exact when it is the time of an active event. Adding events keeps that,
  deleting one does not.\<close>

definition ev_exact :: "'w ev_state \<Rightarrow> bool" where
  "ev_exact s \<longleftrightarrow> (event_time_min s \<noteq> - 1 \<longrightarrow>
     (\<exists>e \<in> set (event_table s). active e \<and> ev_when e = event_time_min s))"

lemma eventAdd_exact:
  assumes "ev_exact s"
  shows "ev_exact (eventAdd name f a period now s)"
proof (cases "first_slot (\<lambda>e. \<not> active e) (event_table s)")
  case None
  with assms show ?thesis by (simp add: eventAdd_def)
next
  case (Some i)
  define e where "e = \<lparr>func = Some f, arg = a, ev_name = Some name, frequency = period,
    ev_when = now + period, active = True\<rparr>"
  have i: "i < length (event_table s)" "\<not> active (event_table s ! i)" using Some by (auto simp: first_slot_Some)
  have eq: "eventAdd name f a period now s =
      (let s = s\<lparr>event_table := (event_table s)[i := e]\<rparr>
       in if ev_when e < event_time_min s \<or> event_time_min s = - 1 then s\<lparr>event_time_min := ev_when e\<rparr> else s)"
    using Some by (simp add: eventAdd_def Let_def e_def)
  have mem: "e \<in> set ((event_table s)[i := e])" "active e" using i(1) by (simp_all add: set_update_memI e_def)
  have old: "x \<in> set ((event_table s)[i := e])" if "x \<in> set (event_table s)" "active x" for x
  proof -
    from that(1) obtain j where "j < length (event_table s)" "event_table s ! j = x" by (auto simp: in_set_conv_nth)
    with i(2) that(2) have "(event_table s)[i := e] ! j = x" by (metis nth_list_update_neq)
    with \<open>j < length (event_table s)\<close> show ?thesis by (metis length_list_update nth_mem)
  qed
  show ?thesis using assms mem old unfolding eq ev_exact_def Let_def by auto
qed

text \<open>A bound that has passed while no event is due stays: nothing resets it, and the loop never
  ends.\<close>

lemma eventRun_idle:
  assumes "length (event_table s) = MAX_EVENTS" "\<forall>e \<in> set (event_table s). \<not> due now e"
  shows "eventRun call now s = s"
proof -
  have "run_slot call now i s = s" if "i < MAX_EVENTS" for i
    using assms that by (auto simp: run_slot_def Let_def due_def)
  then have "fold (run_slot call now) is s = s" if "set is \<subseteq> {..<MAX_EVENTS}" for "is"
    using that by (induction "is") auto
  then show ?thesis by (simp add: eventRun_def lessThan_atLeast0)
qed

lemma event_loop_stuck:
  assumes "length (event_table s) = MAX_EVENTS" "\<forall>e \<in> set (event_table s). \<not> due now e"
    "event_time_min s \<noteq> - 1" "event_time_min s \<le> now"
  shows "event_loop call now n s = None"
proof (induction n)
  case (Suc n)
  have "eventNextTime s = (event_time_min s, s)" using assms(3) by (simp add: eventNextTime_def)
  with Suc assms eventRun_idle[OF assms(1,2), of call] show ?case by simp
qed simp

text \<open>The state the main loop keeps from turn to turn.\<close>

definition loop_ok :: "(nat \<times> nat option) set \<Rightarrow> 'w ev_state \<Rightarrow> bool" where
  "loop_ok D s \<longleftrightarrow> ev_inv s \<and> ev_exact s \<and>
     (\<forall>e \<in> set (event_table s). active e \<longrightarrow> 0 < frequency e) \<and>
     (\<exists>e \<in> set (event_table s). active e \<and> \<not> may_go D e)"

lemma loop_ok_table:
  assumes "loop_ok D s"
  shows "table_ok s" "length (event_table s) = MAX_EVENTS"
  using assms by (auto simp: loop_ok_def table_ok_def ev_inv_def entry_ok_def)

lemma eventNextTime_loop_ok:
  assumes "loop_ok D s" "eventNextTime s = (t, s')"
  shows "loop_ok D s'" "ev_known s'" "event_table s' = event_table s" "ev_world s' = ev_world s"
    "event_time_min s' = t" "\<exists>e \<in> set (event_table s). active e \<and> ev_when e = t"
proof -
  have inv: "ev_inv s" and ex: "ev_exact s" and some: "\<exists>e \<in> set (event_table s). active e"
    using assms(1) by (auto simp: loop_ok_def)
  note k = eventNextTime_known[OF inv assms(2)]
  show "ev_known s'" "event_table s' = event_table s" "ev_world s' = ev_world s" "event_time_min s' = t"
    by (rule k)+
  have t: "t \<noteq> - 1" using k(1,2,4) some by (auto simp: ev_known_def)
  show e: "\<exists>e \<in> set (event_table s). active e \<and> ev_when e = t"
  proof (cases "event_time_min s = - 1")
    case True
    from k(5)[OF True t] show ?thesis .
  next
    case False
    then have "t = event_time_min s" using assms(2) by (auto simp: eventNextTime_def Let_def)
    with ex False show ?thesis by (auto simp: ev_exact_def)
  qed
  with assms(1) k show "loop_ok D s'" by (auto simp: loop_ok_def ev_known_def ev_exact_def)
qed

lemma eventAdd_loop_ok:
  assumes "loop_ok D s" "ev_known s" "0 < period" "0 \<le> now"
  shows "loop_ok D (eventAdd name f a period now s)"
proof -
  let ?s = "eventAdd name f a period now s"
  have ok: "table_ok ?s" "later now {} s ?s"
    using op_later[of "{}" "Add name f a period" s now] assms(3,4) loop_ok_table[OF assms(1)] by simp_all
  have len: "length (event_table ?s) = MAX_EVENTS" using ok(1) by (simp add: table_ok_def)
  obtain i where i: "i < MAX_EVENTS" "active (event_table s ! i)" "\<not> may_go D (event_table s ! i)"
    using assms(1) loop_ok_table[OF assms(1)] by (auto simp: loop_ok_def in_set_conv_nth)
  then have "event_table ?s ! i = event_table s ! i" using ok(2) by (auto simp: later_def keep_def may_go_def)
  with i len have "\<exists>e \<in> set (event_table ?s). active e \<and> \<not> may_go D e" by (metis nth_mem)
  moreover have "\<forall>e \<in> set (event_table ?s). active e \<longrightarrow> 0 < frequency e"
    using ok(1) by (auto simp: table_ok_def entry_ok_def in_set_conv_nth)
  moreover have "ev_inv ?s" using eventAdd_known[OF assms(2)] assms(3,4) by (simp add: ev_known_def)
  moreover have "ev_exact ?s" using assms(1) by (intro eventAdd_exact) (simp add: loop_ok_def)
  ultimately show ?thesis by (simp add: loop_ok_def)
qed

text \<open>After a round nothing is due, and the bound is to be computed anew if something ran.\<close>

lemma round_loop_ok:
  assumes inv: "round_inv now D s MAX_EVENTS s' is" and ok: "loop_ok D s"
  shows "loop_ok D s'" "\<forall>e \<in> set (event_table s'). \<not> due now e"
proof -
  have t: "table_ok s'" and nd: "\<And>i. i < MAX_EVENTS \<Longrightarrow> \<not> due now (event_table s' ! i)"
    using inv by (simp_all add: round_inv_def)
  have len: "length (event_table s') = MAX_EVENTS" using t by (simp add: table_ok_def)
  show "\<forall>e \<in> set (event_table s'). \<not> due now e" using nd len by (auto simp: in_set_conv_nth)
  show "loop_ok D s'"
  proof (cases "is = []")
    case True
    with inv ok show ?thesis by (simp add: round_inv_def)
  next
    case False
    then have m: "event_time_min s' = - 1" using inv by (simp add: round_inv_def)
    have e: "\<forall>e \<in> set (event_table s'). entry_ok e" using t by (auto simp: table_ok_def in_set_conv_nth)
    obtain i where i: "i < MAX_EVENTS" "active (event_table s ! i)" "\<not> may_go D (event_table s ! i)"
      using ok loop_ok_table[OF ok] by (auto simp: loop_ok_def in_set_conv_nth)
    then have "event_table s' ! i = resched now (event_table s ! i)" using inv by (simp add: round_inv_def)
    with i have "active (event_table s' ! i)" "\<not> may_go D (event_table s' ! i)"
      by (simp_all add: resched_def may_go_def)
    with i(1) len have "\<exists>e \<in> set (event_table s'). active e \<and> \<not> may_go D e" by (metis nth_mem)
    with m e len show ?thesis by (auto simp: loop_ok_def ev_inv_def ev_exact_def entry_ok_def)
  qed
qed

lemma event_loop_ends:
  fixes s :: "'w ev_state"
  assumes tame: "tame now D call" and ok: "loop_ok D s" and now: "0 \<le> now"
    and log: "\<forall>f a s. log (ev_world (call f a s)) = log (ev_world s) @ [(f, a)]"
  shows "\<exists>s' is (s1 :: 'w ev_state) s2. event_loop call now 2 s = Some s' \<and> now < event_time_min s' \<and> loop_ok D s' \<and>
    ev_known s' \<and> event_table s1 = event_table s \<and> round_inv now D s1 MAX_EVENTS s2 is \<and>
    event_table s' = event_table s2 \<and> log (ev_world s') = log (ev_world s) @ calls_of s is"
proof -
  obtain t s1 where n1: "eventNextTime s = (t, s1)" by fastforce
  note k1 = eventNextTime_loop_ok[OF ok n1]
  obtain "is" where inv: "round_inv now D s1 MAX_EVENTS (eventRun call now s1) is"
    and l: "log (ev_world (eventRun call now s1)) = log (ev_world s1) @ calls_of s1 is"
    using round_ends[OF tame now loop_ok_table(1)[OF k1(1)] log, of MAX_EVENTS] by (auto simp: eventRun_def)
  note r = round_loop_ok[OF inv k1(1)]
  have c: "calls_of s1 is = calls_of s is" by (simp add: calls_of_def k1(3))
  show ?thesis
  proof (cases "t \<le> now")
    case True
    obtain t2 s2 where n2: "eventNextTime (eventRun call now s1) = (t2, s2)" by fastforce
    note k2 = eventNextTime_loop_ok[OF r(1) n2]
    from k2(6) r(2) have "now < t2" by (auto simp: due_def)
    with n1 n2 True have "event_loop call now 2 s = Some s2" by (simp add: numeral_2_eq_2)
    moreover have "now < event_time_min s2" using \<open>now < t2\<close> k2(5) by simp
    moreover have "log (ev_world s2) = log (ev_world s) @ calls_of s is" using l k1(4) k2(4) c by simp
    ultimately show ?thesis using k2(1,2,3) k1(3) inv
      by blast
  next
    case False
    have known: "\<forall>e \<in> set (event_table s1). active e \<longrightarrow> t \<le> ev_when e"
      using k1(2,5) by (auto simp: ev_known_def ev_inv_def)
    then have nd: "\<not> due now (event_table s1 ! i)" if "i < MAX_EVENTS" for i
      using False that loop_ok_table(2)[OF k1(1)] by (auto simp: due_def)
    have "round_inv now D s1 MAX_EVENTS s1 []"
      using nd loop_ok_table(1)[OF k1(1)] by (auto simp: round_inv_def resched_def)
    moreover have "event_loop call now 2 s = Some s1" using n1 False by (simp add: numeral_2_eq_2)
    moreover have "now < event_time_min s1" using False k1(5) by simp
    moreover have "log (ev_world s1) = log (ev_world s) @ calls_of s []" using k1(4) by (simp add: calls_of_def)
    ultimately show ?thesis using k1(1,2,3)
      by (intro exI[of _ s1] exI[of _ "[]"]) auto
  qed
qed

subsection \<open>Properties\<close>

text \<open>C26. The event loop of the main loop ends, also with event functions that add events and
  delete some: what a call does is any sequence of \<open>eventAdd\<close> with a positive period,
  \<open>eventDelete\<close> of an event in \<open>D\<close>, and work outside the table (\<open>check_splitmode\<close> adds itself and
  deletes itself). It starts from a table where the bound is unknown or the time of the earliest
  active event, where periods are positive and some active event is not in \<open>D\<close> (\<open>loop_ok\<close>); then
  at most one round of \<open>eventRun\<close> is needed. The calls it makes, as any \<open>log\<close> of them records,
  are those of distinct slots in slot order, each due at the start; every due event that is not in
  \<open>D\<close> is among them and is put one period ahead, and one that is neither due nor in \<open>D\<close> stays. The
  time then waited for lies in the future and is that of the earliest active event, and \<open>loop_ok\<close>
  holds again. An \<open>eventAdd\<close> outside the loop keeps \<open>loop_ok\<close> (\<open>eventAdd_loop_ok\<close>); an
  \<open>eventDelete\<close> outside it may break it, which is C27.\<close>

theorem event_loop_runs_due:
  fixes s :: "'w ev_state"
  assumes "tame now D call" "loop_ok D s" "0 \<le> now"
    "\<forall>f a s. log (ev_world (call f a s)) = log (ev_world s) @ [(f, a)]"
  shows "\<exists>s' is. event_loop call now 2 s = Some s' \<and>
    now < event_time_min s' \<and> loop_ok D s' \<and> ev_known s' \<and>
    log (ev_world s') = log (ev_world s) @
      map (\<lambda>i. (func (event_table s ! i), arg (event_table s ! i))) is \<and>
    sorted_wrt (<) is \<and> (\<forall>i \<in> set is. i < MAX_EVENTS \<and> due now (event_table s ! i)) \<and>
    (\<forall>i < MAX_EVENTS. due now (event_table s ! i) \<and> \<not> may_go D (event_table s ! i) \<longrightarrow> i \<in> set is) \<and>
    (\<forall>i < MAX_EVENTS. active (event_table s ! i) \<and> \<not> may_go D (event_table s ! i) \<longrightarrow>
      event_table s' ! i = resched now (event_table s ! i))"
proof -
  from event_loop_ends[OF assms] obtain s' "is" and s1 s2 :: "'w ev_state" where
    r: "event_loop call now 2 s = Some s'" "now < event_time_min s'" "loop_ok D s'" "ev_known s'"
      "log (ev_world s') = log (ev_world s) @ calls_of s is"
    and t: "event_table s1 = event_table s" "event_table s' = event_table s2"
    and inv: "round_inv now D s1 MAX_EVENTS s2 is" by blast
  from inv show ?thesis unfolding round_inv_def t
    using r unfolding calls_of_def t[symmetric] by (intro exI[of _ s'] exI[of _ "is"]) (simp add: t)
qed

definition two_events :: "nat list ev_state" where
  "two_events = eventAdd ''b'' 2 None 20 100 (eventAdd ''a'' 1 None 5 100
     (eventInit \<lparr>last_event_ran = None, event_table = [], event_time_min = - 1, ev_world = []\<rparr>))"

lemma two_events_ok: "ev_known two_events" "ev_exact two_events"
proof -
  have k: "ev_known (eventInit \<lparr>last_event_ran = None, event_table = [], event_time_min = - 1, ev_world = []\<rparr>)"
    unfolding ev_known_def by (rule conjI[OF eventInit_inv]) (simp add: eventInit_def blank_entry_def)
  have e: "ev_exact (eventInit \<lparr>last_event_ran = None, event_table = [], event_time_min = - 1, ev_world = []\<rparr>)"
    by (simp add: ev_exact_def eventInit_def)
  show "ev_known two_events" unfolding two_events_def by (intro eventAdd_known k) simp_all
  show "ev_exact two_events" unfolding two_events_def by (intro eventAdd_exact e)
qed

lemma two_events_table:
  "event_table two_events =
     \<lparr>func = Some 1, arg = None, ev_name = Some ''a'', frequency = 5, ev_when = 105, active = True\<rparr> #
     \<lparr>func = Some 2, arg = None, ev_name = Some ''b'', frequency = 20, ev_when = 120, active = True\<rparr> #
     replicate 48 blank_entry"
  "event_time_min two_events = 105" "ev_world two_events = []"
proof -
  have r: "replicate MAX_EVENTS blank_entry = blank_entry # blank_entry # replicate 48 blank_entry"
    by (simp add: MAX_EVENTS_def numeral_eq_Suc)
  have b: "\<not> active blank_entry" by (simp add: blank_entry_def)
  show "event_table two_events =
     \<lparr>func = Some 1, arg = None, ev_name = Some ''a'', frequency = 5, ev_when = 105, active = True\<rparr> #
     \<lparr>func = Some 2, arg = None, ev_name = Some ''b'', frequency = 20, ev_when = 120, active = True\<rparr> #
     replicate 48 blank_entry"
    "event_time_min two_events = 105" "ev_world two_events = []"
    by (simp_all add: two_events_def eventAdd_def eventInit_def r b Let_def)
qed

text \<open>Event 1 adds event 3 and deletes event 4, like \<open>check_splitmode\<close> in both its branches.\<close>

definition busy :: "(nat option \<times> nat option) list event_call" where
  "busy f a s = (let s = s\<lparr>ev_world := ev_world s @ [(f, a)]\<rparr>
     in if f = Some 1 then eventDelete 4 None (eventAdd ''c'' 3 None 10 110 s) else s)"

definition logged :: "nat list ev_state \<Rightarrow> (nat option \<times> nat option) list ev_state" where
  "logged s = \<lparr>last_event_ran = last_event_ran s, event_table = event_table s,
     event_time_min = event_time_min s, ev_world = []\<rparr>"

lemma logged_ok: "loop_ok {(4, None)} (logged two_events)"
proof -
  have "ev_inv (logged two_events)" "ev_exact (logged two_events)"
    using two_events_ok by (simp_all add: logged_def ev_known_def ev_inv_def ev_exact_def)
  then show ?thesis by (simp add: loop_ok_def logged_def two_events_table blank_entry_def may_go_def)
qed

lemma busy_tame: "tame 110 {(4, None)} busy"
  unfolding tame_def
proof (intro allI)
  fix f a :: "nat option" and s :: "(nat option \<times> nat option) list ev_state"
  let ?ops = "Do (\<lambda>w. w @ [(f, a)]) # (if f = Some 1 then [Add ''c'' 3 None 10, Del 4 None] else [])"
  have "\<forall>op \<in> set ?ops. op_ok {(4, None)} op" by auto
  then show "\<exists>ops. busy f a s = fold (ev_do 110) ops s \<and> (\<forall>op \<in> set ops. op_ok {(4, None)} op)"
    by (intro exI[of _ ?ops]) (simp add: busy_def Let_def)
qed

lemma event_loop_runs_due_witness:
  "\<exists>s'. event_loop busy 110 2 (logged two_events) = Some s' \<and> 110 < event_time_min s' \<and>
     loop_ok {(4, None)} s' \<and> ev_world s' = [(Some 1, None)] \<and>
     ev_when (event_table s' ! 0) = 115"
proof -
  have w: "\<forall>f a s. id (ev_world (busy f a s)) = id (ev_world s) @ [(f, a)]"
    by (simp add: busy_def Let_def eventAdd_def eventDelete_def split: option.splits)
  have tab: "event_table (logged two_events) = event_table two_events" "ev_world (logged two_events) = []"
    by (simp_all add: logged_def)
  have d: "i < MAX_EVENTS \<and> due 110 (event_table two_events ! i) \<longleftrightarrow> i = 0" for i
    by (auto simp: two_events_table due_def blank_entry_def MAX_EVENTS_def nth_Cons split: nat.splits)
  have g: "active (event_table two_events ! 0)" "\<not> may_go {(4, None)} (event_table two_events ! 0)"
    "func (event_table two_events ! 0) = Some 1" "arg (event_table two_events ! 0) = None"
    "resched 110 (event_table two_events ! 0) = (event_table two_events ! 0)\<lparr>ev_when := 115\<rparr>"
    by (simp_all add: two_events_table may_go_def resched_def due_def)
  from event_loop_runs_due[where log = id, OF busy_tame logged_ok _ w]
  obtain s' "is" where r: "event_loop busy 110 2 (logged two_events) = Some s'" "110 < event_time_min s'"
      "loop_ok {(4, None)} s'" "ev_world s' = map (\<lambda>i. (func (event_table two_events ! i), arg (event_table two_events ! i))) is"
      "sorted_wrt (<) is" "\<forall>i \<in> set is. i < MAX_EVENTS \<and> due 110 (event_table two_events ! i)"
      "\<forall>i < MAX_EVENTS. due 110 (event_table two_events ! i) \<and> \<not> may_go {(4, None)} (event_table two_events ! i) \<longrightarrow> i \<in> set is"
      "\<forall>i < MAX_EVENTS. active (event_table two_events ! i) \<and> \<not> may_go {(4, None)} (event_table two_events ! i) \<longrightarrow>
        event_table s' ! i = resched 110 (event_table two_events ! i)"
    unfolding tab by auto
  have s: "set is = {0}" using r(6,7) d g(2) by auto
  then have "is = [0]" using r(5) by (cases "is"; cases "tl is") (auto simp: strict_sorted_iff)
  moreover have "ev_when (event_table s' ! 0) = 115" using r(8) d[of 0] g by auto
  ultimately have "ev_world s' = [(Some 1, None)]" "ev_when (event_table s' ! 0) = 115" using r(4) g(3,4) by simp_all
  with r(1,2,3) show ?thesis by blast
qed

text \<open>C27. \<open>eventDelete\<close>, called outside the loop, leaves \<open>event_time_min\<close> at the time of the event
  it deletes. If that event was the earliest, and its time comes while no other event is due, the main loop's
  \<open>while (eventNextTime () <= CurrentTime) eventRun ();\<close> never ends, for \<open>eventRun\<close> resets the
  bound only when it runs something.\<close>

theorem event_loop_hangs:
  assumes "length (event_table s) = MAX_EVENTS" "eventFind f a s = Some i"
    "event_time_min s = ev_when (event_table s ! i)" "0 \<le> event_time_min s" "event_time_min s \<le> now"
    "\<forall>j < MAX_EVENTS. j \<noteq> i \<and> active (event_table s ! j) \<longrightarrow> now < ev_when (event_table s ! j)"
  shows "event_loop call now n (eventDelete f a s) = None"
proof (rule event_loop_stuck)
  have i: "i < MAX_EVENTS" using assms(1,2) by (simp add: eventFind_def first_slot_Some)
  have d: "event_table (eventDelete f a s) = (event_table s)[i := (event_table s ! i)
      \<lparr>ev_name := None, func := None, arg := None, active := False\<rparr>]"
    "event_time_min (eventDelete f a s) = event_time_min s"
    using assms(2) by (simp_all add: eventDelete_def)
  show "length (event_table (eventDelete f a s)) = MAX_EVENTS" using assms(1) by (simp add: d)
  show "\<forall>e \<in> set (event_table (eventDelete f a s)). \<not> due now e"
  proof
    fix e assume "e \<in> set (event_table (eventDelete f a s))"
    then obtain j where "j < MAX_EVENTS" "e = event_table (eventDelete f a s) ! j"
      using assms(1) by (auto simp: d in_set_conv_nth)
    then show "\<not> due now e" using assms(1,6) by (cases "j = i") (auto simp: d due_def)
  qed
  show "event_time_min (eventDelete f a s) \<noteq> - 1" "event_time_min (eventDelete f a s) \<le> now"
    using assms(4,5) by (simp_all add: d)
qed

lemma event_loop_hangs_witness:
  "event_loop (\<lambda>f a s. s) 106 1000 (eventDelete 1 None two_events) = None"
proof (rule event_loop_hangs)
  show "length (event_table two_events) = MAX_EVENTS" by (simp add: two_events_table MAX_EVENTS_def)
  show "eventFind 1 None two_events = Some 0" by (simp add: eventFind_def two_events_table)
  show "event_time_min two_events = ev_when (event_table two_events ! 0)" "0 \<le> event_time_min two_events"
    "event_time_min two_events \<le> 106" by (simp_all add: two_events_table)
  show "\<forall>j < MAX_EVENTS. j \<noteq> 0 \<and> active (event_table two_events ! j) \<longrightarrow> 106 < ev_when (event_table two_events ! j)"
    by (auto simp: two_events_table blank_entry_def MAX_EVENTS_def nth_Cons split: nat.splits)
qed

text \<open>\<open>set_back_events\<close> moves the events back but not the bound, so after a clock step back the loop
  still waits for the old time and runs no event although some are due.\<close>

lemma set_back_events_not_run:
  "event_loop call 100 1 (set_back_events 10 two_events) = Some (set_back_events 10 two_events) \<and>
   (\<exists>e \<in> set (event_table (set_back_events 10 two_events)). due 100 e)"
  by (simp add: set_back_events_def eventNextTime_def two_events_table due_def)

text \<open>The spread of \<open>eventAddIsh\<close>: between two and four thirds of the period asked for.\<close>

lemma ish_bounds:
  assumes "3 \<le> d"
  shows "2 * d div 3 \<le> ish r d \<and> 3 * ish r d < 4 * d"
proof -
  define t where "t = 2 * d div 3"
  have t: "0 < t" "3 * t \<le> 2 * d" using assms by (auto simp: t_def)
  define k where "k = int (r mod 1000)"
  have "k < 1000" "0 \<le> k" using mod_less_divisor[of 1000 r] by (simp_all add: k_def)
  then have "k * t < 1000 * t" "0 \<le> k * t" using t by simp_all
  then have "k * t div 1000 < t" "0 \<le> k * t div 1000" by (auto simp: div_less_iff_less_mult)
  moreover have "ish r d = t + k * t div 1000" using assms by (simp add: ish_def Let_def t_def k_def)
  ultimately show ?thesis using t(2) unfolding t_def[symmetric] by linarith
qed

end
