(* ===== verification/Dbuf.thy ===== *)
theory Dbuf
  imports Irc_Prelude
begin

text \<open>
  \<^verbatim>\<open>src/dbuf.c\<close>: the byte queues between sockets and the parser. A queue is a list of blocks of
  \<open>DBUF_BLOCK_SIZE\<close> bytes, of which the first \<open>bsize\<close> are used, and the total. Blocks are on a
  \<open>dlink_list\<close> (theory Tools); here they are the list itself. Copying past a block or taking
  the first block of an empty queue is undefined (\<open>None\<close>).

  The locale \<open>byte_queue\<close> is the contract, bytes come out in the order they went in; it is
  interpreted with \<open>dbuf_put\<close> and \<open>dbuf_delete\<close>.
\<close>

definition DBUF_BLOCK_SIZE :: nat where "DBUF_BLOCK_SIZE = 1024"

record dbuf_block =
  bsize :: nat
  bdata :: "char list"

record dbuf_queue =
  blocks :: "dbuf_block list"
  total_size :: nat

definition empty_queue :: dbuf_queue where
  "empty_queue = \<lparr>blocks = [], total_size = 0\<rparr>"

definition new_block :: dbuf_block where
  "new_block = \<lparr>bsize = 0, bdata = replicate DBUF_BLOCK_SIZE NUL\<rparr>"

definition dbuf_alloc :: "dbuf_queue \<Rightarrow> dbuf_queue" where
  "dbuf_alloc q = q\<lparr>blocks := blocks q @ [new_block]\<rparr>"

text \<open>\<open>memcpy (&last->data[last->size], data, amount)\<close> and the size update.\<close>

definition fill :: "char list \<Rightarrow> dbuf_block \<Rightarrow> dbuf_block" where
  "fill chunk b =
     b\<lparr>bdata := take (bsize b) (bdata b) @ chunk @ drop (bsize b + length chunk) (bdata b),
       bsize := bsize b + length chunk\<rparr>"

text \<open>One turn of the do-while loop: the queue and the data left.\<close>

definition put_step :: "char list \<Rightarrow> dbuf_queue \<Rightarrow> dbuf_queue \<times> char list" where
  "put_step data q =
     (let amount = DBUF_BLOCK_SIZE - bsize (last (blocks q));
          (q, amount) = (if amount = 0 then (dbuf_alloc q, DBUF_BLOCK_SIZE) else (q, amount));
          amount = (if amount > length data then length data else amount);
          q = q\<lparr>blocks := butlast (blocks q) @ [fill (take amount data) (last (blocks q))],
                total_size := total_size q + amount\<rparr>
      in (q, drop amount data))"

lemma put_step_shrinks: "put_step data q = (q', rest) \<Longrightarrow> rest \<noteq> [] \<Longrightarrow> length rest < length data"
  by (auto simp: put_step_def Let_def DBUF_BLOCK_SIZE_def split: if_splits)

function put_loop :: "char list \<Rightarrow> dbuf_queue \<Rightarrow> dbuf_queue option" where
  "put_loop data q =
     (if blocks q = [] \<or> DBUF_BLOCK_SIZE < bsize (last (blocks q)) then None
      else case put_step data q of (q, rest) \<Rightarrow> if rest = [] then Some q else put_loop rest q)"
  by pat_completeness auto

termination
  by (relation "measure (\<lambda>(data, _). length data)") (auto dest: put_step_shrinks[OF sym])

declare put_loop.simps [simp del]

definition dbuf_put :: "char list \<Rightarrow> dbuf_queue \<Rightarrow> dbuf_queue option" where
  "dbuf_put data q = put_loop data (if blocks q = [] then dbuf_alloc q else q)"

fun delete_blocks :: "nat \<Rightarrow> dbuf_block list \<Rightarrow> nat \<Rightarrow> (dbuf_block list \<times> nat) option" where
  "delete_blocks cnt bs tot =
     (if cnt = 0 then Some (bs, tot)
      else case bs of
        [] \<Rightarrow> None
      | b # bs' \<Rightarrow>
          if cnt < bsize b
          then Some (b\<lparr>bsize := bsize b - cnt,
                       bdata := take (bsize b - cnt) (drop cnt (bdata b)) @
                                drop (bsize b - cnt) (bdata b)\<rparr> # bs', tot - cnt)
          else delete_blocks (cnt - bsize b) bs' (tot - bsize b))"

declare delete_blocks.simps [simp del]

definition dbuf_delete :: "nat \<Rightarrow> dbuf_queue \<Rightarrow> dbuf_queue option" where
  "dbuf_delete cnt q =
     map_option (\<lambda>(bs, t). q\<lparr>blocks := bs, total_size := t\<rparr>) (delete_blocks cnt (blocks q) (total_size q))"

subsection \<open>The bytes of a queue\<close>

definition block_bytes :: "dbuf_block \<Rightarrow> char list" where
  "block_bytes b = take (bsize b) (bdata b)"

definition qbytes :: "dbuf_queue \<Rightarrow> char list" where
  "qbytes q = concat (map block_bytes (blocks q))"

definition block_ok :: "dbuf_block \<Rightarrow> bool" where
  "block_ok b \<longleftrightarrow> length (bdata b) = DBUF_BLOCK_SIZE \<and> bsize b \<le> DBUF_BLOCK_SIZE"

definition dbuf_ok :: "dbuf_queue \<Rightarrow> bool" where
  "dbuf_ok q \<longleftrightarrow> (\<forall>b \<in> set (blocks q). block_ok b) \<and> total_size q = length (qbytes q)"

lemma block_bytes_length [simp]: "block_ok b \<Longrightarrow> length (block_bytes b) = bsize b"
  by (simp add: block_ok_def block_bytes_def)

lemma new_block_ok [simp]: "block_ok new_block" "block_bytes new_block = []" "bsize new_block = 0"
  by (simp_all add: block_ok_def new_block_def block_bytes_def)

lemma fill_ok:
  assumes "block_ok b" "bsize b + length chunk \<le> DBUF_BLOCK_SIZE"
  shows "block_ok (fill chunk b)" "block_bytes (fill chunk b) = block_bytes b @ chunk"
  using assms by (simp_all add: block_ok_def fill_def block_bytes_def)

lemma empty_queue_ok: "dbuf_ok empty_queue" "qbytes empty_queue = []"
  by (simp_all add: dbuf_ok_def empty_queue_def qbytes_def)

lemma dbuf_alloc_ok: "dbuf_ok q \<Longrightarrow> dbuf_ok (dbuf_alloc q)" "qbytes (dbuf_alloc q) = qbytes q"
  by (auto simp: dbuf_ok_def dbuf_alloc_def qbytes_def)

lemma put_chunk_ok:
  assumes "dbuf_ok q" "blocks q \<noteq> []" "bsize (last (blocks q)) + length chunk \<le> DBUF_BLOCK_SIZE"
  defines "q' \<equiv> q\<lparr>blocks := butlast (blocks q) @ [fill chunk (last (blocks q))],
      total_size := total_size q + length chunk\<rparr>"
  shows "dbuf_ok q'" "qbytes q' = qbytes q @ chunk" "blocks q' \<noteq> []"
proof -
  obtain bs b where bs: "blocks q = bs @ [b]" using assms(2) by (cases "blocks q" rule: rev_cases) auto
  then have b: "block_ok b" using assms(1) by (simp add: dbuf_ok_def)
  note f = fill_ok[OF b, of chunk]
  show "qbytes q' = qbytes q @ chunk" using f(2) assms(3) bs by (simp add: q'_def qbytes_def)
  with f(1) assms(1,3) bs show "dbuf_ok q'" by (auto simp: q'_def dbuf_ok_def)
  show "blocks q' \<noteq> []" by (simp add: q'_def)
qed

lemma put_step_ok:
  assumes "dbuf_ok q" "blocks q \<noteq> []" "put_step data q = (q', rest)"
  shows "dbuf_ok q'" "blocks q' \<noteq> []" "qbytes q' @ rest = qbytes q @ data"
proof -
  define p where "p = (if DBUF_BLOCK_SIZE - bsize (last (blocks q)) = 0 then (dbuf_alloc q, DBUF_BLOCK_SIZE)
    else (q, DBUF_BLOCK_SIZE - bsize (last (blocks q))))"
  define q1 where "q1 = fst p"
  define amount where "amount = (if snd p > length data then length data else snd p)"
  have last: "bsize (last (blocks q)) \<le> DBUF_BLOCK_SIZE"
    using assms(1) last_in_set[OF assms(2)] by (auto simp: dbuf_ok_def block_ok_def)
  have q1: "dbuf_ok q1" "blocks q1 \<noteq> []" "qbytes q1 = qbytes q"
    using assms(1,2) dbuf_alloc_ok[of q] by (auto simp: q1_def p_def dbuf_alloc_def)
  have room: "bsize (last (blocks q1)) + snd p \<le> DBUF_BLOCK_SIZE"
    using last by (auto simp: q1_def p_def dbuf_alloc_def)
  have lt: "length (take amount data) = amount" by (simp add: amount_def)
  have fits: "bsize (last (blocks q1)) + length (take amount data) \<le> DBUF_BLOCK_SIZE"
    using room unfolding lt by (simp add: amount_def)
  have eq: "q' = q1\<lparr>blocks := butlast (blocks q1) @ [fill (take amount data) (last (blocks q1))],
      total_size := total_size q1 + length (take amount data)\<rparr>" "rest = drop amount data"
    using assms(3) unfolding lt by (auto simp: put_step_def p_def q1_def amount_def Let_def split: if_splits)
  from put_chunk_ok[OF q1(1,2) fits] q1(3)
  show "dbuf_ok q'" "blocks q' \<noteq> []" "qbytes q' @ rest = qbytes q @ data" unfolding eq by simp_all
qed

lemma put_loop_ok:
  "dbuf_ok q \<Longrightarrow> blocks q \<noteq> [] \<Longrightarrow>
   \<exists>q'. put_loop data q = Some q' \<and> dbuf_ok q' \<and> qbytes q' = qbytes q @ data"
proof (induction data q rule: put_loop.induct)
  case (1 data q)
  have "block_ok (last (blocks q))" using 1(2) last_in_set[OF 1(3)] unfolding dbuf_ok_def by blast
  with 1(3) have valid: "\<not> (blocks q = [] \<or> DBUF_BLOCK_SIZE < bsize (last (blocks q)))"
    by (simp add: block_ok_def)
  obtain q' rest where s: "put_step data q = (q', rest)" by fastforce
  note ok = put_step_ok[OF 1(2,3) s]
  show ?case
  proof (cases "rest = []")
    case True
    with valid s ok show ?thesis by (subst put_loop.simps) auto
  next
    case False
    with 1(1)[OF valid s[symmetric] False ok(1,2)] valid s ok(3) show ?thesis
      by (subst put_loop.simps) auto
  qed
qed

lemma dbuf_put_ok: "dbuf_ok q \<Longrightarrow> \<exists>q'. dbuf_put data q = Some q' \<and> dbuf_ok q' \<and> qbytes q' = qbytes q @ data"
proof -
  assume ok: "dbuf_ok q"
  have "blocks (dbuf_alloc q) \<noteq> []" by (simp add: dbuf_alloc_def)
  with ok put_loop_ok[of q data] put_loop_ok[of "dbuf_alloc q" data] dbuf_alloc_ok[of q]
  show ?thesis by (simp add: dbuf_put_def)
qed

lemma delete_blocks_ok:
  "\<forall>b \<in> set bs. block_ok b \<Longrightarrow> tot = length (concat (map block_bytes bs)) \<Longrightarrow> cnt \<le> tot \<Longrightarrow>
   \<exists>bs'. delete_blocks cnt bs tot = Some (bs', tot - cnt) \<and> (\<forall>b \<in> set bs'. block_ok b) \<and>
     concat (map block_bytes bs') = drop cnt (concat (map block_bytes bs))"
proof (induction bs arbitrary: cnt tot)
  case Nil
  then show ?case by (simp add: delete_blocks.simps)
next
  case (Cons b bs)
  then have b: "block_ok b" by simp
  then have lb: "length (block_bytes b) = bsize b" by simp
  show ?case
  proof (cases "cnt = 0")
    case True
    with Cons.prems show ?thesis by (simp add: delete_blocks.simps)
  next
    case pos: False
    show ?thesis
    proof (cases "cnt < bsize b")
      case True
      let ?b = "b\<lparr>bsize := bsize b - cnt, bdata := take (bsize b - cnt) (drop cnt (bdata b)) @
        drop (bsize b - cnt) (bdata b)\<rparr>"
      have "block_ok ?b" using b True by (auto simp: block_ok_def)
      moreover have "block_bytes ?b = drop cnt (block_bytes b)"
        using b True by (simp add: block_bytes_def block_ok_def drop_take min_def)
      ultimately show ?thesis using True pos Cons.prems lb by (subst delete_blocks.simps) simp
    next
      case False
      have "delete_blocks cnt (b # bs) tot = delete_blocks (cnt - bsize b) bs (tot - bsize b)"
        using pos False by (subst delete_blocks.simps) simp
      with Cons.IH[of "tot - bsize b" "cnt - bsize b"] Cons.prems lb False show ?thesis
        by (simp add: add.commute)
    qed
  qed
qed

lemma dbuf_delete_ok:
  assumes "dbuf_ok q" "cnt \<le> length (qbytes q)"
  shows "\<exists>q'. dbuf_delete cnt q = Some q' \<and> dbuf_ok q' \<and> qbytes q' = drop cnt (qbytes q)"
proof -
  from assms delete_blocks_ok[of "blocks q" "total_size q" cnt] obtain bs where
    "delete_blocks cnt (blocks q) (total_size q) = Some (bs, total_size q - cnt)"
    "\<forall>b \<in> set bs. block_ok b" "concat (map block_bytes bs) = drop cnt (qbytes q)"
    by (auto simp: dbuf_ok_def qbytes_def)
  with assms(1) show ?thesis by (auto simp: dbuf_delete_def dbuf_ok_def qbytes_def)
qed

subsection \<open>The contract\<close>

locale byte_queue =
  fixes ok :: "'q \<Rightarrow> bool"
    and bytes :: "'q \<Rightarrow> char list"
    and put :: "char list \<Rightarrow> 'q \<Rightarrow> 'q option"
    and del :: "nat \<Rightarrow> 'q \<Rightarrow> 'q option"
  assumes put_ok: "ok q \<Longrightarrow> \<exists>q'. put data q = Some q' \<and> ok q' \<and> bytes q' = bytes q @ data"
    and del_ok: "ok q \<Longrightarrow> n \<le> length (bytes q) \<Longrightarrow>
      \<exists>q'. del n q = Some q' \<and> ok q' \<and> bytes q' = drop n (bytes q)"
begin

text \<open>A run of the queue: \<open>Inl\<close> puts data, \<open>Inr\<close> deletes bytes.\<close>

fun run :: "(char list + nat) list \<Rightarrow> 'q \<Rightarrow> 'q option" where
  "run [] q = Some q"
| "run (Inl data # ops) q = Option.bind (put data q) (run ops)"
| "run (Inr n # ops) q = Option.bind (del n q) (run ops)"

fun content :: "(char list + nat) list \<Rightarrow> char list \<Rightarrow> char list option" where
  "content [] bs = Some bs"
| "content (Inl data # ops) bs = content ops (bs @ data)"
| "content (Inr n # ops) bs = (if n \<le> length bs then content ops (drop n bs) else None)"

lemma run_content:
  "ok q \<Longrightarrow> content ops (bytes q) = Some bs \<Longrightarrow> \<exists>q'. run ops q = Some q' \<and> ok q' \<and> bytes q' = bs"
proof (induction ops arbitrary: q)
  case (Cons x ops)
  show ?case
  proof (cases x)
    case (Inl data)
    with Cons.prems put_ok[of q data] obtain q' where "put data q = Some q'" "ok q'" "bytes q' = bytes q @ data"
      by auto
    with Cons Inl show ?thesis by simp
  next
    case (Inr n)
    with Cons.prems(2) have n: "n \<le> length (bytes q)" by (auto split: if_splits)
    with Cons.prems(1) del_ok[of q n] obtain q' where "del n q = Some q'" "ok q'" "bytes q' = drop n (bytes q)"
      by auto
    with Cons Inr n show ?thesis by simp
  qed
qed simp

end

interpretation dbuf: byte_queue dbuf_ok qbytes dbuf_put dbuf_delete
  by unfold_locales (auto simp: dbuf_put_ok dbuf_delete_ok)

subsection \<open>Properties\<close>

text \<open>C31. A \<open>dbuf_queue\<close> is a byte queue: over any sequence of \<open>dbuf_put\<close> and \<open>dbuf_delete\<close> that
  deletes no more than there is, no block is overrun, the total is right, and the bytes that
  remain are those put in, in order, less those deleted from the front.\<close>

theorem dbuf_run_fifo:
  assumes "dbuf_ok q" "dbuf.content ops (qbytes q) = Some bs"
  shows "\<exists>q'. dbuf.run ops q = Some q' \<and> dbuf_ok q' \<and> qbytes q' = bs"
  using assms by (rule dbuf.run_content)

lemma dbuf_run_fifo_witness:
  "\<exists>q'. dbuf.run [Inl ''hello '', Inl ''world'', Inr 4] empty_queue = Some q' \<and> dbuf_ok q' \<and>
    qbytes q' = ''o world''"
  by (rule dbuf_run_fifo) (simp_all add: empty_queue_ok)

end
