(* ===== verification/Packet.thy ===== *)
theory Packet
  imports Dbuf Chartab
begin

text \<open>
  \<^verbatim>\<open>src/packet.c\<close>: cutting the received bytes into lines, and the flood control that decides
  how many lines are parsed at once. The parser is a parameter of the model.
\<close>

subsection \<open>\<open>extract_one_line\<close>\<close>

definition IRCD_BUFSIZE :: nat where "IRCD_BUFSIZE = 512"
definition READBUF_SIZE :: nat where "READBUF_SIZE = 16384"
definition MAX_FLOOD :: int where "MAX_FLOOD = 5"

definition IRCD_MIN :: "nat \<Rightarrow> nat \<Rightarrow> nat" where
  "IRCD_MIN a b = (if a < b then a else b)"

record scan_state =
  phase :: nat
  line_bytes :: nat
  empty_bytes :: nat
  buffer :: string

text \<open>One character of the block loops: \<open>Inr\<close> is the early return of phase 2.\<close>

definition scan_char :: "char \<Rightarrow> scan_state \<Rightarrow> scan_state + scan_state" where
  "scan_char c s =
     (if IsEol c \<or> (c = CHR '' '' \<and> phase s \<noteq> 1)
      then Inl (s\<lparr>empty_bytes := empty_bytes s + 1,
                  phase := (if phase s = 1 then 2 else phase s)\<rparr>)
      else if phase s = 2 then Inr s
      else Inl (s\<lparr>phase := 1, line_bytes := line_bytes s + 1,
                  buffer := (if line_bytes s < IRCD_BUFSIZE - 2 then buffer s @ [c] else buffer s)\<rparr>))"

fun scan_block :: "char list \<Rightarrow> scan_state \<Rightarrow> scan_state + scan_state" where
  "scan_block [] s = Inl s"
| "scan_block (c # cs) s = (case scan_char c s of Inl s \<Rightarrow> scan_block cs s | Inr s \<Rightarrow> Inr s)"

fun scan_blocks :: "dbuf_block list \<Rightarrow> scan_state \<Rightarrow> scan_state + scan_state" where
  "scan_blocks [] s = Inl s"
| "scan_blocks (b # bs) s =
     (case scan_block (take (bsize b) (bdata b)) s of Inl s \<Rightarrow> scan_blocks bs s | Inr s \<Rightarrow> Inr s)"

text \<open>The result: the length returned, the buffer and the queue.\<close>

definition extract_one_line :: "dbuf_queue \<Rightarrow> (nat \<times> string \<times> dbuf_queue) option" where
  "extract_one_line q =
     (case scan_blocks (blocks q) \<lparr>phase = 0, line_bytes = 0, empty_bytes = 0, buffer = []\<rparr> of
        Inr s \<Rightarrow>
          map_option (\<lambda>q. (IRCD_MIN (line_bytes s) (IRCD_BUFSIZE - 2), buffer s, q))
            (dbuf_delete (line_bytes s + empty_bytes s) q)
      | Inl s \<Rightarrow>
          let n = (if phase s \<noteq> 2 then 0 else line_bytes s)
          in map_option (\<lambda>q. (IRCD_MIN n (IRCD_BUFSIZE - 2), buffer s, q))
               (dbuf_delete (n + empty_bytes s) q))"

text \<open>The specification: the characters to skip, the line, and what is left. Without an end of
  line only the leading empty characters go.\<close>

definition is_empty_char :: "char \<Rightarrow> bool" where
  "is_empty_char c \<longleftrightarrow> IsEol c \<or> c = CHR '' ''"

definition next_line :: "char list \<Rightarrow> string option \<times> char list" where
  "next_line bs =
     (let bs = dropWhile is_empty_char bs;
          line = takeWhile (\<lambda>c. \<not> IsEol c) bs;
          rest = dropWhile (\<lambda>c. \<not> IsEol c) bs
      in if rest = [] then (None, bs) else (Some line, dropWhile is_empty_char rest))"

lemma scan_block_append:
  "scan_block (xs @ ys) s = (case scan_block xs s of Inl s \<Rightarrow> scan_block ys s | Inr s \<Rightarrow> Inr s)"
  by (induction xs arbitrary: s) (auto split: sum.split)

lemma scan_blocks_bytes: "scan_blocks bs s = scan_block (concat (map block_bytes bs)) s"
  by (induction bs arbitrary: s) (auto simp: scan_block_append block_bytes_def split: sum.split)

lemma space_not_eol: "\<not> IsEol CHR '' ''"
  by (simp add: IsEol_eq)

lemma scan_phase0:
  "\<forall>c \<in> set xs. is_empty_char c \<Longrightarrow> phase s = 0 \<Longrightarrow>
   scan_block xs s = Inl (s\<lparr>empty_bytes := empty_bytes s + length xs\<rparr>)"
  by (induction xs arbitrary: s) (auto simp: scan_char_def is_empty_char_def)

lemma scan_phase1:
  "\<forall>c \<in> set xs. \<not> IsEol c \<Longrightarrow> phase s = 1 \<Longrightarrow> buffer s = take (IRCD_BUFSIZE - 2) pre \<Longrightarrow>
   line_bytes s = length pre \<Longrightarrow>
   scan_block xs s = Inl (s\<lparr>line_bytes := length (pre @ xs), buffer := take (IRCD_BUFSIZE - 2) (pre @ xs)\<rparr>)"
proof (induction xs arbitrary: s pre)
  case (Cons c xs)
  let ?s = "s\<lparr>phase := 1, line_bytes := line_bytes s + 1,
    buffer := (if line_bytes s < IRCD_BUFSIZE - 2 then buffer s @ [c] else buffer s)\<rparr>"
  have "scan_char c s = Inl ?s" using Cons.prems by (simp add: scan_char_def)
  moreover have "buffer ?s = take (IRCD_BUFSIZE - 2) (pre @ [c])" using Cons.prems(3,4) by simp
  moreover have "scan_block xs ?s = Inl (?s\<lparr>line_bytes := length ((pre @ [c]) @ xs),
      buffer := take (IRCD_BUFSIZE - 2) ((pre @ [c]) @ xs)\<rparr>)"
    using Cons.prems by (intro Cons.IH) auto
  moreover have "s\<lparr>phase := 1\<rparr> = s" using Cons.prems(2) by simp
  ultimately show ?case using Cons.prems(2) by simp
qed simp

lemma scan_phase2:
  "phase s = 2 \<Longrightarrow>
   scan_block xs s =
     (let es = takeWhile is_empty_char xs; s' = s\<lparr>empty_bytes := empty_bytes s + length es\<rparr>
      in if es = xs then Inl s' else Inr s')"
proof (induction xs arbitrary: s)
  case (Cons c xs)
  show ?case
  proof (cases "is_empty_char c")
    case True
    then have "scan_char c s = Inl (s\<lparr>empty_bytes := empty_bytes s + 1\<rparr>)"
      using Cons.prems by (auto simp: scan_char_def is_empty_char_def)
    with Cons True show ?thesis by (simp add: Let_def)
  next
    case False
    then have "scan_char c s = Inr s" using Cons.prems by (auto simp: scan_char_def is_empty_char_def)
    with False show ?thesis by (simp add: Let_def)
  qed
qed (simp add: Let_def)

text \<open>The whole scan: the length of what it consumes and the line it copies.\<close>

lemma scan_all:
  defines "s0 \<equiv> \<lparr>phase = 0, line_bytes = 0, empty_bytes = 0, buffer = []\<rparr>"
  shows "case next_line bs of
      (None, r) \<Rightarrow> \<exists>s. scan_block bs s0 = Inl s \<and> phase s \<noteq> 2 \<and> bs = take (empty_bytes s) bs @ r \<and>
        empty_bytes s \<le> length bs
    | (Some l, r) \<Rightarrow> \<exists>s. (scan_block bs s0 = Inl s \<and> phase s = 2 \<or> scan_block bs s0 = Inr s) \<and>
        line_bytes s = length l \<and> buffer s = take (IRCD_BUFSIZE - 2) l \<and>
        line_bytes s + empty_bytes s \<le> length bs \<and> drop (line_bytes s + empty_bytes s) bs = r"
proof -
  define es where "es = takeWhile is_empty_char bs"
  define rs where "rs = dropWhile is_empty_char bs"
  define l where "l = takeWhile (\<lambda>c. \<not> IsEol c) rs"
  define ts where "ts = dropWhile (\<lambda>c. \<not> IsEol c) rs"
  have bs: "bs = es @ l @ ts" by (simp add: es_def rs_def l_def ts_def)
  have e0: "\<forall>c \<in> set es. is_empty_char c" by (auto simp: es_def dest: set_takeWhileD)
  have l0: "\<forall>c \<in> set l. \<not> IsEol c" by (auto simp: l_def dest: set_takeWhileD)
  let ?s1 = "\<lparr>phase = 0, line_bytes = 0, empty_bytes = length es, buffer = []\<rparr>"
  have s1: "scan_block bs s0 = scan_block (l @ ts) ?s1"
    using scan_phase0[OF e0, of s0] by (simp add: bs scan_block_append s0_def)
  show ?thesis
  proof (cases "rs = []")
    case True
    then have "l = []" "ts = []" by (simp_all add: l_def ts_def)
    moreover have "next_line bs = (None, [])"
      unfolding next_line_def Let_def rs_def[symmetric] True by simp
    ultimately show ?thesis using s1 bs by simp
  next
    case False
    then obtain c cs where rs: "rs = c # cs" by (cases rs) auto
    then have c: "\<not> is_empty_char c" using hd_dropWhile[of is_empty_char bs] by (simp add: rs_def)
    then have c': "\<not> IsEol c" "c \<noteq> CHR '' ''" by (auto simp: is_empty_char_def)
    then obtain l' where l: "l = c # l'" by (simp add: l_def rs)
    let ?s2 = "\<lparr>phase = 1, line_bytes = length l, empty_bytes = length es, buffer = take (IRCD_BUFSIZE - 2) l\<rparr>"
    have "scan_char c ?s1 = Inl \<lparr>phase = 1, line_bytes = 1, empty_bytes = length es, buffer = [c]\<rparr>"
      using c' by (simp add: scan_char_def IRCD_BUFSIZE_def)
    then have s2: "scan_block l ?s1 = Inl ?s2"
      using scan_phase1[of l' "\<lparr>phase = 1, line_bytes = 1, empty_bytes = length es, buffer = [c]\<rparr>" "[c]"] l0
      by (simp add: l IRCD_BUFSIZE_def)
    show ?thesis
    proof (cases ts)
      case Nil
      then have "next_line bs = (None, rs)"
        unfolding next_line_def Let_def rs_def[symmetric] ts_def[symmetric] by simp
      moreover have "scan_block bs s0 = Inl ?s2" using s1 s2 Nil by simp
      moreover have "rs = l" using Nil takeWhile_dropWhile_id[of "\<lambda>c. \<not> IsEol c" rs]
        unfolding l_def[symmetric] ts_def[symmetric] by simp
      ultimately show ?thesis using bs Nil by simp
    next
      case (Cons t ts')
      then have t: "IsEol t" using hd_dropWhile[of "\<lambda>c. \<not> IsEol c" rs] by (simp add: ts_def)
      then have te: "is_empty_char t" by (simp add: is_empty_char_def)
      let ?s3 = "?s2\<lparr>phase := 2, empty_bytes := length es + 1\<rparr>"
      let ?e = "takeWhile is_empty_char ts'"
      let ?s4 = "?s3\<lparr>empty_bytes := length es + 1 + length ?e\<rparr>"
      have "scan_char t ?s2 = Inl ?s3" using t by (simp add: scan_char_def)
      then have "scan_block bs s0 = scan_block ts' ?s3"
        using s1 s2 by (simp add: scan_block_append Cons)
      then have fin: "scan_block bs s0 = (if ?e = ts' then Inl ?s4 else Inr ?s4)"
        by (simp add: scan_phase2 Let_def)
      have nl: "next_line bs = (Some l, dropWhile is_empty_char ts')"
        unfolding next_line_def Let_def rs_def[symmetric] ts_def[symmetric] l_def[symmetric]
        using Cons te by simp
      have "length ?e \<le> length ts'" by (rule length_takeWhile_le)
      then have len: "line_bytes ?s4 + empty_bytes ?s4 \<le> length bs" by (simp add: bs Cons)
      have "drop (line_bytes ?s4 + empty_bytes ?s4) bs = drop (length ?e) ts'"
        by (simp add: bs Cons)
      also have "\<dots> = dropWhile is_empty_char ts'" by (rule dropWhile_eq_drop[symmetric])
      finally show ?thesis using nl fin len by (cases "?e = ts'") auto
    qed
  qed
qed

text \<open>A complete line always has a character, so the length 0 means that there is none.\<close>

lemma next_line_nonempty: "next_line bs = (Some l, r) \<Longrightarrow> l \<noteq> []"
proof -
  assume a: "next_line bs = (Some l, r)"
  let ?rs = "dropWhile is_empty_char bs"
  have "?rs \<noteq> []"
  proof
    assume "?rs = []"
    with a show False unfolding next_line_def Let_def by simp
  qed
  from a have l: "l = takeWhile (\<lambda>c. \<not> IsEol c) ?rs"
    by (auto simp: next_line_def Let_def split: if_splits)
  note \<open>?rs \<noteq> []\<close>
  then have "\<not> is_empty_char (hd ?rs)" by (metis hd_dropWhile)
  with \<open>?rs \<noteq> []\<close> show ?thesis unfolding l by (cases ?rs) (auto simp: is_empty_char_def)
qed

lemma extract_one_line_spec:
  assumes "dbuf_ok q"
  shows "\<exists>n buf q'. extract_one_line q = Some (n, buf, q') \<and> dbuf_ok q' \<and>
    qbytes q' = snd (next_line (qbytes q)) \<and>
    (case fst (next_line (qbytes q)) of
       None \<Rightarrow> n = 0
     | Some l \<Rightarrow> n = min (length l) 510 \<and> buf = take 510 l \<and> n = length buf \<and> 0 < n)"
proof -
  let ?s0 = "\<lparr>phase = 0, line_bytes = 0, empty_bytes = 0, buffer = []\<rparr>"
  have sb: "scan_blocks (blocks q) ?s0 = scan_block (qbytes q) ?s0" by (simp add: scan_blocks_bytes qbytes_def)
  note sc = scan_all[of "qbytes q"]
  show ?thesis
  proof (cases "next_line (qbytes q)")
    case (Pair ol r)
    show ?thesis
    proof (cases ol)
      case None
      with sc Pair obtain s where s: "scan_block (qbytes q) ?s0 = Inl s" "phase s \<noteq> 2"
        "qbytes q = take (empty_bytes s) (qbytes q) @ r" "empty_bytes s \<le> length (qbytes q)" by auto
      from dbuf_delete_ok[OF assms s(4)] obtain q' where
        q': "dbuf_delete (empty_bytes s) q = Some q'" "dbuf_ok q'" "qbytes q' = drop (empty_bytes s) (qbytes q)"
        by blast
      have "drop (empty_bytes s) (qbytes q) = r"
        using s(3,4) by (metis append_take_drop_id same_append_eq)
      with s q' None Pair sb show ?thesis by (simp add: extract_one_line_def Let_def IRCD_MIN_def)
    next
      case (Some l)
      with sc Pair obtain s where s:
        "scan_block (qbytes q) ?s0 = Inl s \<and> phase s = 2 \<or> scan_block (qbytes q) ?s0 = Inr s"
        "line_bytes s = length l" "buffer s = take (IRCD_BUFSIZE - 2) l"
        "line_bytes s + empty_bytes s \<le> length (qbytes q)" "drop (line_bytes s + empty_bytes s) (qbytes q) = r"
        by auto
      from dbuf_delete_ok[OF assms s(4)] obtain q' where
        q': "dbuf_delete (line_bytes s + empty_bytes s) q = Some q'" "dbuf_ok q'" "qbytes q' = r"
        using s(5) by blast
      have "l \<noteq> []" using next_line_nonempty Pair Some by blast
      moreover have "extract_one_line q = Some (min (length l) 510, take 510 l, q')"
        using s(1-3) q'(1) sb
        by (auto simp: extract_one_line_def Let_def IRCD_MIN_def IRCD_BUFSIZE_def min_def)
      ultimately show ?thesis using q' Pair Some by (cases l) auto
    qed
  qed
qed

subsection \<open>All the lines of a byte stream\<close>

lemma next_line_shorter: "next_line bs = (Some l, r) \<Longrightarrow> length r < length bs"
proof -
  assume a: "next_line bs = (Some l, r)"
  then have l: "l \<noteq> []" by (rule next_line_nonempty)
  let ?rs = "dropWhile is_empty_char bs"
  from a have lr: "l = takeWhile (\<lambda>c. \<not> IsEol c) ?rs" "r = dropWhile is_empty_char (dropWhile (\<lambda>c. \<not> IsEol c) ?rs)"
    by (auto simp: next_line_def Let_def split: if_splits)
  have "length r \<le> length (dropWhile (\<lambda>c. \<not> IsEol c) ?rs)" unfolding lr(2) by (rule length_dropWhile_le)
  moreover have "length ?rs = length l + length (dropWhile (\<lambda>c. \<not> IsEol c) ?rs)"
    unfolding lr(1) by (metis length_append takeWhile_dropWhile_id)
  moreover have "length ?rs \<le> length bs" by (rule length_dropWhile_le)
  ultimately show ?thesis using l by (cases l) auto
qed

function lines_of :: "char list \<Rightarrow> string list \<times> char list" where
  "lines_of bs =
     (case next_line bs of
        (None, r) \<Rightarrow> ([], r)
      | (Some l, r) \<Rightarrow> (case lines_of r of (ls, r') \<Rightarrow> (take 510 l # ls, r')))"
  by pat_completeness auto

termination
  by (relation "measure length") (auto dest: next_line_shorter[OF sym])

declare lines_of.simps [simp del]

lemma next_line_drop: "next_line (dropWhile is_empty_char a @ b) = next_line (a @ b)"
proof (cases "dropWhile is_empty_char a")
  case Nil
  then have "dropWhile is_empty_char (a @ b) = dropWhile is_empty_char b" by (simp add: dropWhile_append2)
  with Nil show ?thesis by (simp only: next_line_def append_Nil)
next
  case (Cons c cs)
  then have "\<not> is_empty_char c" by (metis dropWhile_eq_Cons_conv)
  moreover have "dropWhile is_empty_char (a @ b) = c # cs @ b"
  proof -
    from Cons have "\<not> (\<forall>x \<in> set a. is_empty_char x)" by (metis dropWhile_eq_Nil_conv list.distinct(1))
    then obtain x where "x \<in> set a" "\<not> is_empty_char x" by blast
    from dropWhile_append1[of x a is_empty_char b, OF this] Cons show ?thesis by simp
  qed
  ultimately have "dropWhile is_empty_char (a @ b) = dropWhile is_empty_char ((c # cs) @ b)" by simp
  with Cons show ?thesis by (simp only: next_line_def)
qed

lemma lines_of_drop: "lines_of (dropWhile is_empty_char a @ b) = lines_of (a @ b)"
  using next_line_drop[of a b] by (subst (1 2) lines_of.simps) simp

text \<open>How the bytes are cut into packets does not matter.\<close>

lemma lines_of_append:
  "lines_of (a @ b) =
     (case lines_of a of (la, ra) \<Rightarrow> case lines_of (ra @ b) of (lb, rb) \<Rightarrow> (la @ lb, rb))"
proof (induction a rule: lines_of.induct)
  case (1 a)
  let ?rs = "dropWhile is_empty_char a"
  show ?case
  proof (cases "dropWhile (\<lambda>c. \<not> IsEol c) ?rs")
    case Nil
    then have "next_line a = (None, ?rs)" unfolding next_line_def Let_def by simp
    then have "lines_of a = ([], ?rs)" by (subst lines_of.simps) simp
    with lines_of_drop[of a b] show ?thesis by (simp split: prod.split)
  next
    case (Cons t ts)
    define l where "l = takeWhile (\<lambda>c. \<not> IsEol c) ?rs"
    have t: "IsEol t" using Cons by (metis dropWhile_eq_Cons_conv)
    then have te: "is_empty_char t" by (simp add: is_empty_char_def)
    have a: "next_line a = (Some l, dropWhile is_empty_char ts)"
      unfolding next_line_def Let_def Cons l_def[symmetric] using te by simp
    have rs: "?rs = l @ t # ts" unfolding l_def Cons[symmetric] by simp
    have l0: "\<forall>c \<in> set l. \<not> IsEol c" by (auto simp: l_def dest: set_takeWhileD)
    have lne: "l \<noteq> []" by (rule next_line_nonempty[OF a])
    then have "\<not> is_empty_char (hd l)" using hd_dropWhile[of is_empty_char a] by (simp add: rs)
    then have "dropWhile is_empty_char (?rs @ b) = l @ t # ts @ b" using lne by (cases l) (simp_all add: rs)
    moreover have "next_line (a @ b) = next_line (?rs @ b)" by (rule next_line_drop[symmetric])
    ultimately have "next_line (a @ b) = (Some l, dropWhile is_empty_char (ts @ b))"
      unfolding next_line_def Let_def using l0 t te by (simp add: takeWhile_append2 dropWhile_append2)
    then have "lines_of (a @ b) = (case lines_of (dropWhile is_empty_char (ts @ b)) of
        (ls, r) \<Rightarrow> (take 510 l # ls, r))"
      by (subst lines_of.simps) simp
    moreover have "lines_of (dropWhile is_empty_char (ts @ b)) = lines_of (dropWhile is_empty_char ts @ b)"
      using lines_of_drop[of "ts @ b" "[]"] lines_of_drop[of ts b] by simp
    moreover have "lines_of a = (case lines_of (dropWhile is_empty_char ts) of (ls, r) \<Rightarrow> (take 510 l # ls, r))"
      using a by (subst lines_of.simps) simp
    ultimately show ?thesis using 1[OF a[symmetric] refl] by (simp split: prod.split)
  qed
qed

subsection \<open>The connection\<close>


record 'w conn =
  status :: nat
  dead :: bool
  closing :: bool
  killed :: bool
  is_oper :: bool
  can_flood :: bool
  flood_done :: bool
  ping_sent :: bool
  allow_read :: int
  sent_parsed :: int
  recvq :: dbuf_queue
  recv_messages :: u32
  recv_bytes :: u64
  me_messages :: u32
  me_bytes :: u64
  lasttime :: time_t
  since :: time_t
  flush_timer :: bool
  world :: 'w

record flood_conf =
  no_oper_flood :: bool
  true_no_oper_flood :: bool
  client_flood :: nat

abbreviation IsDefunct :: "'w conn \<Rightarrow> bool" where
  "IsDefunct c \<equiv> dead c \<or> closing c \<or> killed c"

type_synonym 'w parser = "string \<Rightarrow> 'w conn \<Rightarrow> 'w conn"

definition client_dopacket :: "'w parser \<Rightarrow> string \<Rightarrow> nat \<Rightarrow> 'w conn \<Rightarrow> 'w conn" where
  "client_dopacket parse buf len c =
     parse (take len buf)
       (c\<lparr>me_messages := me_messages c + 1, recv_messages := recv_messages c + 1,
          recv_bytes := recv_bytes c + of_nat len, me_bytes := me_bytes c + of_nat len\<rparr>)"

text \<open>The loops of \<open>parse_client_queued\<close>. The first runs at most \<open>MAX_FLOOD\<close> times; its result is
  \<open>Inl\<close> for the return on a defunct client and \<open>Inr\<close> when it goes on. The other two have
  fuel, for a parser that keeps filling the queue would keep them going.\<close>

fun unknown_loop :: "'w parser \<Rightarrow> nat \<Rightarrow> 'w conn \<Rightarrow> ('w conn + 'w conn) option" where
  "unknown_loop parse k c =
     (if IsDefunct c then Some (Inl c)
      else case k of
        0 \<Rightarrow> Some (Inr c)
      | Suc k \<Rightarrow>
          (case extract_one_line (recvq c) of
             None \<Rightarrow> None
           | Some (dolen, buf, q) \<Rightarrow>
               let c = c\<lparr>recvq := q\<rparr> in
               if dolen = 0 then Some (Inr c)
               else let c = client_dopacket parse buf dolen c in
                    if status c \<noteq> STAT_UNKNOWN then Some (Inr c) else unknown_loop parse k c))"

declare unknown_loop.simps [simp del]

fun server_loop :: "nat \<Rightarrow> 'w parser \<Rightarrow> 'w conn \<Rightarrow> 'w conn option" where
  "server_loop 0 parse c = None"
| "server_loop (Suc n) parse c =
     (if IsDefunct c then Some c
      else case extract_one_line (recvq c) of
        None \<Rightarrow> None
      | Some (dolen, buf, q) \<Rightarrow>
          let c = c\<lparr>recvq := q\<rparr> in
          if dolen = 0 then Some c else server_loop n parse (client_dopacket parse buf dolen c))"

definition over_limit :: "int \<Rightarrow> 'w conn \<Rightarrow> bool" where
  "over_limit checkflood c \<longleftrightarrow>
     (if checkflood > 0 then sent_parsed c \<ge> allow_read c
      else sent_parsed c \<ge> 4 * allow_read c \<and> checkflood \<noteq> - 1)"

fun client_loop :: "nat \<Rightarrow> 'w parser \<Rightarrow> int \<Rightarrow> 'w conn \<Rightarrow> 'w conn option" where
  "client_loop 0 parse checkflood c = None"
| "client_loop (Suc n) parse checkflood c =
     (if IsDefunct c then Some c
      else if over_limit checkflood c then Some c
      else case extract_one_line (recvq c) of
        None \<Rightarrow> None
      | Some (dolen, buf, q) \<Rightarrow>
          let c = c\<lparr>recvq := q\<rparr> in
          if dolen = 0 then Some c
          else let c = client_dopacket parse buf dolen c
               in client_loop n parse checkflood (c\<lparr>sent_parsed := sent_parsed c + 1\<rparr>))"

definition check_flood :: "flood_conf \<Rightarrow> 'w conn \<Rightarrow> int" where
  "check_flood conf c =
     (if no_oper_flood conf \<and> (is_oper c \<or> can_flood c)
      then if true_no_oper_flood conf then - 1 else 0
      else 1)"

definition parse_client_queued ::
  "nat \<Rightarrow> flood_conf \<Rightarrow> 'w parser \<Rightarrow> 'w conn \<Rightarrow> 'w conn option" where
  "parse_client_queued n conf parse c =
     (case (if status c = STAT_UNKNOWN then unknown_loop parse (nat MAX_FLOOD) c else Some (Inr c)) of
        None \<Rightarrow> None
      | Some (Inl c) \<Rightarrow> Some c
      | Some (Inr c) \<Rightarrow>
          if status c = STAT_SERVER \<or> status c = STAT_CONNECTING \<or> status c = STAT_HANDSHAKE
          then server_loop n parse c
          else if status c = STAT_CLIENT
          then client_loop n parse (check_flood conf c) c
          else Some c)"

definition flood_endgrace :: "'w conn \<Rightarrow> 'w conn" where
  "flood_endgrace c = c\<lparr>flood_done := True, allow_read := MAX_FLOOD, sent_parsed := 0\<rparr>"

definition flood_recalc :: "nat \<Rightarrow> flood_conf \<Rightarrow> 'w parser \<Rightarrow> 'w conn \<Rightarrow> 'w conn option" where
  "flood_recalc n conf parse c =
     (let c = (if flood_done c then c\<lparr>sent_parsed := sent_parsed c - 2\<rparr> else c\<lparr>sent_parsed := 0\<rparr>);
          c = (if sent_parsed c < 0 then c\<lparr>sent_parsed := 0\<rparr> else c)
      in case parse_client_queued n conf parse c of
           None \<Rightarrow> None
         | Some c \<Rightarrow> Some (if \<not> dead c then c\<lparr>flush_timer := True\<rparr> else c))"

text \<open>\<open>read_packet\<close> without SSL. The results of its calls of \<open>recv\<close> are an input; how it ends is a
  value: it waits for more data, the link is dead, the client exits for flooding, or it just
  returns for a defunct client.\<close>

datatype recv_result = Got "char list" | Again | Failed

datatype read_outcome = Waits | Dead_link | Excess_flood | Returns

fun read_loop ::
  "nat \<Rightarrow> flood_conf \<Rightarrow> 'w parser \<Rightarrow> time_t \<Rightarrow> recv_result list \<Rightarrow> 'w conn \<Rightarrow>
   (read_outcome \<times> 'w conn) option" where
  "read_loop n conf parse now [] c = None"
| "read_loop n conf parse now (Again # rs) c = Some (Waits, c)"
| "read_loop n conf parse now (Failed # rs) c = Some (Dead_link, c)"
| "read_loop n conf parse now (Got data # rs) c =
     (if data = [] then Some (Dead_link, c)
      else let c = (if lasttime c < now then c\<lparr>lasttime := now\<rparr> else c);
               c = (if lasttime c > since c then c\<lparr>since := now\<rparr> else c);
               c = c\<lparr>ping_sent := False\<rparr>
           in case dbuf_put data (recvq c) of
                None \<Rightarrow> None
              | Some q \<Rightarrow>
                  (case parse_client_queued n conf parse (c\<lparr>recvq := q\<rparr>) of
                     None \<Rightarrow> None
                   | Some c \<Rightarrow>
                       if IsDefunct c then Some (Returns, c)
                       else if \<not> (status c = STAT_SERVER \<or> status c = STAT_HANDSHAKE \<or>
                                  status c = STAT_CONNECTING) \<and>
                               total_size (recvq c) > client_flood conf \<and>
                               \<not> (no_oper_flood conf \<and> is_oper c)
                       then Some (Excess_flood, c)
                       else if length data = READBUF_SIZE
                       then read_loop n conf parse now rs c
                       else Some (Waits, c)))"

definition read_packet ::
  "nat \<Rightarrow> flood_conf \<Rightarrow> 'w parser \<Rightarrow> time_t \<Rightarrow> recv_result list \<Rightarrow> 'w conn \<Rightarrow>
   (read_outcome \<times> 'w conn) option" where
  "read_packet n conf parse now rs c =
     (if IsDefunct c then Some (Returns, c) else read_loop n conf parse now rs c)"

subsection \<open>What is parsed\<close>

text \<open>A parser that works on the rest of the server and leaves the connection's queue, state and
  flood counters alone.\<close>

definition pure_parser :: "(string \<Rightarrow> 'w \<Rightarrow> 'w) \<Rightarrow> 'w parser" where
  "pure_parser step l c = c\<lparr>world := step l (world c)\<rparr>"

lemma dopacket_pure [simp]:
  "recvq (client_dopacket (pure_parser step) buf n c) = recvq c"
  "status (client_dopacket (pure_parser step) buf n c) = status c"
  "dead (client_dopacket (pure_parser step) buf n c) = dead c"
  "closing (client_dopacket (pure_parser step) buf n c) = closing c"
  "killed (client_dopacket (pure_parser step) buf n c) = killed c"
  "sent_parsed (client_dopacket (pure_parser step) buf n c) = sent_parsed c"
  "allow_read (client_dopacket (pure_parser step) buf n c) = allow_read c"
  "is_oper (client_dopacket (pure_parser step) buf n c) = is_oper c"
  "can_flood (client_dopacket (pure_parser step) buf n c) = can_flood c"
  "flood_done (client_dopacket (pure_parser step) buf n c) = flood_done c"
  "world (client_dopacket (pure_parser step) buf n c) = step (take n buf) (world c)"
  by (simp_all add: client_dopacket_def pure_parser_def)

text \<open>What one extraction does, in terms of the lines of the queue.\<close>

lemma extract_cases:
  assumes "dbuf_ok q"
  obtains (none) r buf q' where "extract_one_line q = Some (0, buf, q')" "dbuf_ok q'"
      "lines_of (qbytes q) = ([], r)" "qbytes q' = r" "lines_of r = ([], r)"
  | (line) l buf q' ls r where "extract_one_line q = Some (length l, buf, q')" "dbuf_ok q'" "l \<noteq> []"
      "take (length l) buf = l" "lines_of (qbytes q) = (l # ls, r)" "lines_of (qbytes q') = (ls, r)"
      "length (qbytes q') < length (qbytes q)"
proof -
  obtain n buf q' where x: "extract_one_line q = Some (n, buf, q')" "dbuf_ok q'"
    "qbytes q' = snd (next_line (qbytes q))"
    "case fst (next_line (qbytes q)) of None \<Rightarrow> n = 0
     | Some l \<Rightarrow> n = min (length l) 510 \<and> buf = take 510 l \<and> n = length buf \<and> 0 < n"
    using extract_one_line_spec[OF assms] by blast
  obtain ol r where nl: "next_line (qbytes q) = (ol, r)" by fastforce
  show ?thesis
  proof (cases ol)
    case None
    have r: "r = dropWhile is_empty_char (qbytes q)" using nl None
      by (auto simp: next_line_def Let_def split: if_splits)
    have "lines_of r = ([], r)"
    proof -
      have "next_line r = (None, r)"
        using next_line_drop[of "qbytes q" "[]"] nl None unfolding r by simp
      then show ?thesis by (subst lines_of.simps) simp
    qed
    moreover have "lines_of (qbytes q) = ([], r)" using nl None by (subst lines_of.simps) simp
    ultimately show ?thesis using none[of buf q' r] x nl None by simp
  next
    case (Some l)
    obtain ls r' where lr: "lines_of r = (ls, r')" by fastforce
    have l1: "lines_of (qbytes q) = (take 510 l # ls, r')" using nl Some lr by (subst lines_of.simps) simp
    have l2: "length r < length (qbytes q)" using nl Some next_line_shorter by blast
    from x(4) nl Some have b: "n = length (take 510 l)" "buf = take 510 l" "take 510 l \<noteq> []"
      by auto
    have l3: "take (length (take 510 l)) buf = take 510 l"
      unfolding b(2) by (rule take_all) (rule order_refl)
    have l4: "qbytes q' = r" using x(3) nl by simp
    have l5: "extract_one_line q = Some (length (take 510 l), buf, q')" unfolding x(1) b(1)[symmetric] ..
    show ?thesis
      by (rule line[of "take 510 l" buf q' ls r', OF l5 x(2) b(3) l3 l1]) (simp_all only: l4 lr l2)
  qed
qed

text \<open>A server's link: every complete line is parsed, in order, and the partial one stays.\<close>

lemma server_loop_all:
  "dbuf_ok (recvq c) \<Longrightarrow> \<not> IsDefunct c \<Longrightarrow> length (qbytes (recvq c)) < n \<Longrightarrow>
   lines_of (qbytes (recvq c)) = (ls, r) \<Longrightarrow>
   \<exists>c'. server_loop n (pure_parser step) c = Some c' \<and> dbuf_ok (recvq c') \<and> qbytes (recvq c') = r \<and>
     world c' = fold step ls (world c) \<and> status c' = status c \<and> dead c' = dead c \<and>
     closing c' = closing c \<and> killed c' = killed c"
proof (induction n arbitrary: c ls)
  case (Suc n)
  from Suc.prems(1) show ?case
  proof (cases rule: extract_cases)
    case (none r' buf q')
    with Suc.prems show ?thesis by auto
  next
    case (line l buf q' ls' r')
    let ?c = "client_dopacket (pure_parser step) buf (length l) (c\<lparr>recvq := q'\<rparr>)"
    have "server_loop (Suc n) (pure_parser step) c = server_loop n (pure_parser step) ?c"
      using line(1,3) Suc.prems(2) by simp
    moreover have "ls = l # ls'" "r = r'" using line(5) Suc.prems(4) by auto
    moreover have "\<exists>c'. server_loop n (pure_parser step) ?c = Some c' \<and> dbuf_ok (recvq c') \<and>
        qbytes (recvq c') = r \<and> world c' = fold step ls' (world ?c) \<and> status c' = status ?c \<and>
        dead c' = dead ?c \<and> closing c' = closing ?c \<and> killed c' = killed ?c"
      using Suc.prems line \<open>r = r'\<close> by (intro Suc.IH) auto
    ultimately show ?thesis using line(4) by auto
  qed
qed simp

text \<open>Packets on a connection: each is one call of \<open>read_packet\<close> in which \<open>recv\<close> gives the packet and
  then has nothing more; the call has to end waiting for more data.\<close>

fun receive_all :: "nat \<Rightarrow> flood_conf \<Rightarrow> 'w parser \<Rightarrow> (time_t \<times> char list) list \<Rightarrow> 'w conn \<Rightarrow> 'w conn option" where
  "receive_all n conf parse [] c = Some c"
| "receive_all n conf parse ((now, p) # ps) c =
     (case read_packet n conf parse now [Got p, Again] c of
        Some (Waits, c) \<Rightarrow> receive_all n conf parse ps c
      | _ \<Rightarrow> None)"

definition server_link :: "'w conn \<Rightarrow> bool" where
  "server_link c \<longleftrightarrow> dbuf_ok (recvq c) \<and> \<not> IsDefunct c \<and> status c = STAT_SERVER"

lemma server_receives:
  assumes link: "server_link c" and p: "p \<noteq> []" and n: "length (qbytes (recvq c)) + length p < n"
    and ls: "lines_of (qbytes (recvq c) @ p) = (ls, r)"
  shows "\<exists>c'. read_packet n conf (pure_parser step) now [Got p, Again] c = Some (Waits, c') \<and>
    server_link c' \<and> qbytes (recvq c') = r \<and> world c' = fold step ls (world c)"
proof -
  from link have c: "dbuf_ok (recvq c)" "\<not> IsDefunct c" "status c = STAT_SERVER" by (simp_all add: server_link_def)
  define c0 where "c0 = (let c = (if lasttime c < now then c\<lparr>lasttime := now\<rparr> else c);
      c = (if lasttime c > since c then c\<lparr>since := now\<rparr> else c) in c\<lparr>ping_sent := False\<rparr>)"
  have c0: "recvq c0 = recvq c" "status c0 = status c" "dead c0 = dead c" "closing c0 = closing c"
    "killed c0 = killed c" "world c0 = world c" by (simp_all add: c0_def Let_def)
  from dbuf_put_ok[OF c(1)] obtain q where q: "dbuf_put p (recvq c) = Some q" "dbuf_ok q"
    "qbytes q = qbytes (recvq c) @ p" by blast
  have "\<exists>c'. server_loop n (pure_parser step) (c0\<lparr>recvq := q\<rparr>) = Some c' \<and> dbuf_ok (recvq c') \<and>
      qbytes (recvq c') = r \<and> world c' = fold step ls (world (c0\<lparr>recvq := q\<rparr>)) \<and>
      status c' = status (c0\<lparr>recvq := q\<rparr>) \<and> dead c' = dead (c0\<lparr>recvq := q\<rparr>) \<and>
      closing c' = closing (c0\<lparr>recvq := q\<rparr>) \<and> killed c' = killed (c0\<lparr>recvq := q\<rparr>)"
    using q c c0 n ls by (intro server_loop_all) auto
  then obtain c' where c': "server_loop n (pure_parser step) (c0\<lparr>recvq := q\<rparr>) = Some c'" "dbuf_ok (recvq c')"
    "qbytes (recvq c') = r" "world c' = fold step ls (world c)" "status c' = STAT_SERVER" "\<not> IsDefunct c'"
    using c c0 by auto
  have "parse_client_queued n conf (pure_parser step) (c0\<lparr>recvq := q\<rparr>) = Some c'"
    using c'(1) c(3) c0(2) by (simp add: parse_client_queued_def stat_defs)
  moreover have "read_packet n conf (pure_parser step) now [Got p, Again] c =
      (case dbuf_put p (recvq c0) of
         None \<Rightarrow> None
       | Some q \<Rightarrow>
           (case parse_client_queued n conf (pure_parser step) (c0\<lparr>recvq := q\<rparr>) of
              None \<Rightarrow> None
            | Some c \<Rightarrow>
                if IsDefunct c then Some (Returns, c)
                else if \<not> (status c = STAT_SERVER \<or> status c = STAT_HANDSHAKE \<or>
                           status c = STAT_CONNECTING) \<and>
                        total_size (recvq c) > client_flood conf \<and>
                        \<not> (no_oper_flood conf \<and> is_oper c)
                then Some (Excess_flood, c)
                else if length p = READBUF_SIZE
                then read_loop n conf (pure_parser step) now [Again] c else Some (Waits, c)))"
    using c(2) p unfolding c0_def Let_def by (simp add: read_packet_def Let_def)
  ultimately have "read_packet n conf (pure_parser step) now [Got p, Again] c = Some (Waits, c')"
    using q(1) c0(1) c'(5,6) by simp
  with c' show ?thesis by (simp add: server_link_def)
qed

lemma lines_of_rest: "lines_of bs = (ls, r) \<Longrightarrow> length r \<le> length bs"
proof (induction bs arbitrary: ls rule: lines_of.induct)
  case (1 bs)
  show ?case
  proof (cases "next_line bs")
    case (Pair ol r')
    show ?thesis
    proof (cases ol)
      case None
      with Pair 1(2) have "r = dropWhile is_empty_char bs"
        by (subst (asm) lines_of.simps) (auto simp: next_line_def Let_def split: if_splits)
      then show ?thesis by (simp add: length_dropWhile_le)
    next
      case (Some l)
      obtain ls' where ls': "lines_of r' = (ls', r)"
        using 1(2) Pair Some by (subst (asm) lines_of.simps) (auto split: prod.splits)
      from next_line_shorter[OF Pair[unfolded Some]] 1(1)[OF Pair[symmetric] Some ls'] show ?thesis by simp
    qed
  qed
qed

lemma receive_all_lines:
  "server_link c \<Longrightarrow> ps \<noteq> [] \<Longrightarrow> [] \<notin> snd ` set ps \<Longrightarrow>
   length (qbytes (recvq c)) + length (concat (map snd ps)) < n \<Longrightarrow>
   lines_of (qbytes (recvq c) @ concat (map snd ps)) = (ls, r) \<Longrightarrow>
   \<exists>c'. receive_all n conf (pure_parser step) ps c = Some c' \<and> server_link c' \<and>
     qbytes (recvq c') = r \<and> world c' = fold step ls (world c)"
proof (induction ps arbitrary: c ls)
  case (Cons tp ps)
  obtain now p where tp: "tp = (now, p)" by fastforce
  have p: "p \<noteq> []" using Cons.prems(3) tp by auto
  obtain l1 r1 where l1: "lines_of (qbytes (recvq c) @ p) = (l1, r1)" by fastforce
  have n: "length (qbytes (recvq c)) + length p < n" using Cons.prems(4) tp by simp
  obtain c1 where c1: "read_packet n conf (pure_parser step) now [Got p, Again] c = Some (Waits, c1)"
    "server_link c1" "qbytes (recvq c1) = r1" "world c1 = fold step l1 (world c)"
    using server_receives[OF Cons.prems(1) p n l1] by blast
  show ?case
  proof (cases "ps = []")
    case True
    with c1 l1 tp Cons.prems(5) show ?thesis by simp
  next
    case False
    obtain l2 r2 where l2: "lines_of (r1 @ concat (map snd ps)) = (l2, r2)" by fastforce
    have "ls = l1 @ l2" "r = r2"
      using Cons.prems(5) lines_of_append[of "qbytes (recvq c) @ p" "concat (map snd ps)"] l1 l2 tp by simp_all
    moreover have "length (qbytes (recvq c1)) + length (concat (map snd ps)) < n"
      using lines_of_rest[OF l1] Cons.prems(4) c1(3) tp by simp
    ultimately show ?thesis
      using Cons.IH[OF c1(2) False, of l2] Cons.prems(3) l2 c1 tp by (auto simp: fold_append)
  qed
qed simp

text \<open>A client: as many lines as its flood limit has room for.\<close>

definition flood_limit :: "int \<Rightarrow> 'w conn \<Rightarrow> int" where
  "flood_limit checkflood c = (if checkflood > 0 then allow_read c else 4 * allow_read c)"

lemma over_limit_iff: "checkflood \<noteq> - 1 \<Longrightarrow> over_limit checkflood c \<longleftrightarrow> flood_limit checkflood c \<le> sent_parsed c"
  by (simp add: over_limit_def flood_limit_def)

lemma client_loop_limit:
  "dbuf_ok (recvq c) \<Longrightarrow> \<not> IsDefunct c \<Longrightarrow> length (qbytes (recvq c)) < n \<Longrightarrow> checkflood \<noteq> - 1 \<Longrightarrow>
   lines_of (qbytes (recvq c)) = (ls, r) \<Longrightarrow>
   k = min (length ls) (nat (flood_limit checkflood c - sent_parsed c)) \<Longrightarrow>
   \<exists>c'. client_loop n (pure_parser step) checkflood c = Some c' \<and> dbuf_ok (recvq c') \<and>
     lines_of (qbytes (recvq c')) = (drop k ls, r) \<and> world c' = fold step (take k ls) (world c) \<and>
     sent_parsed c' = sent_parsed c + int k \<and> allow_read c' = allow_read c \<and>
     flood_done c' = flood_done c \<and> status c' = status c \<and> is_oper c' = is_oper c \<and>
     can_flood c' = can_flood c \<and> dead c' = dead c \<and> closing c' = closing c \<and> killed c' = killed c"
proof (induction n arbitrary: c ls k)
  case (Suc n)
  show ?case
  proof (cases "over_limit checkflood c")
    case True
    have "flood_limit checkflood c \<le> sent_parsed c"
      by (rule over_limit_iff[THEN iffD1, OF Suc.prems(4) True])
    with Suc.prems(6) have "k = 0" by simp
    with True Suc.prems show ?thesis by simp
  next
    case False
    with over_limit_iff[OF Suc.prems(4), of c] have lim: "sent_parsed c < flood_limit checkflood c"
      by simp
    from Suc.prems(1) show ?thesis
    proof (cases rule: extract_cases)
      case (none r' buf q')
      with Suc.prems have "ls = []" "k = 0" "r = r'" by auto
      with none False Suc.prems(2) show ?thesis by simp
    next
      case (line l buf q' ls' r')
      define c1 where "c1 = (let d = client_dopacket (pure_parser step) buf (length l) (c\<lparr>recvq := q'\<rparr>)
        in d\<lparr>sent_parsed := sent_parsed d + 1\<rparr>)"
      have c1: "recvq c1 = q'" "status c1 = status c" "dead c1 = dead c" "closing c1 = closing c"
        "killed c1 = killed c" "sent_parsed c1 = sent_parsed c + 1" "allow_read c1 = allow_read c"
        "is_oper c1 = is_oper c" "can_flood c1 = can_flood c" "flood_done c1 = flood_done c"
        "world c1 = step l (world c)"
        using line(4) by (simp_all add: c1_def Let_def)
      have step: "client_loop (Suc n) (pure_parser step) checkflood c =
          client_loop n (pure_parser step) checkflood c1"
        using line(1,3) Suc.prems(2) False by (simp add: c1_def Let_def)
      have ls: "ls = l # ls'" "r = r'" using line(5) Suc.prems(5) by auto
      define j where "j = min (length ls') (nat (flood_limit checkflood c1 - sent_parsed c1))"
      have "flood_limit checkflood c1 = flood_limit checkflood c" by (simp add: flood_limit_def c1)
      with lim Suc.prems(6) ls have k: "k = Suc j" by (auto simp: j_def c1 min_def)
      have IH: "\<exists>c'. client_loop n (pure_parser step) checkflood c1 = Some c' \<and> dbuf_ok (recvq c') \<and>
         lines_of (qbytes (recvq c')) = (drop j ls', r) \<and> world c' = fold step (take j ls') (world c1) \<and>
         sent_parsed c' = sent_parsed c1 + int j \<and> allow_read c' = allow_read c1 \<and>
         flood_done c' = flood_done c1 \<and> status c' = status c1 \<and> is_oper c' = is_oper c1 \<and>
         can_flood c' = can_flood c1 \<and> dead c' = dead c1 \<and> closing c' = closing c1 \<and> killed c' = killed c1"
        using Suc.prems line ls c1 by (intro Suc.IH) (auto simp: j_def)
      show ?thesis unfolding step k ls(1) using IH c1 by auto
    qed
  qed
qed simp

subsection \<open>Flood control over time\<close>

text \<open>What happens to a client over time: data arrives, and \<open>flood_recalc\<close> is called once a second.
  The fuel is the number of bytes queued, which is enough.\<close>

datatype flood_event = Tick | Receive "char list"

fun flood_step :: "flood_conf \<Rightarrow> 'w parser \<Rightarrow> flood_event \<Rightarrow> 'w conn \<Rightarrow> 'w conn option" where
  "flood_step conf parse Tick c = flood_recalc (Suc (total_size (recvq c))) conf parse c"
| "flood_step conf parse (Receive data) c =
     (case dbuf_put data (recvq c) of
        None \<Rightarrow> None
      | Some q \<Rightarrow> parse_client_queued (Suc (total_size q)) conf parse (c\<lparr>recvq := q\<rparr>))"

fun flood_run :: "flood_conf \<Rightarrow> 'w parser \<Rightarrow> flood_event list \<Rightarrow> 'w conn \<Rightarrow> 'w conn option" where
  "flood_run conf parse [] c = Some c"
| "flood_run conf parse (e # es) c = Option.bind (flood_step conf parse e c) (flood_run conf parse es)"

definition limited_client :: "flood_conf \<Rightarrow> 'w conn \<Rightarrow> bool" where
  "limited_client conf c \<longleftrightarrow> dbuf_ok (recvq c) \<and> status c = STAT_CLIENT \<and> \<not> IsDefunct c \<and>
     flood_done c \<and> check_flood conf c = 1 \<and> 0 \<le> sent_parsed c \<and> sent_parsed c \<le> allow_read c"

definition log_parser :: "string list parser" where
  "log_parser = pure_parser (\<lambda>l ls. ls @ [l])"

lemma fold_log: "fold (\<lambda>l ls. ls @ [l]) xs ys = ys @ xs"
  by (induction xs arbitrary: ys) auto

lemma parse_limited:
  assumes "limited_client conf c"
  shows "\<exists>c'. parse_client_queued (Suc (total_size (recvq c))) conf log_parser c = Some c' \<and>
    limited_client conf c' \<and> allow_read c' = allow_read c \<and>
    int (length (world c')) - sent_parsed c' = int (length (world c)) - sent_parsed c"
proof -
  from assms have c: "dbuf_ok (recvq c)" "status c = STAT_CLIENT" "\<not> IsDefunct c" "flood_done c"
    "check_flood conf c = 1" "0 \<le> sent_parsed c" "sent_parsed c \<le> allow_read c"
    by (simp_all add: limited_client_def)
  obtain ls r where ls: "lines_of (qbytes (recvq c)) = (ls, r)" by fastforce
  define k where "k = min (length ls) (nat (flood_limit 1 c - sent_parsed c))"
  have lim: "flood_limit 1 c = allow_read c" by (simp add: flood_limit_def)
  have n: "length (qbytes (recvq c)) < Suc (total_size (recvq c))" using c(1) by (simp add: dbuf_ok_def)
  obtain c' where c': "client_loop (Suc (total_size (recvq c))) log_parser 1 c = Some c'"
    "dbuf_ok (recvq c')" "world c' = fold (\<lambda>l ls. ls @ [l]) (take k ls) (world c)"
    "sent_parsed c' = sent_parsed c + int k" "allow_read c' = allow_read c" "flood_done c' = flood_done c"
    "status c' = status c" "is_oper c' = is_oper c" "can_flood c' = can_flood c" "dead c' = dead c"
    "closing c' = closing c" "killed c' = killed c"
    using client_loop_limit[OF c(1,3) n _ ls k_def, where step = "\<lambda>l ls. ls @ [l]"]
    unfolding log_parser_def by auto
  have k: "int k \<le> allow_read c - sent_parsed c" "k \<le> length ls" using c(7) by (auto simp: k_def lim)
  have "parse_client_queued (Suc (total_size (recvq c))) conf log_parser c = Some c'"
    using c(2,5) c'(1) by (simp add: parse_client_queued_def stat_defs)
  moreover have "limited_client conf c'"
    using c c' k by (auto simp: limited_client_def check_flood_def)
  ultimately show ?thesis using c' k by (auto simp: fold_log)
qed

lemma flood_step_limited:
  assumes "limited_client conf c"
  shows "\<exists>c'. flood_step conf log_parser e c = Some c' \<and> limited_client conf c' \<and> allow_read c' = allow_read c \<and>
    int (length (world c')) - sent_parsed c' \<le> int (length (world c)) - sent_parsed c + (if e = Tick then 2 else 0)"
proof (cases e)
  case (Receive data)
  from assms have "dbuf_ok (recvq c)" by (simp add: limited_client_def)
  from dbuf_put_ok[OF this] obtain q where q: "dbuf_put data (recvq c) = Some q" "dbuf_ok q" by blast
  with assms have "limited_client conf (c\<lparr>recvq := q\<rparr>)" by (simp add: limited_client_def check_flood_def)
  from parse_limited[OF this] q Receive show ?thesis by auto
next
  case Tick
  define c1 where "c1 = c\<lparr>sent_parsed := (if sent_parsed c - 2 < 0 then 0 else sent_parsed c - 2)\<rparr>"
  have c1: "limited_client conf c1" "recvq c1 = recvq c" "world c1 = world c" "allow_read c1 = allow_read c"
    "sent_parsed c - 2 \<le> sent_parsed c1"
    using assms by (auto simp: c1_def limited_client_def check_flood_def)
  obtain c2 where c2: "parse_client_queued (Suc (total_size (recvq c))) conf log_parser c1 = Some c2"
    "limited_client conf c2" "allow_read c2 = allow_read c1"
    "int (length (world c2)) - sent_parsed c2 = int (length (world c1)) - sent_parsed c1"
    using parse_limited[OF c1(1)] c1(2) by auto
  have "flood_done c" using assms by (simp add: limited_client_def)
  then have "flood_recalc (Suc (total_size (recvq c))) conf log_parser c =
      (case parse_client_queued (Suc (total_size (recvq c))) conf log_parser c1 of None \<Rightarrow> None
       | Some c \<Rightarrow> Some (if \<not> dead c then c\<lparr>flush_timer := True\<rparr> else c))"
    by (simp add: flood_recalc_def c1_def Let_def)
  moreover have "limited_client conf (c2\<lparr>flush_timer := True\<rparr>)"
    using c2(2) by (simp add: limited_client_def check_flood_def)
  moreover have "\<not> dead c2" using c2(2) by (simp add: limited_client_def)
  ultimately show ?thesis using Tick c1 c2 by simp
qed

lemma flood_run_limited:
  "limited_client conf c \<Longrightarrow>
   \<exists>c'. flood_run conf log_parser es c = Some c' \<and> limited_client conf c' \<and> allow_read c' = allow_read c \<and>
    int (length (world c')) - sent_parsed c' \<le>
      int (length (world c)) - sent_parsed c + 2 * int (length (filter ((=) Tick) es))"
proof (induction es arbitrary: c)
  case (Cons e es)
  from flood_step_limited[OF Cons.prems, of e] obtain c1 where c1:
    "flood_step conf log_parser e c = Some c1" "limited_client conf c1" "allow_read c1 = allow_read c"
    "int (length (world c1)) - sent_parsed c1 \<le> int (length (world c)) - sent_parsed c + (if e = Tick then 2 else 0)"
    by blast
  from Cons.IH[OF c1(2)] obtain c' where "flood_run conf log_parser es c1 = Some c'" "limited_client conf c'"
    "allow_read c' = allow_read c1" "int (length (world c')) - sent_parsed c' \<le>
      int (length (world c1)) - sent_parsed c1 + 2 * int (length (filter ((=) Tick) es))" by blast
  with c1 show ?case by (cases "e = Tick") auto
qed simp

text \<open>Before registration: never more than \<open>MAX_FLOOD\<close> lines at once.\<close>

lemma unknown_loop_limit:
  "dbuf_ok (recvq c) \<Longrightarrow> status c = STAT_UNKNOWN \<Longrightarrow> \<not> IsDefunct c \<Longrightarrow>
   lines_of (qbytes (recvq c)) = (ls, r) \<Longrightarrow>
   \<exists>c'. unknown_loop (pure_parser step) k c = Some (Inr c') \<and> dbuf_ok (recvq c') \<and>
     lines_of (qbytes (recvq c')) = (drop k ls, r) \<and> status c' = STAT_UNKNOWN \<and>
     world c' = fold step (take k ls) (world c)"
proof (induction k arbitrary: c ls)
  case 0
  then show ?case by (simp add: unknown_loop.simps)
next
  case (Suc k)
  from Suc.prems(1) show ?case
  proof (cases rule: extract_cases)
    case (none r' buf q')
    with Suc.prems show ?thesis by (subst unknown_loop.simps) simp
  next
    case (line l buf q' ls' r')
    let ?c = "client_dopacket (pure_parser step) buf (length l) (c\<lparr>recvq := q'\<rparr>)"
    have "unknown_loop (pure_parser step) (Suc k) c = unknown_loop (pure_parser step) k ?c"
      using line(1,3) Suc.prems(2,3) by (subst unknown_loop.simps) simp
    moreover have "ls = l # ls'" "r = r'" using line(5) Suc.prems(4) by auto
    moreover have "\<exists>c'. unknown_loop (pure_parser step) k ?c = Some (Inr c') \<and> dbuf_ok (recvq c') \<and>
        lines_of (qbytes (recvq c')) = (drop k ls', r) \<and> status c' = STAT_UNKNOWN \<and>
        world c' = fold step (take k ls') (world ?c)"
      using Suc.prems line \<open>r = r'\<close> by (intro Suc.IH) auto
    ultimately show ?thesis using line(4) by auto
  qed
qed

subsection \<open>Properties\<close>

text \<open>C33. \<open>extract_one_line\<close> returns the first complete line of the queued bytes, with leading CR, LF
  and spaces skipped, cut to 510 bytes and never empty, and removes it with all empty
  characters before and behind it; without a complete line it returns 0 and removes only the
  leading empty characters. It never overruns its buffer or the queue.\<close>

theorem extract_one_line_first_line:
  assumes "dbuf_ok q"
  shows "\<exists>n buf q'. extract_one_line q = Some (n, buf, q') \<and> dbuf_ok q' \<and>
    qbytes q' = snd (next_line (qbytes q)) \<and>
    (case fst (next_line (qbytes q)) of
       None \<Rightarrow> n = 0
     | Some l \<Rightarrow> n = min (length l) 510 \<and> buf = take 510 l \<and> n = length buf \<and> 0 < n)"
  using assms by (rule extract_one_line_spec)

definition sample_queue :: "string \<Rightarrow> dbuf_queue" where
  "sample_queue s = \<lparr>blocks = [fill s new_block], total_size = length s\<rparr>"

lemma sample_queue_ok:
  assumes "length s \<le> DBUF_BLOCK_SIZE"
  shows "dbuf_ok (sample_queue s)" "qbytes (sample_queue s) = s"
  using fill_ok[of new_block s] assms by (simp_all add: sample_queue_def dbuf_ok_def qbytes_def)

lemma extract_one_line_first_line_witness:
  "\<exists>n buf q'. extract_one_line (sample_queue ('' PING x'' @ [CHR 0x0D, CHR 0x0A] @ ''QU'')) = Some (n, buf, q') \<and>
    n = 6 \<and> buf = ''PING x'' \<and> qbytes q' = ''QU''"
proof -
  let ?q = "sample_queue ('' PING x'' @ [CHR 0x0D, CHR 0x0A] @ ''QU'')"
  have ok: "dbuf_ok ?q" "qbytes ?q = '' PING x'' @ [CHR 0x0D, CHR 0x0A] @ ''QU''"
    by (rule sample_queue_ok; simp add: DBUF_BLOCK_SIZE_def)+
  have "next_line (qbytes ?q) = (Some ''PING x'', ''QU'')"
    unfolding ok(2) by (simp add: next_line_def is_empty_char_def IsEol_eq)
  with extract_one_line_first_line[OF ok(1)] show ?thesis by auto
qed

text \<open>C24. What a server link parses does not depend on how its bytes were cut into packets. Take two
  ways to cut the same bytes into non-empty packets, each packet received by one call of
  \<open>read_packet\<close>, which puts it into the queue with \<open>dbuf_put\<close> and parses what
  \<open>extract_one_line\<close> finds; the parser is any one that leaves the connection itself alone. Both
  runs end, have handed the same lines to the parser in the same order, and leave the same
  partial line in the queue; and these are the lines of the old queue and the new bytes together.
  The fuel \<open>n\<close> is more than all bytes.\<close>

theorem lines_independent_of_packets:
  assumes "server_link c" "ps \<noteq> []" "[] \<notin> snd ` set ps" "qs \<noteq> []" "[] \<notin> snd ` set qs"
    "concat (map snd ps) = bs" "concat (map snd qs) = bs" "length (qbytes (recvq c)) + length bs < n"
  shows "\<exists>c1 c2. receive_all n conf (pure_parser step) ps c = Some c1 \<and>
    receive_all n conf (pure_parser step) qs c = Some c2 \<and>
    world c1 = world c2 \<and> qbytes (recvq c1) = qbytes (recvq c2) \<and>
    (world c1, qbytes (recvq c1)) =
      (case lines_of (qbytes (recvq c) @ bs) of (ls, r) \<Rightarrow> (fold step ls (world c), r))"
proof -
  obtain ls r where l: "lines_of (qbytes (recvq c) @ bs) = (ls, r)" by fastforce
  show ?thesis
    using receive_all_lines[OF assms(1,2,3), of n ls r conf step]
      receive_all_lines[OF assms(1,4,5), of n ls r conf step] assms(6-8) l by auto
qed

text \<open>On a server link \<open>parse_client_queued\<close> parses every complete line of the queue in order and
  keeps the partial one, for any parser that leaves the connection alone, and it ends.\<close>

theorem server_parses_all:
  assumes "dbuf_ok (recvq c)" "\<not> IsDefunct c" "status c = STAT_SERVER"
    "length (qbytes (recvq c)) < n" "lines_of (qbytes (recvq c)) = (ls, r)"
  shows "\<exists>c'. parse_client_queued n conf (pure_parser step) c = Some c' \<and> qbytes (recvq c') = r \<and>
    world c' = fold step ls (world c)"
  using server_loop_all[OF assms(1,2,4,5)] assms(3) by (auto simp: parse_client_queued_def stat_defs)

definition sample_conn :: "nat \<Rightarrow> string \<Rightarrow> string list conn" where
  "sample_conn st s = \<lparr>status = st, dead = False, closing = False, killed = False, is_oper = False,
     can_flood = False, flood_done = True, ping_sent = False, allow_read = MAX_FLOOD, sent_parsed = 0,
     recvq = sample_queue s, recv_messages = 0, recv_bytes = 0, me_messages = 0, me_bytes = 0,
     lasttime = 0, since = 0, flush_timer = False, world = []\<rparr>"

lemma sample_lines:
  "lines_of (''a'' @ [CHR 0x0A] @ ''b c'' @ [CHR 0x0A] @ ''d'') = ([''a'', ''b c''], ''d'')"
proof -
  have "next_line ''d'' = (None, ''d'')" by (simp add: next_line_def is_empty_char_def IsEol_eq)
  then have d: "lines_of ''d'' = ([], ''d'')" by (subst lines_of.simps) simp
  have "next_line (''b c'' @ [CHR 0x0A] @ ''d'') = (Some ''b c'', ''d'')"
    by (simp add: next_line_def is_empty_char_def IsEol_eq)
  then have b: "lines_of (''b c'' @ [CHR 0x0A] @ ''d'') = ([''b c''], ''d'')"
    using d by (subst lines_of.simps) simp
  have "next_line (''a'' @ [CHR 0x0A] @ ''b c'' @ [CHR 0x0A] @ ''d'') = (Some ''a'', ''b c'' @ [CHR 0x0A] @ ''d'')"
    by (simp add: next_line_def is_empty_char_def IsEol_eq)
  then show ?thesis using b by (subst lines_of.simps) simp
qed

lemma server_parses_all_witness:
  "\<exists>c'. parse_client_queued 20 \<lparr>no_oper_flood = False, true_no_oper_flood = False, client_flood = 100\<rparr>
      (pure_parser (\<lambda>l ls. ls @ [l]))
      (sample_conn STAT_SERVER (''a'' @ [CHR 0x0A] @ ''b c'' @ [CHR 0x0A] @ ''d'')) = Some c' \<and>
    qbytes (recvq c') = ''d'' \<and> world c' = [''a'', ''b c'']"
proof -
  let ?s = "''a'' @ [CHR 0x0A] @ ''b c'' @ [CHR 0x0A] @ ''d''"
  have q: "dbuf_ok (sample_queue ?s)" "qbytes (sample_queue ?s) = ?s"
    by (rule sample_queue_ok; simp add: DBUF_BLOCK_SIZE_def)+
  have l: "lines_of (qbytes (sample_queue ?s)) = ([''a'', ''b c''], ''d'')"
    unfolding q(2) by (rule sample_lines)
  show ?thesis
    using server_parses_all[of "sample_conn STAT_SERVER ?s" 20 "[''a'', ''b c'']" "''d''"
        "\<lparr>no_oper_flood = False, true_no_oper_flood = False, client_flood = 100\<rparr>" "\<lambda>l ls. ls @ [l]"]
      q(1) l
    unfolding sample_conn_def by (simp add: q(2)[simplified])
qed

lemma lines_independent_of_packets_witness:
  "\<exists>c1 c2. receive_all 20 \<lparr>no_oper_flood = False, true_no_oper_flood = False, client_flood = 100\<rparr>
       (pure_parser (\<lambda>l ls. ls @ [l])) [(1, ''a''), (2, [CHR 0x0A] @ ''b''), (2, '' c'' @ [CHR 0x0A] @ ''d'')]
       (sample_conn STAT_SERVER []) = Some c1 \<and>
     receive_all 20 \<lparr>no_oper_flood = False, true_no_oper_flood = False, client_flood = 100\<rparr>
       (pure_parser (\<lambda>l ls. ls @ [l])) [(1, ''a'' @ [CHR 0x0A] @ ''b c'' @ [CHR 0x0A] @ ''d'')]
       (sample_conn STAT_SERVER []) = Some c2 \<and>
     world c1 = [''a'', ''b c''] \<and> world c2 = [''a'', ''b c''] \<and> qbytes (recvq c1) = ''d'' \<and>
     qbytes (recvq c2) = ''d''"
proof -
  let ?bs = "''a'' @ [CHR 0x0A] @ ''b c'' @ [CHR 0x0A] @ ''d''"
  let ?c = "sample_conn STAT_SERVER []"
  have q: "dbuf_ok (sample_queue [])" "qbytes (sample_queue []) = []"
    by (rule sample_queue_ok; simp)+
  then have "server_link ?c" "qbytes (recvq ?c) = []" "world ?c = []"
    by (simp_all add: server_link_def sample_conn_def)
  with lines_independent_of_packets[of ?c "[(1, ''a''), (2, [CHR 0x0A] @ ''b''), (2, '' c'' @ [CHR 0x0A] @ ''d'')]"
      "[(1, ?bs)]" ?bs 20 "\<lparr>no_oper_flood = False, true_no_oper_flood = False, client_flood = 100\<rparr>" "\<lambda>l ls. ls @ [l]"]
    sample_lines
  show ?thesis by auto
qed

text \<open>An unregistered connection gets at most \<open>MAX_FLOOD\<close> of its lines parsed in one call; the
  others stay queued.\<close>

theorem unknown_parses_max_flood:
  assumes "dbuf_ok (recvq c)" "\<not> IsDefunct c" "status c = STAT_UNKNOWN"
    "lines_of (qbytes (recvq c)) = (ls, r)"
  shows "\<exists>c'. parse_client_queued n conf (pure_parser step) c = Some c' \<and>
    lines_of (qbytes (recvq c')) = (drop 5 ls, r) \<and> world c' = fold step (take 5 ls) (world c)"
proof -
  obtain c' where "unknown_loop (pure_parser step) 5 c = Some (Inr c')"
    "lines_of (qbytes (recvq c')) = (drop 5 ls, r)" "status c' = STAT_UNKNOWN"
    "world c' = fold step (take 5 ls) (world c)"
    using unknown_loop_limit[OF assms(1,3,2,4), of step 5] by blast
  then show ?thesis using assms(3) by (simp add: parse_client_queued_def stat_defs MAX_FLOOD_def)
qed

lemma unknown_parses_max_flood_witness:
  "\<exists>c'. parse_client_queued 0 \<lparr>no_oper_flood = False, true_no_oper_flood = False, client_flood = 100\<rparr>
      (pure_parser (\<lambda>l ls. ls @ [l]))
      (sample_conn STAT_UNKNOWN (''a'' @ [CHR 0x0A] @ ''b c'' @ [CHR 0x0A] @ ''d'')) = Some c' \<and>
    world c' = [''a'', ''b c'']"
proof -
  let ?s = "''a'' @ [CHR 0x0A] @ ''b c'' @ [CHR 0x0A] @ ''d''"
  have q: "dbuf_ok (sample_queue ?s)" "qbytes (sample_queue ?s) = ?s"
    by (rule sample_queue_ok; simp add: DBUF_BLOCK_SIZE_def)+
  have l: "lines_of (qbytes (sample_queue ?s)) = ([''a'', ''b c''], ''d'')"
    unfolding q(2) by (rule sample_lines)
  show ?thesis
    using unknown_parses_max_flood[of "sample_conn STAT_UNKNOWN ?s" "[''a'', ''b c'']" "''d''" 0
        "\<lparr>no_oper_flood = False, true_no_oper_flood = False, client_flood = 100\<rparr>" "\<lambda>l ls. ls @ [l]"]
      q(1) l
    unfolding sample_conn_def by auto
qed

text \<open>C10. Flood control: over any sequence of received data and calls of \<open>flood_recalc\<close>, a client past
  its grace period and not exempt has at most its allowance of lines parsed, plus two for each
  call of \<open>flood_recalc\<close>, however the data arrives.\<close>

theorem flood_limit_over_time:
  assumes "limited_client conf c"
  shows "\<exists>c'. flood_run conf log_parser es c = Some c' \<and> limited_client conf c' \<and>
    int (length (world c')) \<le>
      int (length (world c)) + (allow_read c - sent_parsed c) + 2 * int (length (filter ((=) Tick) es))"
proof -
  obtain c' where "flood_run conf log_parser es c = Some c'" "limited_client conf c'" "allow_read c' = allow_read c"
    "int (length (world c')) - sent_parsed c' \<le>
      int (length (world c)) - sent_parsed c + 2 * int (length (filter ((=) Tick) es))"
    using flood_run_limited[OF assms, of es] by blast
  moreover from this(2) have "sent_parsed c' \<le> allow_read c'" by (simp add: limited_client_def)
  ultimately show ?thesis by auto
qed

lemma flood_limit_over_time_witness:
  "\<exists>c'. flood_run \<lparr>no_oper_flood = False, true_no_oper_flood = False, client_flood = 100\<rparr> log_parser
      [Receive ''x'', Tick, Receive ''y'', Tick] (sample_conn STAT_CLIENT ''z'') = Some c' \<and>
    int (length (world c')) \<le> 9"
proof -
  have "limited_client \<lparr>no_oper_flood = False, true_no_oper_flood = False, client_flood = 100\<rparr>
      (sample_conn STAT_CLIENT ''z'')"
    using sample_queue_ok(1)[of "''z''"]
    by (simp add: limited_client_def sample_conn_def check_flood_def DBUF_BLOCK_SIZE_def MAX_FLOOD_def)
  from flood_limit_over_time[OF this, of "[Receive ''x'', Tick, Receive ''y'', Tick]"] show ?thesis
    by (auto simp: sample_conn_def MAX_FLOOD_def)
qed

end
