(* ===== verification/Channel.thy ===== *)
theory Channel
  imports Hash
begin

text \<open>
  \<^verbatim>\<open>src/channel.c\<close>: channels, memberships and invitations, and the part of
  \<^verbatim>\<open>exit_one_client\<close> (\<^verbatim>\<open>src/client.c\<close>) that takes a client out of them.

  The state \<open>chan_world\<close> holds the heaps of channels, memberships and clients (\<open>None\<close>: not
  allocated), the global list of channels and the channel hash table of theory \<open>Hash\<close>. A
  \<open>dlink_list\<close> is the list of its data in order: adding puts in front, removing takes the
  first one out, and a removal of a node that is not in the list is undefined, which theory
  \<open>Tools\<close> justifies. The block heaps' allocations are the parameters \<open>p\<close> and \<open>ms\<close> of the
  operations. A result \<open>None\<close> is a NULL or dangling dereference.

  The invariant \<open>chan_inv\<close> ties the views of a membership together (the channel's members, its
  local members, the client's channels), makes invitations symmetric, and says that the
  hash table, the global list and the heap hold the same channels.
\<close>

subsection \<open>The state\<close>

definition CHANNELLEN :: nat where "CHANNELLEN = 50"
definition TOPICLEN :: nat where "TOPICLEN = 160"

definition CHFL_CHANOP :: u32 where "CHFL_CHANOP = 0x0001"
definition CHFL_HALFOP :: u32 where "CHFL_HALFOP = 0x0002"
definition CHFL_VOICE :: u32 where "CHFL_VOICE = 0x0004"
definition CHFL_DEOPPED :: u32 where "CHFL_DEOPPED = 0x0008"
definition CHFL_BAN_CHECKED :: u32 where "CHFL_BAN_CHECKED = 0x0080"
definition CHFL_BAN_SILENCED :: u32 where "CHFL_BAN_SILENCED = 0x0100"

definition MODE_PRIVATE :: u32 where "MODE_PRIVATE = 0x0001"
definition MODE_SECRET :: u32 where "MODE_SECRET = 0x0002"
definition MODE_MODERATED :: u32 where "MODE_MODERATED = 0x0004"
definition MODE_TOPICLIMIT :: u32 where "MODE_TOPICLIMIT = 0x0008"
definition MODE_INVITEONLY :: u32 where "MODE_INVITEONLY = 0x0010"
definition MODE_NOPRIVMSGS :: u32 where "MODE_NOPRIVMSGS = 0x0020"

record ban =
  ban_len :: nat
  ban_name :: string
  ban_username :: string
  ban_host :: string
  ban_who :: string
  ban_when :: time_t

record channel =
  mode :: u32
  limit :: u32
  key :: string
  topic :: "string option"
  topic_info :: string
  topic_time :: time_t
  ch_members :: "ptr list"
  locmembers :: "ptr list"
  invites :: "ptr list"
  banlist :: "ban list"
  exceptlist :: "ban list"
  invexlist :: "ban list"
  last_join_time :: time_t
  channelts :: time_t

record membership =
  ms_client :: ptr
  ms_chptr :: ptr
  ms_flags :: u32

record user =
  us_name :: string
  us_username :: string
  us_host :: string
  us_sockhost :: string
  us_id :: string
  us_status :: nat
  us_local :: bool
  us_oper :: bool
  us_exempt_resv :: bool
  us_channel :: "ptr list"
  us_invited :: "ptr list"

record chan_world =
  chans :: "ptr \<Rightarrow> channel option"
  mships :: "ptr \<Rightarrow> membership option"
  users :: "ptr \<Rightarrow> user option"
  global_channel_list :: "ptr list"
  lazylink_channels :: "ptr list"
  chan_hash :: hash_state

definition IsClient :: "user \<Rightarrow> bool" where "IsClient u \<longleftrightarrow> us_status u = STAT_CLIENT"
definition IsServer :: "user \<Rightarrow> bool" where "IsServer u \<longleftrightarrow> us_status u = STAT_SERVER"
definition MyClient :: "user \<Rightarrow> bool" where "MyClient u \<longleftrightarrow> us_local u \<and> IsClient u"

text \<open>\<open>dlinkDelete\<close> of the node that holds \<open>x\<close>.\<close>

definition dl_remove :: "'a \<Rightarrow> 'a list \<Rightarrow> 'a list option" where
  "dl_remove x xs = (if x \<in> set xs then Some (remove1 x xs) else None)"

definition upd_chan :: "ptr \<Rightarrow> (channel \<Rightarrow> channel) \<Rightarrow> chan_world \<Rightarrow> chan_world option" where
  "upd_chan p f w = map_option (\<lambda>ch. w\<lparr>chans := (chans w)(p \<mapsto> f ch)\<rparr>) (chans w p)"

definition upd_user :: "ptr \<Rightarrow> (user \<Rightarrow> user) \<Rightarrow> chan_world \<Rightarrow> chan_world option" where
  "upd_user p f w = map_option (\<lambda>u. w\<lparr>users := (users w)(p \<mapsto> f u)\<rparr>) (users w p)"

definition upd_mship :: "ptr \<Rightarrow> (membership \<Rightarrow> membership) \<Rightarrow> chan_world \<Rightarrow> chan_world option" where
  "upd_mship p f w = map_option (\<lambda>m. w\<lparr>mships := (mships w)(p \<mapsto> f m)\<rparr>) (mships w p)"

subsection \<open>Members\<close>

text \<open>\<open>add_user_to_channel\<close> without the join flood counter, which uses floating point.\<close>

definition add_user_to_channel :: "ptr \<Rightarrow> ptr \<Rightarrow> u32 \<Rightarrow> ptr \<Rightarrow> chan_world \<Rightarrow> chan_world option" where
  "add_user_to_channel chptr who flags ms w =
     Option.bind (users w who) (\<lambda>u.
       let w = w\<lparr>mships := (mships w)(ms \<mapsto> \<lparr>ms_client = who, ms_chptr = chptr, ms_flags = flags\<rparr>)\<rparr>
       in Option.bind (upd_chan chptr (\<lambda>ch.
            let ch = ch\<lparr>ch_members := ms # ch_members ch\<rparr>
            in if us_local u then ch\<lparr>locmembers := ms # locmembers ch\<rparr> else ch) w)
          (upd_user who (\<lambda>u. u\<lparr>us_channel := ms # us_channel u\<rparr>)))"

definition del_invite :: "ptr \<Rightarrow> ptr \<Rightarrow> chan_world \<Rightarrow> chan_world option" where
  "del_invite chptr who w =
     Option.bind (upd_user who (\<lambda>u. u\<lparr>us_invited := remove1 chptr (us_invited u)\<rparr>) w)
       (upd_chan chptr (\<lambda>ch. ch\<lparr>invites := remove1 who (invites ch)\<rparr>))"

text \<open>\<open>DLINK_FOREACH_SAFE\<close> over a list whose current node the body removes.\<close>

fun foreach_safe :: "('a \<Rightarrow> 's \<Rightarrow> 's option) \<Rightarrow> 'a list \<Rightarrow> 's \<Rightarrow> 's option" where
  "foreach_safe f [] s = Some s"
| "foreach_safe f (x # xs) s = Option.bind (f x s) (foreach_safe f xs)"

definition destroy_channel :: "bool \<Rightarrow> ptr \<Rightarrow> chan_world \<Rightarrow> chan_world option" where
  "destroy_channel hub chptr w =
     Option.bind (chans w chptr) (\<lambda>ch.
     Option.bind (foreach_safe (del_invite chptr) (invites ch) w) (\<lambda>w.
     Option.bind (upd_chan chptr (\<lambda>ch. ch\<lparr>banlist := [], exceptlist := [], invexlist := [],
                                            topic := None\<rparr>) w) (\<lambda>w.
     Option.bind (dl_remove chptr (global_channel_list w)) (\<lambda>gl.
     Option.bind (hash_del_channel chptr (chan_hash w)) (\<lambda>h.
       let w = w\<lparr>global_channel_list := gl, chan_hash := h\<rparr>;
           w = (if hub then w\<lparr>lazylink_channels := remove1 chptr (lazylink_channels w)\<rparr> else w)
       in Some (w\<lparr>chans := (chans w)(chptr := None)\<rparr>))))))"

definition remove_user_from_channel :: "bool \<Rightarrow> ptr \<Rightarrow> chan_world \<Rightarrow> chan_world option" where
  "remove_user_from_channel hub ms w =
     Option.bind (mships w ms) (\<lambda>m.
     Option.bind (users w (ms_client m)) (\<lambda>u.
     Option.bind (chans w (ms_chptr m)) (\<lambda>ch.
     Option.bind (dl_remove ms (ch_members ch)) (\<lambda>mems.
     Option.bind (if us_local u then dl_remove ms (locmembers ch) else Some (locmembers ch)) (\<lambda>loc.
     Option.bind (dl_remove ms (us_channel u)) (\<lambda>uch.
       let w = w\<lparr>chans := (chans w)(ms_chptr m \<mapsto> ch\<lparr>ch_members := mems, locmembers := loc\<rparr>),
                 users := (users w)(ms_client m \<mapsto> u\<lparr>us_channel := uch\<rparr>),
                 mships := (mships w)(ms := None)\<rparr>
       in if mems = [] then destroy_channel hub (ms_chptr m) w else Some w))))))"

subsection \<open>Channels\<close>

definition check_channel_name :: "string \<Rightarrow> bool" where
  "check_channel_name name \<longleftrightarrow> (\<forall>c \<in> set name. IsChanChar c)"

text \<open>\<open>get_or_create_channel\<close> with the new block \<open>p\<close>: the channel, and whether it is new.\<close>

definition get_or_create_channel ::
  "string option \<Rightarrow> time_t \<Rightarrow> ptr \<Rightarrow> chan_world \<Rightarrow> ((ptr \<times> bool) option \<times> chan_world) option" where
  "get_or_create_channel name now p w =
     (case name of
        None \<Rightarrow> Some (None, w)
      | Some n \<Rightarrow>
          if n = [] then Some (None, w)
          else if length n > CHANNELLEN then Some (None, w)
          else case hash_find_channel n (chan_hash w) of
            None \<Rightarrow> None
          | Some (Some c, h) \<Rightarrow> Some (Some (c, False), w\<lparr>chan_hash := h\<rparr>)
          | Some (None, h) \<Rightarrow>
              let ch = \<lparr>mode = 0, limit = 0, key = [], topic = None, topic_info = [], topic_time = 0,
                        ch_members = [], locmembers = [], invites = [], banlist = [], exceptlist = [],
                        invexlist = [], last_join_time = now, channelts = now\<rparr>;
                  h = h\<lparr>chname := (chname h)(p := c_strlcpy n (CHANNELLEN + 1))\<rparr>
              in Some (Some (p, True),
                   w\<lparr>chans := (chans w)(p \<mapsto> ch), global_channel_list := p # global_channel_list w,
                     chan_hash := hash_add_channel p h\<rparr>))"

definition add_invite :: "nat \<Rightarrow> ptr \<Rightarrow> ptr \<Rightarrow> chan_world \<Rightarrow> chan_world option" where
  "add_invite max_chans_per_user chptr who w =
     Option.bind (del_invite chptr who w) (\<lambda>w.
     Option.bind (users w who) (\<lambda>u.
     Option.bind (if length (us_invited u) \<ge> max_chans_per_user
                  then (if us_invited u = [] then None else del_invite (last (us_invited u)) who w)
                  else Some w) (\<lambda>w.
     Option.bind (upd_chan chptr (\<lambda>ch. ch\<lparr>invites := who # invites ch\<rparr>) w)
       (upd_user who (\<lambda>u. u\<lparr>us_invited := chptr # us_invited u\<rparr>)))))"

definition set_channel_topic ::
  "ptr \<Rightarrow> string option \<Rightarrow> string \<Rightarrow> nat \<Rightarrow> time_t \<Rightarrow> chan_world \<Rightarrow> chan_world option" where
  "set_channel_topic chptr tp info infolen topicts =
     upd_chan chptr (\<lambda>ch.
       case tp of
         None \<Rightarrow> ch\<lparr>topic := None, topic_time := 0\<rparr>
       | Some t \<Rightarrow>
           if t = [] then ch\<lparr>topic := None, topic_time := 0\<rparr>
           else ch\<lparr>topic := Some (c_strlcpy t (TOPICLEN + 1)), topic_info := c_strlcpy info infolen,
                   topic_time := topicts\<rparr>)"

text \<open>\<open>find_channel_link\<close>, and \<open>IsMember\<close> on its result.\<close>

fun link_walk :: "(ptr \<Rightarrow> membership option) \<Rightarrow> ptr \<Rightarrow> ptr list \<Rightarrow> ptr option option" where
  "link_walk M c [] = Some None"
| "link_walk M c (m # ms) =
     Option.bind (M m) (\<lambda>x. if ms_chptr x = c then Some (Some m) else link_walk M c ms)"

definition find_channel_link :: "ptr \<Rightarrow> ptr \<Rightarrow> chan_world \<Rightarrow> ptr option option" where
  "find_channel_link who c w =
     Option.bind (users w who) (\<lambda>u.
       if \<not> IsClient u then Some None else link_walk (mships w) c (us_channel u))"

text \<open>The channels and invitations of a client that exits (\<open>exit_one_client\<close>).\<close>

definition exit_channels :: "bool \<Rightarrow> ptr \<Rightarrow> chan_world \<Rightarrow> chan_world option" where
  "exit_channels hub who w =
     Option.bind (users w who) (\<lambda>u.
     Option.bind (foreach_safe (remove_user_from_channel hub) (us_channel u) w) (\<lambda>w.
     Option.bind (users w who) (\<lambda>u.
       foreach_safe (\<lambda>c. del_invite c who) (us_invited u) w)))"

subsection \<open>The invariant\<close>

text \<open>The views: what a channel and a client hold, empty for one that does not exist.\<close>

definition mems :: "chan_world \<Rightarrow> ptr \<Rightarrow> ptr list" where
  "mems w c = (case chans w c of None \<Rightarrow> [] | Some ch \<Rightarrow> ch_members ch)"

definition locmems :: "chan_world \<Rightarrow> ptr \<Rightarrow> ptr list" where
  "locmems w c = (case chans w c of None \<Rightarrow> [] | Some ch \<Rightarrow> locmembers ch)"

definition invs :: "chan_world \<Rightarrow> ptr \<Rightarrow> ptr list" where
  "invs w c = (case chans w c of None \<Rightarrow> [] | Some ch \<Rightarrow> invites ch)"

definition uchans :: "chan_world \<Rightarrow> ptr \<Rightarrow> ptr list" where
  "uchans w u = (case users w u of None \<Rightarrow> [] | Some us \<Rightarrow> us_channel us)"

definition uinvs :: "chan_world \<Rightarrow> ptr \<Rightarrow> ptr list" where
  "uinvs w u = (case users w u of None \<Rightarrow> [] | Some us \<Rightarrow> us_invited us)"

definition is_local :: "chan_world \<Rightarrow> ptr \<Rightarrow> bool" where
  "is_local w u = (case users w u of None \<Rightarrow> False | Some us \<Rightarrow> us_local us)"

lemmas view_defs = mems_def locmems_def invs_def uchans_def uinvs_def is_local_def

definition on_chan :: "chan_world \<Rightarrow> ptr \<Rightarrow> ptr set" where
  "on_chan w c = {m. \<exists>x. mships w m = Some x \<and> ms_chptr x = c}"

definition of_user :: "chan_world \<Rightarrow> ptr \<Rightarrow> ptr set" where
  "of_user w u = {m. \<exists>x. mships w m = Some x \<and> ms_client x = u}"

definition local_mship :: "chan_world \<Rightarrow> ptr \<Rightarrow> bool" where
  "local_mship w m = (case mships w m of None \<Rightarrow> False | Some x \<Rightarrow> is_local w (ms_client x))"

definition member_inv :: "chan_world \<Rightarrow> bool" where
  "member_inv w \<longleftrightarrow>
     (\<forall>c. distinct (mems w c) \<and> set (mems w c) = on_chan w c \<and>
          locmems w c = filter (local_mship w) (mems w c)) \<and>
     (\<forall>u. distinct (uchans w u) \<and> set (uchans w u) = of_user w u) \<and>
     (\<forall>c u m n. m \<in> on_chan w c \<and> n \<in> on_chan w c \<and> m \<in> of_user w u \<and> n \<in> of_user w u \<longrightarrow> m = n)"

definition invite_inv :: "chan_world \<Rightarrow> bool" where
  "invite_inv w \<longleftrightarrow>
     (\<forall>c. distinct (invs w c)) \<and> (\<forall>u. distinct (uinvs w u)) \<and>
     (\<forall>c u. u \<in> set (invs w c) \<longleftrightarrow> c \<in> set (uinvs w u))"

definition table_inv :: "chan_world \<Rightarrow> bool" where
  "table_inv w \<longleftrightarrow>
     distinct (global_channel_list w) \<and> set (global_channel_list w) = dom (chans w) \<and>
     channels (chname (chan_hash w)) (chan_hash w) (dom (chans w)) \<and>
     (\<forall>p \<in> dom (chans w). \<forall>q \<in> dom (chans w).
        same_name (chname (chan_hash w) p) (chname (chan_hash w) q) \<longrightarrow> p = q)"

definition chan_inv :: "chan_world \<Rightarrow> bool" where
  "chan_inv w \<longleftrightarrow> member_inv w \<and> invite_inv w \<and> table_inv w"

text \<open>No channel without members.\<close>

definition occupied :: "chan_world \<Rightarrow> bool" where
  "occupied w \<longleftrightarrow> (\<forall>c \<in> dom (chans w). mems w c \<noteq> [])"

text \<open>What an operation leaves alone.\<close>

definition same_mems :: "chan_world \<Rightarrow> chan_world \<Rightarrow> bool" where
  "same_mems w w' \<longleftrightarrow> mems w' = mems w \<and> locmems w' = locmems w \<and> uchans w' = uchans w \<and>
     mships w' = mships w \<and> is_local w' = is_local w \<and> dom (users w') = dom (users w)"

definition same_invs :: "chan_world \<Rightarrow> chan_world \<Rightarrow> bool" where
  "same_invs w w' \<longleftrightarrow> invs w' = invs w \<and> uinvs w' = uinvs w"

definition same_tables :: "chan_world \<Rightarrow> chan_world \<Rightarrow> bool" where
  "same_tables w w' \<longleftrightarrow> dom (chans w') = dom (chans w) \<and> global_channel_list w' = global_channel_list w \<and>
     chan_hash w' = chan_hash w"

lemmas same_defs = same_mems_def same_invs_def same_tables_def

lemma same_mems_local: "same_mems w w' \<Longrightarrow> local_mship w' = local_mship w"
  unfolding same_mems_def local_mship_def by presburger

lemma member_inv_same: "same_mems w w' \<Longrightarrow> member_inv w' = member_inv w"
proof -
  assume s: "same_mems w w'"
  have "on_chan w' = on_chan w" "of_user w' = of_user w"
    using s unfolding same_mems_def on_chan_def of_user_def by presburger+
  then show ?thesis
    using s same_mems_local[OF s] unfolding member_inv_def same_mems_def by presburger
qed

lemma invite_inv_same: "same_invs w w' \<Longrightarrow> invite_inv w' = invite_inv w"
  by (simp add: invite_inv_def same_invs_def)

lemma table_inv_same: "same_tables w w' \<Longrightarrow> table_inv w' = table_inv w"
  by (simp add: table_inv_def same_tables_def)

lemma occupied_same: "same_mems w w' \<Longrightarrow> same_tables w w' \<Longrightarrow> occupied w' = occupied w"
  by (simp add: occupied_def same_mems_def same_tables_def)

lemma same_trans:
  "same_mems a b \<Longrightarrow> same_mems b c \<Longrightarrow> same_mems a c"
  "same_tables a b \<Longrightarrow> same_tables b c \<Longrightarrow> same_tables a c"
  by (simp_all add: same_defs)

lemma same_alive:
  "same_tables w w' \<Longrightarrow> chans w' c = None \<longleftrightarrow> chans w c = None"
  "same_mems w w' \<Longrightarrow> users w' u = None \<longleftrightarrow> users w u = None"
proof -
  show "same_tables w w' \<Longrightarrow> chans w' c = None \<longleftrightarrow> chans w c = None"
    using domIff[of c "chans w"] domIff[of c "chans w'"] unfolding same_tables_def by metis
  show "same_mems w w' \<Longrightarrow> users w' u = None \<longleftrightarrow> users w u = None"
    using domIff[of u "users w"] domIff[of u "users w'"] unfolding same_mems_def by metis
qed

lemma in_mems_alive: "m \<in> set (mems w c) \<Longrightarrow> chans w c \<noteq> None"
  by (cases "chans w c") (simp_all add: mems_def)

lemma in_invs_alive: "u \<in> set (invs w c) \<Longrightarrow> chans w c \<noteq> None"
  by (cases "chans w c") (simp_all add: invs_def)

lemma in_uinvs_alive: "c \<in> set (uinvs w u) \<Longrightarrow> users w u \<noteq> None"
  by (cases "users w u") (simp_all add: uinvs_def)

lemma in_uchans_alive: "m \<in> set (uchans w u) \<Longrightarrow> users w u \<noteq> None"
  by (cases "users w u") (simp_all add: uchans_def)

lemma mship_alive:
  assumes "member_inv w" "mships w ms = Some m"
  shows "ms \<in> set (mems w (ms_chptr m))" "ms \<in> set (uchans w (ms_client m))"
    "chans w (ms_chptr m) \<noteq> None" "users w (ms_client m) \<noteq> None"
proof -
  have "ms \<in> on_chan w (ms_chptr m)" "ms \<in> of_user w (ms_client m)"
    using assms(2) by (auto simp: on_chan_def of_user_def)
  then show m: "ms \<in> set (mems w (ms_chptr m))" and u: "ms \<in> set (uchans w (ms_client m))"
    using assms(1) by (auto simp: member_inv_def)
  show "chans w (ms_chptr m) \<noteq> None" using in_mems_alive[OF m] .
  show "users w (ms_client m) \<noteq> None" using in_uchans_alive[OF u] .
qed

subsection \<open>Invitations\<close>

lemma del_invite_effect:
  assumes "chans w c \<noteq> None" "users w u \<noteq> None"
  shows "\<exists>w'. del_invite c u w = Some w' \<and> same_mems w w' \<and> same_tables w w' \<and>
    invs w' = (invs w)(c := remove1 u (invs w c)) \<and> uinvs w' = (uinvs w)(u := remove1 c (uinvs w u))"
  using assms by (auto simp: del_invite_def upd_chan_def upd_user_def same_defs view_defs fun_eq_iff)

lemma invite_inv_delete:
  assumes "invite_inv w" "invs w' = (invs w)(c := remove1 u (invs w c))"
    "uinvs w' = (uinvs w)(u := remove1 c (uinvs w u))"
  shows "invite_inv w'"
  using assms by (auto simp: invite_inv_def set_remove1_eq)

lemma del_invite_inv:
  assumes "chan_inv w" "chans w c \<noteq> None" "users w u \<noteq> None"
  shows "\<exists>w'. del_invite c u w = Some w' \<and> chan_inv w' \<and> same_mems w w' \<and> same_tables w w' \<and>
    invs w' = (invs w)(c := remove1 u (invs w c)) \<and> uinvs w' = (uinvs w)(u := remove1 c (uinvs w u))"
  using del_invite_effect[OF assms(2,3)] assms(1) member_inv_same table_inv_same invite_inv_delete
  unfolding chan_inv_def by blast

text \<open>A whole list of invitations of one channel, or of one client, is taken back.\<close>

lemma del_invites_of_channel:
  assumes "invite_inv w" "chans w c \<noteq> None" "distinct us" "set us \<subseteq> set (invs w c)"
  shows "\<exists>w'. foreach_safe (del_invite c) us w = Some w' \<and> invite_inv w' \<and> same_mems w w' \<and> same_tables w w' \<and>
    set (invs w' c) = set (invs w c) - set us"
  using assms
proof (induction us arbitrary: w)
  case (Cons u us)
  have "users w u \<noteq> None" using Cons.prems(1,4) in_uinvs_alive[of c w u] by (auto simp: invite_inv_def)
  then obtain w1 where w1: "del_invite c u w = Some w1" "same_mems w w1" "same_tables w w1"
    "invs w1 = (invs w)(c := remove1 u (invs w c))" "uinvs w1 = (uinvs w)(u := remove1 c (uinvs w u))"
    using del_invite_effect[OF Cons.prems(2)] by blast
  have i1: "invite_inv w1" by (rule invite_inv_delete[OF Cons.prems(1) w1(4,5)])
  have s1: "set (invs w1 c) = set (invs w c) - {u}"
    using Cons.prems(1) by (simp add: w1(4) invite_inv_def set_remove1_eq)
  have a1: "chans w1 c \<noteq> None" using same_alive(1)[OF w1(3), of c] Cons.prems(2) by simp
  have sub: "set us \<subseteq> set (invs w1 c)" using Cons.prems(3,4) s1 by auto
  obtain w' where w': "foreach_safe (del_invite c) us w1 = Some w'" "invite_inv w'" "same_mems w1 w'"
    "same_tables w1 w'" "set (invs w' c) = set (invs w1 c) - set us"
    using Cons.IH[OF i1 a1 _ sub] Cons.prems(3) by auto
  have "foreach_safe (del_invite c) (u # us) w = Some w'" using w1(1) w'(1) by simp
  moreover have "set (invs w' c) = set (invs w c) - set (u # us)" using w'(5) s1 by auto
  ultimately show ?case using w'(2) same_trans w1(2,3) w'(3,4) by blast
qed (simp add: same_defs)

lemma del_invites_of_user:
  assumes "invite_inv w" "users w u \<noteq> None" "distinct cs" "set cs \<subseteq> set (uinvs w u)"
  shows "\<exists>w'. foreach_safe (\<lambda>c. del_invite c u) cs w = Some w' \<and> invite_inv w' \<and> same_mems w w' \<and>
    same_tables w w' \<and> set (uinvs w' u) = set (uinvs w u) - set cs"
  using assms
proof (induction cs arbitrary: w)
  case (Cons c cs)
  have "chans w c \<noteq> None" using Cons.prems(1,4) in_invs_alive[of u w c] by (auto simp: invite_inv_def)
  then obtain w1 where w1: "del_invite c u w = Some w1" "same_mems w w1" "same_tables w w1"
    "invs w1 = (invs w)(c := remove1 u (invs w c))" "uinvs w1 = (uinvs w)(u := remove1 c (uinvs w u))"
    using del_invite_effect[OF _ Cons.prems(2)] by blast
  have i1: "invite_inv w1" by (rule invite_inv_delete[OF Cons.prems(1) w1(4,5)])
  have s1: "set (uinvs w1 u) = set (uinvs w u) - {c}"
    using Cons.prems(1) by (simp add: w1(5) invite_inv_def set_remove1_eq)
  have a1: "users w1 u \<noteq> None" using same_alive(2)[OF w1(2), of u] Cons.prems(2) by simp
  have sub: "set cs \<subseteq> set (uinvs w1 u)" using Cons.prems(3,4) s1 by auto
  obtain w' where w': "foreach_safe (\<lambda>c. del_invite c u) cs w1 = Some w'" "invite_inv w'" "same_mems w1 w'"
    "same_tables w1 w'" "set (uinvs w' u) = set (uinvs w1 u) - set cs"
    using Cons.IH[OF i1 a1 _ sub] Cons.prems(3) by auto
  have "foreach_safe (\<lambda>c. del_invite c u) (c # cs) w = Some w'" using w1(1) w'(1) by simp
  moreover have "set (uinvs w' u) = set (uinvs w u) - set (c # cs)" using w'(5) s1 by auto
  ultimately show ?case using w'(2) same_trans w1(2,3) w'(3,4) by blast
qed (simp add: same_defs)

subsection \<open>Joining and leaving\<close>

lemma chans_views:
  "chans w' = chans w \<Longrightarrow> mems w' = mems w"
  "chans w' = chans w \<Longrightarrow> locmems w' = locmems w"
  "chans w' = chans w \<Longrightarrow> invs w' = invs w"
  "chans w' = (chans w)(c := None) \<Longrightarrow> mems w' = (mems w)(c := [])"
  "chans w' = (chans w)(c := None) \<Longrightarrow> locmems w' = (locmems w)(c := [])"
  "chans w' = (chans w)(c := None) \<Longrightarrow> invs w' = (invs w)(c := [])"
  "chans w' = (chans w)(c \<mapsto> ch) \<Longrightarrow> mems w' = (mems w)(c := ch_members ch)"
  "chans w' = (chans w)(c \<mapsto> ch) \<Longrightarrow> locmems w' = (locmems w)(c := locmembers ch)"
  "chans w' = (chans w)(c \<mapsto> ch) \<Longrightarrow> invs w' = (invs w)(c := invites ch)"
  by (simp_all add: view_defs fun_eq_iff)

lemma users_views:
  "users w' = users w \<Longrightarrow> uchans w' = uchans w"
  "users w' = users w \<Longrightarrow> uinvs w' = uinvs w"
  "users w' = users w \<Longrightarrow> is_local w' = is_local w"
  "users w' = (users w)(u \<mapsto> us) \<Longrightarrow> uchans w' = (uchans w)(u := us_channel us)"
  "users w' = (users w)(u \<mapsto> us) \<Longrightarrow> uinvs w' = (uinvs w)(u := us_invited us)"
  "users w' = (users w)(u \<mapsto> us) \<Longrightarrow> is_local w' = (is_local w)(u := us_local us)"
  by (simp_all add: view_defs fun_eq_iff)


lemma on_chan_join:
  assumes "mships w ms = None" "mships w' = (mships w)(ms \<mapsto> x)"
  shows "on_chan w' = (on_chan w)(ms_chptr x := insert ms (on_chan w (ms_chptr x)))"
    "of_user w' = (of_user w)(ms_client x := insert ms (of_user w (ms_client x)))"
  using assms by (auto simp: on_chan_def of_user_def fun_eq_iff)

lemma on_chan_leave:
  assumes "mships w ms = Some x" "mships w' = (mships w)(ms := None)"
  shows "on_chan w' = (on_chan w)(ms_chptr x := on_chan w (ms_chptr x) - {ms})"
    "of_user w' = (of_user w)(ms_client x := of_user w (ms_client x) - {ms})"
  using assms by (auto simp: on_chan_def of_user_def fun_eq_iff)

lemma add_user_effect:
  assumes "chans w c \<noteq> None" "users w u \<noteq> None"
  shows "\<exists>w'. add_user_to_channel c u fl ms w = Some w' \<and> same_invs w w' \<and> same_tables w w' \<and>
    mships w' = (mships w)(ms \<mapsto> \<lparr>ms_client = u, ms_chptr = c, ms_flags = fl\<rparr>) \<and>
    mems w' = (mems w)(c := ms # mems w c) \<and> uchans w' = (uchans w)(u := ms # uchans w u) \<and>
    locmems w' = (locmems w)(c := if is_local w u then ms # locmems w c else locmems w c) \<and>
    is_local w' = is_local w \<and> dom (users w') = dom (users w)"
  using assms
  by (auto simp: add_user_to_channel_def upd_chan_def upd_user_def same_defs view_defs fun_eq_iff Let_def)

lemma member_inv_join:
  assumes inv: "member_inv w" and new: "mships w ms = None" "on_chan w c \<inter> of_user w u = {}"
    and eff: "mships w' = (mships w)(ms \<mapsto> \<lparr>ms_client = u, ms_chptr = c, ms_flags = fl\<rparr>)"
      "mems w' = (mems w)(c := ms # mems w c)" "uchans w' = (uchans w)(u := ms # uchans w u)"
      "locmems w' = (locmems w)(c := if is_local w u then ms # locmems w c else locmems w c)"
      "is_local w' = is_local w"
  shows "member_inv w'"
proof -
  have fresh: "ms \<notin> on_chan w k" "ms \<notin> of_user w k" for k
    using new(1) by (auto simp: on_chan_def of_user_def)
  have on: "on_chan w' = (on_chan w)(c := insert ms (on_chan w c))"
    "of_user w' = (of_user w)(u := insert ms (of_user w u))"
    using on_chan_join[OF new(1) eff(1)] by simp_all
  have loc: "local_mship w' m = (if m = ms then is_local w u else local_mship w m)" for m
    by (cases "mships w m") (simp_all add: local_mship_def eff)
  have loc_eq: "filter (local_mship w') (mems w k) = filter (local_mship w) (mems w k)" for k
    using inv fresh(1)[of k] by (intro filter_cong) (auto simp: member_inv_def loc)
  have m: "distinct (mems w k)" "set (mems w k) = on_chan w k" "locmems w k = filter (local_mship w) (mems w k)"
    "distinct (uchans w k)" "set (uchans w k) = of_user w k" for k
    using inv by (auto simp: member_inv_def)
  have "distinct (mems w' k) \<and> set (mems w' k) = on_chan w' k \<and> locmems w' k = filter (local_mship w') (mems w' k)" for k
    using m[of k] fresh by (auto simp: eff on loc loc_eq)
  moreover have "distinct (uchans w' k) \<and> set (uchans w' k) = of_user w' k" for k
    using m[of k] fresh by (auto simp: eff on)
  moreover have "\<forall>k v m n. m \<in> on_chan w' k \<and> n \<in> on_chan w' k \<and> m \<in> of_user w' v \<and> n \<in> of_user w' v \<longrightarrow> m = n"
    using inv new(2) fresh by (auto simp: on member_inv_def split: if_splits)
  ultimately show ?thesis unfolding member_inv_def by blast
qed

lemma member_inv_leave:
  assumes inv: "member_inv w" and x: "mships w ms = Some x"
    and eff: "mships w' = (mships w)(ms := None)"
      "mems w' = (mems w)(ms_chptr x := remove1 ms (mems w (ms_chptr x)))"
      "uchans w' = (uchans w)(ms_client x := remove1 ms (uchans w (ms_client x)))"
      "locmems w' = (locmems w)(ms_chptr x := remove1 ms (locmems w (ms_chptr x)))"
      "is_local w' = is_local w"
  shows "member_inv w'"
proof -
  have on: "on_chan w' = (on_chan w)(ms_chptr x := on_chan w (ms_chptr x) - {ms})"
    "of_user w' = (of_user w)(ms_client x := of_user w (ms_client x) - {ms})"
    by (rule on_chan_leave[OF x eff(1)])+
  have m: "distinct (mems w k)" "set (mems w k) = on_chan w k" "locmems w k = filter (local_mship w) (mems w k)"
    "distinct (uchans w k)" "set (uchans w k) = of_user w k" for k
    using inv by (auto simp: member_inv_def)
  have gone: "ms \<notin> set (mems w' k)" for k
    using m[of k] x by (auto simp: eff(2) on_chan_def set_remove1_eq)
  have loc: "local_mship w' m = local_mship w m" if "m \<noteq> ms" for m
    using that by (cases "mships w m") (simp_all add: local_mship_def eff)
  have "locmems w' k = filter (local_mship w) (mems w' k)" for k
    using m[of k] by (simp add: eff(2,4) filter_remove1 m(3))
  also have "filter (local_mship w) (mems w' k) = filter (local_mship w') (mems w' k)" for k
    by (rule filter_cong[OF refl]) (metis gone loc)
  finally have l: "locmems w' k = filter (local_mship w') (mems w' k)" for k .
  have sub: "on_chan w' k \<subseteq> on_chan w k" "of_user w' k \<subseteq> of_user w k" for k
    by (auto simp: on)
  have "distinct (mems w' k) \<and> set (mems w' k) = on_chan w' k \<and> locmems w' k = filter (local_mship w') (mems w' k)" for k
    using m[of k] l[of k] by (auto simp: eff(2) on set_remove1_eq)
  moreover have "distinct (uchans w' k) \<and> set (uchans w' k) = of_user w' k" for k
    using m[of k] by (auto simp: eff(3) on set_remove1_eq)
  moreover have "\<forall>k v m n. m \<in> on_chan w' k \<and> n \<in> on_chan w' k \<and> m \<in> of_user w' v \<and> n \<in> of_user w' v \<longrightarrow> m = n"
    using inv sub unfolding member_inv_def by blast
  ultimately show ?thesis unfolding member_inv_def by blast
qed

lemma add_user_inv:
  assumes inv: "chan_inv w" and alive: "chans w c \<noteq> None" "users w u \<noteq> None"
    and new: "mships w ms = None" "on_chan w c \<inter> of_user w u = {}"
  shows "\<exists>w'. add_user_to_channel c u fl ms w = Some w' \<and> chan_inv w' \<and> same_invs w w' \<and> same_tables w w' \<and>
    mems w' = (mems w)(c := ms # mems w c) \<and>
    mships w' = (mships w)(ms \<mapsto> \<lparr>ms_client = u, ms_chptr = c, ms_flags = fl\<rparr>) \<and>
    dom (users w') = dom (users w)"
proof -
  obtain w' where w': "add_user_to_channel c u fl ms w = Some w'" "same_invs w w'" "same_tables w w'"
    "mships w' = (mships w)(ms \<mapsto> \<lparr>ms_client = u, ms_chptr = c, ms_flags = fl\<rparr>)"
    "mems w' = (mems w)(c := ms # mems w c)" "uchans w' = (uchans w)(u := ms # uchans w u)"
    "locmems w' = (locmems w)(c := if is_local w u then ms # locmems w c else locmems w c)"
    "is_local w' = is_local w" "dom (users w') = dom (users w)"
    using add_user_effect[OF alive] by blast
  have "member_inv w'" using member_inv_join[OF _ new w'(4-8)] inv unfolding chan_inv_def by blast
  then have "chan_inv w'"
    using inv invite_inv_same[OF w'(2)] table_inv_same[OF w'(3)] unfolding chan_inv_def by blast
  with w' show ?thesis by blast
qed

subsection \<open>A channel ends\<close>

lemma invs_of_dead: "chans w c = None \<Longrightarrow> invs w c = []"
  by (simp add: invs_def)

lemma table_inv_destroy:
  assumes "table_inv w" "chans w c \<noteq> None"
  shows "\<exists>gl h. dl_remove c (global_channel_list w) = Some gl \<and> hash_del_channel c (chan_hash w) = Some h \<and>
    chname h = chname (chan_hash w) \<and> (\<forall>w'. dom (chans w') = dom (chans w) - {c} \<longrightarrow> global_channel_list w' = gl \<longrightarrow> chan_hash w' = h \<longrightarrow> table_inv w')"
proof -
  have c: "c \<in> dom (chans w)" using assms(2) by auto
  have ch: "channels (chname (chan_hash w)) (chan_hash w) (dom (chans w))"
    and gl: "distinct (global_channel_list w)" "set (global_channel_list w) = dom (chans w)"
    using assms(1) by (auto simp: table_inv_def)
  obtain h where h: "hash_del_channel c (chan_hash w) = Some h"
    "channels (chname (chan_hash w)) h (dom (chans w) - {c})"
    using channel_reg.repr_del[OF ch c] by blast
  have uq: "\<forall>p \<in> dom (chans w). \<forall>q \<in> dom (chans w).
      same_name (chname (chan_hash w) p) (chname (chan_hash w) q) \<longrightarrow> p = q"
    using assms(1) unfolding table_inv_def by blast
  have "chname h = chname (chan_hash w)" using h(2) by (simp add: channels_def)
  moreover have "\<forall>p \<in> dom (chans w) - {c}. \<forall>q \<in> dom (chans w) - {c}.
      same_name (chname (chan_hash w) p) (chname (chan_hash w) q) \<longrightarrow> p = q"
    using uq by blast
  ultimately show ?thesis using h gl c
    by (intro exI[of _ "remove1 c (global_channel_list w)"] exI[of _ h])
      (simp add: dl_remove_def table_inv_def set_remove1_eq)
qed

lemma member_inv_drop:
  assumes "member_inv w" "mems w c = []" "chans w' = (chans w2)(c := None)" "users w' = users w2"
    "mships w' = mships w2" "same_mems w w2"
  shows "member_inv w'" "mems w' = mems w"
proof -
  have "locmems w c = []" using assms(1,2) by (simp add: member_inv_def)
  then have "same_mems w w'"
    using assms(2,5,6) chans_views(4,5)[OF assms(3)] users_views(1,3)[OF assms(4)]
    by (simp add: same_mems_def assms(4) fun_upd_idem)
  then show "member_inv w'" "mems w' = mems w"
    using member_inv_same[of w w'] assms(1) by (auto simp: same_mems_def)
qed

lemma destroy_channel_inv:
  assumes inv: "chan_inv w" and c: "chans w c \<noteq> None" and empty: "mems w c = []"
  shows "\<exists>w'. destroy_channel hub c w = Some w' \<and> chan_inv w' \<and> mems w' = mems w \<and>
    chans w' c = None \<and> dom (chans w') = dom (chans w) - {c} \<and> mships w' = mships w \<and>
    dom (users w') = dom (users w) \<and> chname (chan_hash w') = chname (chan_hash w)"
proof -
  obtain ch where ch: "chans w c = Some ch" using c by blast
  have inv3: "member_inv w" "invite_inv w" "table_inv w" using inv by (auto simp: chan_inv_def)
  have invs: "invs w c = invites ch" by (simp add: invs_def ch)
  have d: "distinct (invites ch)" using inv3(2) invs by (metis invite_inv_def)
  obtain w1 where w1: "foreach_safe (del_invite c) (invites ch) w = Some w1" "invite_inv w1" "same_mems w w1"
    "same_tables w w1" "set (invs w1 c) = {}"
    using del_invites_of_channel[OF inv3(2) c d] invs by auto
  obtain ch1 where ch1: "chans w1 c = Some ch1" using same_alive(1)[OF w1(4), of c] c by auto
  define w2 where "w2 = w1\<lparr>chans := (chans w1)(c \<mapsto> ch1\<lparr>banlist := [], exceptlist := [], invexlist := [], topic := None\<rparr>)\<rparr>"
  have u2: "upd_chan c (\<lambda>ch. ch\<lparr>banlist := [], exceptlist := [], invexlist := [], topic := None\<rparr>) w1 = Some w2"
    by (simp add: upd_chan_def ch1 w2_def)
  have s2: "same_mems w1 w2" "same_invs w1 w2" "same_tables w1 w2"
    using ch1 by (auto simp: w2_def same_defs view_defs fun_eq_iff)
  have t2: "table_inv w2" using table_inv_same[OF w1(4)] table_inv_same[OF s2(3)] inv3(3) by simp
  have a2: "chans w2 c \<noteq> None" by (simp add: w2_def)
  obtain gl h where gh: "dl_remove c (global_channel_list w2) = Some gl" "hash_del_channel c (chan_hash w2) = Some h"
    "chname h = chname (chan_hash w2)" "\<forall>w'. dom (chans w') = dom (chans w2) - {c} \<longrightarrow> global_channel_list w' = gl \<longrightarrow> chan_hash w' = h \<longrightarrow> table_inv w'"
    using table_inv_destroy[OF t2 a2] by blast
  define w' where "w' = w2\<lparr>global_channel_list := gl, chan_hash := h,
    lazylink_channels := if hub then remove1 c (lazylink_channels w2) else lazylink_channels w2,
    chans := (chans w2)(c := None)\<rparr>"
  have r: "destroy_channel hub c w = Some w'"
    by (simp add: destroy_channel_def ch w1(1) u2 gh w'_def)
  have nm: "chname (chan_hash w') = chname (chan_hash w)"
    using gh(3) w1(4) s2(3) by (simp add: w'_def same_tables_def)
  have "member_inv w'" and m: "mems w' = mems w"
    using member_inv_drop[OF inv3(1) empty, of w' w2] same_trans(1)[OF w1(3) s2(1)] by (simp_all add: w'_def)
  moreover have "table_inv w'" using gh(4) by (auto simp: w'_def)
  moreover have "same_invs w1 w'" 
    using s2(2) w1(5) chans_views(6)[of w' w2 c] users_views(2)[of w' w2]
    by (simp add: w'_def same_invs_def fun_upd_idem)
  then have "invite_inv w'" using w1(2) invite_inv_same by blast
  ultimately have "chan_inv w'" by (simp add: chan_inv_def)
  moreover have "dom (chans w') = dom (chans w) - {c}"
    using w1(4) s2(3) by (auto simp: w'_def same_tables_def)
  moreover have "mships w' = mships w" "dom (users w') = dom (users w)"
    using same_trans(1)[OF w1(3) s2(1)] by (auto simp: w'_def same_mems_def)
  ultimately show ?thesis using r m nm by (auto simp: w'_def)
qed

lemma remove_user_inv:
  assumes inv: "chan_inv w" and x: "mships w ms = Some x"
  shows "\<exists>w'. remove_user_from_channel hub ms w = Some w' \<and> chan_inv w' \<and>
    mems w' = (mems w)(ms_chptr x := remove1 ms (mems w (ms_chptr x))) \<and>
    mships w' = (mships w)(ms := None) \<and> dom (users w') = dom (users w) \<and>
    chname (chan_hash w') = chname (chan_hash w) \<and>
    dom (chans w') = (if mems w (ms_chptr x) = [ms] then dom (chans w) - {ms_chptr x} else dom (chans w))"
proof -
  let ?c = "ms_chptr x" and ?u = "ms_client x"
  have inv3: "member_inv w" "invite_inv w" "table_inv w" using inv by (auto simp: chan_inv_def)
  note al = mship_alive[OF inv3(1) x]
  obtain ch u where cu: "chans w ?c = Some ch" "users w ?u = Some u" using al(3,4) by blast
  have v: "mems w ?c = ch_members ch" "uchans w ?u = us_channel u" "locmems w ?c = locmembers ch" "is_local w ?u = us_local u"
    using cu by (simp_all add: view_defs)
  have lm: "local_mship w ms = us_local u" using x v(4) by (simp add: local_mship_def)
  have "locmembers ch = filter (local_mship w) (ch_members ch)" using inv3(1) v by (metis member_inv_def)
  then have inl: "ms \<in> set (locmembers ch) \<longleftrightarrow> us_local u" using al(1) v(1) lm by auto
  define w1 where "w1 = w\<lparr>chans := (chans w)(?c \<mapsto> ch\<lparr>ch_members := remove1 ms (ch_members ch),
      locmembers := remove1 ms (locmembers ch)\<rparr>),
    users := (users w)(?u \<mapsto> u\<lparr>us_channel := remove1 ms (us_channel u)\<rparr>), mships := (mships w)(ms := None)\<rparr>"
  have loc: "(if us_local u then dl_remove ms (locmembers ch) else Some (locmembers ch)) = Some (remove1 ms (locmembers ch))"
    using inl by (simp add: dl_remove_def remove1_idem)
  have step: "remove_user_from_channel hub ms w =
      (if remove1 ms (ch_members ch) = [] then destroy_channel hub ?c w1 else Some w1)"
    using al(1,2) v(1,2) by (simp add: remove_user_from_channel_def x cu loc dl_remove_def w1_def)
  have e1: "mships w1 = (mships w)(ms := None)" "mems w1 = (mems w)(?c := remove1 ms (mems w ?c))"
    "uchans w1 = (uchans w)(?u := remove1 ms (uchans w ?u))"
    "locmems w1 = (locmems w)(?c := remove1 ms (locmems w ?c))" "is_local w1 = is_local w"
    "dom (users w1) = dom (users w)"
    using chans_views(7,8)[of w1 w ?c] users_views(4,6)[of w1 w ?u] cu
    by (simp_all add: w1_def v fun_upd_idem) auto
  have "member_inv w1" by (rule member_inv_leave[OF inv3(1) x e1(1-5)])
  moreover have "same_invs w w1" "same_tables w w1"
    using chans_views(9)[of w1 w ?c] users_views(5)[of w1 w ?u] cu
    by (auto simp: w1_def same_invs_def same_tables_def fun_upd_idem invs_def uinvs_def)
  ultimately have inv1: "chan_inv w1" and d1: "dom (chans w1) = dom (chans w)"
    using inv3 invite_inv_same[of w w1] table_inv_same[of w w1]
    by (simp add: chan_inv_def, simp add: same_tables_def)
  have a1: "chans w1 ?c \<noteq> None" by (simp add: w1_def)
  have empty: "remove1 ms (ch_members ch) = [] \<longleftrightarrow> ch_members ch = [ms]"
    using al(1) v(1) by (cases "ch_members ch") auto
  show ?thesis
  proof (cases "ch_members ch = [ms]")
    case True
    then have "mems w1 ?c = []" by (simp add: e1 v)
    from destroy_channel_inv[OF inv1 a1 this] obtain w' where
      "destroy_channel hub ?c w1 = Some w'" "chan_inv w'" "mems w' = mems w1"
      "dom (chans w') = dom (chans w1) - {?c}" "mships w' = mships w1" "dom (users w') = dom (users w1)" "chname (chan_hash w') = chname (chan_hash w1)"
      by blast
    moreover have "chan_hash w1 = chan_hash w" by (simp add: w1_def)
    ultimately have "\<exists>w'. destroy_channel hub ?c w1 = Some w' \<and> chan_inv w' \<and> mems w' = mems w1 \<and>
      dom (chans w') = dom (chans w1) - {?c} \<and> mships w' = mships w1 \<and> dom (users w') = dom (users w1) \<and>
      chname (chan_hash w') = chname (chan_hash w)" by auto
    with True d1 e1 show ?thesis by (simp add: step v) (elim exE conjE, intro exI conjI; assumption)
  next
    case False
    moreover have "chan_hash w1 = chan_hash w" by (simp add: w1_def)
    ultimately show ?thesis using inv1 d1 e1 by (auto simp: step empty v)
  qed
qed

lemma remove_user_occupied:
  assumes "chan_inv w" "occupied w" "mships w ms = Some x" "remove_user_from_channel hub ms w = Some w'"
  shows "occupied w'"
proof -
  let ?c = "ms_chptr x"
  have e: "mems w' = (mems w)(?c := remove1 ms (mems w ?c))"
    "dom (chans w') = (if mems w ?c = [ms] then dom (chans w) - {?c} else dom (chans w))"
    using remove_user_inv[OF assms(1,3), of hub] unfolding assms(4) by blast+
  have "ms \<in> set (mems w ?c)" using mship_alive(1)[OF _ assms(3)] assms(1) by (simp add: chan_inv_def)
  then have "remove1 ms (mems w ?c) = [] \<longleftrightarrow> mems w ?c = [ms]" by (cases "mems w ?c") auto
  then show ?thesis using assms(2) e by (auto simp: occupied_def split: if_splits)
qed

subsection \<open>Searching and creating\<close>

lemma link_walk_none:
  "link_walk M c ms = Some None \<Longrightarrow> m \<in> set ms \<Longrightarrow> \<exists>x. M m = Some x \<and> ms_chptr x \<noteq> c"
  by (induction ms) (auto simp: bind_eq_Some_conv split: if_splits)

lemma link_walk_some:
  "link_walk M c ms = Some (Some m) \<Longrightarrow> m \<in> set ms \<and> (\<exists>x. M m = Some x \<and> ms_chptr x = c)"
  by (induction ms) (auto simp: bind_eq_Some_conv split: if_splits)

lemma link_walk_alive: "(\<And>m. m \<in> set ms \<Longrightarrow> M m \<noteq> None) \<Longrightarrow> link_walk M c ms \<noteq> None"
  by (induction ms) fastforce+

lemma find_channel_link_iff:
  assumes inv: "member_inv w" and u: "users w who = Some u" "IsClient u"
  shows "\<exists>r. find_channel_link who c w = Some r \<and>
    (case r of None \<Rightarrow> on_chan w c \<inter> of_user w who = {} | Some m \<Rightarrow> on_chan w c \<inter> of_user w who = {m})"
proof -
  have "uchans w who = us_channel u" using u by (simp add: uchans_def)
  then have set: "set (us_channel u) = of_user w who" using inv unfolding member_inv_def by metis
  have "\<And>m. m \<in> set (us_channel u) \<Longrightarrow> mships w m \<noteq> None" by (auto simp: set of_user_def)
  then obtain r where r: "link_walk (mships w) c (us_channel u) = Some r" using link_walk_alive by blast
  have f: "find_channel_link who c w = Some r" using u r by (simp add: find_channel_link_def)
  show ?thesis
  proof (cases r)
    case None
    then have "on_chan w c \<inter> of_user w who = {}"
      using link_walk_none[of "mships w" c "us_channel u"] r set by (fastforce simp: on_chan_def)
    with f None show ?thesis by simp
  next
    case (Some m)
    then have "m \<in> of_user w who" "m \<in> on_chan w c"
      using link_walk_some[of "mships w" c "us_channel u" m] r set by (auto simp: on_chan_def)
    moreover have "n = m" if "n \<in> on_chan w c" "n \<in> of_user w who" for n
      using inv that calculation unfolding member_inv_def by blast
    ultimately have "on_chan w c \<inter> of_user w who = {m}" by blast
    with f Some show ?thesis by simp
  qed
qed

text \<open>The names of blocks that are not in the table do not matter.\<close>

lemma table_of_names:
  assumes "table_of rk nm t M" "\<And>q. q \<in> M \<Longrightarrow> nm' q = nm q"
  shows "table_of rk nm' t M"
proof -
  obtain B where B: "table_repr rk nm t B" "M = members B" using assms(1) by (auto simp: table_of_def)
  have "nm' q = nm q" if "q \<in> set (B b)" for q b using assms(2) B(2) that by (auto simp: members_def)
  then have "table_repr rk nm' t B" using B(1) by (simp add: table_repr_def)
  with B(2) show ?thesis by (auto simp: table_of_def)
qed

lemma hash_find_channel_frame:
  "hash_find_channel n h = Some (r, h') \<Longrightarrow> \<exists>t. h' = h\<lparr>channelTable := t\<rparr>"
  by (auto simp: hash_find_channel_def)

lemma chan_inv_found:
  assumes "chan_inv w" "hash_find_channel n (chan_hash w) = Some (r, h)"
  shows "chan_inv (w\<lparr>chan_hash := h\<rparr>)"
    "case r of None \<Rightarrow> \<forall>p \<in> dom (chans w). \<not> same_name n (chname (chan_hash w) p)
      | Some p \<Rightarrow> p \<in> dom (chans w) \<and> same_name n (chname (chan_hash w) p)"
proof -
  let ?h = "chan_hash w" and ?w = "w\<lparr>chan_hash := h\<rparr>"
  have ch: "channels (chname ?h) ?h (dom (chans w))" using assms(1) by (simp add: chan_inv_def table_inv_def)
  note l = channel_reg.repr_look[OF ch, of n, unfolded assms(2)]
  have h: "channels (chname ?h) h (dom (chans w))"
    and r: "case r of None \<Rightarrow> \<forall>p \<in> dom (chans w). \<not> same_name n (chname ?h p)
      | Some p \<Rightarrow> p \<in> dom (chans w) \<and> same_name n (chname ?h p)"
    using l by auto
  have "chname h = chname ?h" using h by (simp add: channels_def)
  moreover have "same_mems w ?w" "same_invs w ?w" by (simp_all add: same_defs view_defs fun_eq_iff)
  ultimately show "chan_inv ?w"
    using assms(1) h member_inv_same[of w ?w] invite_inv_same[of w ?w]
    by (simp add: chan_inv_def table_inv_def)
  show "case r of None \<Rightarrow> \<forall>p \<in> dom (chans w). \<not> same_name n (chname ?h p)
      | Some p \<Rightarrow> p \<in> dom (chans w) \<and> same_name n (chname ?h p)" by (rule r)
qed

lemma get_or_create_inv:
  assumes inv: "chan_inv w" and fresh: "chans w p = None" and n: "n \<noteq> []" "length n \<le> CHANNELLEN"
  shows "\<exists>c new w'. get_or_create_channel (Some n) now p w = Some (Some (c, new), w') \<and> chan_inv w' \<and>
    dom (chans w') = insert c (dom (chans w)) \<and> same_name n (chname (chan_hash w') c) \<and>
    (new \<longleftrightarrow> c \<notin> dom (chans w)) \<and> (new \<longrightarrow> c = p) \<and> mems w' = mems w \<and> mships w' = mships w \<and> users w' = users w"
proof -
  let ?h = "chan_hash w"
  have ch: "channels (chname ?h) ?h (dom (chans w))" using inv by (simp add: chan_inv_def table_inv_def)
  obtain r h where rh: "hash_find_channel n ?h = Some (r, h)" using channel_reg.repr_look[OF ch] by blast
  note found = chan_inv_found[OF inv rh]
  obtain t where t: "h = ?h\<lparr>channelTable := t\<rparr>" using hash_find_channel_frame[OF rh] by blast
  show ?thesis
  proof (cases r)
    case (Some c)
    with found have "c \<in> dom (chans w)" "same_name n (chname ?h c)" by auto
    with Some found(1) rh n t show ?thesis
      using chans_views(1)[of "w\<lparr>chan_hash := h\<rparr>" w]
      by (simp add: get_or_create_channel_def insert_absorb)
  next
    case None
    have cpy: "c_strlcpy n (Suc CHANNELLEN) = n" using n(2) by (simp add: c_strlcpy_def)
    define h1 where "h1 = h\<lparr>chname := (chname h)(p := n)\<rparr>"
    define ch0 where "ch0 = \<lparr>mode = 0, limit = 0, key = [], topic = None, topic_info = [], topic_time = 0,
      ch_members = [], locmembers = [], invites = [], banlist = [], exceptlist = [],
      invexlist = [], last_join_time = now, channelts = now\<rparr>"
    define w' where "w' = w\<lparr>chans := (chans w)(p \<mapsto> ch0), global_channel_list := p # global_channel_list w,
      chan_hash := hash_add_channel p h1\<rparr>"
    have r: "get_or_create_channel (Some n) now p w = Some (Some (p, True), w')"
      using n by (simp add: get_or_create_channel_def None rh cpy w'_def h1_def ch0_def)
    have dead: "mems w p = []" "locmems w p = []" "invs w p = []" using fresh by (simp_all add: view_defs)
    have m: "mems w' = mems w" and s: "same_mems w w'" "same_invs w w'"
      using chans_views(7-9)[of w' w p ch0] users_views(1-3)[of w' w] dead
      by (simp_all add: w'_def ch0_def same_defs fun_upd_idem)
    have "chan_inv (w\<lparr>chan_hash := h\<rparr>)" by (rule found(1))
    then have hM: "channels (chname ?h) h (dom (chans w))"
      and uniq: "\<forall>a\<in>dom (chans w). \<forall>b\<in>dom (chans w). same_name (chname ?h a) (chname ?h b) \<longrightarrow> a = b"
      and gl: "distinct (global_channel_list w)" "set (global_channel_list w) = dom (chans w)"
      using t by (simp_all add: chan_inv_def table_inv_def)
    have p: "p \<notin> dom (chans w)" using fresh by auto
    then have nmeq: "((chname ?h)(p := n)) q = chname ?h q" if "q \<in> dom (chans w)" for q
      using that by auto
    have "channels ((chname ?h)(p := n)) h1 (dom (chans w))"
      using hM t nmeq table_of_names[of "ircd_random_key h" "chname ?h" "channelTable h" "dom (chans w)" "(chname ?h)(p := n)"]
      by (simp add: channels_def h1_def)
    from channel_reg.repr_add[OF this p]
    have reg: "channels ((chname ?h)(p := n)) (hash_add_channel p h1) (insert p (dom (chans w)))" .
    then have nm': "chname (hash_add_channel p h1) = (chname ?h)(p := n)" by (simp add: channels_def)
    have no: "\<forall>q\<in>dom (chans w). \<not> same_name n (chname ?h q)" using found(2) None by simp
    have "table_inv w'"
      unfolding table_inv_def using reg gl p uniq no nm'
      by (auto simp: w'_def same_name_sym)
    then have "chan_inv w'" using inv member_inv_same[OF s(1)] invite_inv_same[OF s(2)] by (simp add: chan_inv_def)
    then show ?thesis
      using r m p nm' by (intro exI[of _ p] exI[of _ True] exI[of _ w']) (simp add: w'_def same_name_def)
  qed
qed

lemma get_or_create_resvs:
  "get_or_create_channel name now p w = Some (r, w') \<Longrightarrow> resvs nm (chan_hash w) R \<Longrightarrow> resvs nm (chan_hash w') R"
  by (auto simp: get_or_create_channel_def resvs_def hash_find_channel_def hash_add_channel_def Let_def
      split: option.splits if_splits)

subsection \<open>Invitations and exits\<close>

lemma add_invite_inv:
  assumes inv: "chan_inv w" and alive: "chans w c \<noteq> None" "users w u \<noteq> None" and max: "0 < mx"
  shows "\<exists>w'. add_invite mx c u w = Some w' \<and> chan_inv w' \<and> same_mems w w' \<and> same_tables w w' \<and>
    (\<exists>is. uinvs w' u = c # is \<and> (length (uinvs w u) \<le> mx \<longrightarrow> length (c # is) \<le> mx))"
proof -
  obtain w1 where w1: "del_invite c u w = Some w1" "chan_inv w1" "same_mems w w1" "same_tables w w1"
    "invs w1 = (invs w)(c := remove1 u (invs w c))" "uinvs w1 = (uinvs w)(u := remove1 c (uinvs w u))"
    using del_invite_inv[OF inv alive] by blast
  have alive1: "chans w1 c \<noteq> None" "users w1 u \<noteq> None"
    using alive same_alive(1)[OF w1(4), of c] same_alive(2)[OF w1(3), of u] by simp_all
  obtain us1 where us1: "users w1 u = Some us1" using alive1(2) by blast
  have u1: "uinvs w1 u = us_invited us1" by (simp add: uinvs_def us1)
  have len1: "length (uinvs w1 u) \<le> length (uinvs w u)" by (simp add: w1(6) length_remove1)
  have free1: "u \<notin> set (invs w1 c)" "c \<notin> set (uinvs w1 u)"
    using inv w1(5,6) by (auto simp: chan_inv_def invite_inv_def set_remove1_eq)
  have "\<exists>w2. (if mx \<le> length (us_invited us1) then
        (if us_invited us1 = [] then None else del_invite (last (us_invited us1)) u w1) else Some w1) = Some w2 \<and>
      chan_inv w2 \<and> same_mems w1 w2 \<and> same_tables w1 w2 \<and> u \<notin> set (invs w2 c) \<and> c \<notin> set (uinvs w2 u) \<and>
      (length (uinvs w u) \<le> mx \<longrightarrow> length (uinvs w2 u) < mx)"
  proof (cases "mx \<le> length (us_invited us1)")
    case False
    then show ?thesis using w1(2) free1 u1 by (simp add: same_defs)
  next
    case True
    then have ne: "us_invited us1 \<noteq> []" using max by auto
    let ?l = "last (us_invited us1)"
    have l: "?l \<in> set (uinvs w1 u)" using ne u1 by simp
    then have "u \<in> set (invs w1 ?l)" using w1(2) by (simp add: chan_inv_def invite_inv_def)
    then have "chans w1 ?l \<noteq> None" by (rule in_invs_alive)
    then obtain w2 where w2: "del_invite ?l u w1 = Some w2" "chan_inv w2" "same_mems w1 w2" "same_tables w1 w2"
      "invs w2 = (invs w1)(?l := remove1 u (invs w1 ?l))" "uinvs w2 = (uinvs w1)(u := remove1 ?l (uinvs w1 u))"
      using del_invite_inv[OF w1(2) _ alive1(2)] by blast
    have "c \<notin> set (uinvs w2 u)" using free1(2) w2(6) by (auto dest: notin_set_remove1)
    moreover have "u \<notin> set (invs w2 c)" using calculation w2(2) by (simp add: chan_inv_def invite_inv_def)
    moreover have "length (uinvs w2 u) < length (uinvs w1 u)"
      using l by (simp add: w2(6) length_remove1) (use length_pos_if_in_set in force)
    moreover have "length (uinvs w1 u) \<le> length (uinvs w u)" by (rule len1)
    ultimately show ?thesis using True ne w2(1-4) by (intro exI[of _ w2]) simp
  qed
  then obtain w2 where w2: "(if mx \<le> length (us_invited us1) then
        (if us_invited us1 = [] then None else del_invite (last (us_invited us1)) u w1) else Some w1) = Some w2"
    "chan_inv w2" "same_mems w1 w2" "same_tables w1 w2" "u \<notin> set (invs w2 c)" "c \<notin> set (uinvs w2 u)"
    "length (uinvs w u) \<le> mx \<longrightarrow> length (uinvs w2 u) < mx" by (elim exE conjE)
  obtain ch2 us2 where cu: "chans w2 c = Some ch2" "users w2 u = Some us2"
    using alive1 same_alive(1)[OF w2(4), of c] same_alive(2)[OF w2(3), of u] by auto
  define w' where "w' = w2\<lparr>chans := (chans w2)(c \<mapsto> ch2\<lparr>invites := u # invites ch2\<rparr>),
    users := (users w2)(u \<mapsto> us2\<lparr>us_invited := c # us_invited us2\<rparr>)\<rparr>"
  have r: "add_invite mx c u w = Some w'"
    using w2(1) by (simp add: add_invite_def w1(1) us1 upd_chan_def upd_user_def cu w'_def)
  have v: "mems w2 c = ch_members ch2" "locmems w2 c = locmembers ch2" "invs w2 c = invites ch2"
    "uchans w2 u = us_channel us2" "uinvs w2 u = us_invited us2" "is_local w2 u = us_local us2"
    using cu by (simp_all add: view_defs)
  have cw: "chans w' = (chans w2)(c \<mapsto> ch2\<lparr>invites := u # invites ch2\<rparr>)"
    and uw: "users w' = (users w2)(u \<mapsto> us2\<lparr>us_invited := c # us_invited us2\<rparr>)"
    and fw: "mships w' = mships w2" "global_channel_list w' = global_channel_list w2" "chan_hash w' = chan_hash w2"
    by (simp_all add: w'_def)
  have mv: "mems w' = mems w2" "locmems w' = locmems w2" and iv: "invs w' = (invs w2)(c := u # invs w2 c)"
    using chans_views(7-9)[OF cw] v(1-3) by (simp_all add: fun_upd_idem)
  have uv: "uchans w' = uchans w2" "is_local w' = is_local w2" and wv: "uinvs w' = (uinvs w2)(u := c # uinvs w2 u)"
    using users_views(4-6)[OF uw] v(4-6) by (simp_all add: fun_upd_idem)
  have dv: "dom (chans w') = dom (chans w2)" "dom (users w') = dom (users w2)"
    unfolding cw uw using cu by (auto simp: dom_def)
  have s: "same_mems w2 w'" "same_tables w2 w'" "invs w' = (invs w2)(c := u # invs w2 c)"
    "uinvs w' = (uinvs w2)(u := c # uinvs w2 u)"
    unfolding same_mems_def same_tables_def using mv uv dv fw iv wv by blast+
  have "invite_inv w'"
    using w2(2,5,6) by (auto simp: chan_inv_def invite_inv_def s(3,4))
  then have "chan_inv w'"
    using w2(2) member_inv_same[OF s(1)] table_inv_same[OF s(2)] by (simp add: chan_inv_def)
  moreover have "same_mems w w'" "same_tables w w'"
    using same_trans w1(3,4) w2(3,4) s(1,2) by blast+
  ultimately show ?thesis using r w2(7) by (intro exI[of _ w']) (simp add: s(4) Suc_le_eq)
qed

lemma leave_all:
  assumes "chan_inv w" "distinct ms" "set ms \<subseteq> of_user w u"
  shows "\<exists>w'. foreach_safe (remove_user_from_channel hub) ms w = Some w' \<and> chan_inv w' \<and>
    of_user w' u = of_user w u - set ms \<and> dom (users w') = dom (users w) \<and>
    (occupied w \<longrightarrow> occupied w') \<and> dom (chans w') \<subseteq> dom (chans w)"
  using assms
proof (induction ms arbitrary: w)
  case (Cons m ms)
  then obtain x where x: "mships w m = Some x" "ms_client x = u" by (auto simp: of_user_def)
  obtain w1 where w1: "remove_user_from_channel hub m w = Some w1" "chan_inv w1"
    "mships w1 = (mships w)(m := None)" "dom (users w1) = dom (users w)" "dom (chans w1) \<subseteq> dom (chans w)"
    using remove_user_inv[OF Cons.prems(1) x(1), of hub] by (auto split: if_splits)
  have o1: "of_user w1 u = of_user w u - {m}" using w1(3) x by (auto simp: of_user_def)
  have occ: "occupied w \<longrightarrow> occupied w1" using remove_user_occupied[OF Cons.prems(1) _ x(1) w1(1)] by blast
  have "distinct ms" "set ms \<subseteq> of_user w1 u" using Cons.prems(2,3) o1 by auto
  from Cons.IH[OF w1(2) this] obtain w' where w': "foreach_safe (remove_user_from_channel hub) ms w1 = Some w'"
    "chan_inv w'" "of_user w' u = of_user w1 u - set ms" "dom (users w') = dom (users w1)"
    "occupied w1 \<longrightarrow> occupied w'" "dom (chans w') \<subseteq> dom (chans w1)" by (elim exE conjE)
  have "foreach_safe (remove_user_from_channel hub) (m # ms) w = Some w'" using w1(1) w'(1) by simp
  moreover have "of_user w' u = of_user w u - set (m # ms)" using w'(3) o1 by auto
  moreover have "dom (users w') = dom (users w)" "dom (chans w') \<subseteq> dom (chans w)"
    using w'(4,6) w1(4,5) by simp_all
  ultimately show ?case using w'(2,5) occ by simp
qed simp

lemma exit_channels_inv:
  assumes inv: "chan_inv w" and u: "users w u \<noteq> None"
  shows "\<exists>w'. exit_channels hub u w = Some w' \<and> chan_inv w' \<and> uchans w' u = [] \<and> uinvs w' u = [] \<and>
    users w' u \<noteq> None \<and> (occupied w \<longrightarrow> occupied w')"
proof -
  obtain us where us: "users w u = Some us" using u by blast
  have uc: "us_channel us = uchans w u" by (simp add: uchans_def us)
  have "distinct (uchans w u)" "set (uchans w u) = of_user w u" using inv by (auto simp: chan_inv_def member_inv_def)
  then obtain w1 where w1: "foreach_safe (remove_user_from_channel hub) (us_channel us) w = Some w1"
    "chan_inv w1" "of_user w1 u = {}" "dom (users w1) = dom (users w)" "occupied w \<longrightarrow> occupied w1"
    using leave_all[OF inv, of "us_channel us" u hub] uc by auto
  have u1: "users w1 u \<noteq> None" using u w1(4) by auto
  then obtain us1 where us1: "users w1 u = Some us1" by blast
  have ui: "us_invited us1 = uinvs w1 u" by (simp add: uinvs_def us1)
  have i1: "invite_inv w1" and d1: "distinct (uinvs w1 u)"
    using w1(2) by (auto simp: chan_inv_def invite_inv_def)
  obtain w' where w': "foreach_safe (\<lambda>c. del_invite c u) (uinvs w1 u) w1 = Some w'" "invite_inv w'"
    "same_mems w1 w'" "same_tables w1 w'" "set (uinvs w' u) = {}"
    using del_invites_of_user[OF i1 u1 d1] by auto
  have r: "exit_channels hub u w = Some w'" by (simp add: exit_channels_def us w1(1) us1 ui w'(1))
  have "chan_inv w'"
    using w1(2) w'(2) member_inv_same[OF w'(3)] table_inv_same[OF w'(4)] by (simp add: chan_inv_def)
  moreover have "set (uchans w1 u) = of_user w1 u" using w1(2) by (simp add: chan_inv_def member_inv_def)
  then have "uchans w' u = []" using w1(3) w'(3) by (simp add: same_mems_def)
  moreover have "users w' u \<noteq> None" using u1 w'(3) by (auto simp: same_mems_def)
  ultimately show ?thesis using r w'(5) w1(5) occupied_same[OF w'(3,4)] by auto
qed

subsection \<open>Every reachable state\<close>

definition no_channels :: "hash_state \<Rightarrow> chan_world" where
  "no_channels h = \<lparr>chans = \<lambda>_. None, mships = \<lambda>_. None, users = \<lambda>_. None, global_channel_list = [],
     lazylink_channels = [], chan_hash = init_hash 0 h\<rparr>"

text \<open>One operation on the channels, with what its callers have checked: a client that connects
  is on no channel, a block that the heap hands out is not in use, \<open>IsMember\<close> is tested before a
  join, and an invitation is for an existing client to an existing channel.\<close>

inductive chan_step :: "bool \<Rightarrow> nat \<Rightarrow> chan_world \<Rightarrow> chan_world \<Rightarrow> bool" for hub mx where
  connect: "users w u = None \<Longrightarrow> us_channel us = [] \<Longrightarrow> us_invited us = [] \<Longrightarrow>
     chan_step hub mx w (w\<lparr>users := (users w)(u \<mapsto> us)\<rparr>)"
| create: "chans w p = None \<Longrightarrow> get_or_create_channel name now p w = Some (r, w') \<Longrightarrow> chan_step hub mx w w'"
| join: "users w who = Some u \<Longrightarrow> IsClient u \<Longrightarrow> chans w c \<noteq> None \<Longrightarrow> mships w ms = None \<Longrightarrow>
     find_channel_link who c w = Some None \<Longrightarrow> add_user_to_channel c who fl ms w = Some w' \<Longrightarrow>
     chan_step hub mx w w'"
| leave: "mships w ms \<noteq> None \<Longrightarrow> remove_user_from_channel hub ms w = Some w' \<Longrightarrow> chan_step hub mx w w'"
| invite: "chans w c \<noteq> None \<Longrightarrow> users w u \<noteq> None \<Longrightarrow> add_invite mx c u w = Some w' \<Longrightarrow> chan_step hub mx w w'"
| uninvite: "chans w c \<noteq> None \<Longrightarrow> users w u \<noteq> None \<Longrightarrow> del_invite c u w = Some w' \<Longrightarrow> chan_step hub mx w w'"
| set_topic: "set_channel_topic c tp info n ts w = Some w' \<Longrightarrow> chan_step hub mx w w'"
| exit: "users w u \<noteq> None \<Longrightarrow> exit_channels hub u w = Some w' \<Longrightarrow>
     chan_step hub mx w (w'\<lparr>users := (users w')(u := None)\<rparr>)"

inductive chan_reach :: "bool \<Rightarrow> nat \<Rightarrow> chan_world \<Rightarrow> bool" for hub mx where
  chan_start: "chan_reach hub mx (no_channels h)"
| chan_next: "chan_reach hub mx w \<Longrightarrow> chan_step hub mx w w' \<Longrightarrow> chan_reach hub mx w'"

inductive_cases chan_stepE: "chan_step hub mx w w'"

lemma no_channels_inv: "chan_inv (no_channels h)"
  using init_hash_empty(3)[of h 0]
  by (auto simp: no_channels_def chan_inv_def member_inv_def invite_inv_def table_inv_def view_defs
      on_chan_def of_user_def init_hash_def channels_def)

text \<open>A client that holds nothing may come or go.\<close>

lemma idle_client_inv:
  assumes inv: "chan_inv w" and idle: "uchans w u = []" "uinvs w u = []"
    and eff: "chans w' = chans w" "mships w' = mships w" "global_channel_list w' = global_channel_list w"
      "chan_hash w' = chan_hash w" "uchans w' = uchans w" "uinvs w' = uinvs w"
      "\<And>v. v \<noteq> u \<Longrightarrow> is_local w' v = is_local w v"
  shows "chan_inv w'"
proof -
  note v = chans_views(1-3)[OF eff(1)]
  have on: "on_chan w' = on_chan w" "of_user w' = of_user w" unfolding on_chan_def of_user_def eff by simp_all
  have "of_user w u = {}" using inv idle(1) by (simp add: chan_inv_def member_inv_def) (metis empty_set)
  then have "ms_client x \<noteq> u" if "mships w m = Some x" for m x using that by (auto simp: of_user_def)
  then have "local_mship w' m = local_mship w m" for m
    by (cases "mships w m") (auto simp: local_mship_def eff)
  then have "local_mship w' = local_mship w" by (rule ext)
  then have "member_inv w' = member_inv w" unfolding member_inv_def v on eff by simp
  moreover have "invite_inv w' = invite_inv w" unfolding invite_inv_def v eff by simp
  moreover have "table_inv w' = table_inv w" unfolding table_inv_def eff by simp
  ultimately show ?thesis using inv by (simp add: chan_inv_def)
qed

text \<open>A change of a channel that leaves its members and invitations alone.\<close>

lemma upd_chan_keeps:
  assumes inv: "chan_inv w" and r: "upd_chan c f w = Some w'"
    and f: "\<And>ch. ch_members (f ch) = ch_members ch" "\<And>ch. locmembers (f ch) = locmembers ch"
      "\<And>ch. invites (f ch) = invites ch"
  shows "chan_inv w' \<and> same_mems w w' \<and> same_invs w w' \<and> same_tables w w' \<and> users w' = users w"
proof -
  obtain ch where c: "chans w c = Some ch" "w' = w\<lparr>chans := (chans w)(c \<mapsto> f ch)\<rparr>"
    using r by (auto simp: upd_chan_def)
  have cw: "chans w' = (chans w)(c \<mapsto> f ch)" and uw: "users w' = users w"
    and hw: "mships w' = mships w" "global_channel_list w' = global_channel_list w" "chan_hash w' = chan_hash w"
    by (simp_all add: c(2))
  have v: "mems w' = mems w" "locmems w' = locmems w" "invs w' = invs w"
    using chans_views(7-9)[OF cw] c(1) f by (simp_all add: view_defs fun_upd_idem)
  have d: "dom (chans w') = dom (chans w)" unfolding cw using c(1) by (auto simp: dom_def)
  have s: "same_mems w w'" "same_invs w w'" "same_tables w w'"
    using v d hw users_views(1-3)[OF uw] by (simp_all add: same_defs uw)
  then show ?thesis
    using inv uw member_inv_same[OF s(1)] invite_inv_same[OF s(2)] table_inv_same[OF s(3)] by (simp add: chan_inv_def)
qed

lemma topic_inv: "chan_inv w \<Longrightarrow> set_channel_topic c tp info n ts w = Some w' \<Longrightarrow> chan_inv w'"
  unfolding set_channel_topic_def
  by (rule upd_chan_keeps[THEN conjunct1], assumption, assumption) (auto split: option.split)

lemma create_inv:
  assumes inv: "chan_inv w" and p: "chans w p = None" and r: "get_or_create_channel name now p w = Some (r, w')"
  shows "chan_inv w'"
proof (cases name)
  case None
  with inv r show ?thesis by (simp add: get_or_create_channel_def)
next
  case (Some n)
  show ?thesis
  proof (cases "n \<noteq> [] \<and> length n \<le> CHANNELLEN")
    case True
    then show ?thesis using get_or_create_inv[OF inv p, of n now] r Some by auto
  next
    case False
    then show ?thesis using inv r Some by (auto simp: get_or_create_channel_def not_le split: if_splits)
  qed
qed

lemma chan_step_inv: "chan_step hub mx w w' \<Longrightarrow> 0 < mx \<Longrightarrow> chan_inv w \<Longrightarrow> chan_inv w'"
proof (induction rule: chan_step.induct)
  case (connect w u us)
  then have idle: "uchans w u = []" "uinvs w u = []" by (simp_all add: view_defs)
  show ?case
    by (rule idle_client_inv[OF connect.prems(2) idle]) (use connect idle in \<open>simp_all add: view_defs fun_eq_iff\<close>)
next
  case (create w p name now r w')
  then show ?case using create_inv by blast
next
  case (join w who u c ms fl w')
  obtain r where r: "find_channel_link who c w = Some r"
    "case r of None \<Rightarrow> on_chan w c \<inter> of_user w who = {} | Some m \<Rightarrow> on_chan w c \<inter> of_user w who = {m}"
    using find_channel_link_iff[OF _ join(1,2)] join.prems(2) unfolding chan_inv_def by blast
  have "on_chan w c \<inter> of_user w who = {}" using r join(5) by simp
  then show ?case using add_user_inv[OF join.prems(2) join(3) _ join(4), of who fl] join(1,6) by auto
next
  case (leave w ms w')
  then show ?case using remove_user_inv[of w ms _ hub] by auto
next
  case (invite w c u w')
  then show ?case using add_invite_inv[of w c u mx] by auto
next
  case (uninvite w c u w')
  then show ?case using del_invite_inv[of w c u] by auto
next
  case (set_topic c tp info n ts w w')
  then show ?case using topic_inv by blast
next
  case (exit w u w')
  then have w': "chan_inv w'" "uchans w' u = []" "uinvs w' u = []" using exit_channels_inv[of w u hub] by auto
  show ?case
    by (rule idle_client_inv[OF w']) (use w'(2,3) in \<open>simp_all add: view_defs fun_eq_iff\<close>)
qed

lemma chan_reach_inv: "chan_reach hub mx w \<Longrightarrow> 0 < mx \<Longrightarrow> chan_inv w"
  by (induction rule: chan_reach.induct) (simp_all add: no_channels_inv chan_step_inv)

text \<open>A reachable state with one channel and one member, for the witnesses.\<close>

definition example_user :: user where
  "example_user = \<lparr>us_name = ''nick'', us_username = ''user'', us_host = ''host'', us_sockhost = ''::1'',
     us_id = ''1AAAAAAAA'', us_status = STAT_CLIENT, us_local = True, us_oper = False, us_exempt_resv = False,
     us_channel = [], us_invited = []\<rparr>"

lemma example_reachable:
  "\<exists>w. chan_reach True 3 w \<and> chans w 1 \<noteq> None \<and> dom (chans w) = {1} \<and> mems w 1 = [9] \<and>
    mships w 9 = Some \<lparr>ms_client = 5, ms_chptr = 1, ms_flags = CHFL_CHANOP\<rparr> \<and> users w 5 \<noteq> None \<and>
    dom (users w) = {5} \<and> same_name ''#a'' (chname (chan_hash w) 1) \<and>
    mships w = [9 \<mapsto> \<lparr>ms_client = 5, ms_chptr = 1, ms_flags = CHFL_CHANOP\<rparr>] \<and>
    users w 5 = Some (example_user\<lparr>us_channel := [9]\<rparr>) \<and> resvs (resv_name no_objects) (chan_hash w) {}"
proof -
  let ?w0 = "no_channels no_objects"
  define w1 where "w1 = ?w0\<lparr>users := (users ?w0)(5 \<mapsto> example_user)\<rparr>"
  have r1: "chan_reach True 3 w1"
    unfolding w1_def by (rule chan_next[OF chan_start connect]) (simp_all add: no_channels_def example_user_def)
  have i1: "chan_inv w1" by (rule chan_reach_inv[OF r1]) simp
  have e1: "chans w1 = (\<lambda>_. None)" "mships w1 = (\<lambda>_. None)" "users w1 = [5 \<mapsto> example_user]"
    by (simp_all add: w1_def no_channels_def)
  obtain nw w2 where g: "get_or_create_channel (Some ''#a'') 100 1 w1 = Some (Some (1, nw), w2)" "chan_inv w2"
    "dom (chans w2) = insert 1 (dom (chans w1))" "same_name ''#a'' (chname (chan_hash w2) 1)" "mems w2 = mems w1"
    "mships w2 = mships w1" "users w2 = users w1"
    using get_or_create_inv[OF i1, of 1 "''#a''" 100] e1(1) by (auto simp: CHANNELLEN_def)
  have r2: "chan_reach True 3 w2" by (rule chan_next[OF r1 create[OF _ g(1)]]) (simp add: e1)
  have e2: "users w2 5 = Some example_user" "mships w2 9 = None" "chans w2 1 \<noteq> None" "mems w2 1 = []"
    "on_chan w2 1 \<inter> of_user w2 5 = {}"
    using g(3,5-7) e1 by (auto simp: on_chan_def mems_def)
  have cl: "IsClient example_user" by (simp add: IsClient_def example_user_def)
  have "find_channel_link 5 1 w2 = Some None"
    by (simp add: find_channel_link_def e2(1) cl) (simp add: example_user_def)
  moreover obtain w3 where w3: "add_user_to_channel 1 5 CHFL_CHANOP 9 w2 = Some w3" "same_tables w2 w3"
    "mems w3 = (mems w2)(1 := 9 # mems w2 1)"
    "mships w3 = (mships w2)(9 \<mapsto> \<lparr>ms_client = 5, ms_chptr = 1, ms_flags = CHFL_CHANOP\<rparr>)"
    "dom (users w3) = dom (users w2)"
    using add_user_inv[OF g(2) e2(3) _ e2(2,5), of CHFL_CHANOP] e2(1) by auto
  ultimately have "chan_reach True 3 w3"
    by (intro chan_next[OF r2 join[OF e2(1) cl e2(3) e2(2)]])
  moreover have hw: "dom (chans w3) = {1}" "dom (users w3) = {5}" "chan_hash w3 = chan_hash w2"
    using w3(2,5) g(3,7) e1 by (simp_all add: same_tables_def)
  moreover have "users w3 5 = Some (example_user\<lparr>us_channel := [9]\<rparr>)"
    using w3(1) e2(1,3) by (auto simp: add_user_to_channel_def upd_chan_def upd_user_def Let_def example_user_def)
  moreover have "resvs (resv_name no_objects) (chan_hash w1) {}"
    using init_hash_empty(4)[of no_objects 0] by (simp add: w1_def no_channels_def)
  then have "resvs (resv_name no_objects) (chan_hash w3) {}"
    unfolding hw(3) using get_or_create_resvs[OF g(1)] by blast
  moreover have none: "mships w2 = (\<lambda>_. None)" using g(6) e1 by simp
  moreover have "chans w3 1 \<noteq> None" using same_alive(1)[OF w3(2), of 1] e2(3) by simp
  moreover have "mems w3 1 = [9]" using w3(3) e2(4) by simp
  moreover have "same_name ''#a'' (chname (chan_hash w3) 1)" using hw(3) g(4) by simp
  moreover have "mships w3 = [9 \<mapsto> \<lparr>ms_client = 5, ms_chptr = 1, ms_flags = CHFL_CHANOP\<rparr>]" using w3(4) none by simp
  ultimately show ?thesis by (intro exI[of _ w3]) simp
qed

text \<open>C7. In every state that the operations on channels, memberships, invitations and clients
  reach from the empty server, \<open>chan_inv\<close> holds: a membership is in its channel's and its
  client's list exactly once, the local members are the members on this server, a client is on a
  channel once, the invitations of channels and clients mirror each other, and the hash table,
  the global list and the heap hold the same channels, of pairwise different names.\<close>

theorem reachable_channels_consistent:
  assumes "chan_reach hub mx w" "0 < mx"
  shows "chan_inv w"
  by (rule chan_reach_inv[OF assms])

lemma reachable_channels_consistent_witness: "\<exists>w. chan_reach True 3 w \<and> mems w 1 = [9] \<and> chan_inv w"
  using example_reachable reachable_channels_consistent[of True 3] by fastforce

text \<open>In a reachable state no operation dereferences a NULL or dangling pointer: removing a
  member, taking back or giving an invitation, and the exit of a client all return.\<close>

theorem channel_operations_safe:
  assumes "chan_reach hub mx w" "0 < mx" "users w u \<noteq> None"
  shows "(\<forall>ms. mships w ms \<noteq> None \<longrightarrow> remove_user_from_channel hub ms w \<noteq> None) \<and>
    (\<forall>c. chans w c \<noteq> None \<longrightarrow> add_invite mx c u w \<noteq> None \<and> del_invite c u w \<noteq> None) \<and>
    exit_channels hub u w \<noteq> None"
proof -
  have inv: "chan_inv w" by (rule chan_reach_inv[OF assms(1,2)])
  have "remove_user_from_channel hub ms w \<noteq> None" if "mships w ms \<noteq> None" for ms
    using remove_user_inv[OF inv, of ms _ hub] that by auto
  moreover have "add_invite mx c u w \<noteq> None" "del_invite c u w \<noteq> None" if "chans w c \<noteq> None" for c
    using add_invite_inv[OF inv that assms(3,2)] del_invite_inv[OF inv that assms(3)] by auto
  moreover have "exit_channels hub u w \<noteq> None" using exit_channels_inv[OF inv assms(3), of hub] by auto
  ultimately show ?thesis by blast
qed

lemma channel_operations_safe_witness:
  "\<exists>w. chan_reach True 3 w \<and> mships w 9 \<noteq> None \<and> remove_user_from_channel True 9 w \<noteq> None \<and>
    exit_channels True 5 w \<noteq> None"
proof -
  obtain w where w: "chan_reach True 3 w" "users w 5 \<noteq> None" "mships w 9 \<noteq> None"
    using example_reachable by blast
  have "(0::nat) < 3" by simp
  from channel_operations_safe[OF w(1) this w(2)] w show ?thesis by blast
qed

text \<open>C21. \<open>remove_user_from_channel\<close> frees the membership, takes it out of the members of its channel
  and of no other, and ends the channel exactly when it was the last one; then the channel's name
  is no longer found and nobody holds an invitation to it.\<close>

theorem channel_ends_with_last_member:
  assumes "chan_reach hub mx w" "0 < mx" "mships w ms = Some x"
  shows "\<exists>w'. remove_user_from_channel hub ms w = Some w' \<and> mships w' = (mships w)(ms := None) \<and>
    mems w' = (mems w)(ms_chptr x := remove1 ms (mems w (ms_chptr x))) \<and>
    dom (chans w') = (if mems w (ms_chptr x) = [ms] then dom (chans w) - {ms_chptr x} else dom (chans w)) \<and>
    (mems w (ms_chptr x) = [ms] \<longrightarrow> (\<forall>u. ms_chptr x \<notin> set (uinvs w' u)) \<and>
      (\<exists>h. hash_find_channel (chname (chan_hash w) (ms_chptr x)) (chan_hash w') = Some (None, h)))"
proof -
  let ?c = "ms_chptr x"
  have inv: "chan_inv w" by (rule chan_reach_inv[OF assms(1,2)])
  obtain w' where w': "remove_user_from_channel hub ms w = Some w'" "chan_inv w'"
    "mems w' = (mems w)(?c := remove1 ms (mems w ?c))" "mships w' = (mships w)(ms := None)"
    "chname (chan_hash w') = chname (chan_hash w)"
    "dom (chans w') = (if mems w ?c = [ms] then dom (chans w) - {?c} else dom (chans w))"
    using remove_user_inv[OF inv assms(3), of hub] by blast
  have "?c \<notin> set (uinvs w' u) \<and> (\<exists>h. hash_find_channel (chname (chan_hash w) ?c) (chan_hash w') = Some (None, h))"
    if last: "mems w ?c = [ms]" for u
  proof
    have gone: "?c \<notin> dom (chans w')" using w'(6) last by simp
    show "?c \<notin> set (uinvs w' u)"
    proof
      assume "?c \<in> set (uinvs w' u)"
      then have "u \<in> set (invs w' ?c)" using w'(2) by (simp add: chan_inv_def invite_inv_def)
      then show False using in_invs_alive gone by blast
    qed
    have ch: "channels (chname (chan_hash w')) (chan_hash w') (dom (chans w'))"
      using w'(2) by (simp add: chan_inv_def table_inv_def)
    obtain r h where rh: "hash_find_channel (chname (chan_hash w) ?c) (chan_hash w') = Some (r, h)"
      using channel_reg.repr_look[OF ch, of "chname (chan_hash w) ?c"] by blast
    have "r = None"
    proof (rule ccontr)
      assume "r \<noteq> None"
      then obtain q where q: "r = Some q" by blast
      then have "q \<in> dom (chans w')" "same_name (chname (chan_hash w) ?c) (chname (chan_hash w) q)"
        using chan_inv_found(2)[OF w'(2) rh] w'(5) by simp_all
      moreover have "?c \<in> dom (chans w)" using mship_alive(3)[OF _ assms(3)] inv by (auto simp: chan_inv_def)
      moreover have "dom (chans w') \<subseteq> dom (chans w)" using w'(6) by auto
      ultimately have "q = ?c" using inv unfolding chan_inv_def table_inv_def by blast
      with gone \<open>q \<in> dom (chans w')\<close> show False by simp
    qed
    with rh show "\<exists>h. hash_find_channel (chname (chan_hash w) ?c) (chan_hash w') = Some (None, h)" by blast
  qed
  with w' show ?thesis by (intro exI[of _ w']) simp
qed

lemma channel_ends_with_last_member_witness:
  "\<exists>w w'. chan_reach True 3 w \<and> mems w 1 = [9] \<and> remove_user_from_channel True 9 w = Some w' \<and> dom (chans w') = {}"
proof -
  obtain w where w: "chan_reach True 3 w" "dom (chans w) = {1}" "mems w 1 = [9]"
    "mships w 9 = Some \<lparr>ms_client = 5, ms_chptr = 1, ms_flags = CHFL_CHANOP\<rparr>"
    using example_reachable by blast
  with channel_ends_with_last_member[OF w(1) _ w(4)] show ?thesis by auto
qed

end
