(* ===== verification/Chan_Access.thy ===== *)
theory Chan_Access
  imports Channel
begin

text \<open>
  \<^verbatim>\<open>src/channel.c\<close>, second half: who is banned, who may join and who may speak, with the cache
  of the ban check in the membership flags, the spam bot counters and the split mode.

  \<open>IsOper\<close>, \<open>IsExemptResv\<close> and \<open>IsServer\<close> are fields of \<open>user\<close>; the configuration is the
  record \<open>chan_config\<close>; the resolver that \<open>match_cidr\<close> calls is the parameter \<open>nh\<close> of theory
  \<open>Match\<close>. The lookup of a reserved name moves it to the front of its bucket, so \<open>can_send\<close>
  gives the state back. The lemmas show that a search of a ban list is an existential over it and
  that the cached answer of \<open>can_send\<close> is the uncached one as long as \<open>cache_ok\<close> holds, which
  every operation here keeps and a change of nick does not.
\<close>

record chan_config =
  use_except :: bool
  use_invex :: bool
  quiet_on_ban :: bool
  restrict_channels :: bool
  oper_pass_resv :: bool
  disable_local_channels :: bool
  no_create_on_split :: bool
  no_join_on_split :: bool
  max_bans :: nat
  max_chans_per_user :: nat

subsection \<open>Bans\<close>

type_synonym resolver = "string \<Rightarrow> u8 list option"

definition ban_hits :: "resolver \<Rightarrow> user \<Rightarrow> ban \<Rightarrow> bool option" where
  "ban_hits nh u b =
     c_and (match (ban_name b) (us_name u))
       (c_and (match (ban_username b) (us_username u))
         (c_or (match (ban_host b) (us_host u))
           (c_or (match (ban_host b) (us_sockhost u)) (match_cidr nh (ban_host b) (us_sockhost u)))))"

fun find_bmask :: "resolver \<Rightarrow> user \<Rightarrow> ban list \<Rightarrow> bool option" where
  "find_bmask nh u [] = Some False"
| "find_bmask nh u (b # bs) =
     Option.bind (ban_hits nh u b) (\<lambda>hit. if hit then Some True else find_bmask nh u bs)"

definition is_banned :: "chan_config \<Rightarrow> resolver \<Rightarrow> channel \<Rightarrow> user \<Rightarrow> bool option" where
  "is_banned cfg nh ch u =
     c_and (find_bmask nh u (banlist ch))
       (c_or (Some (\<not> use_except cfg)) (map_option Not (find_bmask nh u (exceptlist ch))))"

definition ERR_CHANNELISFULL :: nat where "ERR_CHANNELISFULL = 471"
definition ERR_INVITEONLYCHAN :: nat where "ERR_INVITEONLYCHAN = 473"
definition ERR_BANNEDFROMCHAN :: nat where "ERR_BANNEDFROMCHAN = 474"
definition ERR_BADCHANNELKEY :: nat where "ERR_BADCHANNELKEY = 475"

definition can_join ::
  "chan_config \<Rightarrow> resolver \<Rightarrow> user \<Rightarrow> ptr \<Rightarrow> string option \<Rightarrow> channel \<Rightarrow> nat option" where
  "can_join cfg nh u c k ch =
     Option.bind (c_and (find_bmask nh u (banlist ch))
         (c_or (Some (\<not> use_except cfg)) (map_option Not (find_bmask nh u (exceptlist ch))))) (\<lambda>banned.
     if banned then Some ERR_BANNEDFROMCHAN else
     Option.bind (if mode ch AND MODE_INVITEONLY = 0 then Some False
         else if c \<in> set (us_invited u) then Some False
         else if \<not> use_invex cfg then Some True
         else map_option Not (find_bmask nh u (invexlist ch))) (\<lambda>uninvited.
     if uninvited then Some ERR_INVITEONLYCHAN
     else if key ch \<noteq> [] \<and> (case k of None \<Rightarrow> True | Some s \<Rightarrow> s = [] \<or> irccmp (key ch) s \<noteq> 0)
     then Some ERR_BADCHANNELKEY
     else if limit ch \<noteq> 0 \<and> length (ch_members ch) \<ge> unat (limit ch) then Some ERR_CHANNELISFULL
     else Some 0))"

definition has_member_flags :: "membership option \<Rightarrow> u32 \<Rightarrow> u32" where
  "has_member_flags ms fl = (case ms of None \<Rightarrow> 0 | Some m \<Rightarrow> ms_flags m AND fl)"

definition get_member_status :: "bool \<Rightarrow> membership option \<Rightarrow> bool \<Rightarrow> string" where
  "get_member_status halfops ms combine =
     (case ms of
        None \<Rightarrow> []
      | Some m \<Rightarrow>
          let op = ms_flags m AND CHFL_CHANOP \<noteq> 0;
              hop = halfops \<and> ms_flags m AND CHFL_HALFOP \<noteq> 0;
              voice = ms_flags m AND CHFL_VOICE \<noteq> 0
          in if op \<and> \<not> combine then ''@''
             else if hop \<and> \<not> combine then ''%''
             else (if op then ''@'' else []) @ (if hop then ''%'' else []) @ (if voice then ''+'' else []))"

subsection \<open>Speaking\<close>

definition CAN_SEND_NO :: nat where "CAN_SEND_NO = 0"
definition CAN_SEND_NONOP :: nat where "CAN_SEND_NONOP = 1"
definition CAN_SEND_OPV :: nat where "CAN_SEND_OPV = 2"

text \<open>\<open>!hash_find_resv(name) == restrict_channels\<close>, for a local client that is not exempt.\<close>

definition resv_blocks :: "chan_config \<Rightarrow> user \<Rightarrow> string \<Rightarrow> chan_world \<Rightarrow> (bool \<times> chan_world) option" where
  "resv_blocks cfg u name w =
     (if us_exempt_resv u \<or> (us_oper u \<and> oper_pass_resv cfg) then Some (False, w)
      else map_option (\<lambda>(r, h). ((r = None) = restrict_channels cfg, w\<lparr>chan_hash := h\<rparr>))
        (hash_find_resv name (chan_hash w)))"

definition moderated :: "channel \<Rightarrow> nat" where
  "moderated ch = (if mode ch AND MODE_MODERATED \<noteq> 0 then CAN_SEND_NO else CAN_SEND_NONOP)"

text \<open>The ban cache: the answer, and the new flags of the membership.\<close>

definition silenced ::
  "chan_config \<Rightarrow> resolver \<Rightarrow> channel \<Rightarrow> user \<Rightarrow> u32 \<Rightarrow> (bool \<times> u32) option" where
  "silenced cfg nh ch u fl =
     (if \<not> (quiet_on_ban cfg \<and> MyClient u) then Some (False, fl)
      else if fl AND CHFL_BAN_SILENCED \<noteq> 0 then Some (True, fl)
      else if fl AND CHFL_BAN_CHECKED \<noteq> 0 then Some (False, fl)
      else map_option (\<lambda>b. (b, fl OR (if b then CHFL_BAN_CHECKED OR CHFL_BAN_SILENCED else CHFL_BAN_CHECKED)))
        (is_banned cfg nh ch u))"

definition can_send ::
  "chan_config \<Rightarrow> resolver \<Rightarrow> ptr \<Rightarrow> ptr \<Rightarrow> chan_world \<Rightarrow> (nat \<times> chan_world) option" where
  "can_send cfg nh c who w =
     Option.bind (users w who) (\<lambda>u.
     if IsServer u then Some (CAN_SEND_OPV, w) else
     Option.bind (chans w c) (\<lambda>ch.
     Option.bind (if MyClient u then resv_blocks cfg u (chname (chan_hash w) c) w else Some (False, w)) (\<lambda>(juped, w).
     if juped then Some (CAN_SEND_NO, w) else
     Option.bind (find_channel_link who c w) (\<lambda>r.
     case r of
       None \<Rightarrow> Some (if mode ch AND MODE_NOPRIVMSGS \<noteq> 0 then CAN_SEND_NO else moderated ch, w)
     | Some m \<Rightarrow>
         Option.bind (mships w m) (\<lambda>x.
         if ms_flags x AND (CHFL_CHANOP OR CHFL_HALFOP OR CHFL_VOICE) \<noteq> 0 then Some (CAN_SEND_OPV, w)
         else map_option (\<lambda>(quiet, fl).
                (if quiet then CAN_SEND_NO else moderated ch,
                 w\<lparr>mships := (mships w)(m \<mapsto> x\<lparr>ms_flags := fl\<rparr>)\<rparr>))
              (silenced cfg nh ch u (ms_flags x)))))))"

definition can_send_part ::
  "chan_config \<Rightarrow> resolver \<Rightarrow> membership option \<Rightarrow> channel \<Rightarrow> user \<Rightarrow> nat option" where
  "can_send_part cfg nh member ch u =
     (if has_member_flags member (CHFL_CHANOP OR CHFL_HALFOP) \<noteq> 0 then Some CAN_SEND_OPV
      else if mode ch AND MODE_MODERATED \<noteq> 0 then Some CAN_SEND_NO
      else map_option (\<lambda>b. if b then CAN_SEND_NO else CAN_SEND_NONOP)
        (c_and (Some (quiet_on_ban cfg \<and> MyClient u)) (is_banned cfg nh ch u)))"

definition clear_ban_cache :: "ptr \<Rightarrow> chan_world \<Rightarrow> chan_world option" where
  "clear_ban_cache c w =
     Option.bind (chans w c) (\<lambda>ch.
       foreach_safe (\<lambda>m. upd_mship m (\<lambda>x. x\<lparr>ms_flags := ms_flags x AND NOT (CHFL_BAN_SILENCED OR CHFL_BAN_CHECKED)\<rparr>))
         (locmembers ch) w)"

subsection \<open>Spam bots and splits\<close>

definition OPER_SPAM_COUNTDOWN :: int where "OPER_SPAM_COUNTDOWN = 5"
definition JOIN_LEAVE_COUNT_EXPIRE_TIME :: int where "JOIN_LEAVE_COUNT_EXPIRE_TIME = 120"

record spam_state =
  oper_warn_count_down :: int
  join_leave_count :: int
  sp_last_join_time :: int
  sp_last_leave_time :: int

text \<open>\<open>check_spambot_warning\<close>: the counters of the client, and whether the operators are warned;
  \<open>joining\<close> is \<open>name != NULL\<close>.\<close>

definition check_spambot_warning ::
  "int \<Rightarrow> int \<Rightarrow> int \<Rightarrow> bool \<Rightarrow> spam_state \<Rightarrow> bool \<times> spam_state" where
  "check_spambot_warning spam_num spam_time now joining s =
     (if spam_num \<noteq> 0 \<and> join_leave_count s \<ge> spam_num then
        let d = (if oper_warn_count_down s > 0 then oper_warn_count_down s - 1 else 0)
        in if d = 0 then (True, s\<lparr>oper_warn_count_down := OPER_SPAM_COUNTDOWN\<rparr>)
           else (False, s\<lparr>oper_warn_count_down := d\<rparr>)
      else
        let t_delta = now - sp_last_leave_time s;
            s = (if t_delta > JOIN_LEAVE_COUNT_EXPIRE_TIME then
                   let dec = t_delta div JOIN_LEAVE_COUNT_EXPIRE_TIME
                   in if dec > join_leave_count s then s\<lparr>join_leave_count := 0\<rparr>
                      else s\<lparr>join_leave_count := join_leave_count s - dec\<rparr>
                 else if now - sp_last_join_time s < spam_time
                 then s\<lparr>join_leave_count := join_leave_count s + 1\<rparr> else s)
        in (False, if joining then s\<lparr>sp_last_join_time := now\<rparr> else s\<lparr>sp_last_leave_time := now\<rparr>))"

text \<open>\<open>check_splitmode\<close>: the new split mode, and whether its event is added (\<open>Some True\<close>) or
  deleted (\<open>Some False\<close>).\<close>

definition check_splitmode ::
  "chan_config \<Rightarrow> bool \<Rightarrow> nat \<Rightarrow> nat \<Rightarrow> nat \<Rightarrow> nat \<Rightarrow> bool \<Rightarrow> bool \<times> bool option" where
  "check_splitmode cfg splitchecking servers nusers split_servers split_users splitmode =
     (if splitchecking \<and> (no_join_on_split cfg \<or> no_create_on_split cfg) then
        if \<not> splitmode \<and> (servers < split_servers \<or> nusers < split_users) then (True, Some True)
        else if splitmode \<and> servers > split_servers \<and> nusers > split_users then (False, Some False)
        else (splitmode, None)
      else (splitmode, None))"

subsection \<open>What the searches decide\<close>

definition ban_glob :: "user \<Rightarrow> ban \<Rightarrow> bool" where
  "ban_glob u b \<longleftrightarrow> glob (ban_name b) (us_name u) \<and> glob (ban_username b) (us_username u) \<and>
     (glob (ban_host b) (us_host u) \<or> glob (ban_host b) (us_sockhost u))"

definition hit_by :: "user \<Rightarrow> ban list \<Rightarrow> bool" where
  "hit_by u bs \<longleftrightarrow> (\<exists>b \<in> set bs. ban_glob u b)"

definition banned :: "chan_config \<Rightarrow> channel \<Rightarrow> user \<Rightarrow> bool" where
  "banned cfg ch u \<longleftrightarrow> hit_by u (banlist ch) \<and> \<not> (use_except cfg \<and> hit_by u (exceptlist ch))"

text \<open>The address of a client, \<open>sockhost\<close>, holds no at sign.\<close>

definition plain_addr :: "user \<Rightarrow> bool" where
  "plain_addr u \<longleftrightarrow> CHR ''@'' \<notin> set (us_sockhost u)"

lemma match_cidr_no_at: "CHR ''@'' \<notin> set s2 \<Longrightarrow> match_cidr nh s1 s2 = Some False"
proof -
  assume "CHR ''@'' \<notin> set s2"
  then have "CHR ''@'' \<notin> set (c_strlcpy s2 n)" for n using set_take_subset by (fastforce simp: c_strlcpy_def)
  then have none: "c_strrchr (c_strlcpy s2 n) CHR ''@'' = None" for n by simp
  show ?thesis unfolding match_cidr_def Let_def none by (simp split: option.split)
qed

lemma ban_hits_glob: "plain_addr u \<Longrightarrow> ban_hits nh u b = Some (ban_glob u b)"
  by (simp add: ban_hits_def ban_glob_def plain_addr_def match_glob match_cidr_no_at)

lemma find_bmask_iff: "plain_addr u \<Longrightarrow> find_bmask nh u bs = Some (hit_by u bs)"
  by (induction bs) (auto simp: ban_hits_glob hit_by_def)

lemma is_banned_iff: "plain_addr u \<Longrightarrow> is_banned cfg nh ch u = Some (banned cfg ch u)"
  by (auto simp: is_banned_def find_bmask_iff banned_def)

lemma can_join_cases:
  assumes "plain_addr u"
  shows "can_join cfg nh u c k ch = Some (
    if banned cfg ch u then ERR_BANNEDFROMCHAN
    else if mode ch AND MODE_INVITEONLY \<noteq> 0 \<and> c \<notin> set (us_invited u) \<and>
      \<not> (use_invex cfg \<and> hit_by u (invexlist ch)) then ERR_INVITEONLYCHAN
    else if key ch \<noteq> [] \<and> \<not> (\<exists>s. k = Some s \<and> s \<noteq> [] \<and> same_name (key ch) s) then ERR_BADCHANNELKEY
    else if limit ch \<noteq> 0 \<and> unat (limit ch) \<le> length (ch_members ch) then ERR_CHANNELISFULL else 0)"
proof -
  have nokey: "(case k of None \<Rightarrow> True | Some s \<Rightarrow> s = [] \<or> irccmp (key ch) s \<noteq> 0) \<longleftrightarrow>
      \<not> (\<exists>s. k = Some s \<and> s \<noteq> [] \<and> same_name (key ch) s)"
    by (cases k) (auto simp: same_name_def)
  have b: "c_and (find_bmask nh u (banlist ch)) (c_or (Some (\<not> use_except cfg)) (map_option Not (find_bmask nh u (exceptlist ch)))) =
      Some (banned cfg ch u)"
    using is_banned_iff[OF assms, of cfg nh ch] by (simp add: is_banned_def)
  have i: "(if mode ch AND MODE_INVITEONLY = 0 then Some False
         else if c \<in> set (us_invited u) then Some False
         else if \<not> use_invex cfg then Some True
         else map_option Not (find_bmask nh u (invexlist ch))) =
      Some (mode ch AND MODE_INVITEONLY \<noteq> 0 \<and> c \<notin> set (us_invited u) \<and> \<not> (use_invex cfg \<and> hit_by u (invexlist ch)))"
    by (simp add: find_bmask_iff[OF assms])
  show ?thesis unfolding can_join_def b i nokey by auto
qed

subsection \<open>The ban cache\<close>

definition flags_ok :: "bool \<Rightarrow> u32 \<Rightarrow> bool" where
  "flags_ok b fl \<longleftrightarrow> (fl AND CHFL_BAN_SILENCED \<noteq> 0 \<longrightarrow> b) \<and>
     (fl AND CHFL_BAN_CHECKED \<noteq> 0 \<and> fl AND CHFL_BAN_SILENCED = 0 \<longrightarrow> \<not> b)"

definition cache_ok :: "chan_config \<Rightarrow> chan_world \<Rightarrow> bool" where
  "cache_ok cfg w \<longleftrightarrow> (\<forall>m x u ch. mships w m = Some x \<longrightarrow> users w (ms_client x) = Some u \<longrightarrow>
     chans w (ms_chptr x) = Some ch \<longrightarrow> flags_ok (banned cfg ch u) (ms_flags x))"

lemma flag_bits:
  "(fl :: u32) AND CHFL_BAN_SILENCED = 0 \<longleftrightarrow> \<not> bit fl 8" "fl AND CHFL_BAN_CHECKED = 0 \<longleftrightarrow> \<not> bit fl 7"
  using and_exp_eq_0_iff_not_bit[of fl 8] and_exp_eq_0_iff_not_bit[of fl 7]
  by (simp_all add: CHFL_BAN_SILENCED_def CHFL_BAN_CHECKED_def)

lemma flag_cleared:
  "bit ((fl :: u32) AND NOT (CHFL_BAN_SILENCED OR CHFL_BAN_CHECKED)) 8 = False"
  "bit (fl AND NOT (CHFL_BAN_SILENCED OR CHFL_BAN_CHECKED)) 7 = False"
  "bit (fl OR (CHFL_BAN_CHECKED OR CHFL_BAN_SILENCED)) 8" "bit (fl OR (CHFL_BAN_CHECKED OR CHFL_BAN_SILENCED)) 7"
  "bit (fl OR CHFL_BAN_CHECKED) 8 = bit fl 8" "bit (fl OR CHFL_BAN_CHECKED) 7"
  by (simp_all add: CHFL_BAN_SILENCED_def CHFL_BAN_CHECKED_def bit_simps)

lemma flags_ok_bits: "flags_ok b fl \<longleftrightarrow> (if bit fl 8 then b else bit fl 7 \<longrightarrow> \<not> b)"
  by (auto simp: flags_ok_def flag_bits)

lemma silenced_answer:
  assumes "plain_addr u" "flags_ok (banned cfg ch u) fl"
  shows "\<exists>fl'. silenced cfg nh ch u fl = Some (quiet_on_ban cfg \<and> MyClient u \<and> banned cfg ch u, fl') \<and>
    flags_ok (banned cfg ch u) fl'"
  using assms(2) by (auto simp: silenced_def is_banned_iff[OF assms(1)] flags_ok_bits flag_bits flag_cleared split: if_splits)

subsection \<open>Speaking without the cache\<close>

text \<open>What \<open>can_send\<close> answers for a membership with flags \<open>fl\<close>, or without one.\<close>

definition may_speak :: "chan_config \<Rightarrow> channel \<Rightarrow> user \<Rightarrow> u32 option \<Rightarrow> nat" where
  "may_speak cfg ch u fl =
     (case fl of
        None \<Rightarrow> if mode ch AND MODE_NOPRIVMSGS \<noteq> 0 then CAN_SEND_NO else moderated ch
      | Some fl \<Rightarrow>
          if fl AND (CHFL_CHANOP OR CHFL_HALFOP OR CHFL_VOICE) \<noteq> 0 then CAN_SEND_OPV
          else if quiet_on_ban cfg \<and> MyClient u \<and> banned cfg ch u then CAN_SEND_NO else moderated ch)"

text \<open>\<open>R\<close> holds the reserved names: whether one of them, or the lack of one, bars \<open>name\<close>.\<close>

definition resv_barred :: "chan_config \<Rightarrow> user \<Rightarrow> (ptr \<Rightarrow> string) \<Rightarrow> ptr set \<Rightarrow> string \<Rightarrow> bool" where
  "resv_barred cfg u nm R name \<longleftrightarrow> \<not> us_exempt_resv u \<and> \<not> (us_oper u \<and> oper_pass_resv cfg) \<and>
     (\<forall>p \<in> R. \<not> same_name name (nm p)) = restrict_channels cfg"

lemma resv_blocks_spec:
  assumes "resvs nm (chan_hash w) R"
  shows "\<exists>b h. resv_blocks cfg u name w = Some (b, w\<lparr>chan_hash := h\<rparr>) \<and> resvs nm h R \<and>
    b = resv_barred cfg u nm R name"
proof (cases "us_exempt_resv u \<or> us_oper u \<and> oper_pass_resv cfg")
  case True
  then show ?thesis using assms by (intro exI[of _ False] exI[of _ "chan_hash w"]) (auto simp: resv_blocks_def resv_barred_def)
next
  case False
  obtain r h where r: "hash_find_resv name (chan_hash w) = Some (r, h)" "resvs nm h R"
    "case r of None \<Rightarrow> \<forall>p \<in> R. \<not> same_name name (nm p) | Some p \<Rightarrow> p \<in> R \<and> same_name name (nm p)"
    using resv_reg.repr_look[OF assms, of name] by blast
  then have "(r = None) \<longleftrightarrow> (\<forall>p \<in> R. \<not> same_name name (nm p))" by (cases r) auto
  then show ?thesis using False r(1,2)
    by (intro exI[of _ "(r = None) = restrict_channels cfg"] exI[of _ h]) (auto simp: resv_blocks_def resv_barred_def)
qed

lemma can_send_member_step:
  assumes cache: "cache_ok cfg w" and plain: "plain_addr u"
    and x: "mships w m = Some x" "users w (ms_client x) = Some u" "chans w (ms_chptr x) = Some ch"
    and quiet: "silenced cfg nh ch u (ms_flags x) = Some (q, fl)"
  shows "q \<longleftrightarrow> quiet_on_ban cfg \<and> MyClient u \<and> banned cfg ch u"
    "cache_ok cfg (w\<lparr>mships := (mships w)(m \<mapsto> x\<lparr>ms_flags := fl\<rparr>)\<rparr>)"
proof -
  have ok: "flags_ok (banned cfg ch u) (ms_flags x)" using cache x unfolding cache_ok_def by blast
  have s: "(q \<longleftrightarrow> quiet_on_ban cfg \<and> MyClient u \<and> banned cfg ch u) \<and> flags_ok (banned cfg ch u) fl"
    using silenced_answer[OF plain ok, of nh] quiet by auto
  then show "q \<longleftrightarrow> quiet_on_ban cfg \<and> MyClient u \<and> banned cfg ch u" by blast
  show "cache_ok cfg (w\<lparr>mships := (mships w)(m \<mapsto> x\<lparr>ms_flags := fl\<rparr>)\<rparr>)"
    using cache x s unfolding cache_ok_def by simp
qed

lemma can_send_answer:
  assumes inv: "member_inv w" and cache: "cache_ok cfg w" and plain: "plain_addr u"
    and u: "users w who = Some u" "IsClient u" and ch: "chans w c = Some ch" and R: "resvs nm (chan_hash w) R"
  shows "\<exists>w'. can_send cfg nh c who w = Some (
      if MyClient u \<and> resv_barred cfg u nm R (chname (chan_hash w) c) then CAN_SEND_NO
      else may_speak cfg ch u (map_option (\<lambda>m. ms_flags (the (mships w m)))
             (the (find_channel_link who c w))), w') \<and> cache_ok cfg w'"
proof -
  have ns: "\<not> IsServer u" using u(2) by (simp add: IsClient_def IsServer_def STAT_CLIENT_def STAT_SERVER_def)
  let ?name = "chname (chan_hash w) c"
  define blocked where "blocked \<longleftrightarrow> MyClient u \<and> resv_barred cfg u nm R ?name"
  obtain h where h: "(if MyClient u then resv_blocks cfg u ?name w else Some (False, w)) = Some (blocked, w\<lparr>chan_hash := h\<rparr>)"
  proof (cases "MyClient u")
    case True
    then show ?thesis using that resv_blocks_spec[OF R, of cfg u ?name] by (auto simp: blocked_def)
  next
    case False
    then show ?thesis using that[of "chan_hash w"] by (simp add: blocked_def)
  qed
  let ?w = "w\<lparr>chan_hash := h\<rparr>"
  have same: "find_channel_link who c ?w = find_channel_link who c w" by (simp add: find_channel_link_def cong: if_cong)
  have cw: "cache_ok cfg ?w" using cache by (simp add: cache_ok_def)
  obtain r where r: "find_channel_link who c w = Some r"
    "case r of None \<Rightarrow> on_chan w c \<inter> of_user w who = {} | Some m \<Rightarrow> on_chan w c \<inter> of_user w who = {m}"
    using find_channel_link_iff[OF inv u] by blast
  let ?goal = "\<exists>w'. can_send cfg nh c who w = Some (if blocked then CAN_SEND_NO
      else may_speak cfg ch u (map_option (\<lambda>m. ms_flags (the (mships w m)))
             (the (find_channel_link who c w))), w') \<and> cache_ok cfg w'"
  have ?goal
  proof (cases blocked)
    case True
    then show ?goal using cw by (simp add: can_send_def u(1) ns ch h)
  next
    case no: False
    show ?goal
    proof (cases r)
      case None
      with no r(1) cw show ?goal by (simp add: can_send_def u(1) ns ch h same may_speak_def)
    next
      case (Some m)
      then have "m \<in> on_chan w c" "m \<in> of_user w who" using r(2) by auto
      then obtain x where x: "mships w m = Some x" "ms_chptr x = c" "ms_client x = who"
        by (auto simp: on_chan_def of_user_def)
      have ok: "flags_ok (banned cfg ch u) (ms_flags x)" using cache x u(1) ch unfolding cache_ok_def by blast
      then obtain q fl where qf: "silenced cfg nh ch u (ms_flags x) = Some (q, fl)"
        using silenced_answer[OF plain] by blast
      have x': "mships ?w m = Some x" "users ?w (ms_client x) = Some u" "chans ?w (ms_chptr x) = Some ch"
        using x u(1) ch by simp_all
      note st = can_send_member_step[OF cw plain x' qf]
      show ?goal
        using no r(1) Some x(1) st cw qf
        by (simp add: can_send_def u(1) ns ch h same may_speak_def)
    qed
  qed
  then show ?thesis unfolding blocked_def .
qed

subsection \<open>What keeps the cache\<close>

text \<open>\<open>change_local_nick\<close> as far as the channels see it: the client's name.\<close>

definition set_nick :: "ptr \<Rightarrow> string \<Rightarrow> chan_world \<Rightarrow> chan_world option" where
  "set_nick who nick = upd_user who (\<lambda>u. u\<lparr>us_name := nick\<rparr>)"

lemma banned_fields:
  "banlist ch' = banlist ch \<Longrightarrow> exceptlist ch' = exceptlist ch \<Longrightarrow> us_name u' = us_name u \<Longrightarrow>
   us_username u' = us_username u \<Longrightarrow> us_host u' = us_host u \<Longrightarrow> us_sockhost u' = us_sockhost u \<Longrightarrow>
   banned cfg ch' u' = banned cfg ch u"
  by (simp add: banned_def hit_by_def ban_glob_def)

lemma clear_each:
  assumes "distinct ms" "\<And>m. m \<in> set ms \<Longrightarrow> mships w m \<noteq> None"
  shows "\<exists>M. foreach_safe (\<lambda>m. upd_mship m f) ms w = Some (w\<lparr>mships := M\<rparr>) \<and>
    (\<forall>m. M m = (if m \<in> set ms then map_option f (mships w m) else mships w m))"
  using assms
proof (induction ms arbitrary: w)
  case Nil
  then show ?case by (intro exI[of _ "mships w"]) simp
next
  case (Cons m ms)
  then obtain x where x: "mships w m = Some x" by fastforce
  let ?w = "w\<lparr>mships := (mships w)(m \<mapsto> f x)\<rparr>"
  have step: "upd_mship m f w = Some ?w" by (simp add: upd_mship_def x)
  have "mships ?w k \<noteq> None" if "k \<in> set ms" for k using Cons.prems(2)[of k] that by simp
  then obtain M where M: "foreach_safe (\<lambda>m. upd_mship m f) ms ?w = Some (?w\<lparr>mships := M\<rparr>)"
    "\<forall>k. M k = (if k \<in> set ms then map_option f (mships ?w k) else mships ?w k)"
    using Cons.IH[of ?w] Cons.prems(1) by auto
  have "M k = (if k \<in> set (m # ms) then map_option f (mships w k) else mships w k)" for k
    using M(2)[rule_format, of k] x Cons.prems(1) by (cases "k = m") auto
  moreover have "foreach_safe (\<lambda>m. upd_mship m f) (m # ms) w = Some (w\<lparr>mships := M\<rparr>)"
    using step M(1) by simp
  ultimately show ?case by blast
qed

lemma clear_ban_cache_effect:
  assumes inv: "member_inv w" and ch: "chans w c = Some ch"
  shows "\<exists>M. clear_ban_cache c w = Some (w\<lparr>mships := M\<rparr>) \<and>
    (\<forall>m. M m = (if m \<in> set (locmembers ch)
       then map_option (\<lambda>x. x\<lparr>ms_flags := ms_flags x AND NOT (CHFL_BAN_SILENCED OR CHFL_BAN_CHECKED)\<rparr>) (mships w m)
       else mships w m))"
proof -
  have l: "locmembers ch = filter (local_mship w) (mems w c)"
    using inv ch by (simp add: member_inv_def locmems_def) (metis option.simps(5))
  have "distinct (mems w c)" "set (mems w c) = on_chan w c" using inv by (auto simp: member_inv_def)
  then have "distinct (locmembers ch)" "\<And>m. m \<in> set (locmembers ch) \<Longrightarrow> mships w m \<noteq> None"
    unfolding l by (auto simp: on_chan_def)
  then have "\<exists>M. foreach_safe (\<lambda>m. upd_mship m f) (locmembers ch) w = Some (w\<lparr>mships := M\<rparr>) \<and>
      (\<forall>m. M m = (if m \<in> set (locmembers ch) then map_option f (mships w m) else mships w m))" for f
    by (rule clear_each)
  then show ?thesis unfolding clear_ban_cache_def ch Option.bind.bind_lunit .
qed

text \<open>Only a local client's membership ever gets a cache flag.\<close>

definition remote_uncached :: "chan_world \<Rightarrow> bool" where
  "remote_uncached w \<longleftrightarrow> (\<forall>m x. mships w m = Some x \<longrightarrow> \<not> is_local w (ms_client x) \<longrightarrow>
     ms_flags x AND CHFL_BAN_SILENCED = 0 \<and> ms_flags x AND CHFL_BAN_CHECKED = 0)"

text \<open>After \<open>clear_ban_cache\<close> the ban lists of the channel may be anything.\<close>

lemma clear_ban_cache_ok:
  assumes inv: "member_inv w" and cache: "cache_ok cfg w" "remote_uncached w" and ch: "chans w c = Some ch"
  shows "\<exists>M. clear_ban_cache c w = Some (w\<lparr>mships := M\<rparr>) \<and>
    (\<forall>f. cache_ok cfg (w\<lparr>mships := M, chans := (chans w)(c \<mapsto> f ch)\<rparr>))"
proof -
  obtain M where M: "clear_ban_cache c w = Some (w\<lparr>mships := M\<rparr>)" "\<forall>m. M m = (if m \<in> set (locmembers ch)
       then map_option (\<lambda>x. x\<lparr>ms_flags := ms_flags x AND NOT (CHFL_BAN_SILENCED OR CHFL_BAN_CHECKED)\<rparr>) (mships w m)
       else mships w m)" using clear_ban_cache_effect[OF inv ch] by blast
  have loc: "m \<in> set (locmembers ch) \<longleftrightarrow> m \<in> on_chan w c \<and> local_mship w m" for m
  proof -
    have "locmems w c = filter (local_mship w) (mems w c)" "set (mems w c) = on_chan w c"
      using inv unfolding member_inv_def by blast+
    moreover have "locmems w c = locmembers ch" by (simp add: locmems_def ch)
    ultimately show ?thesis by (metis (lifting) filter_set mem_Collect_eq Set.filter_eq)
  qed
  have "flags_ok (banned cfg ch' u) (ms_flags x)"
    if x: "M m = Some x" "users w (ms_client x) = Some u" "((chans w)(c \<mapsto> f ch)) (ms_chptr x) = Some ch'" for m x u ch' f
  proof (cases "ms_chptr x = c")
    case True
    obtain y where y: "mships w m = Some y" "ms_chptr y = ms_chptr x" "ms_client y = ms_client x"
      using M(2) x(1) by (cases "m \<in> set (locmembers ch)") auto
    have "\<not> bit (ms_flags x) 8 \<and> \<not> bit (ms_flags x) 7"
    proof (cases "m \<in> set (locmembers ch)")
      case True
      then show ?thesis using M(2) x(1) flag_cleared(1,2) by auto
    next
      case False
      moreover have "m \<in> on_chan w c" using y True by (auto simp: on_chan_def)
      ultimately have "\<not> is_local w (ms_client y)" using loc y(1) by (simp add: local_mship_def)
      moreover have "x = y" using False M(2) x(1) y(1) by simp
      ultimately show ?thesis using cache(2) y(1) unfolding remote_uncached_def flag_bits by blast
    qed
    then show ?thesis by (simp add: flags_ok_bits)
  next
    case False
    then have "m \<notin> set (locmembers ch)" using loc M(2) x(1) by (auto simp: on_chan_def)
    then have "mships w m = Some x" using M(2) x(1) by simp
    then show ?thesis using cache(1) x False unfolding cache_ok_def by auto
  qed
  then have "cache_ok cfg (w\<lparr>mships := M, chans := (chans w)(c \<mapsto> f ch)\<rparr>)" for f
    unfolding cache_ok_def by simp
  with M(1) show ?thesis by blast
qed

definition example_ban :: ban where
  "example_ban = \<lparr>ban_len = 8, ban_name = ''evil'', ban_username = ''*'', ban_host = ''*'', ban_who = ''op'', ban_when = 1\<rparr>"

definition example_channel :: channel where
  "example_channel = \<lparr>mode = MODE_INVITEONLY, limit = 2, key = ''Key'', topic = None, topic_info = [], topic_time = 0,
     ch_members = [9], locmembers = [9], invites = [], banlist = [example_ban], exceptlist = [], invexlist = [],
     last_join_time = 0, channelts = 0\<rparr>"

definition example_config :: chan_config where
  "example_config = \<lparr>use_except = True, use_invex = True, quiet_on_ban = True, restrict_channels = False,
     oper_pass_resv = True, disable_local_channels = False, no_create_on_split = False, no_join_on_split = False,
     max_bans = 3, max_chans_per_user = 3\<rparr>"

text \<open>C16. \<open>can_join\<close> answers in this order: a ban without exception, an invite-only channel that the
  client is neither invited to nor excepted from, a key that is missing or differs, a channel
  that is full; otherwise it lets the client in. It always returns.\<close>

theorem can_join_decides:
  assumes "plain_addr u"
  shows "can_join cfg nh u c k ch = Some (
    if banned cfg ch u then ERR_BANNEDFROMCHAN
    else if mode ch AND MODE_INVITEONLY \<noteq> 0 \<and> c \<notin> set (us_invited u) \<and>
      \<not> (use_invex cfg \<and> hit_by u (invexlist ch)) then ERR_INVITEONLYCHAN
    else if key ch \<noteq> [] \<and> \<not> (\<exists>s. k = Some s \<and> s \<noteq> [] \<and> same_name (key ch) s) then ERR_BADCHANNELKEY
    else if limit ch \<noteq> 0 \<and> unat (limit ch) \<le> length (ch_members ch) then ERR_CHANNELISFULL else 0)"
  by (rule can_join_cases[OF assms])

lemma can_join_decides_witness:
  "can_join example_config (\<lambda>_. None) (example_user\<lparr>us_name := ''evil''\<rparr>) 1 (Some ''key'') example_channel = Some ERR_BANNEDFROMCHAN \<and>
   can_join example_config (\<lambda>_. None) example_user 1 (Some ''key'') example_channel = Some ERR_INVITEONLYCHAN \<and>
   can_join example_config (\<lambda>_. None) (example_user\<lparr>us_invited := [1]\<rparr>) 1 None example_channel = Some ERR_BADCHANNELKEY"
proof (intro conjI)
  have p: "plain_addr (example_user\<lparr>us_name := ''evil''\<rparr>)" "plain_addr example_user"
    "plain_addr (example_user\<lparr>us_invited := [1]\<rparr>)" by (simp_all add: plain_addr_def example_user_def)
  have b: "banned example_config example_channel (example_user\<lparr>us_name := ''evil''\<rparr>)"
    "\<not> banned example_config example_channel example_user"
    "\<not> banned example_config example_channel (example_user\<lparr>us_invited := [1]\<rparr>)" by code_simp+
  have m: "mode example_channel AND MODE_INVITEONLY \<noteq> 0" by code_simp
  show "can_join example_config (\<lambda>_. None) (example_user\<lparr>us_name := ''evil''\<rparr>) 1 (Some ''key'') example_channel = Some ERR_BANNEDFROMCHAN"
    using can_join_decides[OF p(1), of example_config "\<lambda>_. None" 1 "Some ''key''" example_channel] b(1) by simp
  show "can_join example_config (\<lambda>_. None) example_user 1 (Some ''key'') example_channel = Some ERR_INVITEONLYCHAN"
    using can_join_decides[OF p(2), of example_config "\<lambda>_. None" 1 "Some ''key''" example_channel] b(2) m
    by (simp add: example_user_def example_channel_def hit_by_def)
  show "can_join example_config (\<lambda>_. None) (example_user\<lparr>us_invited := [1]\<rparr>) 1 None example_channel = Some ERR_BADCHANNELKEY"
    using can_join_decides[OF p(3), of example_config "\<lambda>_. None" 1 None example_channel] b(3)
    by (simp add: example_channel_def)
qed

text \<open>C22. Under \<open>cache_ok\<close>, which says that the cache flags of every membership agree with the ban
  lists, \<open>can_send\<close> gives the answer that it would give without them and keeps \<open>cache_ok\<close>: a
  reserved name bars a local client that is not exempt, then operators and voices may speak, then
  bans (when they silence), moderation and \<open>+n\<close> decide.\<close>

theorem can_send_ignores_cache:
  assumes "chan_inv w" "cache_ok cfg w" "plain_addr u" "users w who = Some u" "IsClient u"
    "chans w c = Some ch" "resvs nm (chan_hash w) R"
  shows "\<exists>w'. can_send cfg nh c who w = Some (
      if MyClient u \<and> resv_barred cfg u nm R (chname (chan_hash w) c) then CAN_SEND_NO
      else may_speak cfg ch u (map_option (\<lambda>m. ms_flags (the (mships w m)))
             (the (find_channel_link who c w))), w') \<and> cache_ok cfg w'"
  using can_send_answer[of w cfg u who c ch nm R nh] assms unfolding chan_inv_def by blast

lemma can_send_ignores_cache_witness:
  "\<exists>w u ch. chan_inv w \<and> cache_ok example_config w \<and> chans w 1 = Some ch \<and>
    (\<exists>w'. can_send example_config (\<lambda>_. None) 1 5 w = Some (
      if MyClient u \<and> resv_barred example_config u (resv_name no_objects) {} (chname (chan_hash w) 1) then CAN_SEND_NO
      else may_speak example_config ch u (map_option (\<lambda>m. ms_flags (the (mships w m)))
             (the (find_channel_link 5 1 w))), w'))"
proof -
  obtain w ch where w: "chan_reach True 3 w" "chans w 1 = Some ch"
    "mships w = [9 \<mapsto> \<lparr>ms_client = 5, ms_chptr = 1, ms_flags = CHFL_CHANOP\<rparr>]"
    "users w 5 = Some (example_user\<lparr>us_channel := [9]\<rparr>)" "resvs (resv_name no_objects) (chan_hash w) {}"
    using example_reachable by blast
  have inv: "chan_inv w" by (rule chan_reach_inv[OF w(1)]) simp
  have f: "flags_ok b CHFL_CHANOP" for b by (simp add: flags_ok_bits CHFL_CHANOP_def)
  have cache: "cache_ok example_config w" by (simp add: cache_ok_def w(3) f)
  have p: "plain_addr (example_user\<lparr>us_channel := [9]\<rparr>)" "IsClient (example_user\<lparr>us_channel := [9]\<rparr>)"
    by (simp_all add: plain_addr_def IsClient_def example_user_def)
  show ?thesis
    using can_send_ignores_cache[OF inv cache p(1) w(4) p(2) w(2) w(5), of "\<lambda>_. None"] inv cache w(2) by blast
qed

text \<open>Finding: the cache outlives a change of nick. The check of the old name is kept.\<close>

lemma nick_change_breaks_cache:
  "\<exists>w w'. cache_ok example_config w \<and> set_nick 5 ''evil'' w = Some w' \<and> \<not> cache_ok example_config w'"
proof -
  define w where "w = (no_channels no_objects)\<lparr>chans := [1 \<mapsto> example_channel], users := [5 \<mapsto> example_user],
    mships := [9 \<mapsto> \<lparr>ms_client = 5, ms_chptr = 1, ms_flags = CHFL_BAN_CHECKED\<rparr>]\<rparr>"
  define w' where "w' = w\<lparr>users := [5 \<mapsto> example_user\<lparr>us_name := ''evil''\<rparr>]\<rparr>"
  have f: "flags_ok False CHFL_BAN_CHECKED" "\<not> flags_ok True CHFL_BAN_CHECKED" by code_simp+
  have b: "\<not> banned example_config example_channel example_user"
    "banned example_config example_channel (example_user\<lparr>us_name := ''evil''\<rparr>)" by code_simp+
  have "cache_ok example_config w" using f b by (simp add: cache_ok_def w_def)
  moreover have "set_nick 5 ''evil'' w = Some w'" by (simp add: set_nick_def upd_user_def w_def w'_def)
  moreover have "\<not> cache_ok example_config w'"
    using f b unfolding cache_ok_def by (intro notI) (drule spec[of _ 9], simp add: w'_def w_def)
  ultimately show ?thesis by blast
qed

end
