(* ===== verification/Join.thy ===== *)
theory Join
  imports Chan_Access Irc_String
begin

text \<open>
  \<^verbatim>\<open>src/modules/core/m_join.c\<close> and \<^verbatim>\<open>m_part.c\<close>: JOIN and PART of a local client.

  \<open>targets\<close>, \<open>ntargets\<close> and \<open>join_0\<close> are the fields of \<open>join_state\<close>, as are the client's spam
  bot counters and the replies and protocol messages sent, in order. A key is the offset of its
  first character in the buffer of the key parameter, which \<open>strtoken\<close> cuts. The block heaps are
  the parameters \<open>alloc\<close> and \<open>ms_alloc\<close>: the address they give out in a state.
\<close>

subsection \<open>The state\<close>

datatype reply =
  Numeric nat string
| Cburst string
| Part ptr
| Sjoin_new ptr
| Sjoin ptr

record join_target =
  t_chptr :: "ptr option"
  t_key :: "nat option"
  t_flags :: u32

record join_state =
  js_world :: chan_world
  js_targets :: "join_target list"
  js_join_0 :: int
  js_error_reported :: bool
  js_spam :: spam_state
  js_out :: "reply list"

record join_env =
  je_cfg :: chan_config
  je_resolver :: resolver
  je_splitmode :: bool
  je_hub :: bool
  je_uplink_ll :: bool
  je_now :: time_t
  je_spam_num :: int
  je_spam_time :: int
  je_alloc :: "chan_world \<Rightarrow> ptr"
  je_ms_alloc :: "chan_world \<Rightarrow> ptr"

definition ERR_NOSUCHCHANNEL :: nat where "ERR_NOSUCHCHANNEL = 403"
definition ERR_TOOMANYCHANNELS :: nat where "ERR_TOOMANYCHANNELS = 405"
definition ERR_UNAVAILRESOURCE :: nat where "ERR_UNAVAILRESOURCE = 437"
definition ERR_NOTONCHANNEL :: nat where "ERR_NOTONCHANNEL = 442"
definition ERR_NEEDMOREPARAMS :: nat where "ERR_NEEDMOREPARAMS = 461"
definition ERR_BADCHANNAME :: nat where "ERR_BADCHANNAME = 479"

definition say :: "reply \<Rightarrow> join_state \<Rightarrow> join_state" where
  "say r s = s\<lparr>js_out := js_out s @ [r]\<rparr>"

subsection \<open>The targets\<close>

text \<open>\<open>for (i = ntargets - 1; i >= 0; i--) if (targets[i].chptr == chptr) return i; return 0;\<close>\<close>

fun target_scan :: "ptr \<Rightarrow> join_target list \<Rightarrow> nat \<Rightarrow> nat" where
  "target_scan c ts 0 = 0"
| "target_scan c ts (Suc i) = (if t_chptr (ts ! i) = Some c then i else target_scan c ts i)"

definition is_target :: "ptr \<Rightarrow> join_target list \<Rightarrow> nat" where
  "is_target c ts = target_scan c ts (length ts)"

text \<open>\<open>key = (key) ? strtoken(&p2, keys, ",") : NULL\<close>: the new key and the cut buffer.\<close>

definition key_step :: "nat option \<Rightarrow> string \<Rightarrow> nat option \<times> string" where
  "key_step k keys =
     (case k of
        None \<Rightarrow> (None, keys)
      | Some _ \<Rightarrow>
          (case strtoken None (Some keys) '','' of
             (None, _) \<Rightarrow> (None, keys)
           | (Some t, _) \<Rightarrow>
               let lead = takeWhile (\<lambda>c. c = CHR '','') keys
               in (Some (length lead), lead @ t)))"

definition add_target :: "ptr option \<Rightarrow> nat option \<Rightarrow> u32 \<Rightarrow> join_state \<Rightarrow> join_state" where
  "add_target c k fl s = s\<lparr>js_targets := js_targets s @ [\<lparr>t_chptr = c, t_key = k, t_flags = fl\<rparr>]\<rparr>"

definition too_many_channels :: "chan_config \<Rightarrow> user \<Rightarrow> bool" where
  "too_many_channels cfg u \<longleftrightarrow> length (us_channel u) \<ge> max_chans_per_user cfg \<and>
     (\<not> us_oper u \<or> length (us_channel u) \<ge> max_chans_per_user cfg * 3)"

text \<open>\<open>chptr\<close> and \<open>flags\<close> once the channel is known to exist or may be created: the end of the
  loop body.\<close>

definition keep_target :: "nat option \<Rightarrow> ptr \<Rightarrow> u32 \<Rightarrow> join_state \<Rightarrow> join_state" where
  "keep_target k c fl s = (if is_target c (js_targets s) \<noteq> 0 then s else add_target (Some c) k fl s)"

definition create_target :: "join_env \<Rightarrow> user \<Rightarrow> nat option \<Rightarrow> string \<Rightarrow> join_state \<Rightarrow> join_state option" where
  "create_target e u k chan s =
     (if je_splitmode e \<and> \<not> us_oper u \<and> deref chan \<noteq> CHR ''&'' \<and>
         (no_create_on_split (je_cfg e) \<or> no_join_on_split (je_cfg e))
      then Some (say (Numeric ERR_UNAVAILRESOURCE chan) s)
      else if \<not> je_hub e \<and> deref chan \<noteq> CHR ''&'' \<and> je_uplink_ll e then Some (say (Cburst chan) s)
      else Option.bind (get_or_create_channel (Some chan) (je_now e) (je_alloc e (js_world s)) (js_world s))
        (\<lambda>(r, w).
          let s = s\<lparr>js_world := w\<rparr>
          in case r of
               None \<Rightarrow> Some (say (Numeric ERR_UNAVAILRESOURCE chan) s)
             | Some (c, _) \<Rightarrow> Some (keep_target k c CHFL_CHANOP s)))"

definition found_target :: "join_env \<Rightarrow> user \<Rightarrow> nat option \<Rightarrow> string \<Rightarrow> ptr \<Rightarrow> join_state \<Rightarrow> join_state option" where
  "found_target e u k chan c s =
     (if je_splitmode e \<and> \<not> us_oper u \<and> deref chan \<noteq> CHR ''&'' \<and> no_join_on_split (je_cfg e)
      then Some (say (Numeric ERR_UNAVAILRESOURCE chan) s)
      else map_option (\<lambda>ch. keep_target k c (if ch_members ch = [] then CHFL_CHANOP else 0) s)
        (chans (js_world s) c))"

definition build_step ::
  "join_env \<Rightarrow> ptr \<Rightarrow> nat option \<Rightarrow> string \<Rightarrow> join_state \<Rightarrow> join_state option" where
  "build_step e who k chan s =
     Option.bind (users (js_world s) who) (\<lambda>u.
       if \<not> check_channel_name chan then Some (say (Numeric ERR_BADCHANNAME chan) s)
       else if deref chan = CHR ''0'' \<and> c_atoi chan = 0 then
         let s = add_target None None 0 s in Some (s\<lparr>js_join_0 := int (length (js_targets s))\<rparr>)
       else if \<not> IsChanPrefix (deref chan) then Some (say (Numeric ERR_NOSUCHCHANNEL chan) s)
       else if disable_local_channels (je_cfg e) \<and> deref chan = CHR ''&''
       then Some (say (Numeric ERR_NOSUCHCHANNEL chan) s)
       else if length chan > CHANNELLEN then Some (say (Numeric ERR_BADCHANNAME chan) s)
       else Option.bind (resv_blocks (je_cfg e) u chan (js_world s)) (\<lambda>(juped, w).
         let s = s\<lparr>js_world := w\<rparr>
         in if juped then Some (say (Numeric ERR_BADCHANNAME chan) s)
            else if too_many_channels (je_cfg e) u then
              Some ((if js_error_reported s then s else say (Numeric ERR_TOOMANYCHANNELS chan) s)
                    \<lparr>js_error_reported := True\<rparr>)
            else Option.bind (hash_find_channel chan (chan_hash w)) (\<lambda>(r, h).
              let s = s\<lparr>js_world := w\<lparr>chan_hash := h\<rparr>\<rparr>
              in case r of
                   Some c \<Rightarrow> found_target e u k chan c s
                 | None \<Rightarrow> create_target e u k chan s)))"

fun build_loop ::
  "join_env \<Rightarrow> ptr \<Rightarrow> string list \<Rightarrow> nat option \<Rightarrow> string \<Rightarrow> join_state \<Rightarrow> (string \<times> join_state) option" where
  "build_loop e who [] k keys s = Some (keys, s)"
| "build_loop e who (chan # cs) k keys s =
     Option.bind (build_step e who k chan s) (\<lambda>s.
       case key_step k keys of (k, keys) \<Rightarrow> build_loop e who cs k keys s)"

text \<open>\<open>build_target_list\<close>; the tokens of the channel list are those that the loop's \<open>strtoken\<close>
  calls give. A NULL \<open>keys\<close> makes every key NULL.\<close>

definition build_target_list ::
  "join_env \<Rightarrow> ptr \<Rightarrow> string \<Rightarrow> string option \<Rightarrow> join_state \<Rightarrow> (string \<times> join_state) option" where
  "build_target_list e who chs keys s =
     Option.bind (strtoken_calls (Suc (length chs)) None (Some chs) '','') (\<lambda>toks.
       build_loop e who toks (map_option (\<lambda>_. 0) keys) (case keys of None \<Rightarrow> [] | Some ks \<Rightarrow> ks)
         (s\<lparr>js_targets := [], js_error_reported := False, js_join_0 := - 1\<rparr>))"

subsection \<open>Leaving all channels\<close>

definition spam_check :: "join_env \<Rightarrow> bool \<Rightarrow> join_state \<Rightarrow> join_state" where
  "spam_check e joining s =
     s\<lparr>js_spam := snd (check_spambot_warning (je_spam_num e) (je_spam_time e) (je_now e) joining (js_spam s))\<rparr>"

definition leave_step :: "join_env \<Rightarrow> ptr \<Rightarrow> join_state \<Rightarrow> join_state option" where
  "leave_step e m s =
     Option.bind (mships (js_world s) m) (\<lambda>x.
       if int (is_target (ms_chptr x) (js_targets s)) < js_join_0 s
       then map_option (\<lambda>w. (say (Part (ms_chptr x)) s)\<lparr>js_world := w\<rparr>)
              (remove_user_from_channel (je_hub e) m (js_world s))
       else Some s)"

definition do_join_0 :: "join_env \<Rightarrow> ptr \<Rightarrow> join_state \<Rightarrow> join_state option" where
  "do_join_0 e who s =
     Option.bind (users (js_world s) who) (\<lambda>u.
       foreach_safe (leave_step e) (us_channel u)
         (if us_channel u \<noteq> [] \<and> us_local u \<and> \<not> us_oper u then spam_check e False s else s))"

subsection \<open>JOIN\<close>

definition key_text :: "nat option \<Rightarrow> string \<Rightarrow> string option" where
  "key_text k keys = map_option (\<lambda>i. drop i keys) k"

text \<open>One turn of the loop of \<open>m_join\<close>. A target without a channel would be a NULL dereference.\<close>

definition join_one :: "join_env \<Rightarrow> ptr \<Rightarrow> string \<Rightarrow> join_target \<Rightarrow> join_state \<Rightarrow> join_state option" where
  "join_one e who keys t s =
     Option.bind (users (js_world s) who) (\<lambda>u.
     Option.bind (t_chptr t) (\<lambda>c.
     Option.bind (find_channel_link who c (js_world s)) (\<lambda>link.
     if link \<noteq> None then Some s else
     let s = (if us_oper u then s else spam_check e True s) in
     Option.bind (chans (js_world s) c) (\<lambda>ch.
     Option.bind (can_join (je_cfg e) (je_resolver e) u c (key_text (t_key t) keys) ch) (\<lambda>i.
     if i \<noteq> 0 then Some (say (Numeric i (chname (chan_hash (js_world s)) c)) s) else
     Option.bind (add_user_to_channel c who (t_flags t) (je_ms_alloc e (js_world s)) (js_world s)) (\<lambda>w.
     Option.bind (if t_flags t AND CHFL_CHANOP \<noteq> 0
         then upd_chan c (\<lambda>ch. ch\<lparr>channelts := je_now e,
                                  mode := mode ch OR MODE_TOPICLIMIT OR MODE_NOPRIVMSGS\<rparr>) w
         else Some w) (\<lambda>w.
     Option.bind (del_invite c who w) (\<lambda>w.
       let s = (say (if t_flags t AND CHFL_CHANOP \<noteq> 0 then Sjoin_new c else Sjoin c) s)\<lparr>js_world := w\<rparr>
       in Some (s\<lparr>js_spam := (js_spam s)\<lparr>sp_last_join_time := je_now e\<rparr>\<rparr>)))))))))"

definition m_join :: "join_env \<Rightarrow> ptr \<Rightarrow> string \<Rightarrow> string option \<Rightarrow> join_state \<Rightarrow> join_state option" where
  "m_join e who chs keys s =
     (if chs = [] then Some (say (Numeric ERR_NEEDMOREPARAMS ''JOIN'') s)
      else Option.bind (build_target_list e who chs keys s) (\<lambda>(keys, s).
        let a = (if js_join_0 s \<ge> 0 then nat (js_join_0 s) else 0)
        in Option.bind (if a \<noteq> 0 then do_join_0 e who s else Some s) (\<lambda>s.
             foreach_safe (join_one e who keys) (drop a (js_targets s)) s)))"

subsection \<open>PART\<close>

definition part_one_client :: "join_env \<Rightarrow> ptr \<Rightarrow> string \<Rightarrow> join_state \<Rightarrow> join_state option" where
  "part_one_client e who name s =
     Option.bind (hash_find_channel name (chan_hash (js_world s))) (\<lambda>(r, h).
       let s = s\<lparr>js_world := (js_world s)\<lparr>chan_hash := h\<rparr>\<rparr>
       in case r of
            None \<Rightarrow> Some (say (Numeric ERR_NOSUCHCHANNEL name) s)
          | Some c \<Rightarrow>
              Option.bind (users (js_world s) who) (\<lambda>u.
              Option.bind (find_channel_link who c (js_world s)) (\<lambda>link.
                case link of
                  None \<Rightarrow> Some (say (Numeric ERR_NOTONCHANNEL name) s)
                | Some m \<Rightarrow>
                    let s = (if us_local u \<and> \<not> us_oper u then spam_check e False s else s)
                    in map_option (\<lambda>w. (say (Part c) s)\<lparr>js_world := w\<rparr>)
                         (remove_user_from_channel (je_hub e) m (js_world s)))))"

definition m_part :: "join_env \<Rightarrow> ptr \<Rightarrow> string \<Rightarrow> join_state \<Rightarrow> join_state option" where
  "m_part e who chs s =
     (if chs = [] then Some (say (Numeric ERR_NEEDMOREPARAMS ''PART'') s)
      else Option.bind (strtoken_calls (Suc (length chs)) None (Some chs) '','') (\<lambda>toks.
        foreach_safe (part_one_client e who) toks s))"

subsection \<open>What no operation changes of a client\<close>

definition client_core :: "chan_world \<Rightarrow> ptr \<Rightarrow> user option" where
  "client_core w u = map_option (\<lambda>x. x\<lparr>us_channel := [], us_invited := []\<rparr>) (users w u)"

lemma foreach_safe_keeps:
  assumes "\<And>x s s'. f x s = Some s' \<Longrightarrow> g s' = g s" "foreach_safe f xs s = Some s'"
  shows "g s' = g s"
  using assms(2) by (induction xs arbitrary: s) (auto simp: bind_eq_Some_conv assms(1))

lemma upd_core:
  "upd_user u f w = Some w' \<Longrightarrow> (\<And>x. (f x)\<lparr>us_channel := [], us_invited := []\<rparr> = x\<lparr>us_channel := [], us_invited := []\<rparr>) \<Longrightarrow>
   client_core w' = client_core w"
  "upd_chan c g w = Some w' \<Longrightarrow> client_core w' = client_core w"
  by (auto simp: upd_user_def upd_chan_def client_core_def fun_eq_iff)

lemma del_invite_core: "del_invite c u w = Some w' \<Longrightarrow> client_core w' = client_core w"
  by (auto simp: del_invite_def bind_eq_Some_conv dest!: upd_core)

lemma destroy_channel_core: "destroy_channel hub c w = Some w' \<Longrightarrow> client_core w' = client_core w"
proof -
  assume r: "destroy_channel hub c w = Some w'"
  have up: "upd_chan c g a = Some b \<Longrightarrow> users b = users a" for g a b by (auto simp: upd_chan_def)
  have "\<exists>(ch :: channel) w1. foreach_safe (del_invite c) (invites ch) w = Some w1 \<and> users w' = users w1"
    using r unfolding destroy_channel_def bind_eq_Some_conv Let_def
    by (elim exE conjE) (intro exI conjI, assumption, auto dest: up split: if_splits)
  then obtain ch :: channel and w1 where w1: "foreach_safe (del_invite c) (invites ch) w = Some w1" "users w' = users w1" by blast
  have "client_core w1 = client_core w" by (rule foreach_safe_keeps[OF del_invite_core w1(1)])
  then show ?thesis by (simp add: client_core_def w1(2) fun_eq_iff)
qed

lemma remove_user_core: "remove_user_from_channel hub m w = Some w' \<Longrightarrow> client_core w' = client_core w"
proof -
  assume r: "remove_user_from_channel hub m w = Some w'"
  then obtain x us where x: "mships w m = Some x" "users w (ms_client x) = Some us"
    by (auto simp: remove_user_from_channel_def bind_eq_Some_conv)
  with r obtain ch ms loc uch where f: "chans w (ms_chptr x) = Some ch" "dl_remove m (ch_members ch) = Some ms"
    "(if us_local us then dl_remove m (locmembers ch) else Some (locmembers ch)) = Some loc"
    "dl_remove m (us_channel us) = Some uch"
    unfolding remove_user_from_channel_def bind_eq_Some_conv by auto
  define w1 where "w1 = w\<lparr>chans := (chans w)(ms_chptr x \<mapsto> ch\<lparr>ch_members := ms, locmembers := loc\<rparr>),
    users := (users w)(ms_client x \<mapsto> us\<lparr>us_channel := uch\<rparr>), mships := (mships w)(m := None)\<rparr>"
  have "(if ms = [] then destroy_channel hub (ms_chptr x) w1 else Some w1) = Some w'"
    using r unfolding remove_user_from_channel_def x f Let_def Option.bind.bind_lunit w1_def .
  then have w1: "users w (ms_client x) = Some us" "users w1 = (users w)(ms_client x \<mapsto> us\<lparr>us_channel := uch\<rparr>)"
    "w' = w1 \<or> (\<exists>c. destroy_channel hub c w1 = Some w')"
    using x by (auto simp: w1_def split: if_splits)
  have "client_core w1 = client_core w" using w1(1,2) by (auto simp: client_core_def fun_eq_iff)
  then show ?thesis using w1(3) destroy_channel_core by auto
qed

lemma add_user_core: "add_user_to_channel c u fl m w = Some w' \<Longrightarrow> client_core w' = client_core w"
  by (auto simp: add_user_to_channel_def bind_eq_Some_conv upd_chan_def upd_user_def client_core_def fun_eq_iff)

subsection \<open>Building the targets\<close>

definition finite_heap :: "chan_world \<Rightarrow> bool" where
  "finite_heap w \<longleftrightarrow> finite (dom (chans w)) \<and> finite (dom (mships w))"

text \<open>The block heaps hand out blocks that are not in use.\<close>

definition fresh_blocks :: "join_env \<Rightarrow> bool" where
  "fresh_blocks e \<longleftrightarrow> (\<forall>w. finite_heap w \<longrightarrow> chans w (je_alloc e w) = None \<and> mships w (je_ms_alloc e w) = None)"

text \<open>The targets from \<open>join_0\<close> on are those that the loop of \<open>m_join\<close> joins.\<close>

definition first_target :: "join_state \<Rightarrow> nat" where
  "first_target s = (if js_join_0 s \<ge> 0 then nat (js_join_0 s) else 0)"

definition targets_ok :: "join_state \<Rightarrow> bool" where
  "targets_ok s \<longleftrightarrow> first_target s \<le> length (js_targets s) \<and>
     (\<forall>i < length (js_targets s). first_target s \<le> i \<longrightarrow>
        (\<exists>c. t_chptr (js_targets s ! i) = Some c \<and> chans (js_world s) c \<noteq> None))"

definition build_ok :: "ptr \<Rightarrow> (ptr \<Rightarrow> string) \<Rightarrow> ptr set \<Rightarrow> (ptr \<Rightarrow> user option) \<Rightarrow> join_state \<Rightarrow> bool" where
  "build_ok who nm R U s \<longleftrightarrow> chan_inv (js_world s) \<and> finite_heap (js_world s) \<and>
     resvs nm (chan_hash (js_world s)) R \<and> users (js_world s) = U \<and> targets_ok s"

lemma targets_ok_say: "targets_ok (say r s) = targets_ok s"
  by (simp add: targets_ok_def first_target_def say_def)

lemma targets_ok_cong:
  "js_targets s' = js_targets s \<Longrightarrow> js_join_0 s' = js_join_0 s \<Longrightarrow> dom (chans (js_world s)) \<subseteq> dom (chans (js_world s')) \<Longrightarrow>
   targets_ok s \<Longrightarrow> targets_ok s'"
  unfolding targets_ok_def first_target_def by (metis domIff subsetD)

lemma targets_ok_world:
  "dom (chans (js_world s)) \<subseteq> dom (chans w) \<Longrightarrow> targets_ok s \<Longrightarrow> targets_ok (s\<lparr>js_world := w\<rparr>)"
  "targets_ok s \<Longrightarrow> targets_ok (s\<lparr>js_error_reported := q\<rparr>)"
  "targets_ok s \<Longrightarrow> targets_ok (s\<lparr>js_spam := sp\<rparr>)"
  by (rule targets_ok_cong[of _ s]; simp)+

lemma targets_ok_add:
  "targets_ok s \<Longrightarrow> chans (js_world s) c \<noteq> None \<Longrightarrow> targets_ok (add_target (Some c) k fl s)"
  by (auto simp: targets_ok_def first_target_def add_target_def nth_append less_Suc_eq)

lemma targets_ok_keep:
  "targets_ok s \<Longrightarrow> chans (js_world s) c \<noteq> None \<Longrightarrow> targets_ok (keep_target k c fl s)"
  by (simp add: keep_target_def targets_ok_add)

lemma targets_ok_zero:
  "targets_ok ((add_target None None 0 s)\<lparr>js_join_0 := int (Suc (length (js_targets s)))\<rparr>)"
proof -
  have "nat (1 + int (length (js_targets s))) = Suc (length (js_targets s))" by simp
  then show ?thesis by (simp add: targets_ok_def first_target_def add_target_def)
qed

lemma keep_target_fields [simp]:
  "js_world (keep_target k c fl s) = js_world s" "js_world (say r s) = js_world s"
  "js_world (add_target c' k fl s) = js_world s"
  by (simp_all add: keep_target_def add_target_def say_def)

lemma found_target_ok:
  assumes "build_ok who nm R U s" "chans (js_world s) c \<noteq> None"
  shows "\<exists>s'. found_target e u k chan c s = Some s' \<and> build_ok who nm R U s'"
proof -
  obtain ch where "chans (js_world s) c = Some ch" using assms(2) by blast
  moreover have "build_ok who nm R U (keep_target k c fl s)" for fl
    using assms targets_ok_keep by (simp add: build_ok_def)
  moreover have "build_ok who nm R U (say r s)" for r using assms(1) by (simp add: build_ok_def targets_ok_say)
  ultimately show ?thesis by (simp add: found_target_def)
qed

lemma create_target_ok:
  assumes ok: "build_ok who nm R U s" and fresh: "fresh_blocks e" and n: "chan \<noteq> []" "length chan \<le> CHANNELLEN"
  shows "\<exists>s'. create_target e u k chan s = Some s' \<and> build_ok who nm R U s'"
proof -
  let ?w = "js_world s"
  have inv: "chan_inv ?w" and fin: "finite_heap ?w" and R: "resvs nm (chan_hash ?w) R" and U: "users ?w = U"
    and t: "targets_ok s" using ok by (auto simp: build_ok_def)
  have "chans ?w (je_alloc e ?w) = None" using fresh fin by (simp add: fresh_blocks_def)
  then obtain c new w' where g: "get_or_create_channel (Some chan) (je_now e) (je_alloc e ?w) ?w = Some (Some (c, new), w')"
    "chan_inv w'" "dom (chans w') = insert c (dom (chans ?w))" "mships w' = mships ?w" "users w' = users ?w"
    using get_or_create_inv[OF inv _ n] by blast
  have R': "resvs nm (chan_hash w') R" by (rule get_or_create_resvs[OF g(1) R])
  have fin': "finite_heap w'" using fin g(3,4) by (simp add: finite_heap_def)
  have "targets_ok (s\<lparr>js_world := w'\<rparr>)" by (rule targets_ok_cong[OF _ _ _ t]) (use g(3) in auto)
  moreover have "chans w' c \<noteq> None" using g(3) by auto
  ultimately have "targets_ok (keep_target k c CHFL_CHANOP (s\<lparr>js_world := w'\<rparr>))" by (intro targets_ok_keep) simp_all
  then show ?thesis
    using ok g(1,2,5) R' fin' U by (auto simp: create_target_def build_ok_def targets_ok_say)
qed

lemma resv_blocks_frame:
  "resv_blocks cfg u n w = Some (b, w') \<Longrightarrow> \<exists>t. w' = w\<lparr>chan_hash := (chan_hash w)\<lparr>resvchannelTable := t\<rparr>\<rparr>"
proof -
  assume r: "resv_blocks cfg u n w = Some (b, w')"
  have "\<exists>t. w = w\<lparr>chan_hash := (chan_hash w)\<lparr>resvchannelTable := t\<rparr>\<rparr>"
    by (rule exI[of _ "resvchannelTable (chan_hash w)"]) simp
  with r show ?thesis
    by (auto simp: resv_blocks_def hash_find_resv_def split: if_splits)
qed

lemma chan_inv_resv:
  assumes "chan_inv w" "w' = w\<lparr>chan_hash := (chan_hash w)\<lparr>resvchannelTable := t\<rparr>\<rparr>"
  shows "chan_inv w'"
proof -
  have "same_mems w w'" "same_invs w w'"
    using chans_views(1-3)[of w' w] users_views(1-3)[of w' w] assms(2) by (simp_all add: same_defs)
  moreover have "table_inv w' = table_inv w" using assms(2) by (simp add: table_inv_def channels_def)
  ultimately show ?thesis
    using assms(1) member_inv_same[of w w'] invite_inv_same[of w w'] by (simp add: chan_inv_def)
qed

lemma build_step_ok:
  assumes ok: "build_ok who nm R U s" and u: "U who \<noteq> None" and fresh: "fresh_blocks e"
  shows "\<exists>s'. build_step e who k chan s = Some s' \<and> build_ok who nm R U s'"
proof -
  obtain us where us: "users (js_world s) who = Some us" using ok u by (auto simp: build_ok_def)
  show ?thesis
  proof (cases "check_channel_name chan \<and> \<not> (deref chan = CHR ''0'' \<and> c_atoi chan = 0) \<and> IsChanPrefix (deref chan) \<and>
      \<not> (disable_local_channels (je_cfg e) \<and> deref chan = CHR ''&'') \<and> length chan \<le> CHANNELLEN")
    case False
    have z: "build_ok who nm R U ((add_target None None 0 s)\<lparr>js_join_0 := int (Suc (length (js_targets s)))\<rparr>)"
      using ok targets_ok_zero[of s] by (simp add: build_ok_def)
    have "length (js_targets (add_target None None 0 s)) = Suc (length (js_targets s))" by (simp add: add_target_def)
    then show ?thesis using False ok z by (auto simp: build_step_def us build_ok_def targets_ok_say Let_def)
  next
    case True
    have "\<not> IsChanPrefix NUL" by code_simp
    then have n: "chan \<noteq> []" using True by (metis deref.simps(1))
    obtain b h where b: "resv_blocks (je_cfg e) us chan (js_world s) = Some (b, (js_world s)\<lparr>chan_hash := h\<rparr>)" "resvs nm h R"
      using resv_blocks_spec ok unfolding build_ok_def by blast
    let ?w1 = "(js_world s)\<lparr>chan_hash := h\<rparr>"
    obtain t where t: "?w1 = (js_world s)\<lparr>chan_hash := (chan_hash (js_world s))\<lparr>resvchannelTable := t\<rparr>\<rparr>"
      using resv_blocks_frame[OF b(1)] by blast
    have inv1: "chan_inv ?w1" using chan_inv_resv[OF _ t] ok by (simp add: build_ok_def)
    obtain r h2 where rh: "hash_find_channel chan h = Some (r, h2)"
      using channel_reg.repr_look inv1 unfolding chan_inv_def table_inv_def by fastforce
    let ?s2 = "s\<lparr>js_world := (js_world s)\<lparr>chan_hash := h2\<rparr>\<rparr>"
    have f: "chan_inv (?w1\<lparr>chan_hash := h2\<rparr>)" "case r of None \<Rightarrow> True | Some p \<Rightarrow> p \<in> dom (chans ?w1)"
      using chan_inv_found[OF inv1, of chan r h2] rh by (auto split: option.splits)
    have R2: "resvs nm h2 R" using b(2) rh by (auto simp: resvs_def hash_find_channel_def)
    have ok1: "build_ok who nm R U (s\<lparr>js_world := ?w1\<rparr>)"
      using ok inv1 b(2) by (simp add: build_ok_def finite_heap_def targets_ok_world)
    have ok2: "build_ok who nm R U ?s2"
      using ok f(1) R2 by (simp add: build_ok_def finite_heap_def targets_ok_world)
    have said: "build_ok who nm R U s' \<Longrightarrow> build_ok who nm R U (say m s')"
      "build_ok who nm R U s' \<Longrightarrow> build_ok who nm R U (s'\<lparr>js_error_reported := q\<rparr>)" for s' m q
      by (simp_all add: build_ok_def targets_ok_say targets_ok_world)
    have last: "\<exists>s'. (case r of Some c \<Rightarrow> found_target e us k chan c ?s2 | None \<Rightarrow> create_target e us k chan ?s2) = Some s' \<and>
        build_ok who nm R U s'"
    proof (cases r)
      case None
      then show ?thesis using create_target_ok[OF ok2 fresh n] True by simp
    next
      case (Some c)
      then have "chans (js_world ?s2) c \<noteq> None" using f(2) by auto
      then show ?thesis using found_target_ok[OF ok2] Some by simp
    qed
    show ?thesis
      using True last said ok1
      by (auto simp: build_step_def us b(1) rh Let_def split: option.splits)
  qed
qed

lemma build_loop_ok:
  "build_ok who nm R U s \<Longrightarrow> U who \<noteq> None \<Longrightarrow> fresh_blocks e \<Longrightarrow>
   \<exists>keys' s'. build_loop e who cs k keys s = Some (keys', s') \<and> build_ok who nm R U s'"
proof (induction cs arbitrary: k keys s)
  case (Cons chan cs)
  obtain s1 where s1: "build_step e who k chan s = Some s1" "build_ok who nm R U s1"
    using build_step_ok[OF Cons.prems] by blast
  obtain k' keys1 where "key_step k keys = (k', keys1)" by fastforce
  then show ?case using s1 Cons.IH[OF s1(2) Cons.prems(2,3), of k' keys1] by simp
qed simp

subsection \<open>Leaving and joining\<close>

definition known_client :: "ptr \<Rightarrow> chan_world \<Rightarrow> bool" where
  "known_client who w \<longleftrightarrow> (\<exists>u. users w who = Some u \<and> IsClient u \<and> plain_addr u)"

lemma known_client_core: "client_core w' = client_core w \<Longrightarrow> known_client who w \<Longrightarrow> known_client who w'"
proof -
  assume c: "client_core w' = client_core w" and "known_client who w"
  then obtain u where u: "users w who = Some u" "IsClient u" "plain_addr u" by (auto simp: known_client_def)
  have "client_core w' who = client_core w who" using c by simp
  then obtain u' where u': "users w' who = Some u'" "u'\<lparr>us_channel := [], us_invited := []\<rparr> = u\<lparr>us_channel := [], us_invited := []\<rparr>"
    using u(1) by (auto simp: client_core_def)
  have "us_status u' = us_status u" "us_sockhost u' = us_sockhost u"
    using arg_cong[OF u'(2), of us_status] arg_cong[OF u'(2), of us_sockhost] by simp_all
  with u u'(1) show ?thesis by (auto simp: known_client_def IsClient_def plain_addr_def)
qed

definition join_ok :: "ptr \<Rightarrow> join_state \<Rightarrow> bool" where
  "join_ok who s \<longleftrightarrow> chan_inv (js_world s) \<and> finite_heap (js_world s) \<and> known_client who (js_world s) \<and> targets_ok s"

lemma target_scan_ge: "i < n \<Longrightarrow> t_chptr (ts ! i) = Some c \<Longrightarrow> i \<le> target_scan c ts n"
  by (induction n) (auto simp: less_Suc_eq)

lemma is_target_ge: "i < length ts \<Longrightarrow> t_chptr (ts ! i) = Some c \<Longrightarrow> i \<le> is_target c ts"
  by (simp add: is_target_def target_scan_ge)

lemma leave_step_ok:
  assumes ok: "join_ok who s" and m: "mships (js_world s) m \<noteq> None"
  shows "\<exists>s'. leave_step e m s = Some s' \<and> join_ok who s' \<and>
    dom (mships (js_world s)) - {m} \<subseteq> dom (mships (js_world s')) \<and>
    js_targets s' = js_targets s \<and> js_join_0 s' = js_join_0 s"
proof -
  let ?w = "js_world s"
  obtain x where x: "mships ?w m = Some x" using m by blast
  have inv: "chan_inv ?w" and t: "targets_ok s" using ok by (auto simp: join_ok_def)
  show ?thesis
  proof (cases "int (is_target (ms_chptr x) (js_targets s)) < js_join_0 s")
    case False
    then show ?thesis using ok by (auto simp: leave_step_def x)
  next
    case True
    obtain w' where w': "remove_user_from_channel (je_hub e) m ?w = Some w'" "chan_inv w'"
      "mships w' = (mships ?w)(m := None)"
      "dom (chans w') = (if mems ?w (ms_chptr x) = [m] then dom (chans ?w) - {ms_chptr x} else dom (chans ?w))"
      using remove_user_inv[OF inv x, of "je_hub e"] by blast
    have dc: "dom (chans ?w) - {ms_chptr x} \<subseteq> dom (chans w')" "dom (chans w') \<subseteq> dom (chans ?w)" using w'(4) by auto
    let ?s = "(say (Part (ms_chptr x)) s)\<lparr>js_world := w'\<rparr>"
    have same: "js_targets ?s = js_targets s" "js_join_0 ?s = js_join_0 s" by (simp_all add: say_def)
    have "\<exists>c. t_chptr (js_targets s ! i) = Some c \<and> chans w' c \<noteq> None"
      if i: "i < length (js_targets s)" "first_target s \<le> i" for i
    proof -
      obtain c where c: "t_chptr (js_targets s ! i) = Some c" "chans ?w c \<noteq> None"
        using t i unfolding targets_ok_def by blast
      have "c \<noteq> ms_chptr x"
      proof
        assume "c = ms_chptr x"
        then have "i \<le> is_target (ms_chptr x) (js_targets s)" using is_target_ge[OF i(1)] c(1) by simp
        then show False using True i(2) by (simp add: first_target_def split: if_splits)
      qed
      then have "c \<in> dom (chans w')" using c(2) dc by auto
      with c(1) show ?thesis by blast
    qed
    then have "targets_ok ?s" using t unfolding targets_ok_def first_target_def same by simp
    moreover have "finite_heap w'"
      using ok w'(3) dc(2) finite_subset by (auto simp: join_ok_def finite_heap_def)
    moreover have "known_client who w'"
      using known_client_core[OF remove_user_core[OF w'(1)]] ok by (simp add: join_ok_def)
    ultimately have "join_ok who ?s" using w'(2) by (simp add: join_ok_def)
    then show ?thesis using True w'(1,3) same by (auto simp: leave_step_def x)
  qed
qed

lemma leave_all_ok:
  assumes "join_ok who s" "distinct ms" "\<And>m. m \<in> set ms \<Longrightarrow> mships (js_world s) m \<noteq> None"
  shows "\<exists>s'. foreach_safe (leave_step e) ms s = Some s' \<and> join_ok who s' \<and>
    js_targets s' = js_targets s \<and> js_join_0 s' = js_join_0 s"
  using assms
proof (induction ms arbitrary: s)
  case (Cons m ms)
  obtain s1 where s1: "leave_step e m s = Some s1" "join_ok who s1"
    "dom (mships (js_world s)) - {m} \<subseteq> dom (mships (js_world s1))" "js_targets s1 = js_targets s" "js_join_0 s1 = js_join_0 s"
    using leave_step_ok[OF Cons.prems(1) Cons.prems(3)[of m], of e] by auto
  have alive: "mships (js_world s1) k \<noteq> None" if k: "k \<in> set ms" for k
  proof -
    have "k \<in> dom (mships (js_world s)) - {m}" using Cons.prems(2,3) k by auto
    then show ?thesis using s1(3) by blast
  qed
  have "distinct ms" using Cons.prems(2) by simp
  from Cons.IH[OF s1(2) this alive] obtain s' where "foreach_safe (leave_step e) ms s1 = Some s'" "join_ok who s'"
    "js_targets s' = js_targets s1" "js_join_0 s' = js_join_0 s1" by blast
  then show ?case using s1(1,4,5) by simp
qed simp

lemma join_ok_cong:
  "js_world s' = js_world s \<Longrightarrow> js_targets s' = js_targets s \<Longrightarrow> js_join_0 s' = js_join_0 s \<Longrightarrow> join_ok who s \<Longrightarrow> join_ok who s'"
  using targets_ok_cong[of s' s] by (simp add: join_ok_def)

lemma do_join_0_ok:
  assumes ok: "join_ok who s"
  shows "\<exists>s'. do_join_0 e who s = Some s' \<and> join_ok who s' \<and> js_targets s' = js_targets s \<and> js_join_0 s' = js_join_0 s"
proof -
  let ?w = "js_world s"
  obtain u where u: "users ?w who = Some u" using ok by (auto simp: join_ok_def known_client_def)
  have uc: "us_channel u = uchans ?w who" by (simp add: uchans_def u)
  have mi: "distinct (uchans ?w who)" "set (uchans ?w who) = of_user ?w who"
    using ok by (auto simp: join_ok_def chan_inv_def member_inv_def)
  define s0 where "s0 = (if us_channel u \<noteq> [] \<and> us_local u \<and> \<not> us_oper u then spam_check e False s else s)"
  have s: "js_world s0 = ?w" "js_targets s0 = js_targets s" "js_join_0 s0 = js_join_0 s" by (simp_all add: s0_def spam_check_def)
  have "join_ok who s0" by (rule join_ok_cong[OF s ok])
  moreover have "distinct (us_channel u)" "\<And>m. m \<in> set (us_channel u) \<Longrightarrow> mships (js_world s0) m \<noteq> None"
    unfolding s(1) uc using mi by (auto simp: of_user_def)
  ultimately obtain s' where s': "foreach_safe (leave_step e) (us_channel u) s0 = Some s'" "join_ok who s'"
    "js_targets s' = js_targets s0" "js_join_0 s' = js_join_0 s0"
    using leave_all_ok[of who s0 "us_channel u" e] by blast
  have "do_join_0 e who s = Some s'" by (simp add: do_join_0_def u s0_def[symmetric] s'(1))
  with s' s show ?thesis by simp
qed

lemma join_effect:
  assumes inv: "chan_inv w" and fin: "finite_heap w" and known: "known_client who w" and c: "chans w c \<noteq> None"
    and new: "mships w ms = None" "on_chan w c \<inter> of_user w who = {}"
  shows "\<exists>w1 w2 w3. add_user_to_channel c who fl ms w = Some w1 \<and>
    (if op then upd_chan c (\<lambda>ch. ch\<lparr>channelts := now, mode := mode ch OR MODE_TOPICLIMIT OR MODE_NOPRIVMSGS\<rparr>) w1
     else Some w1) = Some w2 \<and> del_invite c who w2 = Some w3 \<and>
    chan_inv w3 \<and> finite_heap w3 \<and> known_client who w3 \<and> dom (chans w3) = dom (chans w) \<and>
    mems w3 = (mems w)(c := ms # mems w c) \<and> c \<notin> set (uinvs w3 who)"
proof -
  have u: "users w who \<noteq> None" using known by (auto simp: known_client_def)
  obtain w1 where w1: "add_user_to_channel c who fl ms w = Some w1" "chan_inv w1" "same_tables w w1"
    "mems w1 = (mems w)(c := ms # mems w c)"
    "mships w1 = (mships w)(ms \<mapsto> \<lparr>ms_client = who, ms_chptr = c, ms_flags = fl\<rparr>)" "dom (users w1) = dom (users w)"
    using add_user_inv[OF inv c u new] by blast
  have c1: "chans w1 c \<noteq> None" using same_alive(1)[OF w1(3), of c] c by simp
  let ?f = "\<lambda>ch. ch\<lparr>channelts := now, mode := mode ch OR MODE_TOPICLIMIT OR MODE_NOPRIVMSGS\<rparr>"
  obtain w2 where w2: "(if op then upd_chan c ?f w1 else Some w1) = Some w2"
    using c1 by (cases op) (auto simp: upd_chan_def)
  have keep: "chan_inv w2 \<and> same_mems w1 w2 \<and> same_tables w1 w2 \<and> client_core w2 = client_core w1"
  proof (cases op)
    case True
    then have r: "upd_chan c ?f w1 = Some w2" using w2 by simp
    show ?thesis using upd_chan_keeps[OF w1(2) r] upd_core(2)[OF r] by simp
  next
    case False
    then show ?thesis using w2 w1(2) by (simp add: same_defs)
  qed
  have "users w1 who \<noteq> None" using u w1(6) domIff[of who "users w"] domIff[of who "users w1"] by metis
  then have alive2: "chans w2 c \<noteq> None" "users w2 who \<noteq> None"
    using keep c1 same_alive(1)[of w1 w2 c] same_alive(2)[of w1 w2 who] by (simp_all del: not_None_eq)
  obtain w3 where w3: "del_invite c who w2 = Some w3" "chan_inv w3" "same_mems w2 w3" "same_tables w2 w3"
    "uinvs w3 = (uinvs w2)(who := remove1 c (uinvs w2 who))"
    using del_invite_inv[OF _ alive2] keep by blast
  have "distinct (uinvs w2 who)" using keep by (simp add: chan_inv_def invite_inv_def)
  then have gone: "c \<notin> set (uinvs w3 who)" by (simp add: w3(5))
  have "client_core w3 = client_core w" using del_invite_core[OF w3(1)] keep add_user_core[OF w1(1)] by simp
  then have "known_client who w3" using known_client_core known by blast
  moreover have d: "dom (chans w3) = dom (chans w)" using w3(4) keep w1(3) by (simp add: same_tables_def)
  moreover have "mships w3 = mships w1" "mems w3 = mems w1" using w3(3) keep by (simp_all add: same_mems_def)
  moreover have "finite_heap w3" using fin d w1(5) calculation(3) by (simp add: finite_heap_def)
  ultimately show ?thesis using w1 w2 w3 gone by auto
qed

text \<open>What a turn of the loop does: nothing for a member, the numeric of \<open>can_join\<close> for a client that
  is kept out, a new membership otherwise.\<close>

definition join_result :: "join_env \<Rightarrow> ptr \<Rightarrow> string \<Rightarrow> join_target \<Rightarrow> ptr \<Rightarrow> join_state \<Rightarrow> join_state \<Rightarrow> bool" where
  "join_result e who keys t c s s' \<longleftrightarrow>
     (let w = js_world s; w' = js_world s';
          i = the (can_join (je_cfg e) (je_resolver e) (the (users w who)) c (key_text (t_key t) keys) (the (chans w c)))
      in if on_chan w c \<inter> of_user w who \<noteq> {} then s' = s
         else if i \<noteq> 0 then w' = w \<and> js_out s' = js_out s @ [Numeric i (chname (chan_hash w) c)]
         else mems w' = (mems w)(c := je_ms_alloc e w # mems w c) \<and> c \<notin> set (uinvs w' who) \<and>
           js_out s' = js_out s @ [if t_flags t AND CHFL_CHANOP \<noteq> 0 then Sjoin_new c else Sjoin c])"

lemma join_one_ok:
  assumes ok: "join_ok who s" and fresh: "fresh_blocks e" and t: "t_chptr t = Some c" "chans (js_world s) c \<noteq> None"
  shows "\<exists>s'. join_one e who keys t s = Some s' \<and> join_ok who s' \<and> js_targets s' = js_targets s \<and>
    js_join_0 s' = js_join_0 s \<and> dom (chans (js_world s')) = dom (chans (js_world s)) \<and> join_result e who keys t c s s'"
proof -
  let ?w = "js_world s"
  have inv: "chan_inv ?w" and fin: "finite_heap ?w" and known: "known_client who ?w" and tok: "targets_ok s"
    using ok by (auto simp: join_ok_def)
  obtain u where u: "users ?w who = Some u" "IsClient u" "plain_addr u" using known by (auto simp: known_client_def)
  have mi: "member_inv ?w" using inv by (simp add: chan_inv_def)
  obtain r where r: "find_channel_link who c ?w = Some r"
    "case r of None \<Rightarrow> on_chan ?w c \<inter> of_user ?w who = {} | Some m \<Rightarrow> on_chan ?w c \<inter> of_user ?w who = {m}"
    using find_channel_link_iff[OF mi u(1,2)] by blast
  show ?thesis
  proof (cases r)
    case (Some m)
    then have "on_chan ?w c \<inter> of_user ?w who \<noteq> {}" using r(2) by simp
    then show ?thesis using ok Some by (simp add: join_one_def u(1) t(1) r(1) join_result_def)
  next
    case None
    then have new: "on_chan ?w c \<inter> of_user ?w who = {}" using r(2) by simp
    obtain ch where ch: "chans ?w c = Some ch" using t(2) by blast
    define s1 where "s1 = (if us_oper u then s else spam_check e True s)"
    have s1: "js_world s1 = ?w" "js_targets s1 = js_targets s" "js_join_0 s1 = js_join_0 s" by (simp_all add: s1_def spam_check_def)
    obtain i where i: "can_join (je_cfg e) (je_resolver e) u c (key_text (t_key t) keys) ch = Some i"
      using can_join_cases[OF u(3)] by blast
    show ?thesis
    proof (cases "i = 0")
      case False
      have "join_ok who (say (Numeric i n) s1)" for n
        by (rule join_ok_cong[OF _ _ _ ok]) (simp_all add: s1 say_def)
      moreover have "join_result e who keys t c s (say (Numeric i (chname (chan_hash ?w) c)) s1)"
        using False s1 by (simp add: join_result_def new u(1) ch i) (simp add: say_def s1_def spam_check_def)
      ultimately show ?thesis using False s1 by (simp add: join_one_def u(1) t(1) r(1) None ch i s1_def[symmetric]) (simp add: say_def)
    next
      case True
      have "mships ?w (je_ms_alloc e ?w) = None" using fresh fin by (simp add: fresh_blocks_def)
      from join_effect[OF inv fin known t(2) this new, where fl = "t_flags t" and now = "je_now e" and
          op = "t_flags t AND CHFL_CHANOP \<noteq> 0"]
      obtain w1 w2 w3 where w:
        "add_user_to_channel c who (t_flags t) (je_ms_alloc e ?w) ?w = Some w1"
        "(if t_flags t AND CHFL_CHANOP \<noteq> 0 then upd_chan c (\<lambda>ch. ch\<lparr>channelts := je_now e,
            mode := mode ch OR MODE_TOPICLIMIT OR MODE_NOPRIVMSGS\<rparr>) w1 else Some w1) = Some w2"
        "del_invite c who w2 = Some w3" "chan_inv w3" "finite_heap w3" "known_client who w3" "dom (chans w3) = dom (chans ?w)"
        "mems w3 = (mems ?w)(c := je_ms_alloc e ?w # mems ?w c)" "c \<notin> set (uinvs w3 who)"
        by blast
      let ?s = "(say (if t_flags t AND CHFL_CHANOP \<noteq> 0 then Sjoin_new c else Sjoin c) s1)\<lparr>js_world := w3\<rparr>"
      let ?s' = "?s\<lparr>js_spam := (js_spam ?s)\<lparr>sp_last_join_time := je_now e\<rparr>\<rparr>"
      have f: "js_targets ?s' = js_targets s" "js_join_0 ?s' = js_join_0 s" "js_world ?s' = w3" by (simp_all add: say_def s1)
      have "targets_ok ?s'" by (rule targets_ok_cong[OF f(1,2) _ tok]) (use f(3) w(7) in simp)
      then have "join_ok who ?s'" using w(4-6) f(3) by (simp add: join_ok_def)
      moreover have "join_one e who keys t s = Some ?s'"
        by (simp only: join_one_def u(1) t(1) r(1) None Option.bind.bind_lunit s1_def[symmetric] Let_def s1(1) ch i
            True w(1-3) simp_thms if_False)
      moreover have "js_out ?s' = js_out s @ [if t_flags t AND CHFL_CHANOP \<noteq> 0 then Sjoin_new c else Sjoin c]"
        by (simp add: say_def s1_def spam_check_def)
      then have "join_result e who keys t c s ?s'"
        unfolding join_result_def f(3) using w(8,9) by (simp add: new u(1) ch i True)
      ultimately show ?thesis using f w(7) by (intro exI[of _ ?s'] conjI) simp_all
    qed
  qed
qed

lemma join_targets_ok:
  assumes fresh: "fresh_blocks e"
  shows "join_ok who s \<Longrightarrow> \<forall>t \<in> set ts. \<exists>c. t_chptr t = Some c \<and> chans (js_world s) c \<noteq> None \<Longrightarrow>
    \<exists>s'. foreach_safe (join_one e who keys) ts s = Some s' \<and> join_ok who s'"
proof (induction ts arbitrary: s)
  case (Cons t ts)
  obtain c where c: "t_chptr t = Some c" "chans (js_world s) c \<noteq> None" using Cons.prems(2) by auto
  obtain s1 where s1: "join_one e who keys t s = Some s1" "join_ok who s1" "dom (chans (js_world s1)) = dom (chans (js_world s))"
    using join_one_ok[OF Cons.prems(1) fresh c] by blast
  have "chans (js_world s1) d \<noteq> None \<longleftrightarrow> chans (js_world s) d \<noteq> None" for d using s1(3) by (auto simp: dom_def)
  then have "\<forall>t \<in> set ts. \<exists>c. t_chptr t = Some c \<and> chans (js_world s1) c \<noteq> None" using Cons.prems(2) by (simp del: not_None_eq)
  from Cons.IH[OF s1(2) this] s1(1) show ?case by simp
qed simp

lemma m_join_ok:
  assumes ok: "chan_inv (js_world s)" "finite_heap (js_world s)" "known_client who (js_world s)"
      "resvs nm (chan_hash (js_world s)) R" and fresh: "fresh_blocks e"
  shows "\<exists>s'. m_join e who chs keys s = Some s' \<and> chan_inv (js_world s') \<and> finite_heap (js_world s') \<and>
    known_client who (js_world s')"
proof (cases "chs = []")
  case True
  with ok show ?thesis by (simp add: m_join_def)
next
  case False
  define s0 where "s0 = s\<lparr>js_targets := [], js_error_reported := False, js_join_0 := - 1\<rparr>"
  let ?U = "users (js_world s)"
  have b0: "build_ok who nm R ?U s0" using ok by (simp add: build_ok_def s0_def targets_ok_def first_target_def)
  have U: "?U who \<noteq> None" using ok(3) by (auto simp: known_client_def)
  define toks where "toks = tokens (\<lambda>c. c \<in> set '','') (token_source None (Some chs))"
  have toks: "strtoken_calls (Suc (length chs)) None (Some chs) '','' = Some toks"
    unfolding toks_def by (rule strtoken_calls_tokens) (simp add: token_source_def)
  obtain keys' s1 where s1: "build_loop e who toks (map_option (\<lambda>_. 0) keys) (case keys of None \<Rightarrow> [] | Some ks \<Rightarrow> ks) s0 = Some (keys', s1)"
    "build_ok who nm R ?U s1" using build_loop_ok[OF b0 U fresh] by blast
  have r: "build_target_list e who chs keys s = Some (keys', s1)"
    using s1(1) unfolding build_target_list_def toks Option.bind.bind_lunit s0_def .
  have j1: "join_ok who s1" using s1(2) ok(3) by (simp add: join_ok_def build_ok_def known_client_def)
  let ?a = "first_target s1"
  obtain s2 where s2: "(if ?a \<noteq> 0 then do_join_0 e who s1 else Some s1) = Some s2" "join_ok who s2"
    "js_targets s2 = js_targets s1" "js_join_0 s2 = js_join_0 s1"
    using do_join_0_ok[OF j1, of e] j1 by (cases "?a = 0") auto
  have "first_target s2 = ?a" using s2(4) by (simp add: first_target_def)
  then have "\<forall>t \<in> set (drop ?a (js_targets s2)). \<exists>c. t_chptr t = Some c \<and> chans (js_world s2) c \<noteq> None"
    using s2(2) by (auto simp: join_ok_def targets_ok_def in_set_conv_nth) 
  from join_targets_ok[OF fresh s2(2) this] obtain s3 where
    "foreach_safe (join_one e who keys') (drop ?a (js_targets s2)) s2 = Some s3" "join_ok who s3" by blast
  then show ?thesis
    using False s2(1) by (simp add: m_join_def r Let_def first_target_def[symmetric] join_ok_def cong: if_cong)
qed

subsection \<open>PART is safe too\<close>

lemma same_core: "users w' = users w \<Longrightarrow> client_core w' = client_core w"
  by (simp add: client_core_def fun_eq_iff)

lemma part_one_ok:
  assumes inv: "chan_inv (js_world s)" and known: "known_client who (js_world s)"
  shows "\<exists>s'. part_one_client e who name s = Some s' \<and> chan_inv (js_world s') \<and> known_client who (js_world s')"
proof -
  let ?w = "js_world s"
  obtain r h where rh: "hash_find_channel name (chan_hash ?w) = Some (r, h)"
    using channel_reg.repr_look inv unfolding chan_inv_def table_inv_def by fastforce
  let ?w1 = "?w\<lparr>chan_hash := h\<rparr>"
  have i1: "chan_inv ?w1" and k1: "known_client who ?w1"
    using chan_inv_found(1)[OF inv rh] known by (auto simp: known_client_def)
  obtain u where u: "users ?w1 who = Some u" "IsClient u" using k1 by (auto simp: known_client_def)
  show ?thesis
  proof (cases r)
    case None
    then show ?thesis using rh i1 k1 by (simp add: part_one_client_def)
  next
    case (Some c)
    obtain l where l: "find_channel_link who c ?w1 = Some l"
      "case l of None \<Rightarrow> on_chan ?w1 c \<inter> of_user ?w1 who = {} | Some m \<Rightarrow> on_chan ?w1 c \<inter> of_user ?w1 who = {m}"
      using find_channel_link_iff[OF _ u] i1 unfolding chan_inv_def by blast
    show ?thesis
    proof (cases l)
      case None
      then show ?thesis using rh i1 k1 Some l(1) u by (simp add: part_one_client_def)
    next
      case (Some m)
      then have "m \<in> on_chan ?w1 c" using l(2) by auto
      then obtain x where x: "mships ?w1 m = Some x" by (auto simp: on_chan_def)
      obtain w' where w': "remove_user_from_channel (je_hub e) m ?w1 = Some w'" "chan_inv w'"
        using remove_user_inv[OF i1 x, of "je_hub e"] by blast
      moreover have "known_client who w'" by (rule known_client_core[OF remove_user_core[OF w'(1)] k1])
      moreover have "js_world (spam_check e False s') = js_world s'" for s' by (simp add: spam_check_def)
      ultimately show ?thesis using rh \<open>r = Some c\<close> Some l(1) u by (simp add: part_one_client_def Let_def cong: if_cong)
    qed
  qed
qed

lemma m_part_ok:
  assumes "chan_inv (js_world s)" "known_client who (js_world s)"
  shows "\<exists>s'. m_part e who chs s = Some s' \<and> chan_inv (js_world s') \<and> known_client who (js_world s')"
proof (cases "chs = []")
  case True
  with assms show ?thesis by (simp add: m_part_def)
next
  case False
  have all: "chan_inv (js_world s) \<Longrightarrow> known_client who (js_world s) \<Longrightarrow>
      \<exists>s'. foreach_safe (part_one_client e who) ns s = Some s' \<and> chan_inv (js_world s') \<and> known_client who (js_world s')"
    for ns s
  proof (induction ns arbitrary: s)
    case (Cons n ns)
    then show ?case using part_one_ok[of s who e n] by fastforce
  qed simp
  have "strtoken_calls (Suc (length chs)) None (Some chs) '','' = Some (tokens (\<lambda>c. c \<in> set '','') (token_source None (Some chs)))"
    by (rule strtoken_calls_tokens) (simp add: token_source_def)
  with False all[OF assms] show ?thesis unfolding m_part_def by (simp del: strtoken_calls.simps)
qed

subsection \<open>The keys\<close>

text \<open>Finding: \<open>strtoken(&p2, keys, ",")\<close> starts again at \<open>keys\<close> in every turn, on a buffer that its
  first call has cut: every channel of the list gets the first key.\<close>

lemma strtoken_commas:
  "strtoken None (Some (lead @ t)) '','' = (Some t, None)"
  if "\<forall>c \<in> set lead. c = CHR '',''" "t \<noteq> []" "\<forall>c \<in> set t. c \<noteq> CHR '',''"
proof -
  have "dropWhile (\<lambda>c. c = CHR '','') (lead @ t) = t"
    using that by (cases t) (simp_all add: dropWhile_append2)
  moreover have "takeWhile (\<lambda>c. c \<noteq> CHR '','') t = t" "dropWhile (\<lambda>c. c \<noteq> CHR '','') t = []" using that(3) by simp_all
  ultimately show ?thesis using that(2) by (cases t) (simp_all add: strtoken_def Let_def)
qed

lemma every_key_is_the_first:
  assumes "key_step k keys = (Some i, keys')"
  shows "key_step (Some i) keys' = (Some i, keys')"
proof -
  let ?comma = "\<lambda>c. c = CHR '',''"
  define lead s where "lead = takeWhile ?comma keys" and "s = dropWhile ?comma keys"
  define t where "t = takeWhile (\<lambda>c. c \<noteq> CHR '','') s"
  have tok: "fst (strtoken None (Some keys) '','') = (if s = [] then None else Some t)"
    by (cases s) (simp_all add: strtoken_def Let_def s_def[symmetric] t_def)
  then have s: "s \<noteq> []" and r: "i = length lead" "keys' = lead @ t"
    using assms unfolding key_step_def lead_def[symmetric] Let_def by (auto split: option.splits prod.splits if_splits)
  have "hd s \<noteq> CHR '',''" using hd_dropWhile[of ?comma keys] s unfolding s_def by blast
  then have t: "t \<noteq> []" "\<forall>c \<in> set t. c \<noteq> CHR '',''" using s by (cases s; auto simp: t_def dest: set_takeWhileD)+
  have l: "\<forall>c \<in> set lead. c = CHR '',''" by (auto simp: lead_def dest: set_takeWhileD)
  have "takeWhile ?comma (lead @ t) = lead" using l t by (cases t) (simp_all add: takeWhile_append2)
  then show ?thesis by (simp add: key_step_def strtoken_commas[OF l t] r)
qed

text \<open>Finding: \<open>is_target\<close> finds the occurrence of a channel before a \<open>0\<close>, so that the channel is not
  added again behind it: \<open>JOIN #a,#b,0,#b\<close> leaves all channels and joins none.\<close>

lemma rejoin_is_lost:
  assumes "js_targets s = [a, \<lparr>t_chptr = Some c, t_key = k', t_flags = fl'\<rparr>, \<lparr>t_chptr = None, t_key = None, t_flags = 0\<rparr>]"
  shows "keep_target k c fl s = s"
  by (simp add: keep_target_def is_target_def assms numeral_3_eq_3)

subsection \<open>Properties\<close>

definition example_env :: join_env where
  "example_env = \<lparr>je_cfg = example_config, je_resolver = \<lambda>_. None, je_splitmode = False, je_hub = True,
     je_uplink_ll = False, je_now = 100, je_spam_num = 0, je_spam_time = 0,
     je_alloc = \<lambda>w. Suc (Max (insert 0 (dom (chans w)))), je_ms_alloc = \<lambda>w. Suc (Max (insert 0 (dom (mships w))))\<rparr>"

definition example_join :: "chan_world \<Rightarrow> join_state" where
  "example_join w = \<lparr>js_world = w, js_targets = [], js_join_0 = - 1, js_error_reported = False,
     js_spam = \<lparr>oper_warn_count_down = 0, join_leave_count = 0, sp_last_join_time = 0, sp_last_leave_time = 0\<rparr>, js_out = []\<rparr>"

lemma example_fresh: "fresh_blocks example_env"
proof -
  have "Suc (Max (insert 0 A)) \<notin> A" if "finite A" for A :: "nat set"
    using Max_ge[of "insert 0 A" "Suc (Max (insert 0 A))"] that by (metis Suc_n_not_le_n finite.insertI insertI2)
  then show ?thesis unfolding fresh_blocks_def finite_heap_def example_env_def by (auto simp: domIff)
qed

lemma example_joiner:
  "\<exists>w. chan_inv w \<and> finite_heap w \<and> known_client 5 w \<and> resvs (resv_name no_objects) (chan_hash w) {} \<and>
    join_ok 5 (example_join w) \<and> chans w 1 \<noteq> None \<and> mems w 1 = [9]"
proof -
  obtain w where w: "chan_reach True 3 w" "dom (chans w) = {1}" "mems w 1 = [9]"
    "mships w = [9 \<mapsto> \<lparr>ms_client = 5, ms_chptr = 1, ms_flags = CHFL_CHANOP\<rparr>]"
    "users w 5 = Some (example_user\<lparr>us_channel := [9]\<rparr>)" "resvs (resv_name no_objects) (chan_hash w) {}"
    using example_reachable by blast
  have "chan_inv w" by (rule chan_reach_inv[OF w(1)]) simp
  moreover have "finite_heap w" using w(2,4) by (simp add: finite_heap_def)
  moreover have "known_client 5 w" by (simp add: known_client_def w(5) IsClient_def plain_addr_def example_user_def)
  ultimately have "join_ok 5 (example_join w)"
    by (simp add: join_ok_def example_join_def targets_ok_def first_target_def)
  then show ?thesis using w \<open>chan_inv w\<close> \<open>finite_heap w\<close> \<open>known_client 5 w\<close> by blast
qed

text \<open>C6. JOIN and PART of a client, whatever channels and keys it names, return without a NULL or
  dangling dereference and keep \<open>chan_inv\<close>: in \<open>JOIN\<close> the targets behind the last \<open>0\<close> all are
  channels that still exist when their turn comes, although leaving the others may free channels.\<close>

theorem join_and_part_safe:
  assumes "chan_inv (js_world s)" "finite_heap (js_world s)" "known_client who (js_world s)"
    "resvs nm (chan_hash (js_world s)) R" "fresh_blocks e"
  shows "(\<exists>s'. m_join e who chs keys s = Some s' \<and> chan_inv (js_world s')) \<and>
    (\<exists>s'. m_part e who chs s = Some s' \<and> chan_inv (js_world s'))"
  using m_join_ok[OF assms] m_part_ok[OF assms(1,3)] by blast

lemma join_and_part_safe_witness:
  "\<exists>w. mems w 1 = [9] \<and> (\<exists>s'. m_join example_env 5 ''#b,0,#a'' (Some ''k'') (example_join w) = Some s' \<and> chan_inv (js_world s'))"
proof -
  obtain w where w: "chan_inv w" "finite_heap w" "known_client 5 w" "resvs (resv_name no_objects) (chan_hash w) {}" "mems w 1 = [9]"
    using example_joiner by blast
  have f: "js_world (example_join w) = w" by (simp add: example_join_def)
  show ?thesis
    using join_and_part_safe[of "example_join w" 5 "resv_name no_objects" "{}" example_env "''#b,0,#a''" "Some ''k''"]
      w example_fresh unfolding f by blast
qed

text \<open>C17. A turn of the loop of \<open>m_join\<close> on an existing channel does what \<open>join_result\<close> says: nothing
  for a client that is on the channel, only the numeric of \<open>can_join\<close> for a client that it keeps
  out, and otherwise the client becomes its newest member, its invitation is used up and the
  servers are told.\<close>

theorem join_decides:
  assumes "join_ok who s" "fresh_blocks e" "t_chptr t = Some c" "chans (js_world s) c \<noteq> None"
  shows "\<exists>s'. join_one e who keys t s = Some s' \<and> chan_inv (js_world s') \<and> join_result e who keys t c s s'"
  using join_one_ok[OF assms] unfolding join_ok_def by blast

lemma join_decides_witness:
  "\<exists>w s'. mems w 1 = [9] \<and>
    join_one example_env 5 [] \<lparr>t_chptr = Some 1, t_key = None, t_flags = 0\<rparr> (example_join w) = Some s' \<and> chan_inv (js_world s')"
proof -
  obtain w where w: "join_ok 5 (example_join w)" "chans w 1 \<noteq> None" "mems w 1 = [9]" using example_joiner by blast
  have "js_world (example_join w) = w" by (simp add: example_join_def)
  with join_decides[OF w(1) example_fresh, of "\<lparr>t_chptr = Some 1, t_key = None, t_flags = 0\<rparr>" 1 "[]"] w(2,3)
  show ?thesis by auto
qed

end
