(* ===== verification/Sprintf.thy ===== *)
theory Sprintf
  imports Irc_Prelude
begin

text \<open>
  \<^verbatim>\<open>src/sprintf_irc.c\<close>: the server's own \<open>sprintf\<close>, with its conversions \<open>%s\<close>, \<open>%c\<close>, \<open>%lu\<close>,
  \<open>%t\<close>, \<open>%d\<close>, \<open>%u\<close> and \<open>%%\<close>. At any other conversion the rest of the format goes to the C
  library, which is the parameter \<open>libc\<close>. The table \<open>atoi_tab\<close> holds the three digits of every
  number below 1000, each entry with a NUL behind it; \<open>scratch_buffer\<close> is the accumulator of
  \<open>group_loop\<close>.

  The lemmas show that \<open>atoi\<close> and \<open>strtoul\<close> read back what \<open>%d\<close>, \<open>%u\<close> and \<open>%lu\<close> print.
\<close>

definition digit :: "nat \<Rightarrow> char" where
  "digit k = char_of (48 + k)"

definition atoi_tab :: "char list" where
  "atoi_tab = concat (map (\<lambda>n. [digit (n div 100), digit (n div 10 mod 10), digit (n mod 10), NUL]) [0..<1000])"

text \<open>The three characters that \<open>ap\<close> reads.\<close>

definition tab_digits :: "nat \<Rightarrow> string" where
  "tab_digits n = take 3 (drop (4 * n) atoi_tab)"

definition put_lu :: "u64 \<Rightarrow> string" where
  "put_lu w =
     (let v1 = unat w
      in if v1 = 0 then ''0''
         else let lead = (if v1 > 999999999 then [char_of ((48 + v1 div 1000000000) mod 256)] else []);
                  v1 = (if v1 > 999999999 then v1 - v1 div 1000000000 * 1000000000 else v1);
                  v2 = v1 div 1000000;
                  v1 = v1 - v2 * 1000000;
                  v3 = v1 div 1000;
                  v1 = v1 - v3 * 1000
              in lead @ tab_digits v2 @ tab_digits v3 @ tab_digits v1)"

definition put_t :: "u32 \<Rightarrow> string" where
  "put_t w = [char_of ((unat w div 10 + 48) mod 256), digit (unat w mod 10)]"

function group_loop :: "nat \<Rightarrow> string \<Rightarrow> string" where
  "group_loop v1 s =
     (let v2 = v1 div 1000;
          s = tab_digits (v1 - 1000 * v2) @ s
      in if v2 > 0 then group_loop v2 s else s)"
  by pat_completeness auto
termination by (relation "measure fst") auto

declare group_loop.simps [simp del]

definition put_u :: "u32 \<Rightarrow> string" where
  "put_u w = (if w = 0 then ''0'' else dropWhile (\<lambda>c. c = CHR ''0'') (group_loop (unat w) []))"

definition put_d :: "u32 \<Rightarrow> string" where
  "put_d w =
     (if sint w \<le> 0 then
        if w = 0 then ''0''
        else CHR ''-'' # dropWhile (\<lambda>c. c = CHR ''0'') (group_loop (unat (- w)) [])
      else dropWhile (\<lambda>c. c = CHR ''0'') (group_loop (unat w) []))"

datatype sarg =
  AStr string
| AChr char
| AUlong u64
| AInt u32

text \<open>An argument that is missing or of another type is undefined, as is a lone \<open>%\<close> at the end.\<close>

fun vsprintf_irc :: "(string \<Rightarrow> sarg list \<Rightarrow> string) \<Rightarrow> string \<Rightarrow> sarg list \<Rightarrow> string option" where
  "vsprintf_irc libc [] va = Some []"
| "vsprintf_irc libc (c # fmt) va =
     (if c \<noteq> CHR ''%'' then map_option ((#) c) (vsprintf_irc libc fmt va)
      else case fmt of
        [] \<Rightarrow> None
      | d # fmt' \<Rightarrow>
          if d = CHR ''s'' then
            (case va of AStr s # va' \<Rightarrow> map_option ((@) s) (vsprintf_irc libc fmt' va') | _ \<Rightarrow> None)
          else if d = CHR ''c'' then
            (case va of AChr x # va' \<Rightarrow> map_option ((#) x) (vsprintf_irc libc fmt' va') | _ \<Rightarrow> None)
          else if d = CHR ''l'' \<and> deref fmt' = CHR ''u'' then
            (case va of AUlong w # va' \<Rightarrow> map_option ((@) (put_lu w)) (vsprintf_irc libc (tl fmt') va') | _ \<Rightarrow> None)
          else if d = CHR ''t'' then
            (case va of AInt w # va' \<Rightarrow> map_option ((@) (put_t w)) (vsprintf_irc libc fmt' va') | _ \<Rightarrow> None)
          else if d = CHR ''d'' then
            (case va of AInt w # va' \<Rightarrow> map_option ((@) (put_d w)) (vsprintf_irc libc fmt' va') | _ \<Rightarrow> None)
          else if d = CHR ''u'' then
            (case va of AInt w # va' \<Rightarrow> map_option ((@) (put_u w)) (vsprintf_irc libc fmt' va') | _ \<Rightarrow> None)
          else if d \<noteq> CHR ''%'' then Some (libc (c # fmt) va)
          else map_option ((#) d) (vsprintf_irc libc fmt' va))"

definition ircsprintf :: "(string \<Rightarrow> sarg list \<Rightarrow> string) \<Rightarrow> string \<Rightarrow> sarg list \<Rightarrow> (string \<times> nat) option" where
  "ircsprintf libc fmt va = map_option (\<lambda>s. (s, length s)) (vsprintf_irc libc fmt va)"

subsection \<open>Decimal numbers\<close>

lemma digit_ord: "k < 10 \<Longrightarrow> ord (digit k) = 48 + k"
  unfolding digit_def of_char_of by simp

lemma horner_split:
  "foldl (\<lambda>v c. 10 * v + g c) a ys = a * 10 ^ length ys + foldl (\<lambda>v c. 10 * v + g c) 0 ys" for a :: nat
proof (induction ys arbitrary: a)
  case (Cons y ys)
  show ?case using Cons[of "10 * a + g y"] Cons[of "g y"] by (simp add: algebra_simps)
qed simp

lemma digits_val_append: "digits_val (xs @ ys) = digits_val xs * 10 ^ length ys + digits_val ys"
  unfolding digits_val_def foldl_append by (rule horner_split)

lemma drop_blocks: "\<forall>x \<in> set xs. length x = k \<Longrightarrow> drop (k * n) (concat xs) = concat (drop n xs)"
proof (induction xs arbitrary: n)
  case (Cons x xs)
  show ?case
  proof (cases n)
    case (Suc m)
    then show ?thesis using Cons by simp
  qed simp
qed simp

lemma tab_entry:
  assumes "n < m" "\<And>x. length (f x) = 4"
  shows "drop (4 * n) (concat (map f [0..<m])) = f n @ concat (map f [Suc n..<m])"
proof -
  have "drop (4 * n) (concat (map f [0..<m])) = concat (drop n (map f [0..<m]))"
    by (rule drop_blocks) (use assms(2) in auto)
  also have "drop n (map f [0..<m]) = f n # map f [Suc n..<m]"
    unfolding drop_map drop_upt add_0 using upt_conv_Cons[OF assms(1)] by simp
  finally show ?thesis by simp
qed

lemma tab_digits_eq:
  assumes "n < 1000"
  shows "tab_digits n = [digit (n div 100), digit (n div 10 mod 10), digit (n mod 10)]"
  unfolding tab_digits_def atoi_tab_def by (subst tab_entry[OF assms]) simp_all

lemma three_digits:
  assumes "i < 10" "j < 10" "k < 10"
  shows "digits_val [digit i, digit j, digit k] = 10 * (10 * i + j) + k"
    "\<forall>c \<in> set [digit i, digit j, digit k]. is_c_digit c"
  using assms by (simp_all add: digits_val_def is_c_digit_def digit_ord)

lemma tab_digits_val:
  assumes "n < 1000"
  shows "digits_val (tab_digits n) = n" "length (tab_digits n) = 3" "\<forall>c \<in> set (tab_digits n). is_c_digit c"
proof -
  have m: "n div 100 < 10" "n div 10 mod 10 < 10" "n mod 10 < 10" using assms by simp_all
  have "n div 100 = n div 10 div 10" by (simp flip: div_mult2_eq)
  then have "10 * (10 * (n div 100) + n div 10 mod 10) + n mod 10 = n" by (simp only: mult_div_mod_eq)
  then show "digits_val (tab_digits n) = n" unfolding tab_digits_eq[OF assms] three_digits(1)[OF m] .
  show "length (tab_digits n) = 3" by (simp add: tab_digits_eq[OF assms])
  show "\<forall>c \<in> set (tab_digits n). is_c_digit c" unfolding tab_digits_eq[OF assms] by (rule three_digits(2)[OF m])
qed

lemma group_loop_val:
  "digits_val (group_loop v s) = v * 10 ^ length s + digits_val s \<and>
   ((\<forall>c \<in> set s. is_c_digit c) \<longrightarrow> (\<forall>c \<in> set (group_loop v s). is_c_digit c))"
proof (induction v s rule: group_loop.induct)
  case (1 v s)
  have r: "v - 1000 * (v div 1000) = v mod 1000" by (simp add: minus_mult_div_eq_mod)
  have lt: "v mod 1000 < 1000" by simp
  note t = tab_digits_val[OF lt]
  have v: "digits_val (tab_digits (v mod 1000) @ s) = v mod 1000 * 10 ^ length s + digits_val s"
    by (simp add: digits_val_append t(1))
  show ?case
  proof (cases "v div 1000 > 0")
    case True
    have e: "v * k = k * (v mod 1000) + k * (1000 * (v div 1000))" for k :: nat
      by (simp flip: distrib_left add: mult.commute)
    show ?thesis using 1[OF refl refl] True e[of "10 ^ length s"] ball_Un[of "set (tab_digits (v mod 1000))" "set s" is_c_digit]
      using t(2,3) v by (simp add: group_loop.simps[of v s] Let_def r power_add algebra_simps)
  next
    case False
    then have "v mod 1000 = v" by simp
    with False v t show ?thesis by (auto simp: group_loop.simps[of v s])
  qed
qed

lemma digits_val_skip_zeros: "digits_val (dropWhile (\<lambda>c. c = CHR ''0'') s) = digits_val s"
  by (induction s) (simp_all add: digits_val_def)

lemma strip_digits:
  assumes "v > 0"
  shows "let s = dropWhile (\<lambda>c. c = CHR ''0'') (group_loop v []) in
    digits_val s = v \<and> (\<forall>c \<in> set s. is_c_digit c) \<and> s \<noteq> []"
proof -
  let ?s = "dropWhile (\<lambda>c. c = CHR ''0'') (group_loop v [])"
  have "digits_val [] = 0" by (simp add: digits_val_def)
  then have v: "digits_val ?s = v" using group_loop_val[of v "[]"] by (simp add: digits_val_skip_zeros)
  moreover have "\<forall>c \<in> set ?s. is_c_digit c" using group_loop_val[of v "[]"] by (auto dest: set_dropWhileD)
  moreover have "?s \<noteq> []" using v assms by (auto simp: digits_val_def simp del: dropWhile_eq_Nil_conv)
  ultimately show ?thesis by (simp add: Let_def del: dropWhile_eq_Nil_conv)
qed

lemma digit_not_sign: "is_c_digit c \<Longrightarrow> c \<noteq> CHR ''-'' \<and> c \<noteq> CHR ''+'' \<and> \<not> is_c_space c"
  by (auto simp: is_c_digit_def is_c_space_def)

lemma strtol_digits:
  assumes "ds \<noteq> []" "\<forall>c \<in> set ds. is_c_digit c"
  shows "c_strtol ds = (min (2 ^ 63 - 1) (int (digits_val ds)), [])"
    "c_strtol (CHR ''-'' # ds) = (max (- (2 ^ 63)) (- int (digits_val ds)), [])"
    "c_strtoul ds = ((if digits_val ds \<ge> 2 ^ 64 then - 1 else of_nat (digits_val ds)), [])"
proof -
  obtain d ds' where d: "ds = d # ds'" "is_c_digit d" using assms by (cases ds) auto
  have s: "dropWhile is_c_space ds = ds" "deref ds \<noteq> CHR ''-''" "deref ds \<noteq> CHR ''+''"
    using digit_not_sign[OF d(2)] d(1) by simp_all
  have m: "\<not> is_c_space CHR ''-''" by (simp add: is_c_space_def)
  have t: "takeWhile is_c_digit ds = ds" "dropWhile is_c_digit ds = []"
    using assms(2) takeWhile_eq_all_conv[of is_c_digit ds] by simp_all
  show "c_strtol ds = (min (2 ^ 63 - 1) (int (digits_val ds)), [])"
    unfolding c_strtol_def Let_def s(1) using s(2,3) assms(1) by (simp only: t if_False simp_thms snd_conv fst_conv deref.simps if_cancel)
  show "c_strtol (CHR ''-'' # ds) = (max (- (2 ^ 63)) (- int (digits_val ds)), [])"
    unfolding c_strtol_def Let_def using m assms(1) by (simp add: t del: takeWhile_eq_Nil_iff)
  show "c_strtoul ds = ((if digits_val ds \<ge> 2 ^ 64 then - 1 else of_nat (digits_val ds)), [])"
    unfolding c_strtoul_def Let_def s(1) using s(2,3) assms(1) by (simp add: t del: takeWhile_eq_Nil_iff)
qed

lemma strtol_positive:
  assumes "0 < v" "v < 2 ^ 32"
  defines "s \<equiv> dropWhile (\<lambda>c. c = CHR ''0'') (group_loop v [])"
  shows "fst (c_strtol s) = int v" "fst (c_strtol (CHR ''-'' # s)) = - int v" "fst (c_strtoul s) = of_nat v"
proof -
  have s: "digits_val s = v" "\<forall>c \<in> set s. is_c_digit c" "s \<noteq> []"
    using strip_digits[OF assms(1)] unfolding s_def Let_def by blast+
  have "int v \<le> 2 ^ 63 - 1" "- (2 ^ 63) \<le> - int v" "\<not> 2 ^ 64 \<le> v" using assms(2) by simp_all
  then show "fst (c_strtol s) = int v" "fst (c_strtol (CHR ''-'' # s)) = - int v" "fst (c_strtoul s) = of_nat v"
    using s(1) by (simp_all add: strtol_digits[OF s(3,2)])
qed

lemma unat32: "unat (w :: u32) < 2 ^ 32"
  using unsigned_less[of w] by simp

lemma read_zero: "fst (c_strtoul ''0'') = 0" "fst (c_strtol ''0'') = 0"
  using strtol_digits(1,3)[of "''0''"] by (simp_all add: is_c_digit_def digits_val_def)

lemma atoi_put_d: "c_atoi (put_d w) = sint w"
proof -
  have zero: "c_atoi ''0'' = 0" by (simp add: c_atoi_def read_zero)
  show ?thesis
  proof (cases "w = 0")
    case True
    with zero show ?thesis by (simp add: put_d_def)
  next
    case False
    then have pos: "0 < unat w" "0 < unat (- w)" by (simp_all add: unat_gt_0)
    have "word_of_int (- int (unat (- w))) = w" by simp
    moreover have "word_of_int (int (unat w)) = w" by simp
    ultimately show ?thesis
      using False strtol_positive(1)[OF pos(1) unat32] strtol_positive(2)[OF pos(2) unat32]
      by (simp add: put_d_def c_atoi_def)
  qed
qed

lemma strtoul_put_u: "fst (c_strtoul (put_u w)) = ucast w"
proof (cases "w = 0")
  case True
  then show ?thesis by (simp add: put_u_def read_zero)
next
  case False
  then have "0 < unat w" by (simp add: unat_gt_0)
  from strtol_positive(3)[OF this unat32] False show ?thesis unfolding put_u_def by simp
qed

definition lu_digits :: "nat \<Rightarrow> nat \<Rightarrow> nat \<Rightarrow> nat \<Rightarrow> string" where
  "lu_digits q a b c = (if q = 0 then [] else [digit q]) @ tab_digits a @ tab_digits b @ tab_digits c"

lemma lu_digits_val:
  assumes "q < 10" "a < 1000" "b < 1000" "c < 1000"
  shows "digits_val (lu_digits q a b c) = q * 1000000000 + (a * 1000000 + (b * 1000 + c))"
    "\<forall>d \<in> set (lu_digits q a b c). is_c_digit d" "lu_digits q a b c \<noteq> []"
proof -
  note l = tab_digits_val(2)
  have "digits_val (if q = 0 then [] else [digit q]) = q" using assms(1) by (simp add: digits_val_def digit_ord)
  then show "digits_val (lu_digits q a b c) = q * 1000000000 + (a * 1000000 + (b * 1000 + c))"
    unfolding lu_digits_def digits_val_append length_append l[OF assms(2)] l[OF assms(3)] l[OF assms(4)]
      tab_digits_val(1)[OF assms(2)] tab_digits_val(1)[OF assms(3)] tab_digits_val(1)[OF assms(4)] by simp
  show "\<forall>d \<in> set (lu_digits q a b c). is_c_digit d"
    using tab_digits_val(3)[OF assms(2)] tab_digits_val(3)[OF assms(3)] tab_digits_val(3)[OF assms(4)] assms(1)
    by (auto simp: lu_digits_def is_c_digit_def digit_ord)
  show "lu_digits q a b c \<noteq> []" using l[OF assms(2)] by (auto simp: lu_digits_def)
qed

lemma put_lu_digits:
  assumes "unat v < 10000000000" "v \<noteq> 0"
  shows "digits_val (put_lu v) = unat v \<and> (\<forall>c \<in> set (put_lu v). is_c_digit c) \<and> put_lu v \<noteq> []"
proof -
  define n q r where "n = unat v" and "q = n div 1000000000" and "r = n mod 1000000000"
  define a s where "a = r div 1000000" and "s = r mod 1000000"
  define b c where "b = s div 1000" and "c = s mod 1000"
  have "r < 1000000000" "s < 1000000" "c < 1000" by (simp_all add: r_def s_def c_def)
  then have lt: "q < 10" "a < 1000" "b < 1000" "c < 1000"
    using assms(1) by (simp_all add: q_def a_def b_def n_def less_mult_imp_div_less)
  have n: "n = q * 1000000000 + r" "r = a * 1000000 + s" "s = b * 1000 + c"
    by (simp_all only: q_def r_def a_def s_def b_def c_def div_mult_mod_eq)
  have big: "n > 999999999 \<longleftrightarrow> q \<noteq> 0" using n(1) \<open>r < 1000000000\<close> by (cases q) simp_all
  have e: "n - q * 1000000000 = r" "r - a * 1000000 = s" "s - b * 1000 = c" using n by simp_all
  have lead: "(if q \<noteq> 0 then r else n) = r" using n(1) by simp
  have nz: "n \<noteq> 0" using assms(2) by (simp add: n_def unat_eq_zero)
  have q: "char_of ((48 + q) mod 256) = digit q" using lt(1) by (simp add: digit_def)
  have "put_lu v = lu_digits q a b c"
    unfolding put_lu_def Let_def n_def[symmetric] q_def[symmetric] big e(1) lead a_def[symmetric] e(2) b_def[symmetric] e(3) q lu_digits_def
    using nz by simp
  with lu_digits_val[OF lt] n show ?thesis by (simp add: n_def)
qed

lemma strtoul_put_lu:
  assumes "unat v < 10000000000"
  shows "fst (c_strtoul (put_lu v)) = v"
proof (cases "v = 0")
  case True
  then show ?thesis by (simp add: put_lu_def read_zero)
next
  case False
  have "\<not> 2 ^ 64 \<le> unat v" using assms by simp
  with put_lu_digits[OF assms False] show ?thesis using strtol_digits(3)[of "put_lu v"] by simp
qed

text \<open>Finding: above \<open>9999999999\<close> the first character is no digit.\<close>

lemma put_lu_overflow: "put_lu 10000000000 = '':000000000''"
proof -
  have d: "digit 0 = CHR ''0''" "char_of (58 :: nat) = CHR '':''" by code_simp+
  then have "tab_digits 0 = ''000''" by (simp add: tab_digits_eq)
  with d(2) show ?thesis by (simp add: put_lu_def)
qed

text \<open>C38. What the server prints with \<open>%d\<close> and \<open>%u\<close> is read back by \<open>atoi\<close> and \<open>strtoul\<close> to the
  same number, for every 32-bit argument, and so is a time stamp printed with \<open>%lu\<close> as long as it
  has at most ten digits.\<close>

theorem printed_numbers_roundtrip:
  "c_atoi (put_d w) = sint w \<and> fst (c_strtoul (put_u w)) = ucast w \<and>
   (unat v < 10000000000 \<longrightarrow> fst (c_strtoul (put_lu v)) = v)"
  using atoi_put_d strtoul_put_u strtoul_put_lu by blast

lemma printed_numbers_roundtrip_witness:
  "c_atoi (put_d (- 2147483648)) = - 2147483648 \<and> fst (c_strtoul (put_lu 1234567890)) = 1234567890"
  using printed_numbers_roundtrip[of "- 2147483648" 1234567890] by simp

end
