(* ===== verification/Channel_Mode.thy ===== *)
theory Channel_Mode
  imports Chan_Access Sprintf Irc_String
begin

text \<open>
  \<^verbatim>\<open>src/channel_mode.c\<close> with \<open>split_nuh\<close> of \<^verbatim>\<open>src/s_conf.c\<close>: the MODE command on a channel.

  The parameters of a command are pointers into one line buffer. \<open>mo_buf\<close> is that buffer with
  its NUL bytes, \<open>parv\<close> the list of offsets; \<open>str_at\<close> reads a string and \<open>write_at\<close> is a
  \<open>sprintf\<close> over it, which runs into what stands behind when the new text is longer. A mode
  change keeps a pointer to its argument (\<open>mode_arg\<close>), which is read only when the lines are
  built. The other statics of the file (\<open>mode_changes\<close>, \<open>mode_limit\<close>, \<open>simple_modes_mask\<close>) and
  \<open>*errors\<close> are fields of \<open>mode_state\<close>. \<open>find_chasing\<close> is the parameter \<open>me_find\<close>, \<open>NICKLEN\<close> is
  chosen by configure, and so are halfops.

  The lemmas show that every handler returns and changes nothing but the modes, the ban lists and
  the flags of members (\<open>mode_frame\<close>); that a client without access changes nothing; the limits on
  bans and on modes with a parameter; and that \<open>mode_changes\<close> does not overflow.
\<close>

subsection \<open>Strings in the line buffer\<close>

definition str_at :: "string \<Rightarrow> nat \<Rightarrow> string" where
  "str_at buf i = takeWhile (\<lambda>c. c \<noteq> NUL) (drop i buf)"

definition write_at :: "nat \<Rightarrow> string \<Rightarrow> string \<Rightarrow> string option" where
  "write_at i s buf =
     (if i + length s < length buf then Some (take i buf @ s @ NUL # drop (i + length s + 1) buf) else None)"

definition cut_at :: "nat \<Rightarrow> string \<Rightarrow> string" where
  "cut_at i buf = buf[i := NUL]"

definition MAXMODEPARAMS :: nat where "MAXMODEPARAMS = 4"
definition MODEBUFLEN :: nat where "MODEBUFLEN = 200"
definition IRCD_BUFSIZE :: nat where "IRCD_BUFSIZE = 512"
definition BAN_FUDGE :: nat where "BAN_FUDGE = 10"
definition KEYLEN :: nat where "KEYLEN = 24"

definition CHFL_BAN :: u32 where "CHFL_BAN = 0x0010"
definition CHFL_EXCEPTION :: u32 where "CHFL_EXCEPTION = 0x0020"
definition CHFL_INVEX :: u32 where "CHFL_INVEX = 0x0040"

definition CAP_EX :: u32 where "CAP_EX = 0x00000004"
definition CAP_IE :: u32 where "CAP_IE = 0x00000020"
definition CAP_TS6 :: u32 where "CAP_TS6 = 0x00000400"

definition SM_ERR_NOOPS :: u32 where "SM_ERR_NOOPS = 0x02"
definition SM_ERR_UNKNOWN :: u32 where "SM_ERR_UNKNOWN = 0x04"
definition SM_ERR_RPL_B :: u32 where "SM_ERR_RPL_B = 0x08"
definition SM_ERR_RPL_E :: u32 where "SM_ERR_RPL_E = 0x10"
definition SM_ERR_NOTONCHANNEL :: u32 where "SM_ERR_NOTONCHANNEL = 0x20"
definition SM_ERR_RPL_I :: u32 where "SM_ERR_RPL_I = 0x40"

definition CHACCESS_NOTONCHAN :: int where "CHACCESS_NOTONCHAN = - 1"
definition CHACCESS_PEON :: int where "CHACCESS_PEON = 0"
definition CHACCESS_HALFOP :: int where "CHACCESS_HALFOP = 1"
definition CHACCESS_CHANOP :: int where "CHACCESS_CHANOP = 2"

datatype mode_dir = MODE_QUERY | MODE_ADD | MODE_DEL

datatype audience = ALL_MEMBERS | ONLY_CHANOPS | ONLY_SERVERS

datatype mode_arg =
  No_arg
| Param nat
| Key_of ptr
| Name_of ptr
| Text string

record mode_change =
  mc_letter :: char
  mc_dir :: mode_dir
  mc_caps :: u32
  mc_mems :: audience
  mc_id :: "ptr option"
  mc_arg :: mode_arg

datatype mode_reply =
  Mode_numeric nat string
| Ban_line nat string string string
| To_members string
| To_servers u32 u32 string

record mode_state =
  mo_world :: chan_world
  mo_buf :: string
  mo_parn :: nat
  mo_errors :: u32
  mo_changes :: "mode_change list"
  mo_limit :: nat
  mo_simple :: u32
  mo_out :: "mode_reply list"

record mode_env =
  me_cfg :: chan_config
  me_halfops :: bool
  me_ban_cookie :: bool
  me_nicklen :: nat
  me_now :: time_t
  me_find :: "string \<Rightarrow> chan_world \<Rightarrow> ptr option"
  me_client_server :: bool
  me_source :: user
  me_chptr :: ptr
  me_chname :: string

definition mode_say :: "mode_reply \<Rightarrow> mode_state \<Rightarrow> mode_state" where
  "mode_say r s = s\<lparr>mo_out := mo_out s @ [r]\<rparr>"

text \<open>\<open>(*parn)++\<close>\<close>

definition next_param :: "mode_state \<Rightarrow> mode_state" where
  "next_param s = s\<lparr>mo_parn := mo_parn s + 1\<rparr>"

lemma next_param_fields [simp]:
  "mo_world (next_param s) = mo_world s" "mo_buf (next_param s) = mo_buf s" "mo_changes (next_param s) = mo_changes s"
  "mo_limit (next_param s) = mo_limit s" "mo_parn (next_param s) = mo_parn s + 1"
  by (simp_all add: next_param_def)

subsection \<open>Masks\<close>

text \<open>\<open>split_nuh\<close>: nick, user and host, and the positions where a NUL is written.\<close>

definition or_star :: "string \<Rightarrow> nat \<Rightarrow> string" where
  "or_star s n = (if s \<noteq> [] then xstrldup s n else ''*'')"

definition split_nuh :: "nat \<Rightarrow> string \<Rightarrow> string \<times> string \<times> string \<times> nat list" where
  "split_nuh nicklen m =
     (let nick = takeWhile (\<lambda>c. c \<noteq> CHR ''!'') m; p = length nick
      in if CHR ''!'' \<in> set m then
           let rest = drop (p + 1) m; user = takeWhile (\<lambda>c. c \<noteq> CHR ''@'') rest; q = p + 1 + length user
           in if CHR ''@'' \<in> set rest then
                (or_star nick nicklen, or_star user (USERLEN + 1), or_star (drop (q + 1) m) (HOSTLEN + 1), [p, q])
              else (or_star nick nicklen, or_star rest (USERLEN + 1), ''*'', [p])
         else
           let user = takeWhile (\<lambda>c. c \<noteq> CHR ''@'') m; p = length user
           in if CHR ''@'' \<in> set m then
                (''*'', or_star user (USERLEN + 1), or_star (drop (p + 1) m) (HOSTLEN + 1), [p])
              else if CHR ''.'' \<in> set m \<or> CHR '':'' \<in> set m then (''*'', ''*'', xstrldup m (HOSTLEN + 1), [])
              else (xstrldup m nicklen, ''*'', ''*'', []))"

text \<open>\<open>check_string\<close>: the string that is used (a static \<open>"*"\<close> for an empty one) and the buffer.\<close>

definition check_string :: "nat \<Rightarrow> string \<Rightarrow> string \<times> string" where
  "check_string i buf =
     (let s = str_at buf i; k = length (takeWhile (\<lambda>c. \<not> IsSpace c) s)
      in if s = [] then (''*'', buf)
         else if k < length s then (take k s, cut_at (i + k) buf) else (s, buf))"

definition nuh :: "string \<Rightarrow> string \<Rightarrow> string \<Rightarrow> string" where
  "nuh n u h = n @ ''!'' @ u @ ''@'' @ h"

text \<open>\<open>split_nuh(check_string(banid), ...); ircsprintf(banid, "%s!%s@%s", name, user, host)\<close>\<close>

definition parse_mask :: "nat \<Rightarrow> nat \<Rightarrow> string \<Rightarrow> (string \<times> string \<times> string \<times> string) option" where
  "parse_mask nicklen i buf =
     (case check_string i buf of
        (s, buf) \<Rightarrow>
          (case split_nuh nicklen s of
             (n, u, h, cuts) \<Rightarrow>
               map_option (\<lambda>buf. (n, u, h, buf))
                 (write_at i (nuh n u h) (fold (\<lambda>k. cut_at (i + k)) cuts buf))))"

definition ban_list :: "u32 \<Rightarrow> channel \<Rightarrow> ban list" where
  "ban_list ty ch =
     (if ty = CHFL_BAN then banlist ch else if ty = CHFL_EXCEPTION then exceptlist ch else invexlist ch)"

definition upd_ban_list :: "u32 \<Rightarrow> (ban list \<Rightarrow> ban list) \<Rightarrow> channel \<Rightarrow> channel" where
  "upd_ban_list ty f ch =
     (if ty = CHFL_BAN then ch\<lparr>banlist := f (banlist ch)\<rparr>
      else if ty = CHFL_EXCEPTION then ch\<lparr>exceptlist := f (exceptlist ch)\<rparr>
      else ch\<lparr>invexlist := f (invexlist ch)\<rparr>)"

definition same_ban :: "string \<Rightarrow> string \<Rightarrow> string \<Rightarrow> ban \<Rightarrow> bool" where
  "same_ban n u h b \<longleftrightarrow> irccmp (ban_name b) n = 0 \<and> irccmp (ban_username b) u = 0 \<and> irccmp (ban_host b) h = 0"

definition num_masks :: "channel \<Rightarrow> nat" where
  "num_masks ch = length (banlist ch) + length (exceptlist ch) + length (invexlist ch)"

definition cache_step :: "u32 \<Rightarrow> ptr \<Rightarrow> chan_world \<Rightarrow> chan_world option" where
  "cache_step ty c w = (if ty = CHFL_BAN \<or> ty = CHFL_EXCEPTION then clear_ban_cache c w else Some w)"

definition add_id :: "mode_env \<Rightarrow> nat \<Rightarrow> u32 \<Rightarrow> mode_state \<Rightarrow> (bool \<times> mode_state) option" where
  "add_id e i ty s =
     (let u = me_source e; c = me_chptr e in
     Option.bind (chans (mo_world s) c) (\<lambda>ch.
     if MyClient u \<and> num_masks ch \<ge> max_bans (me_cfg e)
     then Some (False, mode_say (Mode_numeric 478 (str_at (mo_buf s) i)) s)
     else
     Option.bind (if MyClient u then write_at i (collapse_str (str_at (mo_buf s) i)) (mo_buf s) else Some (mo_buf s)) (\<lambda>buf.
     Option.bind (parse_mask (me_nicklen e) i buf) (\<lambda>(n, us, h, buf).
     let s = s\<lparr>mo_buf := buf\<rparr> in
     Option.bind (cache_step ty c (mo_world s)) (\<lambda>w.
     let s = s\<lparr>mo_world := w\<rparr> in
     if (\<exists>b \<in> set (ban_list ty ch). same_ban n us h b) then Some (False, s)
     else
       let who = (if IsClient u then nuh (us_name u) (us_username u) (us_host u) else us_name u);
           b = \<lparr>ban_len = length (nuh n us h) - 2, ban_name = n, ban_username = us, ban_host = h,
                ban_who = who, ban_when = me_now e\<rparr>
       in map_option (\<lambda>w. (True, s\<lparr>mo_world := w\<rparr>)) (upd_chan c (upd_ban_list ty ((#) b)) w))))))"

text \<open>\<open>del_id\<close> removes the first ban that equals the mask.\<close>

definition remove_ban :: "ban \<Rightarrow> ban list \<Rightarrow> ban list" where
  "remove_ban b bs = remove1 b bs"

definition del_id :: "mode_env \<Rightarrow> nat \<Rightarrow> u32 \<Rightarrow> mode_state \<Rightarrow> (bool \<times> mode_state) option" where
  "del_id e i ty s =
     (let c = me_chptr e in
     Option.bind (parse_mask (me_nicklen e) i (mo_buf s)) (\<lambda>(n, us, h, buf).
     Option.bind (chans (mo_world s) c) (\<lambda>ch.
     Option.bind (cache_step ty c (mo_world s)) (\<lambda>w.
     let s = s\<lparr>mo_buf := buf, mo_world := w\<rparr> in
     case List.find (same_ban n us h) (ban_list ty ch) of
       None \<Rightarrow> Some (False, s)
     | Some b \<Rightarrow> map_option (\<lambda>w. (True, s\<lparr>mo_world := w\<rparr>)) (upd_chan c (upd_ban_list ty (remove_ban b)) w)))))"

subsection \<open>The mode letters\<close>

definition mode_flags :: "(u32 \<times> char) list" where
  "mode_flags = [(MODE_INVITEONLY, CHR ''i''), (MODE_MODERATED, CHR ''m''), (MODE_NOPRIVMSGS, CHR ''n''),
     (MODE_PRIVATE, CHR ''p''), (MODE_SECRET, CHR ''s''), (MODE_TOPICLIMIT, CHR ''t'')]"

text \<open>\<open>channel_modes\<close> for a client that is a member or a server (\<open>shown\<close>), or neither.\<close>

definition channel_modes :: "bool \<Rightarrow> channel \<Rightarrow> string \<times> string" where
  "channel_modes shown ch =
     (''+'' @ map snd (filter (\<lambda>(b, l). mode ch AND b \<noteq> 0) mode_flags) @
        (if limit ch \<noteq> 0 then ''l'' else []) @ (if key ch \<noteq> [] then ''k'' else []),
      (if limit ch \<noteq> 0 \<and> shown then put_d (limit ch) @ '' '' else []) @
        (if key ch \<noteq> [] \<and> shown then key ch @ '' '' else []))"

definition fix_key_byte :: "char \<Rightarrow> char" where
  "fix_key_byte c = char_of (ord c mod 128)"

definition fix_key :: "string \<Rightarrow> string" where
  "fix_key arg = filter (\<lambda>c. c \<noteq> CHR '':'' \<and> ord c > (32 :: nat) \<and> c \<noteq> CHR '','') (map fix_key_byte arg)"

text \<open>A byte \<open>0x80\<close> becomes the NUL that ends the key.\<close>

definition fix_key_old :: "string \<Rightarrow> string" where
  "fix_key_old arg = takeWhile (\<lambda>c. c \<noteq> NUL)
     (filter (\<lambda>c. c \<noteq> CHR 0x0A \<and> c \<noteq> CHR '':'' \<and> c \<noteq> CHR 0x0D \<and> c \<noteq> CHR '','') (map fix_key_byte arg))"

subsection \<open>The handlers\<close>

definition set_error :: "u32 \<Rightarrow> mode_state \<Rightarrow> mode_state" where
  "set_error b s = s\<lparr>mo_errors := mo_errors s OR b\<rparr>"

definition once :: "u32 \<Rightarrow> mode_reply list \<Rightarrow> mode_state \<Rightarrow> mode_state" where
  "once b rs s = (if mo_errors s AND b \<noteq> 0 then s else (set_error b s)\<lparr>mo_out := mo_out s @ rs\<rparr>)"

definition no_access :: "mode_env \<Rightarrow> int \<Rightarrow> mode_state \<Rightarrow> mode_state" where
  "no_access e alev s = once SM_ERR_NOOPS [Mode_numeric (if alev = CHACCESS_NOTONCHAN then 442 else 482) (me_chname e)] s"

definition push_change :: "mode_change \<Rightarrow> mode_state \<Rightarrow> mode_state" where
  "push_change m s = s\<lparr>mo_changes := mo_changes s @ [m]\<rparr>"

definition change :: "char \<Rightarrow> mode_dir \<Rightarrow> mode_arg \<Rightarrow> mode_change" where
  "change l d a = \<lparr>mc_letter = l, mc_dir = d, mc_caps = 0, mc_mems = ALL_MEMBERS, mc_id = None, mc_arg = a\<rparr>"

text \<open>\<open>MyClient(source_p) && (++mode_limit > MAXMODEPARAMS)\<close>\<close>

definition count_param :: "mode_env \<Rightarrow> mode_state \<Rightarrow> bool \<times> mode_state" where
  "count_param e s =
     (if MyClient (me_source e) then (mo_limit s + 1 > MAXMODEPARAMS, s\<lparr>mo_limit := mo_limit s + 1\<rparr>)
      else (False, s))"

definition on_chan_mode :: "(channel \<Rightarrow> channel) \<Rightarrow> mode_env \<Rightarrow> mode_state \<Rightarrow> mode_state option" where
  "on_chan_mode f e s = map_option (\<lambda>w. s\<lparr>mo_world := w\<rparr>) (upd_chan (me_chptr e) f (mo_world s))"

type_synonym chm = "mode_env \<Rightarrow> nat list \<Rightarrow> int \<Rightarrow> mode_dir \<Rightarrow> char \<Rightarrow> mode_state \<Rightarrow> mode_state option"

definition chm_nosuch :: chm where
  "chm_nosuch e parv alev dir c s = Some (once SM_ERR_UNKNOWN [Mode_numeric 472 [c]] s)"

definition chm_simple :: "u32 \<Rightarrow> chm" where
  "chm_simple ty e parv alev dir c s =
     (if alev < CHACCESS_HALFOP \<or> ty = MODE_PRIVATE \<and> alev < CHACCESS_CHANOP then Some (no_access e alev s)
      else if mo_simple s AND ty \<noteq> 0 then Some s
      else
        let s = s\<lparr>mo_simple := mo_simple s OR ty\<rparr>
        in case dir of
             MODE_ADD \<Rightarrow> map_option (push_change (change c MODE_ADD No_arg))
               (on_chan_mode (\<lambda>ch. ch\<lparr>mode := mode ch OR ty\<rparr>) e s)
           | MODE_DEL \<Rightarrow> map_option (push_change (change c MODE_DEL No_arg))
               (on_chan_mode (\<lambda>ch. ch\<lparr>mode := mode ch AND NOT ty\<rparr>) e s)
           | MODE_QUERY \<Rightarrow> Some s)"

text \<open>The list of the masks, once for each command, and the change of one mask.\<close>

definition list_masks :: "u32 \<Rightarrow> u32 \<Rightarrow> nat \<Rightarrow> nat \<Rightarrow> mode_env \<Rightarrow> mode_state \<Rightarrow> mode_state option" where
  "list_masks ty err rpl rpl_end e s =
     map_option (\<lambda>ch. once err (map (\<lambda>b. Ban_line rpl (ban_name b) (ban_username b) (ban_host b)) (ban_list ty ch) @
         [Mode_numeric rpl_end (me_chname e)]) s)
       (chans (mo_world s) (me_chptr e))"

definition change_mask ::
  "u32 \<Rightarrow> bool \<Rightarrow> mode_env \<Rightarrow> nat list \<Rightarrow> mode_dir \<Rightarrow> (nat \<Rightarrow> mode_change) \<Rightarrow> mode_state \<Rightarrow> mode_state option" where
  "change_mask ty must e parv dir m s =
     (case count_param e s of
        (True, s) \<Rightarrow> Some s
      | (False, s) \<Rightarrow>
          let i = parv ! mo_parn s; s = next_param s
          in if me_client_server e \<and> CHR '' '' \<in> set (str_at (mo_buf s) i) then Some s
             else if dir = MODE_ADD then
               map_option (\<lambda>(ok, s). if ok then push_change (m i) s else s) (add_id e i ty s)
             else
               map_option (\<lambda>(ok, s). if ok \<or> \<not> must then push_change (m i) s else s) (del_id e i ty s))"

definition chm_ban :: chm where
  "chm_ban e parv alev dir c s =
     (if dir = MODE_QUERY \<or> length parv \<le> mo_parn s then list_masks CHFL_BAN SM_ERR_RPL_B 367 368 e s
      else if alev < CHACCESS_HALFOP then Some (no_access e alev s)
      else change_mask CHFL_BAN (\<not> me_ban_cookie e) e parv dir (\<lambda>i. change c dir (Param i)) s)"

definition chm_except :: chm where
  "chm_except e parv alev dir c s =
     (if \<not> use_except (me_cfg e) \<and> MyClient (me_source e) \<and> dir = MODE_ADD \<and> length parv > mo_parn s
      then Some (set_error SM_ERR_RPL_E s)
      else if alev < CHACCESS_HALFOP then Some (no_access e alev s)
      else if dir = MODE_QUERY \<or> length parv \<le> mo_parn s then list_masks CHFL_EXCEPTION SM_ERR_RPL_E 348 349 e s
      else change_mask CHFL_EXCEPTION True e parv dir
        (\<lambda>i. (change c dir (Param i))\<lparr>mc_caps := CAP_EX,
              mc_mems := (if use_except (me_cfg e) then ONLY_CHANOPS else ONLY_SERVERS)\<rparr>) s)"

definition chm_invex :: chm where
  "chm_invex e parv alev dir c s =
     (if \<not> use_invex (me_cfg e) \<and> MyClient (me_source e) \<and> dir = MODE_ADD \<and> length parv > mo_parn s
      then Some (set_error SM_ERR_RPL_I s)
      else if alev < CHACCESS_HALFOP then Some (no_access e alev s)
      else if dir = MODE_QUERY \<or> length parv \<le> mo_parn s then list_masks CHFL_INVEX SM_ERR_RPL_I 346 347 e s
      else change_mask CHFL_INVEX True e parv dir
        (\<lambda>i. (change c dir (Param i))\<lparr>mc_caps := CAP_IE,
              mc_mems := (if use_invex (me_cfg e) then ONLY_CHANOPS else ONLY_SERVERS)\<rparr>) s)"

text \<open>The common part of \<open>chm_op\<close>, \<open>chm_hop\<close> and \<open>chm_voice\<close>: the flag \<open>fl\<close> of a member; \<open>clr\<close> is
  what goes when the flag comes.\<close>

definition change_member ::
  "u32 \<Rightarrow> u32 \<Rightarrow> char \<Rightarrow> mode_env \<Rightarrow> nat list \<Rightarrow> mode_dir \<Rightarrow> mode_state \<Rightarrow> mode_state option" where
  "change_member fl clr l e parv dir s =
     (if dir = MODE_QUERY \<or> length parv \<le> mo_parn s then Some s
      else
        let nick = str_at (mo_buf s) (parv ! mo_parn s); s = next_param s
        in case me_find e nick (mo_world s) of
             None \<Rightarrow> Some s
           | Some t \<Rightarrow>
               Option.bind (users (mo_world s) t) (\<lambda>u.
               if \<not> IsClient u then Some s else
               Option.bind (find_channel_link t (me_chptr e) (mo_world s)) (\<lambda>lk.
               case lk of
                 None \<Rightarrow> Some (once SM_ERR_NOTONCHANNEL [Mode_numeric 441 nick] s)
               | Some ms \<Rightarrow>
                   (case count_param e s of
                      (True, s) \<Rightarrow> Some s
                    | (False, s) \<Rightarrow>
                        Option.bind (mships (mo_world s) ms) (\<lambda>x.
                        if (dir = MODE_ADD) = (ms_flags x AND fl \<noteq> 0) then Some s
                        else
                          let s = push_change ((change l dir (Name_of t))\<lparr>mc_id := Some t\<rparr>) s
                          in map_option (\<lambda>w. s\<lparr>mo_world := w\<rparr>)
                            (upd_mship ms (\<lambda>x. x\<lparr>ms_flags := if dir = MODE_ADD then (ms_flags x OR fl) AND NOT clr
                                                             else ms_flags x AND NOT fl\<rparr>) (mo_world s)))))))"

definition chm_op :: chm where
  "chm_op e parv alev dir c s =
     (if alev < CHACCESS_CHANOP then Some (no_access e alev s)
      else change_member CHFL_CHANOP CHFL_DEOPPED CHR ''o'' e parv dir s)"

definition chm_hop :: chm where
  "chm_hop e parv alev dir c s =
     Option.bind (chans (mo_world s) (me_chptr e)) (\<lambda>ch.
       if alev < (if mode ch AND MODE_PRIVATE \<noteq> 0 then CHACCESS_CHANOP else CHACCESS_HALFOP)
       then Some (no_access e alev s)
       else change_member CHFL_HALFOP CHFL_DEOPPED CHR ''h'' e parv dir s)"

definition chm_voice :: chm where
  "chm_voice e parv alev dir c s =
     (if alev < CHACCESS_HALFOP then Some (no_access e alev s)
      else change_member CHFL_VOICE 0 CHR ''v'' e parv dir s)"

text \<open>\<open>MODE #channel +ll 1 2\<close>: the earlier change is taken out.\<close>

definition cancel_adds :: "char \<Rightarrow> mode_state \<Rightarrow> mode_state" where
  "cancel_adds c s = s\<lparr>mo_changes := map (\<lambda>m. if mc_letter m = c \<and> mc_dir m = MODE_ADD then m\<lparr>mc_letter := NUL\<rparr> else m)
     (mo_changes s)\<rparr>"

definition chm_limit :: chm where
  "chm_limit e parv alev dir c s =
     (if alev < CHACCESS_HALFOP then Some (no_access e alev s)
      else if dir = MODE_QUERY then Some s
      else if dir = MODE_ADD \<and> length parv > mo_parn s then
        let i = parv ! mo_parn s; s = next_param s; n = c_atoi (str_at (mo_buf s) i)
        in if n \<le> 0 then Some s
           else Option.bind (write_at i (put_d (word_of_int n)) (mo_buf s)) (\<lambda>buf.
             on_chan_mode (\<lambda>ch. ch\<lparr>limit := word_of_int n\<rparr>) e
               (push_change (change c MODE_ADD (Param i)) (cancel_adds c (s\<lparr>mo_buf := buf\<rparr>))))
      else if dir = MODE_DEL then
        Option.bind (chans (mo_world s) (me_chptr e)) (\<lambda>ch.
          if limit ch = 0 then Some s
          else map_option (push_change (change c MODE_DEL No_arg)) (on_chan_mode (\<lambda>ch. ch\<lparr>limit := 0\<rparr>) e s))
      else Some s)"

definition chm_key :: chm where
  "chm_key e parv alev dir c s =
     (if alev < CHACCESS_HALFOP then Some (no_access e alev s)
      else if dir = MODE_QUERY then Some s
      else if dir = MODE_ADD \<and> length parv > mo_parn s then
        let i = parv ! mo_parn s; s = next_param s;
            k = (if MyClient (me_source e) then fix_key else fix_key_old) (str_at (mo_buf s) i)
        in Option.bind (write_at i k (mo_buf s)) (\<lambda>buf.
             let s = s\<lparr>mo_buf := buf\<rparr>
             in if k = [] then Some s
                else map_option (\<lambda>s. push_change (change c MODE_ADD (Key_of (me_chptr e))) (cancel_adds c s))
                  (on_chan_mode (\<lambda>ch. ch\<lparr>key := c_strlcpy k KEYLEN\<rparr>) e s))
      else if dir = MODE_DEL then
        let s = (if length parv > mo_parn s then next_param s else s)
        in Option.bind (chans (mo_world s) (me_chptr e)) (\<lambda>ch.
             if key ch = [] then Some s
             else map_option (push_change (change c MODE_DEL (Text ''*''))) (on_chan_mode (\<lambda>ch. ch\<lparr>key := []\<rparr>) e s))
      else Some s)"

text \<open>\<open>ModeTable\<close>: a letter outside \<open>A\<close> to \<open>z\<close> has position 0, which is \<open>chm_nosuch\<close> too.\<close>

definition mode_handler :: "bool \<Rightarrow> char \<Rightarrow> chm" where
  "mode_handler halfops c =
     (if c = CHR ''I'' then chm_invex else if c = CHR ''b'' then chm_ban else if c = CHR ''e'' then chm_except
      else if c = CHR ''h'' \<and> halfops then chm_hop
      else if c = CHR ''i'' then chm_simple MODE_INVITEONLY
      else if c = CHR ''k'' then chm_key else if c = CHR ''l'' then chm_limit
      else if c = CHR ''m'' then chm_simple MODE_MODERATED
      else if c = CHR ''n'' then chm_simple MODE_NOPRIVMSGS
      else if c = CHR ''o'' then chm_op
      else if c = CHR ''p'' then chm_simple MODE_PRIVATE
      else if c = CHR ''s'' then chm_simple MODE_SECRET
      else if c = CHR ''t'' then chm_simple MODE_TOPICLIMIT
      else if c = CHR ''v'' then chm_voice
      else chm_nosuch)"

definition get_channel_access :: "bool \<Rightarrow> user \<Rightarrow> membership option \<Rightarrow> int" where
  "get_channel_access halfops u ms =
     (if \<not> MyClient u then CHACCESS_CHANOP
      else case ms of
        None \<Rightarrow> CHACCESS_NOTONCHAN
      | Some m \<Rightarrow>
          if ms_flags m AND CHFL_CHANOP \<noteq> 0 then CHACCESS_CHANOP
          else if halfops \<and> ms_flags m AND CHFL_HALFOP \<noteq> 0 then CHACCESS_HALFOP
          else CHACCESS_PEON)"

fun mode_loop :: "mode_env \<Rightarrow> nat list \<Rightarrow> int \<Rightarrow> mode_dir \<Rightarrow> string \<Rightarrow> mode_state \<Rightarrow> mode_state option" where
  "mode_loop e parv alev dir [] s = Some s"
| "mode_loop e parv alev dir (c # ml) s =
     (if c = CHR ''+'' then mode_loop e parv alev MODE_ADD ml s
      else if c = CHR ''-'' then mode_loop e parv alev MODE_DEL ml s
      else if c = CHR ''='' then mode_loop e parv alev MODE_QUERY ml s
      else Option.bind (mode_handler (me_halfops e) c e parv alev dir c s) (mode_loop e parv alev dir ml))"

subsection \<open>The lines that tell of the changes\<close>

record line_state =
  ln_mode :: string
  ln_para :: string
  ln_nc :: nat
  ln_mc :: nat
  ln_dir :: mode_dir
  ln_out :: "string list"

definition arg_text :: "chan_world \<Rightarrow> string \<Rightarrow> mode_arg \<Rightarrow> string option" where
  "arg_text w buf a =
     (case a of
        No_arg \<Rightarrow> None
      | Param i \<Rightarrow> Some (str_at buf i)
      | Key_of c \<Rightarrow> map_option key (chans w c)
      | Name_of u \<Rightarrow> map_option us_name (users w u)
      | Text t \<Rightarrow> Some t)"

definition line_add :: "string \<Rightarrow> char \<Rightarrow> mode_dir \<Rightarrow> string option \<Rightarrow> line_state \<Rightarrow> line_state" where
  "line_add hdr l d arg s =
     (let n = (case arg of None \<Rightarrow> 0 | Some a \<Rightarrow> length a);
          s = (if ln_mc s = MAXMODEPARAMS \<or> n + length (ln_mode s) + length (ln_para s) + 2 > IRCD_BUFSIZE \<or>
                  length (ln_para s) + n + BAN_FUDGE \<ge> MODEBUFLEN
               then \<lparr>ln_mode = hdr, ln_para = [], ln_nc = 0, ln_mc = 0, ln_dir = MODE_QUERY,
                     ln_out = (if ln_nc s \<noteq> 0 then ln_out s @ [ln_mode s @ '' '' @ ln_para s] else ln_out s)\<rparr>
               else s);
          sign = (if ln_dir s \<noteq> d then [if d = MODE_ADD then CHR ''+'' else CHR ''-''] else [])
      in s\<lparr>ln_mode := ln_mode s @ sign @ [l], ln_nc := ln_nc s + 1, ln_dir := d,
           ln_para := (case arg of None \<Rightarrow> ln_para s | Some a \<Rightarrow> ln_para s @ a @ '' ''),
           ln_mc := (case arg of None \<Rightarrow> ln_mc s | Some _ \<Rightarrow> ln_mc s + 1)\<rparr>)"

definition line_end :: "line_state \<Rightarrow> string list" where
  "line_end s =
     (let para = (if ln_para s \<noteq> [] \<and> last (ln_para s) = CHR '' '' then butlast (ln_para s) else ln_para s)
      in if ln_nc s \<noteq> 0 then ln_out s @ [ln_mode s @ '' '' @ para] else ln_out s)"

definition line_start :: "string \<Rightarrow> line_state" where
  "line_start hdr = \<lparr>ln_mode = hdr, ln_para = [], ln_nc = 0, ln_mc = 0, ln_dir = MODE_QUERY, ln_out = []\<rparr>"

text \<open>A line's first buffer starts with \<open>h1\<close>, those after a full one with \<open>h2\<close>.\<close>

definition mode_lines :: "string \<Rightarrow> string \<Rightarrow> (mode_change \<Rightarrow> string option) \<Rightarrow> mode_change list \<Rightarrow> string list" where
  "mode_lines h1 h2 arg ms =
     line_end (foldl (\<lambda>s m. line_add h2 (mc_letter m) (mc_dir m) (arg m) s) (line_start h1) ms)"

record chcap_combo =
  cc_count :: int
  cap_yes :: u32
  cap_no :: u32

definition send_cap_mode_changes ::
  "mode_env \<Rightarrow> u32 \<Rightarrow> u32 \<Rightarrow> mode_state \<Rightarrow> string list" where
  "send_cap_mode_changes e cap nocap s =
     (let u = me_source e; ts6 = (cap AND CAP_TS6 \<noteq> 0); name = (if ts6 \<and> us_id u \<noteq> [] then us_id u else us_name u);
          ts = (case chans (mo_world s) (me_chptr e) of None \<Rightarrow> 0 | Some ch \<Rightarrow> channelts ch);
          h2 = '':'' @ name @ '' MODE '' @ me_chname e @ '' '';
          h1 = (if ts6 \<and> us_id u \<noteq> []
                then '':'' @ name @ '' TMODE '' @ put_lu (word_of_int ts) @ '' '' @ me_chname e @ '' '' else h2);
          arg = (\<lambda>m. case (if ts6 then Option.bind (mc_id m) (\<lambda>t. map_option us_id (users (mo_world s) t)) else None) of
                       None \<Rightarrow> arg_text (mo_world s) (mo_buf s) (mc_arg m)
                     | Some i \<Rightarrow> if i \<noteq> [] then Some i else arg_text (mo_world s) (mo_buf s) (mc_arg m))
      in mode_lines h1 h2 arg (filter (\<lambda>m. mc_letter m \<noteq> NUL \<and> cap AND mc_caps m = mc_caps m) (mo_changes s)))"

text \<open>\<open>hidden\<close> is \<open>IsHidden(source_p) || ConfigServerHide.hide_servers\<close>, \<open>me\<close> the server's own name.\<close>

definition member_lines :: "mode_env \<Rightarrow> bool \<Rightarrow> string \<Rightarrow> mode_state \<Rightarrow> string list" where
  "member_lines e hidden me s =
     (let u = me_source e; from = (\<lambda>n. '':'' @ n @ '' MODE '' @ me_chname e @ '' '');
          h1 = (if IsServer u then from (if hidden then me else us_name u)
                else from (nuh (us_name u) (us_username u) (us_host u)));
          h2 = (if IsServer u then from me else h1)
      in mode_lines h1 h2 (\<lambda>m. arg_text (mo_world s) (mo_buf s) (mc_arg m))
           (filter (\<lambda>m. mc_letter m \<noteq> NUL \<and> mc_mems m \<noteq> ONLY_SERVERS) (mo_changes s)))"

definition send_mode_changes :: "mode_env \<Rightarrow> bool \<Rightarrow> string \<Rightarrow> chcap_combo list \<Rightarrow> mode_state \<Rightarrow> mode_state" where
  "send_mode_changes e hidden me combos s =
     (if mo_changes s = [] then s
      else s\<lparr>mo_out := mo_out s @ map To_members (member_lines e hidden me s) @
             concat (map (\<lambda>cc. map (To_servers (cap_yes cc) (cap_no cc)) (send_cap_mode_changes e (cap_yes cc) (cap_no cc) s))
               (filter (\<lambda>cc. cc_count cc \<noteq> 0) combos))\<rparr>)"

text \<open>\<open>parv\<close> starts at the mode letters, which stand in front of all parameters in the buffer.\<close>

definition set_channel_mode ::
  "mode_env \<Rightarrow> bool \<Rightarrow> string \<Rightarrow> chcap_combo list \<Rightarrow> membership option \<Rightarrow> nat list \<Rightarrow> string \<Rightarrow> chan_world \<Rightarrow> mode_state option" where
  "set_channel_mode e hidden me combos member parv buf w =
     (let s = \<lparr>mo_world = w, mo_buf = buf, mo_parn = 1, mo_errors = 0, mo_changes = [], mo_limit = 0, mo_simple = 0, mo_out = []\<rparr>
      in map_option (send_mode_changes e hidden me combos)
           (mode_loop e parv (get_channel_access (me_halfops e) (me_source e) member) MODE_ADD (str_at buf (parv ! 0)) s))"

subsection \<open>The combinations of server capabilities\<close>

definition channel_capabs :: "u32 list" where "channel_capabs = [CAP_EX, CAP_IE, CAP_TS6]"

definition combo_of :: "nat \<Rightarrow> chcap_combo" where
  "combo_of m = foldl (\<lambda>cc c. if \<not> bit m c then cc\<lparr>cap_no := cap_no cc OR channel_capabs ! c\<rparr>
                             else cc\<lparr>cap_yes := cap_yes cc OR channel_capabs ! c\<rparr>)
     \<lparr>cc_count = 0, cap_yes = 0, cap_no = 0\<rparr> [0..<3]"

definition init_chcap_usage_counts :: "chcap_combo list" where
  "init_chcap_usage_counts = map combo_of [0..<8]"

text \<open>The first combination that fits the server's capabilities gets one more, or one less; \<open>None\<close>
  is the failed assertion.\<close>

fun count_combo :: "int \<Rightarrow> u32 \<Rightarrow> chcap_combo list \<Rightarrow> chcap_combo list option" where
  "count_combo d caps [] = None"
| "count_combo d caps (cc # ccs) =
     (if caps AND cap_yes cc = cap_yes cc \<and> caps AND cap_no cc = 0
      then Some (cc\<lparr>cc_count := cc_count cc + d\<rparr> # ccs)
      else map_option ((#) cc) (count_combo d caps ccs))"

definition set_chcap_usage_counts :: "u32 \<Rightarrow> chcap_combo list \<Rightarrow> chcap_combo list option" where
  "set_chcap_usage_counts caps ccs = count_combo 1 caps ccs"

definition unset_chcap_usage_counts :: "u32 \<Rightarrow> chcap_combo list \<Rightarrow> chcap_combo list option" where
  "unset_chcap_usage_counts caps ccs = count_combo (- 1) caps ccs"

subsection \<open>The line buffer\<close>

definition text_ok :: "mode_env \<Rightarrow> nat list \<Rightarrow> string \<Rightarrow> bool" where
  "text_ok e parv buf \<longleftrightarrow> buf \<noteq> [] \<and> last buf = NUL \<and> (\<forall>i \<in> set parv. i + me_nicklen e + 80 < length buf)"

lemma takeWhile_shorter: "x \<in> set xs \<Longrightarrow> \<not> P x \<Longrightarrow> length (takeWhile P xs) < length xs"
  by (induction xs) auto

lemma str_at_room: "buf \<noteq> [] \<Longrightarrow> last buf = NUL \<Longrightarrow> i < length buf \<Longrightarrow> i + length (str_at buf i) < length buf"
proof -
  assume b: "buf \<noteq> []" "last buf = NUL" "i < length buf"
  then have "last (drop i buf) = NUL" "drop i buf \<noteq> []" by (simp_all add: last_drop)
  then have "NUL \<in> set (drop i buf)" using last_in_set by metis
  then have "length (takeWhile (\<lambda>c. c \<noteq> NUL) (drop i buf)) < length (drop i buf)" by (rule takeWhile_shorter) simp
  with b(3) show ?thesis by (simp add: str_at_def less_diff_conv add.commute)
qed

lemma write_at_ok:
  assumes "buf \<noteq> []" "last buf = NUL" "i + length s < length buf"
  shows "\<exists>buf'. write_at i s buf = Some buf' \<and> length buf' = length buf \<and> buf' \<noteq> [] \<and> last buf' = NUL"
proof -
  let ?b = "take i buf @ s @ NUL # drop (i + length s + 1) buf"
  have "last ?b = NUL"
  proof (cases "i + length s + 1 < length buf")
    case True
    then have "drop (i + length s + 1) buf \<noteq> []" by simp
    then show ?thesis using assms(2) True by (simp add: last_drop)
  next
    case False
    then have "drop (i + length s + 1) buf = []" by simp
    then show ?thesis by simp
  qed
  moreover have "length ?b = length buf" using assms(3) by simp
  ultimately show ?thesis using assms(3) by (intro exI[of _ ?b]) (simp add: write_at_def)
qed

lemma cut_at_keeps [simp]:
  "length (cut_at i buf) = length buf" "cut_at i buf = [] \<longleftrightarrow> buf = []"
  "last buf = NUL \<Longrightarrow> buf \<noteq> [] \<Longrightarrow> last (cut_at i buf) = NUL"
  by (simp_all add: cut_at_def last_list_update)

lemma cuts_keep:
  "length (fold (\<lambda>k. cut_at (i + k)) ks buf) = length buf"
  "(fold (\<lambda>k. cut_at (i + k)) ks buf = []) = (buf = [])"
  "last buf = NUL \<Longrightarrow> buf \<noteq> [] \<Longrightarrow> last (fold (\<lambda>k. cut_at (i + k)) ks buf) = NUL"
  by (induction ks arbitrary: buf) simp_all

lemma split_nuh_short:
  "split_nuh nl m = (n, u, h, cuts) \<Longrightarrow> length n \<le> nl + 1 \<and> length u \<le> 11 \<and> length h \<le> 64"
proof -
  have x: "length (xstrldup s k) \<le> k" "length (or_star s k) \<le> max k 1" for s k
    by (auto simp: xstrldup_def c_strlcpy_def or_star_def)
  have "length (or_star s nl) \<le> nl + 1" "length (xstrldup s nl) \<le> nl + 1" "length (or_star s 11) \<le> 11" "length (or_star s 64) \<le> 64" "length (xstrldup s 64) \<le> 64" for s
    using x(1)[of s nl] x(2)[of s nl] x(2)[of s 11] x(2)[of s 64] x(1)[of s 64] by simp_all
  then show "split_nuh nl m = (n, u, h, cuts) \<Longrightarrow> ?thesis"
    by (auto simp: split_nuh_def Let_def USERLEN_def HOSTLEN_def split: if_splits)
qed

lemma parse_mask_ok:
  assumes "text_ok e parv buf" "i \<in> set parv"
  shows "\<exists>n u h buf'. parse_mask (me_nicklen e) i buf = Some (n, u, h, buf') \<and> text_ok e parv buf'"
proof -
  obtain s b1 where s: "check_string i buf = (s, b1)" by fastforce
  then have b1: "length b1 = length buf" "b1 \<noteq> []" "last b1 = NUL"
    using assms(1) by (auto simp: check_string_def text_ok_def Let_def split: if_splits)
  obtain n u h cuts where sp: "split_nuh (me_nicklen e) s = (n, u, h, cuts)" by (metis prod_cases4)
  let ?b2 = "fold (\<lambda>k. cut_at (i + k)) cuts b1"
  have b2: "length ?b2 = length buf" "?b2 \<noteq> []" "last ?b2 = NUL" using b1 cuts_keep[where buf = b1] by auto
  have "i + length (nuh n u h) < length ?b2"
    using split_nuh_short[OF sp] assms b2(1) by (auto simp: nuh_def text_ok_def)
  from write_at_ok[OF b2(2,3) this] obtain b3 where
    b3: "write_at i (nuh n u h) ?b2 = Some b3" "length b3 = length ?b2" "b3 \<noteq> []" "last b3 = NUL" by blast
  then have "text_ok e parv b3" using assms(1) b2(1) by (simp add: text_ok_def)
  then show ?thesis using b3(1) by (simp add: parse_mask_def s sp)
qed

lemma write_shorter_ok:
  assumes "text_ok e parv buf" "i \<in> set parv" "length s \<le> length (str_at buf i) \<or> length s \<le> 80"
  shows "\<exists>buf'. write_at i s buf = Some buf' \<and> text_ok e parv buf'"
proof -
  have "i < length buf" using assms(1,2) by (auto simp: text_ok_def)
  then have "i + length (str_at buf i) < length buf" using str_at_room assms(1) by (simp add: text_ok_def)
  then have "i + length s < length buf" using assms by (auto simp: text_ok_def)
  with write_at_ok[of buf i s] assms(1) show ?thesis by (auto simp: text_ok_def)
qed

lemma collapse_shorter: "length (collapse_str s) \<le> length s"
  by (induction s) (auto intro: le_SucI)

lemma fix_key_shorter: "length (fix_key s) \<le> length s" "length (fix_key_old s) \<le> length s"
proof -
  show "length (fix_key s) \<le> length s"
    unfolding fix_key_def by (rule order_trans[OF length_filter_le]) simp
  show "length (fix_key_old s) \<le> length s"
    unfolding fix_key_old_def by (rule order_trans[OF length_takeWhile_le], rule order_trans[OF length_filter_le]) simp
qed

lemma group_loop_length: "v < 1000 ^ k \<Longrightarrow> 0 < k \<Longrightarrow> length (group_loop v s) \<le> 3 * k + length s"
proof (induction k arbitrary: v s)
  case (Suc k)
  have t: "length (tab_digits x) \<le> 3" for x by (simp add: tab_digits_def)
  show ?case
  proof (cases "v div 1000 > 0")
    case True
    then have k: "0 < k" using Suc.prems(1) by (cases k) auto
    have "v div 1000 < 1000 ^ k" using Suc.prems(1) by (simp add: less_mult_imp_div_less mult.commute)
    from Suc.IH[OF this k, of "tab_digits (v - 1000 * (v div 1000)) @ s"] True t[of "v - 1000 * (v div 1000)"]
    show ?thesis by (simp add: group_loop.simps[of v s] Let_def)
  next
    case False
    then show ?thesis using t[of "v - 1000 * (v div 1000)"] by (simp add: group_loop.simps[of v s] Let_def)
  qed
qed simp

lemma put_d_short: "length (put_d w) \<le> 80"
proof -
  have "length (group_loop (unat x) []) \<le> 12" for x :: u32
    using group_loop_length[of "unat x" 4 "[]"] unat32[of x] by simp
  then have "length (dropWhile (\<lambda>c. c = CHR ''0'') (group_loop (unat x) [])) \<le> 12" for x :: u32
    using length_dropWhile_le le_trans by blast
  then show ?thesis by (simp add: put_d_def le_SucI order_trans[of _ "12::nat"])
qed

subsection \<open>What a mode change leaves alone\<close>

definition chan_core :: "channel \<Rightarrow> channel" where
  "chan_core ch = ch\<lparr>mode := 0, limit := 0, key := [], banlist := [], exceptlist := [], invexlist := []\<rparr>"

definition mship_core :: "membership \<Rightarrow> membership" where
  "mship_core x = x\<lparr>ms_flags := 0\<rparr>"

definition mode_frame :: "chan_world \<Rightarrow> chan_world \<Rightarrow> bool" where
  "mode_frame w w' \<longleftrightarrow> users w' = users w \<and> global_channel_list w' = global_channel_list w \<and>
     lazylink_channels w' = lazylink_channels w \<and> chan_hash w' = chan_hash w \<and>
     (\<forall>c. map_option chan_core (chans w' c) = map_option chan_core (chans w c)) \<and>
     (\<forall>m. map_option mship_core (mships w' m) = map_option mship_core (mships w m))"

lemma mode_frame_refl [simp]: "mode_frame w w"
  by (simp add: mode_frame_def)

lemma mode_frame_trans: "mode_frame a b \<Longrightarrow> mode_frame b c \<Longrightarrow> mode_frame a c"
  by (simp add: mode_frame_def)

lemma core_fields:
  "chan_core ch' = chan_core ch \<Longrightarrow> ch_members ch' = ch_members ch \<and> locmembers ch' = locmembers ch \<and> invites ch' = invites ch"
  "mship_core x' = mship_core x \<Longrightarrow> ms_client x' = ms_client x \<and> ms_chptr x' = ms_chptr x"
  by (auto simp: chan_core_def mship_core_def dest: arg_cong[where f = ch_members] arg_cong[where f = locmembers]
      arg_cong[where f = invites] arg_cong[where f = ms_client] arg_cong[where f = ms_chptr])

lemma frame_chan:
  assumes "mode_frame w w'"
  shows "chans w' c = None \<longleftrightarrow> chans w c = None" "mships w' m = None \<longleftrightarrow> mships w m = None"
    "chans w c = Some ch \<Longrightarrow> \<exists>ch'. chans w' c = Some ch' \<and> chan_core ch' = chan_core ch"
    "mships w m = Some x \<Longrightarrow> \<exists>x'. mships w' m = Some x' \<and> mship_core x' = mship_core x"
proof -
  have c: "map_option chan_core (chans w' c) = map_option chan_core (chans w c)"
    and m: "map_option mship_core (mships w' m) = map_option mship_core (mships w m)"
    using assms by (simp_all add: mode_frame_def)
  show "chans w' c = None \<longleftrightarrow> chans w c = None" using c by (cases "chans w c"; cases "chans w' c") simp_all
  show "mships w' m = None \<longleftrightarrow> mships w m = None" using m by (cases "mships w m"; cases "mships w' m") simp_all
  show "\<exists>ch'. chans w' c = Some ch' \<and> chan_core ch' = chan_core ch" if "chans w c = Some ch"
    using c that by (cases "chans w' c") simp_all
  show "\<exists>x'. mships w' m = Some x' \<and> mship_core x' = mship_core x" if "mships w m = Some x"
    using m that by (cases "mships w' m") simp_all
qed

lemma frame_view:
  assumes f: "mode_frame w w'" and g: "\<And>ch ch'. chan_core ch' = chan_core ch \<Longrightarrow> g ch' = g ch"
  shows "(case chans w' c of None \<Rightarrow> z | Some ch \<Rightarrow> g ch) = (case chans w c of None \<Rightarrow> z | Some ch \<Rightarrow> g ch)"
proof (cases "chans w c")
  case None
  then show ?thesis using frame_chan(1)[OF f, of c] by simp
next
  case (Some ch)
  obtain ch' where ch': "chans w' c = Some ch'" "chan_core ch' = chan_core ch" using frame_chan(3)[OF f Some] by blast
  with Some g[OF ch'(2)] show ?thesis by simp
qed

lemma frame_views:
  assumes f: "mode_frame w w'"
  shows "mems w' = mems w" "locmems w' = locmems w" "invs w' = invs w" "uchans w' = uchans w" "uinvs w' = uinvs w"
    "is_local w' = is_local w" "dom (chans w') = dom (chans w)" "on_chan w' = on_chan w" "of_user w' = of_user w"
    "local_mship w' = local_mship w"
proof -
  have u: "users w' = users w" using f by (simp add: mode_frame_def)
  show "mems w' = mems w" "locmems w' = locmems w" "invs w' = invs w"
    unfolding view_defs using frame_view[OF f] core_fields(1) by (meson ext)+
  show "uchans w' = uchans w" "uinvs w' = uinvs w" "is_local w' = is_local w" by (rule users_views(1-3)[OF u])+
  then show "local_mship w' = local_mship w" and "on_chan w' = on_chan w" and "of_user w' = of_user w"
  proof -
    have m: "(\<exists>x. mships w' m = Some x \<and> P (ms_client x) (ms_chptr x)) = (\<exists>x. mships w m = Some x \<and> P (ms_client x) (ms_chptr x))" for m P
    proof (cases "mships w m")
      case None
      then show ?thesis using frame_chan(2)[OF f, of m] by simp
    next
      case (Some x)
      obtain x' where x': "mships w' m = Some x'" "mship_core x' = mship_core x" using frame_chan(4)[OF f Some] by blast
      then show ?thesis using Some core_fields(2)[OF x'(2)] by simp
    qed
    show "on_chan w' = on_chan w" "of_user w' = of_user w"
      using m[where P = "\<lambda>_ c. c = _"] m[where P = "\<lambda>u _. u = _"] by (auto simp: on_chan_def of_user_def fun_eq_iff)
    have "local_mship v m = (\<exists>x. mships v m = Some x \<and> is_local v (ms_client x))" for v m
      by (simp add: local_mship_def split: option.split)
    then show "local_mship w' = local_mship w"
      using m[where P = "\<lambda>u _. is_local w u"] users_views(3)[OF u] by (simp add: fun_eq_iff)
  qed
  have "c \<in> dom (chans w') \<longleftrightarrow> c \<in> dom (chans w)" for c using frame_chan(1)[OF f, of c] by (simp add: domIff)
  then show "dom (chans w') = dom (chans w)" by blast
qed

lemma frame_inv: "mode_frame w w' \<Longrightarrow> chan_inv w' = chan_inv w"
proof -
  assume f: "mode_frame w w'"
  have "global_channel_list w' = global_channel_list w" "chan_hash w' = chan_hash w" using f by (simp_all add: mode_frame_def)
  then show ?thesis
    unfolding chan_inv_def member_inv_def invite_inv_def table_inv_def frame_views[OF f] by simp
qed

lemma upd_chan_frame:
  assumes "upd_chan c f w = Some w'" "\<And>ch. chan_core (f ch) = chan_core ch"
  shows "mode_frame w w'"
  using assms by (auto simp: upd_chan_def mode_frame_def)

lemma upd_mship_frame:
  assumes "upd_mship m f w = Some w'" "\<And>x. mship_core (f x) = mship_core x"
  shows "mode_frame w w'"
  using assms by (auto simp: upd_mship_def mode_frame_def)

lemma foreach_frame:
  assumes "\<And>x a b. f x a = Some b \<Longrightarrow> mode_frame a b" "foreach_safe f xs w = Some w'"
  shows "mode_frame w w'"
  using assms(2)
proof (induction xs arbitrary: w)
  case (Cons x xs)
  then obtain v where "f x w = Some v" "foreach_safe f xs v = Some w'" by (auto simp: bind_eq_Some_conv)
  then show ?case using Cons.IH assms(1) mode_frame_trans by blast
qed simp

lemma clear_ban_cache_frame: "clear_ban_cache c w = Some w' \<Longrightarrow> mode_frame w w'"
  unfolding clear_ban_cache_def bind_eq_Some_conv
  by (elim exE conjE, rule foreach_frame, erule upd_mship_frame) (simp_all add: mship_core_def)

lemma cache_step_frame: "cache_step ty c w = Some w' \<Longrightarrow> mode_frame w w'"
  by (auto simp: cache_step_def clear_ban_cache_frame split: if_splits)

subsection \<open>The invariant of a mode change\<close>

definition mode_ok :: "chan_config \<Rightarrow> chan_world \<Rightarrow> bool" where
  "mode_ok cfg w \<longleftrightarrow> chan_inv w \<and> cache_ok cfg w \<and> remote_uncached w"

lemma cache_chan:
  assumes "cache_ok cfg w" "chans w c = Some ch" "banlist ch' = banlist ch" "exceptlist ch' = exceptlist ch"
  shows "cache_ok cfg (w\<lparr>chans := (chans w)(c \<mapsto> ch')\<rparr>)"
  using assms banned_fields[of ch' ch] unfolding cache_ok_def by auto

lemma uncached_chan: "remote_uncached (w\<lparr>chans := C\<rparr>) = remote_uncached w"
  by (simp add: remote_uncached_def is_local_def)

lemma cache_flags:
  assumes ok: "cache_ok cfg w" "remote_uncached w" and x: "mships w m = Some x"
    and fl: "bit fl 7 = bit (ms_flags x) 7" "bit fl 8 = bit (ms_flags x) 8"
  shows "cache_ok cfg (w\<lparr>mships := (mships w)(m \<mapsto> x\<lparr>ms_flags := fl\<rparr>)\<rparr>)"
    "remote_uncached (w\<lparr>mships := (mships w)(m \<mapsto> x\<lparr>ms_flags := fl\<rparr>)\<rparr>)"
proof -
  have b: "flags_ok b fl = flags_ok b (ms_flags x)" for b using fl by (simp add: flags_ok_bits)
  show "cache_ok cfg (w\<lparr>mships := (mships w)(m \<mapsto> x\<lparr>ms_flags := fl\<rparr>)\<rparr>)"
    using ok(1) x unfolding cache_ok_def by (auto simp: b)
  show "remote_uncached (w\<lparr>mships := (mships w)(m \<mapsto> x\<lparr>ms_flags := fl\<rparr>)\<rparr>)"
    using ok(2) x fl unfolding remote_uncached_def flag_bits by (auto simp: is_local_def)
qed

lemma mode_ok_chan:
  assumes "mode_ok cfg w" "chans w c = Some ch" "chan_core ch' = chan_core ch" "banlist ch' = banlist ch" "exceptlist ch' = exceptlist ch"
  shows "mode_ok cfg (w\<lparr>chans := (chans w)(c \<mapsto> ch')\<rparr>) \<and> mode_frame w (w\<lparr>chans := (chans w)(c \<mapsto> ch')\<rparr>)"
proof -
  have f: "mode_frame w (w\<lparr>chans := (chans w)(c \<mapsto> ch')\<rparr>)" using assms(2,3) by (simp add: mode_frame_def)
  then show ?thesis
    using assms cache_chan frame_inv[OF f] by (simp add: mode_ok_def uncached_chan)
qed

lemma mode_ok_flags:
  assumes ok: "mode_ok cfg w" and r: "upd_mship m (\<lambda>x. x\<lparr>ms_flags := g (ms_flags x)\<rparr>) w = Some w'"
    and fl: "\<And>fl. bit (g fl) 7 = bit fl 7" "\<And>fl. bit (g fl) 8 = bit fl 8"
  shows "mode_ok cfg w' \<and> mode_frame w w' \<and> chans w' = chans w"
proof -
  obtain x where x: "mships w m = Some x" "w' = w\<lparr>mships := (mships w)(m \<mapsto> x\<lparr>ms_flags := g (ms_flags x)\<rparr>)\<rparr>"
    using r by (auto simp: upd_mship_def)
  have f: "mode_frame w w'" by (rule upd_mship_frame[OF r]) (simp add: mship_core_def)
  then show ?thesis
    using ok cache_flags[OF _ _ x(1) fl(1)[of "ms_flags x"] fl(2)[of "ms_flags x"], where cfg = cfg] frame_inv[OF f] x(2)
    by (simp add: mode_ok_def)
qed

lemma upd_ban_core [simp]: "chan_core (upd_ban_list ty g ch) = chan_core ch"
  by (simp add: upd_ban_list_def chan_core_def)

lemma ban_update_ok:
  assumes ok: "mode_ok cfg w" and ch: "chans w c = Some ch"
  shows "\<exists>w1. cache_step ty c w = Some w1 \<and> mode_frame w w1 \<and> mode_ok cfg w1 \<and> chans w1 = chans w \<and>
    (\<forall>g. \<exists>w2. upd_chan c (upd_ban_list ty g) w1 = Some w2 \<and> mode_ok cfg w2 \<and> mode_frame w w2 \<and>
       chans w2 c = Some (upd_ban_list ty g ch))"
proof (cases "ty = CHFL_BAN \<or> ty = CHFL_EXCEPTION")
  case False
  have "mode_ok cfg (w\<lparr>chans := (chans w)(c \<mapsto> upd_ban_list ty g ch)\<rparr>) \<and>
      mode_frame w (w\<lparr>chans := (chans w)(c \<mapsto> upd_ban_list ty g ch)\<rparr>)" for g
    by (rule mode_ok_chan[OF ok ch]) (use False in \<open>simp_all add: upd_ban_list_def chan_core_def\<close>)
  then show ?thesis using False ok ch by (intro exI[of _ w]) (auto simp: cache_step_def upd_chan_def)
next
  case True
  have mi: "member_inv w" and cr: "cache_ok cfg w" "remote_uncached w" using ok by (auto simp: mode_ok_def chan_inv_def)
  obtain M where M: "clear_ban_cache c w = Some (w\<lparr>mships := M\<rparr>)" "\<forall>m. M m = (if m \<in> set (locmembers ch)
       then map_option (\<lambda>x. x\<lparr>ms_flags := ms_flags x AND NOT (CHFL_BAN_SILENCED OR CHFL_BAN_CHECKED)\<rparr>) (mships w m)
       else mships w m)" using clear_ban_cache_effect[OF mi ch] by blast
  let ?w1 = "w\<lparr>mships := M\<rparr>"
  have cs: "cache_step ty c w = Some ?w1" using True M(1) by (simp add: cache_step_def)
  have f1: "mode_frame w ?w1" by (rule cache_step_frame[OF cs])
  have all: "cache_ok cfg (w\<lparr>mships := M, chans := (chans w)(c \<mapsto> f ch)\<rparr>)" for f
    using clear_ban_cache_ok[OF mi cr ch] M(1) by auto
  have "(chans w)(c \<mapsto> ch) = chans w" using ch by (simp add: fun_upd_idem)
  then have c1: "cache_ok cfg ?w1" using all[of "\<lambda>x. x"] by simp
  have un: "remote_uncached ?w1"
    unfolding remote_uncached_def
  proof (intro allI impI)
    fix m x assume x: "mships ?w1 m = Some x" "\<not> is_local ?w1 (ms_client x)"
    show "ms_flags x AND CHFL_BAN_SILENCED = 0 \<and> ms_flags x AND CHFL_BAN_CHECKED = 0"
    proof (cases "m \<in> set (locmembers ch)")
      case True
      then show ?thesis using M(2) x(1) flag_cleared(1,2) unfolding flag_bits by auto
    next
      case False
      then show ?thesis using M(2) x cr(2) unfolding remote_uncached_def by (auto simp: is_local_def)
    qed
  qed
  have ok1: "mode_ok cfg ?w1" using ok c1 un frame_inv[OF f1] by (simp add: mode_ok_def)
  have "\<exists>w2. upd_chan c (upd_ban_list ty g) ?w1 = Some w2 \<and> mode_ok cfg w2 \<and> mode_frame w w2 \<and> chans w2 c = Some (upd_ban_list ty g ch)" for g
  proof -
    let ?w2 = "w\<lparr>mships := M, chans := (chans w)(c \<mapsto> upd_ban_list ty g ch)\<rparr>"
    have r: "upd_chan c (upd_ban_list ty g) ?w1 = Some ?w2" using ch by (simp add: upd_chan_def)
    have f2: "mode_frame w ?w2" by (rule mode_frame_trans[OF f1 upd_chan_frame[OF r]]) simp
    have "remote_uncached ?w2" using un uncached_chan[where w = "?w1"] by simp
    with f2 show ?thesis using r all[of "upd_ban_list ty g"] ok frame_inv[OF f2] by (simp add: mode_ok_def)
  qed
  then show ?thesis using cs f1 ok1 by (intro exI[of _ ?w1]) simp
qed

definition param_changes :: "mode_state \<Rightarrow> nat" where
  "param_changes s = length (filter (\<lambda>m. mc_letter m \<in> set ''beIohv'') (mo_changes s))"

definition mode_good :: "mode_env \<Rightarrow> nat list \<Rightarrow> nat \<Rightarrow> mode_state \<Rightarrow> bool" where
  "mode_good e parv B s \<longleftrightarrow> mode_ok (me_cfg e) (mo_world s) \<and> text_ok e parv (mo_buf s) \<and>
     (\<exists>ch. chans (mo_world s) (me_chptr e) = Some ch \<and>
        (MyClient (me_source e) \<longrightarrow> num_masks ch \<le> max B (max_bans (me_cfg e)))) \<and>
     (MyClient (me_source e) \<longrightarrow> param_changes s \<le> mo_limit s \<and> param_changes s \<le> MAXMODEPARAMS)"

text \<open>A step of the loop: it returns, keeps \<open>mode_good\<close> and adds at most one change.\<close>

definition good_step :: "mode_env \<Rightarrow> nat list \<Rightarrow> nat \<Rightarrow> mode_state \<Rightarrow> mode_state option \<Rightarrow> bool" where
  "good_step e parv B s r \<longleftrightarrow> (\<exists>s'. r = Some s' \<and> mode_good e parv B s' \<and> mode_frame (mo_world s) (mo_world s') \<and>
     length (mo_changes s') \<le> Suc (length (mo_changes s)))"

lemma mode_good_cong:
  "mo_world s' = mo_world s \<Longrightarrow> mo_buf s' = mo_buf s \<Longrightarrow> mo_changes s' = mo_changes s \<Longrightarrow> mo_limit s \<le> mo_limit s' \<Longrightarrow>
   mode_good e parv B s \<Longrightarrow> mode_good e parv B s'"
  by (auto simp: mode_good_def param_changes_def)

lemma good_same:
  assumes "mo_world s' = mo_world s" "mo_buf s' = mo_buf s" "mo_changes s' = mo_changes s" "mo_limit s \<le> mo_limit s'"
    "mode_good e parv B s"
  shows "good_step e parv B s (Some s')"
  using mode_good_cong[OF assms] assms(1,3) by (simp add: good_step_def)

lemma once_fields [simp]:
  "mo_world (once b rs s) = mo_world s" "mo_buf (once b rs s) = mo_buf s" "mo_changes (once b rs s) = mo_changes s"
  "mo_limit (once b rs s) = mo_limit s" "mo_world (set_error b s) = mo_world s" "mo_buf (set_error b s) = mo_buf s"
  "mo_changes (set_error b s) = mo_changes s" "mo_limit (set_error b s) = mo_limit s"
  "mo_world (no_access e a s) = mo_world s" "mo_buf (no_access e a s) = mo_buf s" "mo_changes (no_access e a s) = mo_changes s"
  "mo_limit (no_access e a s) = mo_limit s"
  by (simp_all add: once_def set_error_def no_access_def)

definition same_count :: "mode_state \<Rightarrow> mode_state \<Rightarrow> bool" where
  "same_count s s' \<longleftrightarrow> mo_changes s' = mo_changes s \<and> mo_limit s' = mo_limit s \<and> mo_parn s' = mo_parn s \<and>
     mode_frame (mo_world s) (mo_world s')"

lemma num_masks_upd:
  "num_masks (upd_ban_list ty g ch) + length (ban_list ty ch) = num_masks ch + length (g (ban_list ty ch))"
  by (auto simp: num_masks_def upd_ban_list_def ban_list_def)

lemma mode_good_masks:
  assumes good: "mode_good e parv B s" and w: "mode_ok (me_cfg e) (mo_world s')" and b: "text_ok e parv (mo_buf s')"
    and c: "chans (mo_world s') (me_chptr e) = Some ch'" "MyClient (me_source e) \<longrightarrow> num_masks ch' \<le> max B (max_bans (me_cfg e))"
    and s: "same_count s s'"
  shows "mode_good e parv B s'"
proof -
  have "param_changes s' = param_changes s" "mo_limit s' = mo_limit s" using s by (simp_all add: same_count_def param_changes_def)
  with good w b c show ?thesis by (auto simp: mode_good_def)
qed

lemma add_id_good:
  assumes good: "mode_good e parv B s" and i: "i \<in> set parv"
  shows "\<exists>ok s'. add_id e i ty s = Some (ok, s') \<and> mode_good e parv B s' \<and> same_count s s'"
proof -
  let ?w = "mo_world s" and ?u = "me_source e"
  obtain ch where ch: "chans ?w (me_chptr e) = Some ch" "MyClient ?u \<longrightarrow> num_masks ch \<le> max B (max_bans (me_cfg e))"
    using good by (auto simp: mode_good_def)
  have ok: "mode_ok (me_cfg e) ?w" and tx: "text_ok e parv (mo_buf s)" using good by (auto simp: mode_good_def)
  show ?thesis
  proof (cases "MyClient ?u \<and> num_masks ch \<ge> max_bans (me_cfg e)")
    case True
    have "mode_good e parv B (mode_say r s)" for r by (rule mode_good_cong[OF _ _ _ _ good]) (simp_all add: mode_say_def)
    then show ?thesis using True ch(1) by (intro exI[of _ False]) (simp add: add_id_def same_count_def, simp add: mode_say_def)
  next
    case False
    obtain b1 where b1: "(if MyClient ?u then write_at i (collapse_str (str_at (mo_buf s) i)) (mo_buf s) else Some (mo_buf s)) = Some b1"
      "text_ok e parv b1"
      using write_shorter_ok[OF tx i, of "collapse_str (str_at (mo_buf s) i)"] collapse_shorter tx by (cases "MyClient ?u") auto
    obtain n us h b2 where b2: "parse_mask (me_nicklen e) i b1 = Some (n, us, h, b2)" "text_ok e parv b2"
      using parse_mask_ok[OF b1(2) i] by blast
    obtain w1 where w1: "cache_step ty (me_chptr e) ?w = Some w1" "mode_frame ?w w1" "mode_ok (me_cfg e) w1" "chans w1 = chans ?w"
      "\<forall>g. \<exists>w2. upd_chan (me_chptr e) (upd_ban_list ty g) w1 = Some w2 \<and> mode_ok (me_cfg e) w2 \<and> mode_frame ?w w2 \<and>
         chans w2 (me_chptr e) = Some (upd_ban_list ty g ch)"
      using ban_update_ok[OF ok ch(1), of ty] by blast
    let ?s1 = "s\<lparr>mo_buf := b2\<rparr>\<lparr>mo_world := w1\<rparr>"
    show ?thesis
    proof (cases "\<exists>b \<in> set (ban_list ty ch). same_ban n us h b")
      case True
      have "mode_good e parv B ?s1" by (rule mode_good_masks[OF good, where ch' = ch]) (use ch w1 b2 in \<open>simp_all add: same_count_def\<close>)
      moreover have "same_count s ?s1" using w1(2) by (simp add: same_count_def)
      moreover have "add_id e i ty s = Some (False, ?s1)"
        unfolding add_id_def Let_def ch(1) Option.bind.bind_lunit if_not_P[OF False] b1(1)
        using True by (simp add: b2(1) w1(1))
      ultimately show ?thesis by blast
    next
      case new: False
      define b where "b = \<lparr>ban_len = length (nuh n us h) - 2, ban_name = n, ban_username = us, ban_host = h,
          ban_who = (if IsClient ?u then nuh (us_name ?u) (us_username ?u) (us_host ?u) else us_name ?u), ban_when = me_now e\<rparr>"
      obtain w2 where w2: "upd_chan (me_chptr e) (upd_ban_list ty ((#) b)) w1 = Some w2" "mode_ok (me_cfg e) w2" "mode_frame ?w w2"
        "chans w2 (me_chptr e) = Some (upd_ban_list ty ((#) b) ch)" using w1(5) by blast
      let ?s2 = "?s1\<lparr>mo_world := w2\<rparr>"
      have "MyClient ?u \<longrightarrow> num_masks (upd_ban_list ty ((#) b) ch) \<le> max B (max_bans (me_cfg e))"
        using False num_masks_upd[of ty "(#) b" ch] by auto
      then have "mode_good e parv B ?s2"
        by (intro mode_good_masks[OF good, where ch' = "upd_ban_list ty ((#) b) ch"]) (use w2 b2 in \<open>simp_all add: same_count_def\<close>)
      moreover have "same_count s ?s2" using w2(3) by (simp add: same_count_def)
      moreover have "add_id e i ty s = Some (True, ?s2)"
        unfolding add_id_def Let_def ch(1) Option.bind.bind_lunit if_not_P[OF False] b1(1)
        using new by (simp add: b2(1) w1(1) w2(1)[unfolded b_def] b_def)
      ultimately show ?thesis by blast
    qed
  qed
qed

lemma del_id_good:
  assumes good: "mode_good e parv B s" and i: "i \<in> set parv"
  shows "\<exists>ok s'. del_id e i ty s = Some (ok, s') \<and> mode_good e parv B s' \<and> same_count s s'"
proof -
  let ?w = "mo_world s" and ?u = "me_source e"
  obtain ch where ch: "chans ?w (me_chptr e) = Some ch" "MyClient ?u \<longrightarrow> num_masks ch \<le> max B (max_bans (me_cfg e))"
    using good by (auto simp: mode_good_def)
  have ok: "mode_ok (me_cfg e) ?w" and tx: "text_ok e parv (mo_buf s)" using good by (auto simp: mode_good_def)
  obtain n us h b2 where b2: "parse_mask (me_nicklen e) i (mo_buf s) = Some (n, us, h, b2)" "text_ok e parv b2"
    using parse_mask_ok[OF tx i] by blast
  obtain w1 where w1: "cache_step ty (me_chptr e) ?w = Some w1" "mode_frame ?w w1" "mode_ok (me_cfg e) w1" "chans w1 = chans ?w"
    "\<forall>g. \<exists>w2. upd_chan (me_chptr e) (upd_ban_list ty g) w1 = Some w2 \<and> mode_ok (me_cfg e) w2 \<and> mode_frame ?w w2 \<and>
       chans w2 (me_chptr e) = Some (upd_ban_list ty g ch)"
    using ban_update_ok[OF ok ch(1), of ty] by blast
  let ?s1 = "s\<lparr>mo_buf := b2, mo_world := w1\<rparr>"
  show ?thesis
  proof (cases "List.find (same_ban n us h) (ban_list ty ch)")
    case None
    have "mode_good e parv B ?s1" by (rule mode_good_masks[OF good, where ch' = ch]) (use ch w1 b2 in \<open>simp_all add: same_count_def\<close>)
    moreover have "same_count s ?s1" using w1(2) by (simp add: same_count_def)
    ultimately show ?thesis using None by (intro exI[of _ False]) (simp add: del_id_def b2(1) ch(1) w1(1))
  next
    case (Some b)
    obtain w2 where w2: "upd_chan (me_chptr e) (upd_ban_list ty (remove_ban b)) w1 = Some w2" "mode_ok (me_cfg e) w2" "mode_frame ?w w2"
      "chans w2 (me_chptr e) = Some (upd_ban_list ty (remove_ban b) ch)" using w1(5) by blast
    let ?s2 = "?s1\<lparr>mo_world := w2\<rparr>"
    have "length (remove_ban b (ban_list ty ch)) \<le> length (ban_list ty ch)" by (simp add: remove_ban_def length_remove1)
    then have "num_masks (upd_ban_list ty (remove_ban b) ch) \<le> num_masks ch" using num_masks_upd[of ty "remove_ban b" ch] by simp
    then have "mode_good e parv B ?s2" using ch(2)
      by (intro mode_good_masks[OF good, where ch' = "upd_ban_list ty (remove_ban b) ch"]) (use w2 b2 in \<open>auto simp: same_count_def\<close>)
    moreover have "same_count s ?s2" using w2(3) by (simp add: same_count_def)
    ultimately show ?thesis using Some w2(1) by (intro exI[of _ True]) (simp add: del_id_def b2(1) ch(1) w1(1))
  qed
qed

text \<open>Room for one more change with a parameter.\<close>

definition slot_free :: "mode_env \<Rightarrow> mode_state \<Rightarrow> bool" where
  "slot_free e s \<longleftrightarrow> (MyClient (me_source e) \<longrightarrow> param_changes s < mo_limit s \<and> param_changes s < MAXMODEPARAMS)"

lemma count_param_cases:
  assumes good: "mode_good e parv B s"
  obtains full s1 where "count_param e s = (full, s1)" "mode_good e parv B s1" "mo_world s1 = mo_world s"
    "mo_changes s1 = mo_changes s" "mo_parn s1 = mo_parn s" "mo_buf s1 = mo_buf s" "\<not> full \<Longrightarrow> slot_free e s1"
proof (cases "MyClient (me_source e)")
  case True
  let ?s = "s\<lparr>mo_limit := mo_limit s + 1\<rparr>"
  have g: "mode_good e parv B ?s" by (rule mode_good_cong[OF _ _ _ _ good]) simp_all
  have "param_changes ?s = param_changes s" by (simp add: param_changes_def)
  moreover have "param_changes s \<le> mo_limit s" using good True by (auto simp: mode_good_def)
  ultimately have "\<not> mo_limit s + 1 > MAXMODEPARAMS \<Longrightarrow> slot_free e ?s" by (simp add: slot_free_def)
  then show thesis using that[of "mo_limit s + 1 > MAXMODEPARAMS" ?s] g True by (simp add: count_param_def)
next
  case False
  then show thesis using that[of False s] good by (simp add: count_param_def slot_free_def)
qed

lemma param_changes_push: "param_changes (push_change m s) = param_changes s + (if mc_letter m \<in> set ''beIohv'' then 1 else 0)"
  by (simp add: param_changes_def push_change_def)

lemma push_good:
  assumes "mode_good e parv B s" "slot_free e s \<or> mc_letter m \<notin> set ''beIohv''"
  shows "mode_good e parv B (push_change m s)"
  using assms param_changes_push[of m s] by (auto simp: mode_good_def slot_free_def push_change_def)

lemma push_fields [simp]:
  "mo_world (push_change m s) = mo_world s" "mo_buf (push_change m s) = mo_buf s" "mo_limit (push_change m s) = mo_limit s"
  "mo_changes (push_change m s) = mo_changes s @ [m]" "mo_parn (push_change m s) = mo_parn s"
  by (simp_all add: push_change_def)

lemma on_chan_good:
  assumes good: "mode_good e parv B s"
    and f: "\<And>ch. chan_core (f ch) = chan_core ch" "\<And>ch. banlist (f ch) = banlist ch" "\<And>ch. exceptlist (f ch) = exceptlist ch"
      "\<And>ch. invexlist (f ch) = invexlist ch"
  shows "\<exists>s1. on_chan_mode f e s = Some s1 \<and> mode_good e parv B s1 \<and> same_count s s1 \<and> mo_buf s1 = mo_buf s"
proof -
  obtain ch where ch: "chans (mo_world s) (me_chptr e) = Some ch" "MyClient (me_source e) \<longrightarrow> num_masks ch \<le> max B (max_bans (me_cfg e))"
    using good by (auto simp: mode_good_def)
  have ok: "mode_ok (me_cfg e) (mo_world s)" "text_ok e parv (mo_buf s)" using good by (auto simp: mode_good_def)
  let ?w = "(mo_world s)\<lparr>chans := (chans (mo_world s))(me_chptr e \<mapsto> f ch)\<rparr>"
  have w: "mode_ok (me_cfg e) ?w" "mode_frame (mo_world s) ?w" using mode_ok_chan[OF ok(1) ch(1) f(1,2,3)] by blast+
  have "mode_good e parv B (s\<lparr>mo_world := ?w\<rparr>)"
    by (rule mode_good_masks[OF good, where ch' = "f ch"]) (use w ok ch(2) f in \<open>simp_all add: same_count_def num_masks_def\<close>)
  then show ?thesis using w(2) ch(1) by (simp add: on_chan_mode_def upd_chan_def same_count_def)
qed

lemma good_stepI:
  assumes "mode_good e parv B s'" "mode_frame (mo_world s) (mo_world s')" "length (mo_changes s') \<le> Suc (length (mo_changes s))"
  shows "good_step e parv B s (Some s')"
  using assms by (simp add: good_step_def)

lemma no_access_good: "mode_good e parv B s \<Longrightarrow> good_step e parv B s (Some (no_access e alev s))"
  by (rule good_same) simp_all

lemma simple_good:
  assumes good: "mode_good e parv B s" and c: "c \<notin> set ''beIohv''"
  shows "good_step e parv B s (chm_simple ty e parv alev dir c s)"
proof -
  let ?s = "s\<lparr>mo_simple := mo_simple s OR ty\<rparr>"
  have g: "mode_good e parv B ?s" by (rule mode_good_cong[OF _ _ _ _ good]) simp_all
  have step: "good_step e parv B s (map_option (push_change (change c d No_arg)) (on_chan_mode f e ?s))"
    if f: "\<And>ch. chan_core (f ch) = chan_core ch" "\<And>ch. banlist (f ch) = banlist ch" "\<And>ch. exceptlist (f ch) = exceptlist ch"
      "\<And>ch. invexlist (f ch) = invexlist ch" for f d
  proof -
    obtain s1 where s1: "on_chan_mode f e ?s = Some s1" "mode_good e parv B s1" "same_count ?s s1" using on_chan_good[OF g f] by blast
    have "mode_good e parv B (push_change (change c d No_arg) s1)" by (rule push_good[OF s1(2)]) (use c in \<open>simp add: change_def\<close>)
    then show ?thesis using s1(1,3) by (auto simp: same_count_def intro!: good_stepI)
  qed
  have "chan_core (ch\<lparr>mode := x\<rparr>) = chan_core ch" for ch x by (simp add: chan_core_def)
  then show ?thesis
    using no_access_good[OF good] good_same[OF _ _ _ _ good, of s] good_same[OF _ _ _ _ good, of ?s] step
    by (cases dir) (simp_all add: chm_simple_def Let_def)
qed

lemma list_masks_good: "mode_good e parv B s \<Longrightarrow> good_step e parv B s (list_masks ty err r1 r2 e s)"
proof -
  assume g: "mode_good e parv B s"
  then obtain ch where "chans (mo_world s) (me_chptr e) = Some ch" by (auto simp: mode_good_def)
  then show ?thesis using good_same[OF _ _ _ _ g] by (simp add: list_masks_def)
qed

lemma change_mask_good:
  assumes good: "mode_good e parv B s" and p: "mo_parn s < length parv"
  shows "good_step e parv B s (change_mask ty must e parv dir m s)"
proof -
  obtain full s1 where cp: "count_param e s = (full, s1)" "mode_good e parv B s1" "mo_world s1 = mo_world s"
    "mo_changes s1 = mo_changes s" "mo_parn s1 = mo_parn s" "mo_buf s1 = mo_buf s" "\<not> full \<Longrightarrow> slot_free e s1"
    using count_param_cases[OF good] by metis
  show ?thesis
  proof (cases full)
    case True
    then show ?thesis using cp by (simp add: change_mask_def good_stepI)
  next
    case False
    let ?i = "parv ! mo_parn s1" and ?s2 = "next_param s1"
    have i: "?i \<in> set parv" using p cp(5) by simp
    have g2: "mode_good e parv B ?s2" by (rule mode_good_cong[OF _ _ _ _ cp(2)]) simp_all
    have slot: "slot_free e s3" if "same_count ?s2 s3" for s3
      using cp(7) False that by (simp add: slot_free_def same_count_def param_changes_def)
    have fin: "good_step e parv B s (map_option (\<lambda>(ok, s). if P ok then push_change (m ?i) s else s) (Some (ok, s3)))"
      if "mode_good e parv B s3" "same_count ?s2 s3" for ok s3 P
    proof -
      have "mode_good e parv B (push_change (m ?i) s3)" using push_good[OF that(1)] slot[OF that(2)] by blast
      then show ?thesis using that cp(3,4) by (auto simp: same_count_def intro!: good_stepI)
    qed
    obtain ok s3 where a: "add_id e ?i ty ?s2 = Some (ok, s3)" "mode_good e parv B s3" "same_count ?s2 s3" using add_id_good[OF g2 i] by blast
    obtain ok' s4 where d: "del_id e ?i ty ?s2 = Some (ok', s4)" "mode_good e parv B s4" "same_count ?s2 s4" using del_id_good[OF g2 i] by blast
    have "good_step e parv B s (Some ?s2)" by (rule good_stepI[OF g2]) (simp_all add: cp(3,4))
    then show ?thesis
      using False fin[OF a(2,3), of "\<lambda>ok. ok" ok] fin[OF d(2,3), of "\<lambda>ok. ok \<or> \<not> must" ok'] a(1) d(1)
      by (simp add: change_mask_def cp(1) Let_def)
  qed
qed

lemma ban_good: "mode_good e parv B s \<Longrightarrow> good_step e parv B s (chm_ban e parv alev dir c s)"
  using list_masks_good change_mask_good no_access_good by (simp add: chm_ban_def)

lemma set_error_good: "mode_good e parv B s \<Longrightarrow> good_step e parv B s (Some (set_error b s))"
  by (rule good_same) simp_all

lemma except_good: "mode_good e parv B s \<Longrightarrow> good_step e parv B s (chm_except e parv alev dir c s)"
  using list_masks_good change_mask_good no_access_good set_error_good by (simp add: chm_except_def)

lemma invex_good: "mode_good e parv B s \<Longrightarrow> good_step e parv B s (chm_invex e parv alev dir c s)"
  using list_masks_good change_mask_good no_access_good set_error_good by (simp add: chm_invex_def)

text \<open>\<open>find_chasing\<close> only finds clients that exist.\<close>

definition find_live :: "mode_env \<Rightarrow> bool" where
  "find_live e \<longleftrightarrow> (\<forall>n w t. chan_inv w \<longrightarrow> me_find e n w = Some t \<longrightarrow> users w t \<noteq> None)"

definition no_cache_flag :: "u32 \<Rightarrow> bool" where
  "no_cache_flag f \<longleftrightarrow> \<not> bit f 7 \<and> \<not> bit f 8"

lemma member_good:
  assumes good: "mode_good e parv B s" and live: "find_live e" and fl: "no_cache_flag fl" "no_cache_flag clr"
  shows "good_step e parv B s (change_member fl clr l e parv dir s)"
proof (cases "dir = MODE_QUERY \<or> length parv \<le> mo_parn s")
  case True
  then show ?thesis using good_same[OF _ _ _ _ good, of s] by (simp add: change_member_def)
next
  case False
  let ?s = "next_param s" and ?nick = "str_at (mo_buf s) (parv ! mo_parn s)" and ?w = "mo_world s"
  have g: "mode_good e parv B ?s" by (rule mode_good_cong[OF _ _ _ _ good]) simp_all
  have ok: "mode_ok (me_cfg e) ?w" using good by (simp add: mode_good_def)
  then have mi: "chan_inv ?w" "member_inv ?w" by (simp_all add: mode_ok_def chan_inv_def)
  have same: "good_step e parv B s (Some s')" if "mode_good e parv B s'" "mo_world s' = ?w" "mo_changes s' = mo_changes s" for s'
    using that by (intro good_stepI) simp_all
  note unf = change_member_def Let_def
  show ?thesis
  proof (cases "me_find e ?nick ?w")
    case None
    then show ?thesis using False same[OF g] by (simp add: unf)
  next
    case (Some t)
    then have "users ?w t \<noteq> None" using live mi(1) unfolding find_live_def by blast
    then obtain u where u: "users ?w t = Some u" by blast
    show ?thesis
    proof (cases "IsClient u")
      case no: False
      then show ?thesis using False Some u same[OF g] by (simp add: unf)
    next
      case True
      obtain r where r: "find_channel_link t (me_chptr e) ?w = Some r"
        "case r of None \<Rightarrow> on_chan ?w (me_chptr e) \<inter> of_user ?w t = {} | Some m \<Rightarrow> on_chan ?w (me_chptr e) \<inter> of_user ?w t = {m}"
        using find_channel_link_iff[OF mi(2) u True] by blast
      have red: "change_member fl clr l e parv dir s =
          (case r of None \<Rightarrow> Some (once SM_ERR_NOTONCHANNEL [Mode_numeric 441 ?nick] ?s)
           | Some ms \<Rightarrow>
               (case count_param e ?s of
                  (True, s) \<Rightarrow> Some s
                | (False, s) \<Rightarrow>
                    Option.bind (mships (mo_world s) ms) (\<lambda>x.
                    if (dir = MODE_ADD) = (ms_flags x AND fl \<noteq> 0) then Some s
                    else
                      let s = push_change ((change l dir (Name_of t))\<lparr>mc_id := Some t\<rparr>) s
                      in map_option (\<lambda>w. s\<lparr>mo_world := w\<rparr>)
                        (upd_mship ms (\<lambda>x. x\<lparr>ms_flags := if dir = MODE_ADD then (ms_flags x OR fl) AND NOT clr
                                                         else ms_flags x AND NOT fl\<rparr>) (mo_world s)))))"
        unfolding unf if_not_P[OF False] by (simp add: Some u True r(1))
      show ?thesis
      proof (cases r)
        case None
        have "mode_good e parv B (once b rs ?s)" for b rs by (rule mode_good_cong[OF _ _ _ _ g]) simp_all
        then show ?thesis unfolding red using None same by simp
      next
        case (Some ms)
        obtain full s1 where cp: "count_param e ?s = (full, s1)" "mode_good e parv B s1" "mo_world s1 = mo_world ?s"
          "mo_changes s1 = mo_changes ?s" "\<not> full \<Longrightarrow> slot_free e s1"
          using count_param_cases[OF g] by metis
        have "ms \<in> on_chan ?w (me_chptr e)" using r(2) Some by auto
        then obtain x where x: "mships ?w ms = Some x" by (auto simp: on_chan_def)
        let ?s2 = "push_change ((change l dir (Name_of t))\<lparr>mc_id := Some t\<rparr>) s1"
        let ?g = "\<lambda>f. if dir = MODE_ADD then (f OR fl) AND NOT clr else f AND NOT fl"
        obtain w2 where w2: "upd_mship ms (\<lambda>x. x\<lparr>ms_flags := ?g (ms_flags x)\<rparr>) ?w = Some w2"
          using x by (simp add: upd_mship_def)
        have bits: "bit (?g f) 7 = bit f 7" "bit (?g f) 8 = bit f 8" for f
          using fl by (simp_all add: no_cache_flag_def bit_simps)
        have w2ok: "mode_ok (me_cfg e) w2" "mode_frame ?w w2" "chans w2 = chans ?w"
          using mode_ok_flags[OF ok w2 bits] by blast+
        have res: "good_step e parv B s (Some (?s2\<lparr>mo_world := w2\<rparr>))" if "\<not> full"
        proof -
          have g2: "mode_good e parv B ?s2" using push_good[OF cp(2)] cp(5)[OF that] by blast
          then obtain ch where ch: "chans ?w (me_chptr e) = Some ch"
            "MyClient (me_source e) \<longrightarrow> num_masks ch \<le> max B (max_bans (me_cfg e))" "text_ok e parv (mo_buf ?s2)"
            using cp(3) by (auto simp: mode_good_def)
          have "mode_good e parv B (?s2\<lparr>mo_world := w2\<rparr>)"
            by (rule mode_good_masks[OF g2, where ch' = ch]) (use w2ok ch cp(3) in \<open>simp_all add: same_count_def\<close>)
          then show ?thesis using w2ok(2) cp(4) by (intro good_stepI) simp_all
        qed
        show ?thesis unfolding red using Some same[OF cp(2)] cp x w2 res
          by (cases full; cases "dir = MODE_ADD"; cases "ms_flags x AND fl = 0") (simp_all add: Let_def)
      qed
    qed
  qed
qed

lemma flags_cacheless: "no_cache_flag CHFL_CHANOP" "no_cache_flag CHFL_HALFOP" "no_cache_flag CHFL_VOICE" "no_cache_flag CHFL_DEOPPED" "no_cache_flag 0"
  by (simp_all add: no_cache_flag_def CHFL_CHANOP_def CHFL_HALFOP_def CHFL_VOICE_def CHFL_DEOPPED_def bit_simps)

lemma op_good: "mode_good e parv B s \<Longrightarrow> find_live e \<Longrightarrow> good_step e parv B s (chm_op e parv alev dir c s)"
  using no_access_good member_good flags_cacheless by (simp add: chm_op_def)

lemma voice_good: "mode_good e parv B s \<Longrightarrow> find_live e \<Longrightarrow> good_step e parv B s (chm_voice e parv alev dir c s)"
  using no_access_good member_good flags_cacheless by (simp add: chm_voice_def)

lemma hop_good: "mode_good e parv B s \<Longrightarrow> find_live e \<Longrightarrow> good_step e parv B s (chm_hop e parv alev dir c s)"
proof -
  assume g: "mode_good e parv B s" "find_live e"
  then obtain ch where "chans (mo_world s) (me_chptr e) = Some ch" by (auto simp: mode_good_def)
  then show ?thesis using g no_access_good member_good flags_cacheless by (simp add: chm_hop_def)
qed

lemma cancel_filter:
  "NUL \<notin> L \<Longrightarrow> c \<notin> L \<Longrightarrow> length (filter (\<lambda>m. mc_letter m \<in> L)
     (map (\<lambda>m. if mc_letter m = c \<and> mc_dir m = MODE_ADD then m\<lparr>mc_letter := NUL\<rparr> else m) ms)) =
   length (filter (\<lambda>m. mc_letter m \<in> L) ms)"
  by (induction ms) auto

lemma mo_changes_cancel:
  "mo_changes (cancel_adds c s) = map (\<lambda>m. if mc_letter m = c \<and> mc_dir m = MODE_ADD then m\<lparr>mc_letter := NUL\<rparr> else m) (mo_changes s)"
  by (simp add: cancel_adds_def)

lemma cancel_good:
  assumes "mode_good e parv B s" "c \<notin> set ''beIohv''"
  shows "mode_good e parv B (cancel_adds c s) \<and> mo_world (cancel_adds c s) = mo_world s \<and> mo_buf (cancel_adds c s) = mo_buf s \<and>
    length (mo_changes (cancel_adds c s)) = length (mo_changes s)"
proof -
  have "NUL \<notin> set ''beIohv''" by simp
  then have "param_changes (cancel_adds c s) = param_changes s"
    unfolding param_changes_def mo_changes_cancel by (rule cancel_filter[OF _ assms(2)])
  then show ?thesis using assms(1) by (simp add: mode_good_def cancel_adds_def)
qed

lemma limit_good:
  assumes good: "mode_good e parv B s" and c: "c \<notin> set ''beIohv''"
  shows "good_step e parv B s (chm_limit e parv alev dir c s)"
proof -
  obtain ch where ch: "chans (mo_world s) (me_chptr e) = Some ch" using good by (auto simp: mode_good_def)
  have core: "chan_core (ch\<lparr>limit := x\<rparr>) = chan_core ch" for ch x by (simp add: chan_core_def)
  have add: "good_step e parv B s (let i = parv ! mo_parn s; s = next_param s; n = c_atoi (str_at (mo_buf s) i)
        in if n \<le> 0 then Some s
           else Option.bind (write_at i (put_d (word_of_int n)) (mo_buf s)) (\<lambda>buf.
             on_chan_mode (\<lambda>ch. ch\<lparr>limit := word_of_int n\<rparr>) e
               (push_change (change c MODE_ADD (Param i)) (cancel_adds c (s\<lparr>mo_buf := buf\<rparr>)))))"
    if p: "mo_parn s < length parv"
  proof -
    let ?i = "parv ! mo_parn s" and ?s1 = "next_param s"
    let ?n = "c_atoi (str_at (mo_buf s) ?i)"
    have g1: "mode_good e parv B ?s1" by (rule mode_good_cong[OF _ _ _ _ good]) simp_all
    have tx: "text_ok e parv (mo_buf s)" using good by (simp add: mode_good_def)
    obtain b where b: "write_at ?i (put_d (word_of_int ?n)) (mo_buf s) = Some b" "text_ok e parv b"
      using write_shorter_ok[OF tx, of ?i "put_d (word_of_int ?n)"] put_d_short p by auto
    let ?s2 = "?s1\<lparr>mo_buf := b\<rparr>"
    have g2: "mode_good e parv B ?s2" using g1 b(2) by (simp add: mode_good_def param_changes_def)
    let ?s3 = "push_change (change c MODE_ADD (Param ?i)) (cancel_adds c ?s2)"
    have cg: "mode_good e parv B (cancel_adds c ?s2)" "mo_world (cancel_adds c ?s2) = mo_world s"
      "length (mo_changes (cancel_adds c ?s2)) = length (mo_changes s)" using cancel_good[OF g2 c] by simp_all
    have g3: "mode_good e parv B ?s3" by (rule push_good[OF cg(1)]) (use c in \<open>simp add: change_def\<close>)
    obtain s4 where s4: "on_chan_mode (\<lambda>ch. ch\<lparr>limit := word_of_int ?n\<rparr>) e ?s3 = Some s4" "mode_good e parv B s4" "same_count ?s3 s4"
      using on_chan_good[OF g3, of "\<lambda>ch. ch\<lparr>limit := word_of_int ?n\<rparr>"] core by auto
    have "good_step e parv B s (Some s4)" using s4(2,3) cg(2,3) by (intro good_stepI) (simp_all add: same_count_def)
    moreover have "good_step e parv B s (Some ?s1)" by (rule good_stepI[OF g1]) simp_all
    ultimately show ?thesis by (cases "?n \<le> 0") (simp_all add: b(1) s4(1) Let_def)
  qed
  have del: "good_step e parv B s (map_option (push_change (change c MODE_DEL No_arg)) (on_chan_mode (\<lambda>ch. ch\<lparr>limit := 0\<rparr>) e s))"
  proof -
    obtain s4 where s4: "on_chan_mode (\<lambda>ch. ch\<lparr>limit := 0\<rparr>) e s = Some s4" "mode_good e parv B s4" "same_count s s4"
      using on_chan_good[OF good, of "\<lambda>ch. ch\<lparr>limit := 0\<rparr>"] core by auto
    have "mode_good e parv B (push_change (change c MODE_DEL No_arg) s4)" by (rule push_good[OF s4(2)]) (use c in \<open>simp add: change_def\<close>)
    then show ?thesis using s4(1,3) by (auto simp: same_count_def intro!: good_stepI)
  qed
  have same: "good_step e parv B s (Some s)" using good by (simp add: good_stepI)
  consider "alev < CHACCESS_HALFOP" | "\<not> alev < CHACCESS_HALFOP" "dir = MODE_QUERY"
    | "\<not> alev < CHACCESS_HALFOP" "dir = MODE_ADD" "mo_parn s < length parv"
    | "\<not> alev < CHACCESS_HALFOP" "dir = MODE_ADD" "\<not> mo_parn s < length parv" | "\<not> alev < CHACCESS_HALFOP" "dir = MODE_DEL"
    by (cases dir) auto
  then show ?thesis
  proof cases
    case 3
    then show ?thesis using add by (simp add: chm_limit_def Let_def)
  qed (use no_access_good[OF good] same del in \<open>simp_all add: chm_limit_def ch\<close>)
qed

lemma key_good:
  assumes good: "mode_good e parv B s" and c: "c \<notin> set ''beIohv''"
  shows "good_step e parv B s (chm_key e parv alev dir c s)"
proof -
  obtain ch where ch: "chans (mo_world s) (me_chptr e) = Some ch" using good by (auto simp: mode_good_def)
  have core: "chan_core (ch\<lparr>key := x\<rparr>) = chan_core ch" for ch x by (simp add: chan_core_def)
  let ?s1 = "next_param s"
  have g1: "mode_good e parv B ?s1" by (rule mode_good_cong[OF _ _ _ _ good]) simp_all
  have set: "\<exists>s4. on_chan_mode (\<lambda>ch. ch\<lparr>key := k\<rparr>) e s3 = Some s4 \<and> mode_good e parv B s4 \<and> same_count s3 s4"
    if "mode_good e parv B s3" for s3 k using on_chan_good[OF that, of "\<lambda>ch. ch\<lparr>key := k\<rparr>"] core by auto
  have add: "good_step e parv B s (Option.bind (write_at i k (mo_buf ?s1)) (\<lambda>buf.
             let s = ?s1\<lparr>mo_buf := buf\<rparr>
             in if k = [] then Some s
                else map_option (\<lambda>s. push_change (change c MODE_ADD (Key_of (me_chptr e))) (cancel_adds c s))
                  (on_chan_mode (\<lambda>ch. ch\<lparr>key := c_strlcpy k KEYLEN\<rparr>) e s)))"
    if i: "i \<in> set parv" and k: "length k \<le> length (str_at (mo_buf s) i)" for i k
  proof -
    have tx: "text_ok e parv (mo_buf s)" using good by (simp add: mode_good_def)
    obtain b where b: "write_at i k (mo_buf s) = Some b" "text_ok e parv b" using write_shorter_ok[OF tx i] k by blast
    let ?s2 = "?s1\<lparr>mo_buf := b\<rparr>"
    have g2: "mode_good e parv B ?s2" using g1 b(2) by (simp add: mode_good_def param_changes_def)
    obtain s4 where s4: "on_chan_mode (\<lambda>ch. ch\<lparr>key := c_strlcpy k KEYLEN\<rparr>) e ?s2 = Some s4" "mode_good e parv B s4" "same_count ?s2 s4"
      using set[OF g2] by blast
    note cg = cancel_good[OF s4(2) c]
    have "mode_good e parv B (push_change (change c MODE_ADD (Key_of (me_chptr e))) (cancel_adds c s4))"
      by (rule push_good) (use cg c in \<open>simp_all add: change_def\<close>)
    then have "good_step e parv B s (Some (push_change (change c MODE_ADD (Key_of (me_chptr e))) (cancel_adds c s4)))"
      by (rule good_stepI) (use cg s4(3) in \<open>simp_all add: same_count_def\<close>)
    moreover have "good_step e parv B s (Some ?s2)" by (rule good_stepI[OF g2]) simp_all
    ultimately show ?thesis using b(1) s4(1) by (simp add: Let_def)
  qed
  have del: "good_step e parv B s (map_option (push_change (change c MODE_DEL (Text ''*''))) (on_chan_mode (\<lambda>ch. ch\<lparr>key := []\<rparr>) e s3))"
    if "s3 = s \<or> s3 = ?s1" for s3
  proof -
    have "mode_good e parv B s3" using that good g1 by blast
    then obtain s4 where s4: "on_chan_mode (\<lambda>ch. ch\<lparr>key := []\<rparr>) e s3 = Some s4" "mode_good e parv B s4" "same_count s3 s4"
      using set by blast
    have "mode_good e parv B (push_change (change c MODE_DEL (Text ''*'')) s4)" by (rule push_good[OF s4(2)]) (use c in \<open>simp add: change_def\<close>)
    then show ?thesis using s4(1,3) that by (auto simp: same_count_def intro!: good_stepI)
  qed
  have "good_step e parv B s (Some ?s1)" "good_step e parv B s (Some s)"
    using g1 good by (simp_all add: good_stepI)
  note same = this
  consider "alev < CHACCESS_HALFOP" | "\<not> alev < CHACCESS_HALFOP" "dir = MODE_QUERY"
    | "\<not> alev < CHACCESS_HALFOP" "dir = MODE_ADD" "mo_parn s < length parv"
    | "\<not> alev < CHACCESS_HALFOP" "dir = MODE_ADD" "\<not> mo_parn s < length parv" | "\<not> alev < CHACCESS_HALFOP" "dir = MODE_DEL"
    by (cases dir) auto
  then show ?thesis
  proof cases
    case 3
    let ?i = "parv ! mo_parn s" and ?k = "if MyClient (me_source e) then fix_key else fix_key_old"
    have "good_step e parv B s (Option.bind (write_at ?i (?k (str_at (mo_buf s) ?i)) (mo_buf ?s1)) (\<lambda>buf.
             let s = ?s1\<lparr>mo_buf := buf\<rparr>
             in if ?k (str_at (mo_buf ?s1) ?i) = [] then Some s
                else map_option (\<lambda>s. push_change (change c MODE_ADD (Key_of (me_chptr e))) (cancel_adds c s))
                  (on_chan_mode (\<lambda>ch. ch\<lparr>key := c_strlcpy (?k (str_at (mo_buf ?s1) ?i)) KEYLEN\<rparr>) e s)))"
      unfolding next_param_fields
      by (rule add[unfolded next_param_fields]) (use 3(3) fix_key_shorter in simp_all)
    then show ?thesis using 3 unfolding chm_key_def by (simp add: Let_def)
  qed (use no_access_good[OF good] same del in \<open>simp_all add: chm_key_def ch\<close>)
qed

lemma handler_cases:
  assumes "P chm_invex" "P chm_ban" "P chm_except" "P chm_hop" "P chm_key" "P chm_limit" "P chm_op" "P chm_voice" "P chm_nosuch"
    "\<And>ty. ty \<in> {MODE_INVITEONLY, MODE_MODERATED, MODE_NOPRIVMSGS, MODE_PRIVATE, MODE_SECRET, MODE_TOPICLIMIT} \<Longrightarrow> P (chm_simple ty)"
  shows "P (mode_handler ho c)"
  unfolding mode_handler_def using assms by simp

lemma handler_good:
  assumes "mode_good e parv B s" "find_live e"
  shows "good_step e parv B s (mode_handler ho c e parv alev dir c s)"
proof -
  have "good_step e parv B s (chm_nosuch e parv alev dir c s)"
    unfolding chm_nosuch_def by (rule good_same[OF _ _ _ _ assms(1)]) simp_all
  then show ?thesis
    using invex_good[OF assms(1)] ban_good[OF assms(1)] except_good[OF assms(1)] hop_good[OF assms] op_good[OF assms]
      voice_good[OF assms] simple_good[OF assms(1)] limit_good[OF assms(1)] key_good[OF assms(1)]
    by (simp add: mode_handler_def)
qed

lemma mode_loop_good:
  "mode_good e parv B s \<Longrightarrow> find_live e \<Longrightarrow> \<exists>s'. mode_loop e parv alev dir ml s = Some s' \<and> mode_good e parv B s' \<and>
     mode_frame (mo_world s) (mo_world s') \<and> length (mo_changes s') \<le> length (mo_changes s) + length ml"
proof (induction ml arbitrary: dir s)
  case (Cons c ml)
  obtain s1 where s1: "mode_handler (me_halfops e) c e parv alev dir c s = Some s1" "mode_good e parv B s1"
    "mode_frame (mo_world s) (mo_world s1)" "length (mo_changes s1) \<le> Suc (length (mo_changes s))"
    using handler_good[OF Cons.prems] unfolding good_step_def by blast
  obtain s' where "mode_loop e parv alev dir ml s1 = Some s'" "mode_good e parv B s'" "mode_frame (mo_world s1) (mo_world s')"
    "length (mo_changes s') \<le> length (mo_changes s1) + length ml" using Cons.IH[OF s1(2) Cons.prems(2)] by blast
  then have handled: "\<exists>s'. Option.bind (mode_handler (me_halfops e) c e parv alev dir c s) (mode_loop e parv alev dir ml) = Some s' \<and>
      mode_good e parv B s' \<and> mode_frame (mo_world s) (mo_world s') \<and> length (mo_changes s') \<le> length (mo_changes s) + length (c # ml)"
    using s1 mode_frame_trans by (intro exI[of _ s']) auto
  have sign: "\<exists>s'. mode_loop e parv alev d ml s = Some s' \<and> mode_good e parv B s' \<and> mode_frame (mo_world s) (mo_world s') \<and>
      length (mo_changes s') \<le> length (mo_changes s) + length (c # ml)" for d
    using Cons.IH[OF Cons.prems, of d] by fastforce
  show ?case using handled sign by (cases "c = CHR ''+'' \<or> c = CHR ''-'' \<or> c = CHR ''=''") auto
qed simp

subsection \<open>Who may change what\<close>

lemma peon_changes_nothing:
  assumes "alev < CHACCESS_HALFOP" "mode_handler ho c e parv alev dir c s = Some s'"
  shows "mo_world s' = mo_world s \<and> mo_changes s' = mo_changes s"
proof -
  have lv: "alev < CHACCESS_CHANOP" using assms(1) by (simp add: CHACCESS_HALFOP_def CHACCESS_CHANOP_def)
  have lm: "list_masks ty err r1 r2 e s = Some t \<Longrightarrow> mo_world t = mo_world s \<and> mo_changes t = mo_changes s" for ty err r1 r2 t
    by (auto simp: list_masks_def)
  have hop: "chm_hop e parv alev dir c s = Some t \<Longrightarrow> mo_world t = mo_world s \<and> mo_changes t = mo_changes s" for t
    using assms(1) lv by (auto simp: chm_hop_def bind_eq_Some_conv split: if_splits)
  have ban: "chm_ban e parv alev dir c s = Some t \<Longrightarrow> mo_world t = mo_world s \<and> mo_changes t = mo_changes s"
    "chm_except e parv alev dir c s = Some t \<Longrightarrow> mo_world t = mo_world s \<and> mo_changes t = mo_changes s"
    "chm_invex e parv alev dir c s = Some t \<Longrightarrow> mo_world t = mo_world s \<and> mo_changes t = mo_changes s" for t
    using assms(1) lm by (auto simp: chm_ban_def chm_except_def chm_invex_def split: if_splits)
  have rest: "chm_simple ty e parv alev dir c s = Some t \<Longrightarrow> mo_world t = mo_world s \<and> mo_changes t = mo_changes s"
    "chm_op e parv alev dir c s = Some t \<Longrightarrow> mo_world t = mo_world s \<and> mo_changes t = mo_changes s"
    "chm_voice e parv alev dir c s = Some t \<Longrightarrow> mo_world t = mo_world s \<and> mo_changes t = mo_changes s"
    "chm_key e parv alev dir c s = Some t \<Longrightarrow> mo_world t = mo_world s \<and> mo_changes t = mo_changes s"
    "chm_limit e parv alev dir c s = Some t \<Longrightarrow> mo_world t = mo_world s \<and> mo_changes t = mo_changes s"
    "chm_nosuch e parv alev dir c s = Some t \<Longrightarrow> mo_world t = mo_world s \<and> mo_changes t = mo_changes s" for ty t
    using assms(1) lv by (auto simp: chm_simple_def chm_op_def chm_voice_def chm_key_def chm_limit_def chm_nosuch_def)
  let ?P = "\<lambda>h. \<forall>t. h e parv alev dir c s = Some t \<longrightarrow> mo_world t = mo_world s \<and> mo_changes t = mo_changes s"
  have "?P (mode_handler ho c)" by (rule handler_cases) (use hop ban rest in blast)+
  with assms(2) show ?thesis by blast
qed

lemma peon_loop:
  "alev < CHACCESS_HALFOP \<Longrightarrow> mode_loop e parv alev dir ml s = Some s' \<Longrightarrow> mo_world s' = mo_world s \<and> mo_changes s' = mo_changes s"
proof (induction ml arbitrary: dir s)
  case (Cons c ml)
  show ?case
  proof (cases "c = CHR ''+'' \<or> c = CHR ''-'' \<or> c = CHR ''=''")
    case True
    then obtain d where "mode_loop e parv alev d ml s = Some s'" using Cons.prems(2) by auto
    with Cons.IH[OF Cons.prems(1)] show ?thesis by blast
  next
    case False
    then obtain s1 where s1: "mode_handler (me_halfops e) c e parv alev dir c s = Some s1" "mode_loop e parv alev dir ml s1 = Some s'"
      using Cons.prems(2) by (auto simp: bind_eq_Some_conv)
    with peon_changes_nothing[OF Cons.prems(1) s1(1)] Cons.IH[OF Cons.prems(1) s1(2)] show ?thesis by simp
  qed
qed simp

text \<open>The operators of every channel, and whether it is \<open>+p\<close>.\<close>

definition keep_ops :: "chan_world \<Rightarrow> chan_world \<Rightarrow> bool" where
  "keep_ops w w' \<longleftrightarrow>
     (\<forall>m. map_option (\<lambda>x. ms_flags x AND CHFL_CHANOP) (mships w' m) = map_option (\<lambda>x. ms_flags x AND CHFL_CHANOP) (mships w m)) \<and>
     (\<forall>c. map_option (\<lambda>ch. mode ch AND MODE_PRIVATE) (chans w' c) = map_option (\<lambda>ch. mode ch AND MODE_PRIVATE) (chans w c))"

lemma keep_ops_refl [simp]: "keep_ops w w"
  by (simp add: keep_ops_def)

lemma keep_ops_trans: "keep_ops a b \<Longrightarrow> keep_ops b c \<Longrightarrow> keep_ops a c"
  by (simp add: keep_ops_def)

lemma keep_ops_chan:
  assumes "upd_chan c f w = Some w'" "\<And>ch. mode (f ch) AND MODE_PRIVATE = mode ch AND MODE_PRIVATE"
  shows "keep_ops w w'"
  using assms by (auto simp: upd_chan_def keep_ops_def)

lemma keep_ops_mship:
  assumes "upd_mship m (\<lambda>x. x\<lparr>ms_flags := g (ms_flags x)\<rparr>) w = Some w'" "\<And>fl. g fl AND CHFL_CHANOP = fl AND CHFL_CHANOP"
  shows "keep_ops w w'"
  using assms by (auto simp: upd_mship_def keep_ops_def)

lemma keep_ops_foreach:
  assumes "\<And>x a b. f x a = Some b \<Longrightarrow> keep_ops a b" "foreach_safe f xs w = Some w'"
  shows "keep_ops w w'"
  using assms(2)
proof (induction xs arbitrary: w)
  case (Cons x xs)
  then obtain v where "f x w = Some v" "foreach_safe f xs v = Some w'" by (auto simp: bind_eq_Some_conv)
  then show ?case using Cons.IH assms(1) keep_ops_trans by blast
qed simp

lemma op_bit: "(x :: u32) AND CHFL_CHANOP = y AND CHFL_CHANOP \<longleftrightarrow> bit x 0 = bit y 0"
  by (simp add: CHFL_CHANOP_def and_one_eq mod_2_eq_odd bit_0)

lemma keep_ops_cache: "cache_step ty c w = Some w' \<Longrightarrow> keep_ops w w'"
proof -
  have "(fl AND NOT (CHFL_BAN_SILENCED OR CHFL_BAN_CHECKED)) AND CHFL_CHANOP = fl AND CHFL_CHANOP" for fl
    unfolding op_bit by (simp add: CHFL_BAN_SILENCED_def CHFL_BAN_CHECKED_def bit_simps)
  then have "upd_mship m (\<lambda>x. x\<lparr>ms_flags := ms_flags x AND NOT (CHFL_BAN_SILENCED OR CHFL_BAN_CHECKED)\<rparr>) a = Some b \<Longrightarrow> keep_ops a b" for m a b
    using keep_ops_mship[where g = "\<lambda>f. f AND NOT (CHFL_BAN_SILENCED OR CHFL_BAN_CHECKED)"] by blast
  then have "clear_ban_cache c w = Some w' \<Longrightarrow> keep_ops w w'"
    unfolding clear_ban_cache_def bind_eq_Some_conv by (elim exE conjE) (rule keep_ops_foreach)
  then show "cache_step ty c w = Some w' \<Longrightarrow> keep_ops w w'" by (auto simp: cache_step_def split: if_splits)
qed

lemma keep_ops_bans:
  "cache_step ty c w = Some w1 \<Longrightarrow> upd_chan c (upd_ban_list ty g) w1 = Some w' \<Longrightarrow> keep_ops w w'"
proof -
  assume r: "cache_step ty c w = Some w1" "upd_chan c (upd_ban_list ty g) w1 = Some w'"
  have "keep_ops w1 w'" by (rule keep_ops_chan[OF r(2)]) (simp add: upd_ban_list_def)
  with keep_ops_cache[OF r(1)] show "keep_ops w w'" by (rule keep_ops_trans)
qed

lemma add_id_ops: "add_id e i ty s = Some (ok, s') \<Longrightarrow> keep_ops (mo_world s) (mo_world s')"
  by (auto simp: add_id_def Let_def bind_eq_Some_conv mode_say_def split: if_splits prod.splits
      intro: keep_ops_cache keep_ops_bans)

lemma del_id_ops: "del_id e i ty s = Some (ok, s') \<Longrightarrow> keep_ops (mo_world s) (mo_world s')"
  by (auto simp: del_id_def Let_def bind_eq_Some_conv split: option.splits prod.splits)
    (blast intro: keep_ops_cache keep_ops_bans)+

lemma change_mask_ops:
  assumes "change_mask ty must e parv dir m s = Some s'"
  shows "keep_ops (mo_world s) (mo_world s')"
proof -
  obtain full s1 where cp: "count_param e s = (full, s1)" by fastforce
  then have w: "mo_world s1 = mo_world s" by (auto simp: count_param_def split: if_splits)
  let ?i = "parv ! mo_parn s1"
  have a: "keep_ops (mo_world s) (mo_world t)" if "add_id e ?i ty (next_param s1) = Some (ok, t)" for ok t
    using add_id_ops[OF that] w by simp
  have d: "keep_ops (mo_world s) (mo_world t)" if "del_id e ?i ty (next_param s1) = Some (ok, t)" for ok t
    using del_id_ops[OF that] w by simp
  show ?thesis using assms w a d
    by (cases full) (auto simp: change_mask_def cp Let_def split: if_splits)
qed

lemma change_member_ops:
  assumes r: "change_member fl clr l e parv dir s = Some s'" and fl: "\<not> bit fl 0" "\<not> bit clr 0"
  shows "keep_ops (mo_world s) (mo_world s')"
proof -
  obtain full s1 where cp: "count_param e (next_param s) = (full, s1)" by fastforce
  then have w: "mo_world s1 = mo_world s" by (auto simp: count_param_def split: if_splits)
  have g: "(if dir = MODE_ADD then (f OR fl) AND NOT clr else f AND NOT fl) AND CHFL_CHANOP = f AND CHFL_CHANOP" for f
    using fl unfolding op_bit by (simp add: bit_simps)
  have up: "upd_mship m (\<lambda>x. x\<lparr>ms_flags := if dir = MODE_ADD then (ms_flags x OR fl) AND NOT clr else ms_flags x AND NOT fl\<rparr>) w = Some w' \<Longrightarrow>
      keep_ops w w'" for m w w'
    using keep_ops_mship[where g = "\<lambda>f. if dir = MODE_ADD then (f OR fl) AND NOT clr else f AND NOT fl", OF _ g] by blast
  consider "mo_world s' = mo_world s"
    | m where "upd_mship m (\<lambda>x. x\<lparr>ms_flags := if dir = MODE_ADD then (ms_flags x OR fl) AND NOT clr else ms_flags x AND NOT fl\<rparr>) (mo_world s1) = Some (mo_world s')"
    using r w unfolding change_member_def Let_def
    by (cases full) (auto simp: bind_eq_Some_conv cp split: if_splits option.splits)
  then show ?thesis by cases (use up w in auto)
qed

lemma halfop_keeps_ops:
  assumes lev: "alev < CHACCESS_CHANOP" and r: "mode_handler ho c e parv alev dir c s = Some s'"
  shows "keep_ops (mo_world s) (mo_world s')"
proof -
  let ?P = "\<lambda>h. \<forall>t. h e parv alev dir c s = Some t \<longrightarrow> keep_ops (mo_world s) (mo_world t)"
  have ch: "on_chan_mode f e t = Some t' \<Longrightarrow> (\<And>ch. mode (f ch) AND MODE_PRIVATE = mode ch AND MODE_PRIVATE) \<Longrightarrow> keep_ops (mo_world t) (mo_world t')" for f t t'
    by (auto simp: on_chan_mode_def intro: keep_ops_chan)
  have lm: "list_masks ty err r1 r2 e s = Some t \<Longrightarrow> mo_world t = mo_world s" for ty err r1 r2 t by (auto simp: list_masks_def)
  have masks: "?P chm_ban" "?P chm_except" "?P chm_invex"
    using change_mask_ops lm by (auto simp: chm_ban_def chm_except_def chm_invex_def split: if_splits)
  have bits: "\<not> bit CHFL_HALFOP 0" "\<not> bit CHFL_VOICE 0" "\<not> bit CHFL_DEOPPED 0" "\<not> bit (0 :: u32) 0"
    by (simp_all add: CHFL_HALFOP_def CHFL_VOICE_def CHFL_DEOPPED_def bit_simps)
  have mem: "?P chm_op" "?P chm_hop" "?P chm_voice"
    using lev change_member_ops bits
    by (auto simp: chm_op_def chm_hop_def chm_voice_def bind_eq_Some_conv split: if_splits)
  have simple: "?P (chm_simple ty)" if "ty AND MODE_PRIVATE = 0 \<or> ty = MODE_PRIVATE" for ty
  proof (cases "ty = MODE_PRIVATE")
    case True
    then show ?thesis using lev by (auto simp: chm_simple_def)
  next
    case False
    then have "\<not> bit ty 0" using that by (simp add: MODE_PRIVATE_def and_one_eq mod_2_eq_odd bit_0)
    then have f: "(m OR ty) AND MODE_PRIVATE = m AND MODE_PRIVATE" "(m AND NOT ty) AND MODE_PRIVATE = m AND MODE_PRIVATE" for m
      by (simp_all add: MODE_PRIVATE_def and_one_eq mod_2_eq_odd bit_simps flip: bit_0)
    show ?thesis
      using ch[of "\<lambda>ch. ch\<lparr>mode := mode ch OR ty\<rparr>" "s\<lparr>mo_simple := mo_simple s OR ty\<rparr>"]
        ch[of "\<lambda>ch. ch\<lparr>mode := mode ch AND NOT ty\<rparr>" "s\<lparr>mo_simple := mo_simple s OR ty\<rparr>"] f
      by (auto simp: chm_simple_def Let_def split: mode_dir.splits)
  qed
  have cancel: "mo_world (cancel_adds c t) = mo_world t" for t by (simp add: cancel_adds_def)
  have lim: "?P chm_limit"
    by (auto simp: chm_limit_def Let_def bind_eq_Some_conv cancel dest!: ch split: if_splits)
  have key: "?P chm_key"
    by (auto simp: chm_key_def Let_def bind_eq_Some_conv cancel dest!: ch split: if_splits)
  have "?P (mode_handler ho c)"
  proof (rule handler_cases)
    show "?P (chm_simple ty)" if "ty \<in> {MODE_INVITEONLY, MODE_MODERATED, MODE_NOPRIVMSGS, MODE_PRIVATE, MODE_SECRET, MODE_TOPICLIMIT}" for ty
      by (rule simple) (use that in \<open>auto simp: MODE_INVITEONLY_def MODE_MODERATED_def MODE_NOPRIVMSGS_def MODE_SECRET_def MODE_TOPICLIMIT_def MODE_PRIVATE_def\<close>)
    show "?P chm_nosuch" by (simp add: chm_nosuch_def)
  qed (use masks mem lim key in blast)+
  with r show ?thesis by blast
qed

lemma halfop_loop:
  "alev < CHACCESS_CHANOP \<Longrightarrow> mode_loop e parv alev dir ml s = Some s' \<Longrightarrow> keep_ops (mo_world s) (mo_world s')"
proof (induction ml arbitrary: dir s)
  case (Cons c ml)
  show ?case
  proof (cases "c = CHR ''+'' \<or> c = CHR ''-'' \<or> c = CHR ''=''")
    case True
    then obtain d where "mode_loop e parv alev d ml s = Some s'" using Cons.prems(2) by auto
    with Cons.IH[OF Cons.prems(1)] show ?thesis by blast
  next
    case False
    then obtain s1 where s1: "mode_handler (me_halfops e) c e parv alev dir c s = Some s1" "mode_loop e parv alev dir ml s1 = Some s'"
      using Cons.prems(2) by (auto simp: bind_eq_Some_conv)
    with halfop_keeps_ops[OF Cons.prems(1) s1(1)] Cons.IH[OF Cons.prems(1) s1(2)] show ?thesis by (blast intro: keep_ops_trans)
  qed
qed simp

subsection \<open>Keys and limits\<close>

text \<open>\<open>+k\<close> and \<open>+l\<close> take parameters but do not count against \<open>MAXMODEPARAMS\<close>; each takes its
  earlier additions back, so one of each stays.\<close>

definition additions :: "char \<Rightarrow> mode_state \<Rightarrow> nat" where
  "additions x s = length (filter (\<lambda>m. mc_letter m = x \<and> mc_dir m = MODE_ADD) (mo_changes s))"

definition once_each :: "mode_state \<Rightarrow> bool" where
  "once_each s \<longleftrightarrow> additions CHR ''k'' s \<le> 1 \<and> additions CHR ''l'' s \<le> 1"

lemma once_each_cong: "mo_changes s' = mo_changes s \<Longrightarrow> once_each s' = once_each s"
  by (simp add: once_each_def additions_def)

lemma additions_push:
  "additions x (push_change m s) = additions x s + (if mc_letter m = x \<and> mc_dir m = MODE_ADD then 1 else 0)"
  by (simp add: additions_def push_change_def)

lemma additions_cancel: "x \<noteq> NUL \<Longrightarrow> additions x (cancel_adds c s) = (if x = c then 0 else additions x s)"
proof -
  assume x: "x \<noteq> NUL"
  let ?f = "\<lambda>c m. if mc_letter m = c \<and> mc_dir m = MODE_ADD then m\<lparr>mc_letter := NUL\<rparr> else m"
  have same: "filter (\<lambda>m. mc_letter m = x \<and> mc_dir m = MODE_ADD) (map (?f x) ms) = []" for ms
    using x by (induction ms) auto
  have other: "length (filter (\<lambda>m. mc_letter m = x \<and> mc_dir m = MODE_ADD) (map (?f c) ms)) =
      length (filter (\<lambda>m. mc_letter m = x \<and> mc_dir m = MODE_ADD) ms)" if "x \<noteq> c" for ms
    using x that by (induction ms) auto
  show ?thesis
  proof (cases "x = c")
    case True
    show ?thesis unfolding additions_def mo_changes_cancel True[symmetric] same by simp
  next
    case False
    show ?thesis unfolding additions_def mo_changes_cancel other[OF False] using False by simp
  qed
qed

lemma once_each_push:
  "once_each s \<Longrightarrow> mc_letter m \<notin> {CHR ''k'', CHR ''l''} \<or> mc_dir m \<noteq> MODE_ADD \<Longrightarrow> once_each (push_change m s)"
  by (auto simp: once_each_def additions_push)

lemma once_each_replace: "once_each s \<Longrightarrow> once_each (push_change (change c MODE_ADD a) (cancel_adds c s))"
  by (auto simp: once_each_def additions_push additions_cancel change_def)

lemma add_id_changes: "add_id e i ty s = Some (ok, s') \<Longrightarrow> mo_changes s' = mo_changes s"
  by (auto simp: add_id_def Let_def bind_eq_Some_conv mode_say_def split: if_splits prod.splits)

lemma del_id_changes: "del_id e i ty s = Some (ok, s') \<Longrightarrow> mo_changes s' = mo_changes s"
  by (auto simp: del_id_def Let_def bind_eq_Some_conv split: option.splits prod.splits)

lemma count_param_changes: "count_param e s = (full, s') \<Longrightarrow> mo_changes s' = mo_changes s"
  by (auto simp: count_param_def split: if_splits)

lemma on_chan_changes: "on_chan_mode f e s = Some s' \<Longrightarrow> mo_changes s' = mo_changes s"
  by (auto simp: on_chan_mode_def)

lemma change_mask_once:
  assumes r: "change_mask ty must e parv dir m s = Some s'" and s: "once_each s"
    and m: "\<And>i. mc_letter (m i) \<notin> {CHR ''k'', CHR ''l''}"
  shows "once_each s'"
proof -
  obtain full s1 where cp: "count_param e s = (full, s1)" by fastforce
  let ?i = "parv ! mo_parn s1"
  have s1: "once_each t" if "mo_changes t = mo_changes s1" for t
    using count_param_changes[OF cp] s that once_each_cong by metis
  have a: "once_each t" if "add_id e ?i ty (next_param s1) = Some (ok, t)" for ok t
    using add_id_changes[OF that] s1 by simp
  have d: "once_each t" if "del_id e ?i ty (next_param s1) = Some (ok, t)" for ok t
    using del_id_changes[OF that] s1 by simp
  show ?thesis
    using r s1 a d m once_each_push[of _ "m ?i"] unfolding change_mask_def cp Let_def
    by (cases full) (auto split: if_splits)
qed

lemma change_member_once:
  assumes r: "change_member fl clr l e parv dir s = Some s'" and s: "once_each s" and l: "l \<notin> {CHR ''k'', CHR ''l''}"
  shows "once_each s'"
proof -
  obtain full s1 where cp: "count_param e (next_param s) = (full, s1)" by fastforce
  have s0: "once_each t" if "mo_changes t = mo_changes s" for t using s that once_each_cong by metis
  have s1: "mo_changes s1 = mo_changes s" using count_param_changes[OF cp] by simp
  have p: "once_each t" if "mo_changes t = mo_changes (push_change ((change l dir a)\<lparr>mc_id := q\<rparr>) s1)" for t a q
    using that once_each_push[OF s0[OF s1], of "(change l dir a)\<lparr>mc_id := q\<rparr>"] l once_each_cong
    by (metis change_def mode_change.select_convs(1) mode_change.update_convs(5) mode_change.select_convs(1))
  show ?thesis
    using r s0 s1 p unfolding change_member_def Let_def
    by (cases full) (auto simp: bind_eq_Some_conv cp split: if_splits option.splits)
qed

lemma chm_key_once:
  assumes r: "chm_key e parv alev dir c s = Some s'" and s: "once_each s"
  shows "once_each s'"
proof -
  have same: "once_each t" if "mo_changes t = mo_changes s" for t using s that once_each_cong by metis
  consider (same) "mo_changes s' = mo_changes s"
    | (add) f t t' a where "on_chan_mode f e t = Some t'" "mo_changes t = mo_changes s"
        "s' = push_change (change c MODE_ADD a) (cancel_adds c t')"
    | (del) f t t' a where "on_chan_mode f e t = Some t'" "mo_changes t = mo_changes s"
        "s' = push_change (change c MODE_DEL a) t'"
  proof (cases "alev < CHACCESS_HALFOP \<or> dir = MODE_QUERY")
    case True
    then show ?thesis using r that(1) by (auto simp: chm_key_def no_access_def split: if_splits)
  next
    case False
    note nf = this
    let ?k = "(if MyClient (me_source e) then fix_key else fix_key_old) (str_at (mo_buf (next_param s)) (parv ! mo_parn s))"
    show ?thesis
    proof (cases "dir = MODE_ADD \<and> length parv > mo_parn s")
      case True
      then obtain buf where b: "(if ?k = [] then Some ((next_param s)\<lparr>mo_buf := buf\<rparr>)
          else map_option (\<lambda>s. push_change (change c MODE_ADD (Key_of (me_chptr e))) (cancel_adds c s))
            (on_chan_mode (\<lambda>ch. ch\<lparr>key := c_strlcpy ?k KEYLEN\<rparr>) e ((next_param s)\<lparr>mo_buf := buf\<rparr>))) = Some s'"
        using r nf unfolding chm_key_def Let_def by (auto simp: bind_eq_Some_conv)
      show ?thesis
      proof (cases "?k = []")
        case True
        with b show ?thesis using that(1) by auto
      next
        case False
        with b show ?thesis using that(2) by auto
      qed
    next
      case False
      define s1 where "s1 = (if length parv > mo_parn s then next_param s else s)"
      have s1: "mo_changes s1 = mo_changes s" by (simp add: s1_def)
      show ?thesis
      proof (cases dir)
        case MODE_DEL
        with r nf have b: "Option.bind (chans (mo_world s) (me_chptr e)) (\<lambda>ch. if key ch = [] then Some s1
            else map_option (push_change (change c MODE_DEL (Text ''*''))) (on_chan_mode (\<lambda>ch. ch\<lparr>key := []\<rparr>) e s1)) = Some s'"
          by (simp add: chm_key_def Let_def s1_def if_distrib[of mo_world] cong: if_cong)
        then obtain ch where "chans (mo_world s) (me_chptr e) = Some ch" by (cases "chans (mo_world s) (me_chptr e)") auto
        with b that(1,3) s1 show ?thesis by (cases "key ch = []") auto
      qed (use r nf False that(1) in \<open>simp_all add: chm_key_def\<close>)
    qed
  qed
  then show ?thesis
  proof cases
    case add
    then show ?thesis using once_each_replace[OF same] on_chan_changes by metis
  next
    case del
    have "once_each t'" using same on_chan_changes[OF del(1)] del(2) by simp
    with del show ?thesis by (auto intro!: once_each_push simp: change_def)
  qed (rule same)
qed

lemma chm_limit_once:
  assumes r: "chm_limit e parv alev dir c s = Some s'" and s: "once_each s"
  shows "once_each s'"
proof -
  have same: "once_each t" if "mo_changes t = mo_changes s" for t using s that once_each_cong by metis
  consider (same) "mo_changes s' = mo_changes s"
    | (add) f t a where "on_chan_mode f e (push_change (change c MODE_ADD a) (cancel_adds c t)) = Some s'" "mo_changes t = mo_changes s"
    | (del) f t' a where "on_chan_mode f e s = Some t'" "s' = push_change (change c MODE_DEL a) t'"
  proof (cases "alev < CHACCESS_HALFOP \<or> dir = MODE_QUERY")
    case True
    then show ?thesis using r that(1) by (auto simp: chm_limit_def no_access_def split: if_splits)
  next
    case False
    note nf = this
    show ?thesis
    proof (cases "dir = MODE_ADD \<and> length parv > mo_parn s")
      case True
      let ?n = "c_atoi (str_at (mo_buf (next_param s)) (parv ! mo_parn s))"
      show ?thesis
      proof (cases "?n \<le> 0")
        case True
        with r nf \<open>dir = MODE_ADD \<and> length parv > mo_parn s\<close> that(1) show ?thesis by (auto simp: chm_limit_def Let_def)
      next
        case False
        with r nf True obtain buf where "on_chan_mode (\<lambda>ch. ch\<lparr>limit := word_of_int ?n\<rparr>) e
            (push_change (change c MODE_ADD (Param (parv ! mo_parn s))) (cancel_adds c ((next_param s)\<lparr>mo_buf := buf\<rparr>))) = Some s'"
          unfolding chm_limit_def Let_def by (auto simp: bind_eq_Some_conv)
        then show ?thesis using that(2) by auto
      qed
    next
      case False
      with r nf that show ?thesis unfolding chm_limit_def Let_def
        by (cases dir) (auto simp: bind_eq_Some_conv split: if_splits)
    qed
  qed
  then show ?thesis
  proof cases
    case add
    then show ?thesis using once_each_replace[OF same[OF add(2)]] on_chan_changes[OF add(1)] once_each_cong by metis
  next
    case del
    have "once_each t'" using same on_chan_changes[OF del(1)] by simp
    with del show ?thesis by (auto intro!: once_each_push simp: change_def)
  qed (rule same)
qed

lemma handler_once:
  assumes r: "mode_handler ho c e parv alev dir c s = Some s'" and s: "once_each s"
  shows "once_each s'"
proof -
  let ?P = "\<lambda>h. \<forall>t. h e parv alev dir c s = Some t \<longrightarrow> once_each t"
  have same: "once_each t" if "mo_changes t = mo_changes s" for t using s that once_each_cong by metis
  have kl: "?P chm_key" "?P chm_limit" using chm_key_once chm_limit_once s by blast+
  have lm: "list_masks ty err r1 r2 e s = Some t \<Longrightarrow> once_each t" for ty err r1 r2 t
    using same by (auto simp: list_masks_def)
  have other: "?P (mode_handler ho c)" if c: "c \<notin> {CHR ''k'', CHR ''l''}"
  proof (rule handler_cases)
    have masks: "change_mask ty must e parv dir m s = Some t \<Longrightarrow> (\<And>i. mc_letter (m i) = c) \<Longrightarrow> once_each t" for ty must m t
      using change_mask_once[OF _ s, of ty must e parv dir m t] c by simp
    show "?P chm_ban" "?P chm_except" "?P chm_invex"
      using masks lm same by (auto simp: chm_ban_def chm_except_def chm_invex_def change_def no_access_def set_error_def split: if_splits)
    show "?P chm_op" "?P chm_hop" "?P chm_voice"
      using change_member_once[OF _ s] same
      by (auto simp: chm_op_def chm_hop_def chm_voice_def bind_eq_Some_conv no_access_def split: if_splits)
    show "?P (chm_simple ty)" for ty
    proof (intro allI impI)
      fix t assume t: "chm_simple ty e parv alev dir c s = Some t"
      have p: "once_each (push_change (change c d No_arg) t')" if "on_chan_mode f e (s\<lparr>mo_simple := v\<rparr>) = Some t'" for f t' v d
        using once_each_push[OF same] on_chan_changes[OF that] c by (simp add: change_def)
      show "once_each t" using t p same unfolding chm_simple_def Let_def
        by (cases dir) (auto simp: no_access_def split: if_splits)
    qed
    show "?P chm_nosuch" using same by (simp add: chm_nosuch_def)
  qed (use kl in blast)+
  show ?thesis
  proof (cases "c \<in> {CHR ''k'', CHR ''l''}")
    case True
    then have "mode_handler ho c = chm_key \<or> mode_handler ho c = chm_limit" by (auto simp: mode_handler_def)
    with kl r show ?thesis by auto
  qed (use other r in blast)
qed

lemma mode_loop_once: "mode_loop e parv alev dir ml s = Some s' \<Longrightarrow> once_each s \<Longrightarrow> once_each s'"
proof (induction ml arbitrary: dir s)
  case (Cons c ml)
  show ?case
  proof (cases "c = CHR ''+'' \<or> c = CHR ''-'' \<or> c = CHR ''=''")
    case True
    then obtain d where "mode_loop e parv alev d ml s = Some s'" using Cons.prems(1) by auto
    with Cons.IH Cons.prems(2) show ?thesis by blast
  next
    case False
    then obtain s1 where "mode_handler (me_halfops e) c e parv alev dir c s = Some s1" "mode_loop e parv alev dir ml s1 = Some s'"
      using Cons.prems(1) by (auto simp: bind_eq_Some_conv)
    with handler_once Cons show ?thesis by blast
  qed
qed simp

lemma key_limit_uncounted:
  "chm_key e parv alev dir c s = Some s' \<Longrightarrow> mo_limit s' = mo_limit s"
  "chm_limit e parv alev dir c s = Some s' \<Longrightarrow> mo_limit s' = mo_limit s"
  by (auto simp: chm_key_def chm_limit_def Let_def bind_eq_Some_conv no_access_def once_def set_error_def
      on_chan_mode_def push_change_def cancel_adds_def split: if_splits)

text \<open>What the comment before \<open>chm_hop\<close> and the help of the MODE command say otherwise: a half-operator can take simple
  modes off a channel that is \<open>+p\<close>, and can change the half-operators of one that is not.\<close>

lemma halfop_simple_under_private:
  assumes "chans (mo_world s) (me_chptr e) = Some ch" "mode ch AND MODE_PRIVATE \<noteq> 0"
    "ty \<noteq> MODE_PRIVATE" "mo_simple s AND ty = 0"
  shows "\<exists>s'. chm_simple ty e parv CHACCESS_HALFOP MODE_DEL c s = Some s' \<and>
    chans (mo_world s') (me_chptr e) = Some (ch\<lparr>mode := mode ch AND NOT ty\<rparr>)"
  using assms by (simp add: chm_simple_def Let_def on_chan_mode_def upd_chan_def push_change_def)

lemma halfop_changes_halfop:
  assumes "chans (mo_world s) (me_chptr e) = Some ch" "mode ch AND MODE_PRIVATE = 0"
  shows "chm_hop e parv CHACCESS_HALFOP dir c s = change_member CHFL_HALFOP CHFL_DEOPPED CHR ''h'' e parv dir s"
  using assms by (simp add: chm_hop_def)

subsection \<open>The command\<close>

lemma send_fields [simp]:
  "mo_world (send_mode_changes e hidden me cs s) = mo_world s" "mo_changes (send_mode_changes e hidden me cs s) = mo_changes s"
  by (simp_all add: send_mode_changes_def)

definition mode_start :: "string \<Rightarrow> chan_world \<Rightarrow> mode_state" where
  "mode_start buf w = \<lparr>mo_world = w, mo_buf = buf, mo_parn = 1, mo_errors = 0, mo_changes = [], mo_limit = 0, mo_simple = 0, mo_out = []\<rparr>"

lemma set_mode_loop:
  "set_channel_mode e hidden me cs member parv buf w = map_option (send_mode_changes e hidden me cs)
     (mode_loop e parv (get_channel_access (me_halfops e) (me_source e) member) MODE_ADD (str_at buf (parv ! 0)) (mode_start buf w))"
  by (simp add: set_channel_mode_def mode_start_def)

lemma mode_start_good:
  assumes "mode_ok (me_cfg e) w" "chans w (me_chptr e) = Some ch" "text_ok e parv buf"
  shows "mode_good e parv (num_masks ch) (mode_start buf w)"
  using assms by (simp add: mode_good_def mode_start_def param_changes_def)

definition example_mode_env :: mode_env where
  "example_mode_env = \<lparr>me_cfg = example_config, me_halfops = True, me_ban_cookie = True, me_nicklen = 10, me_now = 100,
     me_find = (\<lambda>_ w. if users w 5 \<noteq> None then Some 5 else None), me_client_server = False,
     me_source = example_user\<lparr>us_channel := [9]\<rparr>, me_chptr = 1, me_chname = ''#a''\<rparr>"

definition example_line :: string where
  "example_line = ''+bo'' @ [NUL] @ ''a'' @ [NUL] @ ''nick'' @ replicate 100 NUL"

lemma example_mode:
  "\<exists>w ch. mode_ok (me_cfg example_mode_env) w \<and> chans w (me_chptr example_mode_env) = Some ch \<and>
    text_ok example_mode_env [0, 4, 6] example_line \<and> find_live example_mode_env \<and> MyClient (me_source example_mode_env)"
proof -
  obtain w ch where w: "chan_reach True 3 w" "chans w 1 = Some ch"
    "mships w = [9 \<mapsto> \<lparr>ms_client = 5, ms_chptr = 1, ms_flags = CHFL_CHANOP\<rparr>]" using example_reachable by blast
  have f: "flags_ok b CHFL_CHANOP" for b by (simp add: flags_ok_bits CHFL_CHANOP_def)
  have "cache_ok example_config w" by (simp add: cache_ok_def w(3) f)
  moreover have "remote_uncached w"
    by (simp add: remote_uncached_def w(3) flag_bits) (simp add: CHFL_CHANOP_def)
  moreover have "chan_inv w" by (rule chan_reach_inv[OF w(1)]) simp
  moreover have "find_live example_mode_env" by (simp add: find_live_def example_mode_env_def)
  moreover have "text_ok example_mode_env [0, 4, 6] example_line"
    by (simp add: text_ok_def example_line_def example_mode_env_def)
  ultimately show ?thesis
    using w(2) by (intro exI[of _ w] exI[of _ ch])
      (simp add: mode_ok_def example_mode_env_def MyClient_def IsClient_def example_user_def)
qed

text \<open>C1. \<open>set_channel_mode\<close> returns for every mode string and every parameter, without a NULL
  dereference and without writing behind the line buffer; it touches nothing but the modes, mask
  lists and member flags of \<open>mode_frame\<close>, keeps \<open>chan_inv\<close> and the ban cache, and notes at most one
  change for each letter, so that \<open>mode_changes\<close>, as long as a line, does not overflow.\<close>

theorem mode_command_safe:
  assumes "mode_ok (me_cfg e) w" "chans w (me_chptr e) = Some ch" "text_ok e parv buf" "find_live e"
  shows "\<exists>s'. set_channel_mode e hidden me cs member parv buf w = Some s' \<and> mode_ok (me_cfg e) (mo_world s') \<and>
    mode_frame w (mo_world s') \<and> length (mo_changes s') \<le> length (str_at buf (parv ! 0))"
proof -
  have st: "mo_world (mode_start buf w) = w" "mo_changes (mode_start buf w) = []" by (simp_all add: mode_start_def)
  from mode_loop_good[OF mode_start_good[OF assms(1-3)] assms(4)] show ?thesis
    unfolding set_mode_loop st by (fastforce simp: mode_good_def)
qed

lemma mode_command_safe_witness:
  "\<exists>w s'. set_channel_mode example_mode_env False ''me'' [] None [0, 4, 6] example_line w = Some s' \<and> chan_inv (mo_world s')"
  using example_mode mode_command_safe[of example_mode_env _ _ "[0, 4, 6]" example_line False "''me''" "[]" None]
  unfolding mode_ok_def by blast

text \<open>C14. What a local client may change depends on its membership: without operator or half-operator
  status nothing at all changes, and a half-operator changes neither the operators of any channel
  nor \<open>+p\<close>. This is what the code does: the comment before \<open>chm_hop\<close> and the help of MODE
  say that a half-operator can set \<open>+p\<close>.\<close>

theorem mode_access:
  assumes "set_channel_mode e hidden me cs member parv buf w = Some s'"
  shows "(get_channel_access (me_halfops e) (me_source e) member < CHACCESS_HALFOP \<longrightarrow> mo_world s' = w \<and> mo_changes s' = []) \<and>
    (get_channel_access (me_halfops e) (me_source e) member < CHACCESS_CHANOP \<longrightarrow> keep_ops w (mo_world s'))"
proof -
  have st: "mo_world (mode_start buf w) = w" "mo_changes (mode_start buf w) = []" by (simp_all add: mode_start_def)
  obtain s1 where "mode_loop e parv (get_channel_access (me_halfops e) (me_source e) member) MODE_ADD (str_at buf (parv ! 0)) (mode_start buf w) = Some s1"
    "s' = send_mode_changes e hidden me cs s1" using assms unfolding set_mode_loop by auto
  then show ?thesis using peon_loop halfop_loop st by fastforce
qed

definition example_halfop :: membership where
  "example_halfop = \<lparr>ms_client = 5, ms_chptr = 1, ms_flags = CHFL_HALFOP\<rparr>"

lemma mode_access_witness:
  "\<exists>w s' t'. set_channel_mode example_mode_env False ''me'' [] None [0, 4, 6] example_line w = Some s' \<and> mo_world s' = w \<and>
     get_channel_access True (me_source example_mode_env) (Some example_halfop) = CHACCESS_HALFOP \<and>
     set_channel_mode example_mode_env False ''me'' [] (Some example_halfop) [0, 4, 6] example_line w = Some t' \<and>
     keep_ops w (mo_world t')"
proof -
  obtain w s' t' where s': "set_channel_mode example_mode_env False ''me'' [] None [0, 4, 6] example_line w = Some s'"
    and t': "set_channel_mode example_mode_env False ''me'' [] (Some example_halfop) [0, 4, 6] example_line w = Some t'"
    using example_mode mode_loop_good[OF mode_start_good] unfolding set_mode_loop by (metis (no_types, lifting) option.map(2))
  have "get_channel_access (me_halfops example_mode_env) (me_source example_mode_env) None < CHACCESS_HALFOP"
    by (simp add: get_channel_access_def CHACCESS_NOTONCHAN_def CHACCESS_HALFOP_def example_mode_env_def MyClient_def
        IsClient_def example_user_def)
  then have 1: "mo_world s' = w" using mode_access[OF s'] by blast
  have 2: "get_channel_access True (me_source example_mode_env) (Some example_halfop) = CHACCESS_HALFOP"
    by (simp add: get_channel_access_def example_halfop_def CHFL_HALFOP_def CHFL_CHANOP_def example_mode_env_def MyClient_def
        IsClient_def example_user_def)
  then have "get_channel_access (me_halfops example_mode_env) (me_source example_mode_env) (Some example_halfop) < CHACCESS_CHANOP"
    by (simp add: example_mode_env_def CHACCESS_HALFOP_def CHACCESS_CHANOP_def)
  then have "keep_ops w (mo_world t')" using mode_access[OF t'] by blast
  with s' t' 1 2 show ?thesis by blast
qed

text \<open>C15. What a local client can change with one command: at most four modes with a mask or a nick
  (b, e, I, o, h, v) are changed. Keys and limits have parameters too but are not counted with
  these; of the additions of a key at most one stays noted, and likewise of a limit, so that
  \<open>+bbbbkl\<close> adds six modes with a parameter and none adds more. The ban, exception and invite lists
  together, if they have at most \<open>max_bans\<close> masks, have at most \<open>max_bans\<close> afterwards; otherwise they
  do not grow.\<close>

theorem mode_limits:
  assumes "mode_ok (me_cfg e) w" "chans w (me_chptr e) = Some ch" "text_ok e parv buf" "find_live e" "MyClient (me_source e)"
  shows "\<exists>s' ch'. set_channel_mode e hidden me cs member parv buf w = Some s' \<and> chans (mo_world s') (me_chptr e) = Some ch' \<and>
    length (filter (\<lambda>m. mc_letter m \<in> set ''beIohv'') (mo_changes s')) \<le> MAXMODEPARAMS \<and>
    length (filter (\<lambda>m. mc_letter m = CHR ''k'' \<and> mc_dir m = MODE_ADD) (mo_changes s')) \<le> 1 \<and>
    length (filter (\<lambda>m. mc_letter m = CHR ''l'' \<and> mc_dir m = MODE_ADD) (mo_changes s')) \<le> 1 \<and>
    num_masks ch' \<le> max (num_masks ch) (max_bans (me_cfg e))"
proof -
  obtain s1 where s1: "mode_loop e parv (get_channel_access (me_halfops e) (me_source e) member) MODE_ADD (str_at buf (parv ! 0)) (mode_start buf w) = Some s1"
    "mode_good e parv (num_masks ch) s1" using mode_loop_good[OF mode_start_good[OF assms(1-3)] assms(4)] by blast
  from s1(2) assms(5) obtain ch' where "chans (mo_world s1) (me_chptr e) = Some ch'" "num_masks ch' \<le> max (num_masks ch) (max_bans (me_cfg e))"
    "param_changes s1 \<le> MAXMODEPARAMS" unfolding mode_good_def by blast
  moreover have "once_each (mode_start buf w)" by (simp add: once_each_def additions_def mode_start_def)
  then have "once_each s1" by (rule mode_loop_once[OF s1(1)])
  ultimately show ?thesis unfolding set_mode_loop s1(1) option.map param_changes_def once_each_def additions_def
    by (intro exI[of _ "send_mode_changes e hidden me cs s1"] exI[of _ ch']) simp
qed

lemma mode_limits_witness:
  "\<exists>w s' ch'. set_channel_mode example_mode_env False ''me'' [] None [0, 4, 6] example_line w = Some s' \<and>
    chans (mo_world s') 1 = Some ch' \<and> length (filter (\<lambda>m. mc_letter m \<in> set ''beIohv'') (mo_changes s')) \<le> MAXMODEPARAMS"
proof -
  have c: "me_chptr example_mode_env = 1" by (simp add: example_mode_env_def)
  from example_mode mode_limits[of example_mode_env _ _ "[0, 4, 6]" example_line False "''me''" "[]" None]
  show ?thesis unfolding c by blast
qed

text \<open>Finding: \<open>add_id\<close> prints the longer mask over the next parameter: in \<open>MODE #c +bb a b\<close> the second
  ban is \<open>*!*@*\<close>.\<close>

lemma second_mask_overwritten:
  "\<exists>buf. parse_mask 10 4 (''+bb'' @ [NUL] @ ''a'' @ [NUL] @ ''b'' @ replicate 20 NUL) = Some (''a'', ''*'', ''*'', buf) \<and>
     str_at buf 6 = ''*@*'' \<and> map_option (\<lambda>(n, u, h, _). nuh n u h) (parse_mask 10 6 buf) = Some ''*!*@*''"
proof -
  have "parse_mask 10 4 (''+bb'' @ [NUL] @ ''a'' @ [NUL] @ ''b'' @ replicate 20 NUL) =
      Some (''a'', ''*'', ''*'', ''+bb'' @ [NUL] @ ''a!*@*'' @ replicate 18 NUL)" by code_simp
  moreover have "str_at (''+bb'' @ [NUL] @ ''a!*@*'' @ replicate 18 NUL) 6 = ''*@*''" by code_simp
  moreover have "map_option (\<lambda>(n, u, h, _). nuh n u h) (parse_mask 10 6 (''+bb'' @ [NUL] @ ''a!*@*'' @ replicate 18 NUL)) = Some ''*!*@*''"
    by code_simp
  ultimately show ?thesis by blast
qed

end
