(* ===== verification/Mode_Merge.thy ===== *)
theory Mode_Merge
  imports Channel_Mode
begin

text \<open>
  The parts of \<^verbatim>\<open>src/modules/core/m_sjoin.c\<close> and \<^verbatim>\<open>m_join.c\<close> in which two servers agree on the
  time stamp and the modes of a channel that exists on both: the mode letters of the command, the
  rule of the time stamps, the merge of the modes, the MODE line for the members, and the loss of
  status on the side that lost.

  \<open>mode\<close>, \<open>limit\<close> and \<open>key\<close> of a channel are its \<open>struct Mode\<close>, here \<open>chan_mode\<close>; the buffers
  \<open>modebuf\<close> and \<open>parabuf\<close> are strings, \<open>parv\<close> is the list of the parameters. The lemmas show that a
  server reads back the modes another one sends, that the MODE line for the members turns the old
  modes into the new ones, and that both sides of a link end with the same time stamp and modes.
\<close>

subsection \<open>Modes and time stamps\<close>

record chan_mode =
  cm_mode :: u32
  cm_limit :: u32
  cm_key :: string

definition get_mode :: "channel \<Rightarrow> chan_mode" where
  "get_mode ch = \<lparr>cm_mode = mode ch, cm_limit = limit ch, cm_key = key ch\<rparr>"

definition put_mode :: "chan_mode \<Rightarrow> channel \<Rightarrow> channel" where
  "put_mode m ch = ch\<lparr>mode := cm_mode m, limit := cm_limit m, key := cm_key m\<rparr>"

fun c_strcmp :: "string \<Rightarrow> string \<Rightarrow> int" where
  "c_strcmp [] [] = 0"
| "c_strcmp [] (b # bs) = - int (ord b)"
| "c_strcmp (a # as) [] = int (ord a)"
| "c_strcmp (a # as) (b # bs) = (if a = b then c_strcmp as bs else int (ord a) - int (ord b))"

text \<open>The letters of \<open>parv[3]\<close>; the bits of the simple ones.\<close>

definition simple_bit :: "char \<Rightarrow> u32" where
  "simple_bit c =
     (if c = CHR ''t'' then MODE_TOPICLIMIT else if c = CHR ''n'' then MODE_NOPRIVMSGS
      else if c = CHR ''s'' then MODE_SECRET else if c = CHR ''m'' then MODE_MODERATED
      else if c = CHR ''i'' then MODE_INVITEONLY else if c = CHR ''p'' then MODE_PRIVATE else 0)"

text \<open>\<open>ms_join\<close> tests \<open>parc\<close> before it reads a parameter, \<open>ms_sjoin\<close> after. \<open>None\<close> is the return.\<close>

fun join_modes :: "string \<Rightarrow> string list \<Rightarrow> nat \<Rightarrow> chan_mode \<Rightarrow> (chan_mode \<times> nat) option" where
  "join_modes [] parv args m = Some (m, args)"
| "join_modes (c # s) parv args m =
     (if simple_bit c \<noteq> 0 then join_modes s parv args (m\<lparr>cm_mode := cm_mode m OR simple_bit c\<rparr>)
      else if c = CHR ''k'' then
        (if length parv < 5 + args then None
         else join_modes s parv (args + 1) (m\<lparr>cm_key := c_strlcpy (parv ! (4 + args)) KEYLEN\<rparr>))
      else if c = CHR ''l'' then
        (if length parv < 5 + args then None
         else join_modes s parv (args + 1) (m\<lparr>cm_limit := word_of_int (c_atoi (parv ! (4 + args)))\<rparr>))
      else join_modes s parv args m)"

fun sjoin_modes :: "string \<Rightarrow> string list \<Rightarrow> nat \<Rightarrow> chan_mode \<Rightarrow> (chan_mode \<times> nat) option" where
  "sjoin_modes [] parv args m = Some (m, args)"
| "sjoin_modes (c # s) parv args m =
     (if simple_bit c \<noteq> 0 then sjoin_modes s parv args (m\<lparr>cm_mode := cm_mode m OR simple_bit c\<rparr>)
      else if c = CHR ''k'' then
        (if length parv < 5 + (args + 1) then None
         else sjoin_modes s parv (args + 1) (m\<lparr>cm_key := c_strlcpy (parv ! (4 + args)) KEYLEN\<rparr>))
      else if c = CHR ''l'' then
        (if length parv < 5 + (args + 1) then None
         else sjoin_modes s parv (args + 1) (m\<lparr>cm_limit := word_of_int (c_atoi (parv ! (4 + args)))\<rparr>))
      else sjoin_modes s parv args m)"

text \<open>The channel's new time stamp, \<open>keep_our_modes\<close> and \<open>keep_new_modes\<close>.\<close>

definition bogus_ts :: "bool \<Rightarrow> time_t \<Rightarrow> time_t \<Rightarrow> time_t" where
  "bogus_ts ignore oldts newts = (if ignore \<and> newts < 800000000 then (if oldts = 0 then 0 else 800000000) else newts)"

definition ts_rule :: "bool \<Rightarrow> time_t \<Rightarrow> time_t \<Rightarrow> time_t \<times> bool \<times> bool" where
  "ts_rule isnew oldts newts =
     (if isnew then (newts, True, True)
      else if newts = 0 \<or> oldts = 0 then (0, True, True)
      else if newts = oldts then (oldts, True, True)
      else if newts < oldts then (newts, False, True)
      else (oldts, True, False))"

definition merge_mode :: "bool \<Rightarrow> bool \<Rightarrow> chan_mode \<Rightarrow> chan_mode \<Rightarrow> chan_mode" where
  "merge_mode keep_our keep_new m old =
     (if \<not> keep_new then old
      else if keep_our then
        \<lparr>cm_mode = cm_mode m OR cm_mode old,
         cm_limit = (if cm_limit old > cm_limit m then cm_limit old else cm_limit m),
         cm_key = (if c_strcmp (cm_key m) (cm_key old) < 0 then cm_key old else cm_key m)\<rparr>
      else m)"

subsection \<open>The mode line for the members\<close>

definition sjoin_flags :: "(u32 \<times> char) list" where
  "sjoin_flags = [(MODE_NOPRIVMSGS, CHR ''n''), (MODE_TOPICLIMIT, CHR ''t''), (MODE_SECRET, CHR ''s''),
     (MODE_MODERATED, CHR ''m''), (MODE_INVITEONLY, CHR ''i''), (MODE_PRIVATE, CHR ''p'')]"

text \<open>The letters of the modes that are in \<open>a\<close> and not in \<open>b\<close>.\<close>

definition flags_gone :: "u32 \<Rightarrow> u32 \<Rightarrow> string" where
  "flags_gone a b = map snd (filter (\<lambda>(f, l). f AND a \<noteq> 0 \<and> f AND b = 0) sjoin_flags)"

text \<open>\<open>set_final_mode\<close> of \<^verbatim>\<open>m_sjoin.c\<close>: \<open>modebuf\<close> and \<open>parabuf\<close>, which was empty.\<close>

definition set_final_mode :: "chan_mode \<Rightarrow> chan_mode \<Rightarrow> string \<times> string" where
  "set_final_mode m old =
     (let b = ''-'' @ flags_gone (cm_mode old) (cm_mode m) @
            (if cm_limit old \<noteq> 0 \<and> cm_limit m = 0 then ''l'' else []);
          (b, p) = (if cm_key old \<noteq> [] \<and> cm_key m = [] then (b @ ''k'', cm_key old @ '' '') else (b, []));
          b = (if last b = CHR ''-'' then butlast b @ ''+'' else b @ ''+'');
          b = b @ flags_gone (cm_mode m) (cm_mode old);
          (b, p) = (if cm_limit m \<noteq> 0 \<and> cm_limit old \<noteq> cm_limit m
                    then (b @ ''l'', p @ put_d (cm_limit m) @ '' '') else (b, p));
          (b, p) = (if cm_key m \<noteq> [] \<and> c_strcmp (cm_key old) (cm_key m) \<noteq> 0
                    then (b @ ''k'', p @ cm_key m @ '' '') else (b, p))
      in (if last b = CHR ''+'' then butlast b else b, p))"

text \<open>That of \<^verbatim>\<open>m_join.c\<close>: a sign only where the direction changes (\<open>what\<close>), and the static
  \<open>parabuf\<close> keeps its old contents \<open>para\<close> when no parameter is written.\<close>

definition put_letter :: "int \<Rightarrow> char \<Rightarrow> int \<times> string \<Rightarrow> int \<times> string" where
  "put_letter d c s = (case s of (what, b) \<Rightarrow>
     (d, b @ (if what \<noteq> d then [if d = 1 then CHR ''+'' else CHR ''-''] else []) @ [c]))"

definition set_final_mode_join :: "string \<Rightarrow> chan_mode \<Rightarrow> chan_mode \<Rightarrow> string \<times> string" where
  "set_final_mode_join para m old =
     (let s = fold (put_letter 1) (flags_gone (cm_mode m) (cm_mode old)) (0, []);
          s = fold (put_letter (- 1)) (flags_gone (cm_mode old) (cm_mode m)) s;
          s = (if cm_limit old \<noteq> 0 \<and> cm_limit m = 0 then put_letter (- 1) CHR ''l'' s else s);
          (s, p) = (if cm_key old \<noteq> [] \<and> cm_key m = [] then (put_letter (- 1) CHR ''k'' s, cm_key old @ '' '') else (s, []));
          (s, p) = (if cm_limit m \<noteq> 0 \<and> cm_limit old \<noteq> cm_limit m
                    then (put_letter 1 CHR ''l'' s, p @ put_d (cm_limit m) @ '' '') else (s, p));
          (s, p) = (if cm_key m \<noteq> [] \<and> c_strcmp (cm_key old) (cm_key m) \<noteq> 0
                    then (put_letter 1 CHR ''k'' s, p @ cm_key m @ '' '') else (s, p))
      in (snd s, if p = [] then para else p))"

subsection \<open>Taking status away\<close>

text \<open>\<open>remove_a_mode\<close>: the flag \<open>fl\<close> of all members, with lines of at most four nicks.\<close>

definition mode_line_sjoin :: "char \<Rightarrow> string list \<Rightarrow> string" where
  "mode_line_sjoin l para = ''-'' @ replicate (length para) l @ concat (map (\<lambda>n. '' '' @ n) para)"

definition mode_line_join :: "char \<Rightarrow> string list \<Rightarrow> string" where
  "mode_line_join l para = ''-'' @ replicate (length para) l @
     take (MODEBUFLEN - 1) (concat (map (\<lambda>n. '' '' @ n) (takeWhile (\<lambda>n. n \<noteq> []) para)))"

type_synonym mode_liner = "char \<Rightarrow> string list \<Rightarrow> string"

definition remove_step ::
  "mode_liner \<Rightarrow> u32 \<Rightarrow> char \<Rightarrow> ptr \<Rightarrow> chan_world \<times> string list \<times> string list \<Rightarrow> (chan_world \<times> string list \<times> string list) option" where
  "remove_step line fl l ms s = (case s of (w, para, out) \<Rightarrow>
     Option.bind (mships w ms) (\<lambda>x.
     if ms_flags x AND fl = 0 then Some s else
     let w = w\<lparr>mships := (mships w)(ms \<mapsto> x\<lparr>ms_flags := ms_flags x AND NOT fl\<rparr>)\<rparr>
     in map_option (\<lambda>u.
          let para = para @ [us_name u]
          in if length para \<ge> MAXMODEPARAMS then (w, [], out @ [line l para]) else (w, para, out))
        (users w (ms_client x))))"

definition remove_a_mode :: "mode_liner \<Rightarrow> ptr \<Rightarrow> u32 \<Rightarrow> char \<Rightarrow> chan_world \<Rightarrow> (chan_world \<times> string list) option" where
  "remove_a_mode line c fl l w =
     Option.bind (chans w c) (\<lambda>ch.
       map_option (\<lambda>(w, para, out). (w, if para \<noteq> [] then out @ [line l para] else out))
         (foreach_safe (remove_step line fl l) (ch_members ch) (w, [], [])))"

definition remove_our_modes :: "mode_liner \<Rightarrow> bool \<Rightarrow> ptr \<Rightarrow> chan_world \<Rightarrow> (chan_world \<times> string list) option" where
  "remove_our_modes line halfops c w =
     Option.bind (remove_a_mode line c CHFL_CHANOP CHR ''o'' w) (\<lambda>(w, o1).
     Option.bind (if halfops then remove_a_mode line c CHFL_HALFOP CHR ''h'' w else Some (w, [])) (\<lambda>(w, o2).
     map_option (\<lambda>(w, o3). (w, o1 @ o2 @ o3)) (remove_a_mode line c CHFL_VOICE CHR ''v'' w)))"

text \<open>\<open>remove_ban_list\<close>: the lines \<open>hdr - letters masks\<close>; the list is empty afterwards. To send a
  line without a mask writes in front of \<open>lparabuf\<close>; letters behind \<open>lmodebuf\<close>, which starts with
  \<open>hdr\<close>, and masks behind \<open>lparabuf\<close> overrun them. All this is \<open>None\<close>.\<close>

fun unban_lines :: "string \<Rightarrow> char \<Rightarrow> ban list \<Rightarrow> string \<Rightarrow> string \<Rightarrow> nat \<Rightarrow> nat \<Rightarrow> string list option" where
  "unban_lines hdr c [] letters para n cur_len = (if para = [] then None else Some [hdr @ letters @ '' '' @ butlast para])"
| "unban_lines hdr c (b # bs) letters para n cur_len =
     (let plen = ban_len b + 4; txt = nuh (ban_name b) (ban_username b) (ban_host b) @ '' ''
      in if n \<ge> MAXMODEPARAMS \<or> cur_len + 1 + (plen - 1) > IRCD_BUFSIZE - 2
         then if para = [] \<or> length hdr + 1 \<ge> MODEBUFLEN \<or> length txt \<ge> IRCD_BUFSIZE then None
              else map_option ((#) (hdr @ letters @ '' '' @ butlast para)) (unban_lines hdr c bs [c] txt 1 (length hdr + plen))
         else if length hdr + length letters + 1 \<ge> MODEBUFLEN \<or> length para + length txt \<ge> IRCD_BUFSIZE then None
         else unban_lines hdr c bs (letters @ [c]) (para @ txt) (n + 1) (cur_len + plen))"

definition remove_ban_list :: "string \<Rightarrow> char \<Rightarrow> ban list \<Rightarrow> string list option" where
  "remove_ban_list hdr c bs = (if bs = [] then Some [] else unban_lines hdr c bs [] [] 0 (length hdr))"

subsection \<open>Keys and single flags\<close>

lemma c_strcmp_swap: "c_strcmp a b = - c_strcmp b a"
  by (induction a b rule: c_strcmp.induct) auto

lemma ord_0_iff: "ord c = (0 :: nat) \<longleftrightarrow> c = NUL"
  by (simp add: char_eq_iff_ord)

lemma c_strcmp_0: "NUL \<notin> set a \<Longrightarrow> NUL \<notin> set b \<Longrightarrow> c_strcmp a b = 0 \<longleftrightarrow> a = b"
  by (induction a b rule: c_strcmp.induct) (auto simp: ord_0_iff)

definition one_bit :: "u32 \<Rightarrow> bool" where
  "one_bit f \<longleftrightarrow> (\<exists>n. \<forall>k. bit f k \<longleftrightarrow> k = n)"

lemma and_one_bit: "one_bit f \<Longrightarrow> f AND a = f \<or> f AND a = 0"
proof -
  assume "one_bit f"
  then obtain n where n: "\<And>k. bit f k \<longleftrightarrow> k = n" by (auto simp: one_bit_def)
  show ?thesis
  proof (cases "bit a n")
    case True
    then have "f AND a = f" by (intro bit_word_eqI) (auto simp: bit_and_iff n)
    then show ?thesis ..
  next
    case False
    then have "f AND a = 0" by (intro bit_word_eqI) (auto simp: bit_and_iff n)
    then show ?thesis ..
  qed
qed

lemma one_bit_nz: "one_bit f \<Longrightarrow> f \<noteq> 0"
  by (auto simp: one_bit_def)

text \<open>The flags of a list of pairs; each is one bit.\<close>

definition flag_bits :: "(u32 \<times> char) list \<Rightarrow> u32" where
  "flag_bits xs = foldr (OR) (map fst xs) 0"

lemma flag_bits_simps [simp]: "flag_bits [] = 0" "flag_bits (x # xs) = fst x OR flag_bits xs"
  by (simp_all add: flag_bits_def)

lemma flag_bits_gone:
  "\<forall>x \<in> set xs. one_bit (fst x) \<Longrightarrow>
   flag_bits (filter (\<lambda>(f, l). f AND a \<noteq> 0 \<and> f AND b = 0) xs) = (a AND NOT b) AND flag_bits xs"
proof (induction xs)
  case (Cons x xs)
  obtain f l where x: "x = (f, l)" by fastforce
  then have f: "one_bit f" using Cons.prems by simp
  have nb: "f AND NOT b = (if f AND b = 0 then f else 0)"
    using and_one_bit[OF f, of b] one_bit_nz[OF f] by (auto simp: bit_eq_iff bit_simps)
  have "(a AND NOT b) AND f = (f AND a) AND (f AND NOT b)"
    by (simp add: and.left_commute and.commute and.assoc)
  also have "\<dots> = (if f AND a \<noteq> 0 \<and> f AND b = 0 then f else 0)"
    using and_one_bit[OF f, of a] nb by auto
  finally have "(a AND NOT b) AND (f OR flag_bits xs) =
      (if f AND a \<noteq> 0 \<and> f AND b = 0 then f else 0) OR ((a AND NOT b) AND flag_bits xs)"
    by (simp only: bit.conj_disj_distrib)
  then show ?case using Cons by (simp add: x)
qed simp

lemma one_bit_exp: "n < 32 \<Longrightarrow> one_bit (push_bit n 1)"
  unfolding one_bit_def by (intro exI[of _ n]) (auto simp: bit_simps)

lemma mode_bits_single:
  "one_bit MODE_PRIVATE" "one_bit MODE_SECRET" "one_bit MODE_MODERATED" "one_bit MODE_TOPICLIMIT"
  "one_bit MODE_INVITEONLY" "one_bit MODE_NOPRIVMSGS"
  unfolding MODE_NOPRIVMSGS_def MODE_TOPICLIMIT_def MODE_SECRET_def MODE_MODERATED_def MODE_INVITEONLY_def MODE_PRIVATE_def
  using one_bit_exp[of 0] one_bit_exp[of 1] one_bit_exp[of 2] one_bit_exp[of 3] one_bit_exp[of 4] one_bit_exp[of 5] by simp_all


subsection \<open>Reading a mode line\<close>

text \<open>What a MODE line means to the server that gets it: a letter changes its flag in the current
  direction, \<open>k\<close> takes a parameter, \<open>l\<close> only when it sets.\<close>

definition read_letter :: "char \<Rightarrow> bool \<times> string list \<times> chan_mode \<Rightarrow> bool \<times> string list \<times> chan_mode" where
  "read_letter c s = (case s of (d, ps, m) \<Rightarrow>
     if c = CHR ''+'' then (True, ps, m)
     else if c = CHR ''-'' then (False, ps, m)
     else if simple_bit c \<noteq> 0 then
       (d, ps, m\<lparr>cm_mode := (if d then cm_mode m OR simple_bit c else cm_mode m AND NOT (simple_bit c))\<rparr>)
     else if c = CHR ''l'' then
       (if d then (d, tl ps, m\<lparr>cm_limit := word_of_int (c_atoi (hd ps))\<rparr>) else (d, ps, m\<lparr>cm_limit := 0\<rparr>))
     else if c = CHR ''k'' then (d, tl ps, m\<lparr>cm_key := (if d then hd ps else [])\<rparr>)
     else (d, ps, m))"

definition read_modes :: "string \<Rightarrow> string \<Rightarrow> chan_mode \<Rightarrow> chan_mode" where
  "read_modes mb pb m = snd (snd (fold read_letter mb (True, tokens (\<lambda>c. c = CHR '' '') pb, m)))"

lemma read_sign [simp]:
  "read_letter CHR ''+'' (d, ps, m) = (True, ps, m)" "read_letter CHR ''-'' (d, ps, m) = (False, ps, m)"
  by (simp_all add: read_letter_def)

lemma read_arg [simp]:
  "read_letter CHR ''l'' (d, ps, m) =
     (if d then (d, tl ps, m\<lparr>cm_limit := word_of_int (c_atoi (hd ps))\<rparr>) else (d, ps, m\<lparr>cm_limit := 0\<rparr>))"
  "read_letter CHR ''k'' (d, ps, m) = (d, tl ps, m\<lparr>cm_key := (if d then hd ps else [])\<rparr>)"
  by (simp_all add: read_letter_def simple_bit_def)

definition change_bits :: "bool \<Rightarrow> u32 \<Rightarrow> chan_mode \<Rightarrow> chan_mode" where
  "change_bits d b m = m\<lparr>cm_mode := (if d then cm_mode m OR b else cm_mode m AND NOT b)\<rparr>"

lemma read_flags:
  "\<forall>x \<in> set xs. simple_bit (snd x) = fst x \<and> fst x \<noteq> 0 \<and> snd x \<noteq> CHR ''+'' \<and> snd x \<noteq> CHR ''-'' \<Longrightarrow>
   fold read_letter (map snd xs) (d, ps, m) = (d, ps, change_bits d (flag_bits xs) m)"
proof (induction xs arbitrary: m)
  case Nil
  then show ?case by (simp add: change_bits_def)
next
  case (Cons x xs)
  then have "read_letter (snd x) (d, ps, m) = (d, ps, change_bits d (fst x) m)"
    by (simp add: read_letter_def change_bits_def)
  moreover have "change_bits d (flag_bits xs) (change_bits d (fst x) m) = change_bits d (fst x OR flag_bits xs) m"
    by (simp add: change_bits_def or.assoc and.assoc)
  ultimately show ?case using Cons by simp
qed

lemma simple_bits:
  "simple_bit CHR ''n'' = MODE_NOPRIVMSGS" "simple_bit CHR ''t'' = MODE_TOPICLIMIT" "simple_bit CHR ''s'' = MODE_SECRET"
  "simple_bit CHR ''m'' = MODE_MODERATED" "simple_bit CHR ''i'' = MODE_INVITEONLY" "simple_bit CHR ''p'' = MODE_PRIVATE"
  by (simp_all add: simple_bit_def)

lemma sjoin_flags_ok:
  "x \<in> set sjoin_flags \<Longrightarrow> simple_bit (snd x) = fst x \<and> fst x \<noteq> 0 \<and> snd x \<noteq> CHR ''+'' \<and> snd x \<noteq> CHR ''-'' \<and> one_bit (fst x)"
  using mode_bits_single mode_bits_single[THEN one_bit_nz] by (auto simp: sjoin_flags_def simple_bits)

definition SIMPLE_MODES :: u32 where "SIMPLE_MODES = flag_bits sjoin_flags"

lemma read_gone:
  "fold read_letter (flags_gone a b) (d, ps, m) = (d, ps, change_bits d (a AND NOT b AND SIMPLE_MODES) m)"
proof -
  have "fold read_letter (flags_gone a b) (d, ps, m) =
      (d, ps, change_bits d (flag_bits (filter (\<lambda>(f, l). f AND a \<noteq> 0 \<and> f AND b = 0) sjoin_flags)) m)"
    unfolding flags_gone_def by (rule read_flags) (use sjoin_flags_ok in auto)
  then show ?thesis
    using flag_bits_gone[of sjoin_flags a b] sjoin_flags_ok by (simp add: SIMPLE_MODES_def and.assoc)
qed

text \<open>Both directions together turn the old flags into the new ones.\<close>

lemma change_both:
  assumes "cm_mode m AND NOT SIMPLE_MODES = cm_mode old AND NOT SIMPLE_MODES"
  shows "(cm_mode old AND NOT (cm_mode old AND NOT (cm_mode m) AND SIMPLE_MODES)) OR (cm_mode m AND NOT (cm_mode old) AND SIMPLE_MODES) = cm_mode m"
    "(cm_mode old OR (cm_mode m AND NOT (cm_mode old) AND SIMPLE_MODES)) AND NOT (cm_mode old AND NOT (cm_mode m) AND SIMPLE_MODES) = cm_mode m"
proof -
  have "bit (cm_mode m) n = bit (cm_mode old) n" if "\<not> bit SIMPLE_MODES n" "n < 32" for n
    using arg_cong[OF assms, of "\<lambda>w. bit w n"] that by (simp add: bit_simps)
  then show "(cm_mode old AND NOT (cm_mode old AND NOT (cm_mode m) AND SIMPLE_MODES)) OR (cm_mode m AND NOT (cm_mode old) AND SIMPLE_MODES) = cm_mode m"
    "(cm_mode old OR (cm_mode m AND NOT (cm_mode old) AND SIMPLE_MODES)) AND NOT (cm_mode old AND NOT (cm_mode m) AND SIMPLE_MODES) = cm_mode m"
    by (intro bit_word_eqI; auto simp: bit_simps)+
qed


definition plain_key :: "string \<Rightarrow> bool" where
  "plain_key k \<longleftrightarrow> NUL \<notin> set k \<and> CHR '' '' \<notin> set k"

lemma tokens_word:
  "t \<noteq> [] \<Longrightarrow> CHR '' '' \<notin> set t \<Longrightarrow> tokens (\<lambda>c. c = CHR '' '') (t @ CHR '' '' # s) = t # tokens (\<lambda>c. c = CHR '' '') s"
proof -
  assume t: "t \<noteq> []" "CHR '' '' \<notin> set t"
  then have "\<forall>c \<in> set t. c \<noteq> CHR '' ''" by metis
  then have "pieces (\<lambda>c. c = CHR '' '') (t @ CHR '' '' # s) = t # pieces (\<lambda>c. c = CHR '' '') s"
    using pieces_token(2)[of t "\<lambda>c. c = CHR '' ''" "CHR '' ''" s] by simp
  then show ?thesis using t(1) by (simp add: tokens_def)
qed

lemma tokens_empty [simp]: "tokens sep [] = []"
  by (simp add: tokens_def)

lemma digits_word: "0 < v \<Longrightarrow> let s = dropWhile (\<lambda>c. c = CHR ''0'') (group_loop v []) in s \<noteq> [] \<and> CHR '' '' \<notin> set s"
  using strip_digits[of v] by (auto simp: Let_def is_c_digit_def)

lemma put_d_word: "put_d w \<noteq> []" "CHR '' '' \<notin> set (put_d w)"
proof -
  have "put_d w \<noteq> [] \<and> CHR '' '' \<notin> set (put_d w)"
  proof (cases "w = 0")
    case True
    then show ?thesis by (simp add: put_d_def)
  next
    case False
    then have "0 < unat w" "0 < unat (- w)" by (simp_all add: unat_gt_0)
    then show ?thesis using digits_word False by (auto simp: put_d_def Let_def)
  qed
  then show "put_d w \<noteq> []" "CHR '' '' \<notin> set (put_d w)" by simp_all
qed

lemma read_put_d [simp]: "word_of_int (c_atoi (put_d w)) = (w :: u32)"
  by (simp add: atoi_put_d)

text \<open>The letters that go and come, and their parameters.\<close>

definition lost_args :: "chan_mode \<Rightarrow> chan_mode \<Rightarrow> string" where
  "lost_args m old = (if cm_limit old \<noteq> 0 \<and> cm_limit m = 0 then ''l'' else []) @
     (if cm_key old \<noteq> [] \<and> cm_key m = [] then ''k'' else [])"

definition lost_letters :: "chan_mode \<Rightarrow> chan_mode \<Rightarrow> string" where
  "lost_letters m old = flags_gone (cm_mode old) (cm_mode m) @ lost_args m old"

definition set_args :: "chan_mode \<Rightarrow> chan_mode \<Rightarrow> string" where
  "set_args m old = (if cm_limit m \<noteq> 0 \<and> cm_limit old \<noteq> cm_limit m then ''l'' else []) @
     (if cm_key m \<noteq> [] \<and> cm_key old \<noteq> cm_key m then ''k'' else [])"

definition final_params :: "chan_mode \<Rightarrow> chan_mode \<Rightarrow> string" where
  "final_params m old = (if cm_key old \<noteq> [] \<and> cm_key m = [] then cm_key old @ '' '' else []) @
     (if cm_limit m \<noteq> 0 \<and> cm_limit old \<noteq> cm_limit m then put_d (cm_limit m) @ '' '' else []) @
     (if cm_key m \<noteq> [] \<and> cm_key old \<noteq> cm_key m then cm_key m @ '' '' else [])"

lemma signs_not_flags: "CHR ''+'' \<notin> set (flags_gone a b)" "CHR ''-'' \<notin> set (flags_gone a b)"
  using sjoin_flags_ok by (fastforce simp: flags_gone_def)+

lemma last_sign: "c \<notin> set xs \<Longrightarrow> last (xs0 @ c # xs) = c \<longleftrightarrow> xs = []"
  using last_in_set[of xs] by (auto simp: last_append)

lemma set_final_mode_form:
  assumes "plain_key (cm_key m)" "plain_key (cm_key old)"
  shows "set_final_mode m old =
    ((if lost_letters m old = [] then [] else CHR ''-'' # lost_letters m old) @
     (if flags_gone (cm_mode m) (cm_mode old) @ set_args m old = [] then []
      else CHR ''+'' # flags_gone (cm_mode m) (cm_mode old) @ set_args m old), final_params m old)"
proof -
  define xs where "xs = lost_letters m old"
  define ys where "ys = flags_gone (cm_mode m) (cm_mode old) @ set_args m old"
  have k: "c_strcmp (cm_key old) (cm_key m) = 0 \<longleftrightarrow> cm_key old = cm_key m"
    using assms by (simp add: c_strcmp_0 plain_key_def)
  have no: "CHR ''-'' \<notin> set xs" "CHR ''+'' \<notin> set ys"
    using signs_not_flags by (auto simp: xs_def ys_def lost_letters_def lost_args_def set_args_def split: if_splits)
  have l: "last (CHR ''-'' # xs) = CHR ''-'' \<longleftrightarrow> xs = []" "last (z @ CHR ''+'' # ys) = CHR ''+'' \<longleftrightarrow> ys = []" for z
    using last_sign[OF no(1), of "[]"] last_sign[OF no(2), of z] by simp_all
  have "set_final_mode m old =
    (let b = (if last (CHR ''-'' # xs) = CHR ''-'' then butlast (CHR ''-'' # xs) @ ''+'' else (CHR ''-'' # xs) @ ''+'') @ ys
     in (if last b = CHR ''+'' then butlast b else b, final_params m old))"
    by (simp add: set_final_mode_def xs_def ys_def lost_letters_def lost_args_def set_args_def final_params_def Let_def k)
  also have "\<dots> = ((if xs = [] then [] else CHR ''-'' # xs) @ (if ys = [] then [] else CHR ''+'' # ys), final_params m old)"
    using l(1) l(2)[of "[]"] l(2)[of "CHR ''-'' # xs"] by (cases "xs = []"; cases "ys = []") (simp_all add: Let_def butlast_append)
  finally show ?thesis by (simp add: xs_def ys_def)
qed


text \<open>The letters of the form above, read back: first the mode without what is lost.\<close>

definition gain_params :: "chan_mode \<Rightarrow> chan_mode \<Rightarrow> string" where
  "gain_params m old = (if cm_limit m \<noteq> 0 \<and> cm_limit old \<noteq> cm_limit m then put_d (cm_limit m) @ '' '' else []) @
     (if cm_key m \<noteq> [] \<and> cm_key old \<noteq> cm_key m then cm_key m @ '' '' else [])"

definition lose :: "chan_mode \<Rightarrow> chan_mode \<Rightarrow> chan_mode" where
  "lose m old = \<lparr>cm_mode = cm_mode old AND NOT (cm_mode old AND NOT (cm_mode m) AND SIMPLE_MODES),
     cm_limit = (if cm_limit m = 0 then 0 else cm_limit old), cm_key = (if cm_key m = [] then [] else cm_key old)\<rparr>"

abbreviation words :: "string \<Rightarrow> string list" where "words \<equiv> tokens (\<lambda>c. c = CHR '' '')"

lemma final_params_eq:
  "final_params m old = (if cm_key old \<noteq> [] \<and> cm_key m = [] then cm_key old @ '' '' else []) @ gain_params m old"
  by (simp add: final_params_def gain_params_def)

lemma read_lost_args:
  assumes "plain_key (cm_key old)"
  shows "fold read_letter (lost_args m old) (False, words (final_params m old) @ ws, x\<lparr>cm_limit := cm_limit old, cm_key := cm_key old\<rparr>) =
    (False, words (gain_params m old) @ ws, x\<lparr>cm_limit := (if cm_limit m = 0 then 0 else cm_limit old), cm_key := (if cm_key m = [] then [] else cm_key old)\<rparr>)"
proof -
  have w: "words (final_params m old) = (if cm_key old \<noteq> [] \<and> cm_key m = [] then [cm_key old] else []) @ words (gain_params m old)"
    using tokens_word[of "cm_key old" "gain_params m old"] assms(1) by (simp add: final_params_eq plain_key_def)
  show ?thesis
    unfolding lost_args_def w by (cases "cm_limit m = 0"; cases "cm_key m = []"; cases "cm_limit old = 0"; cases "cm_key old = []") simp_all
qed

lemma lose_eq:
  "lose m old = (old\<lparr>cm_mode := cm_mode old AND NOT (cm_mode old AND NOT (cm_mode m) AND SIMPLE_MODES)\<rparr>)
     \<lparr>cm_limit := (if cm_limit m = 0 then 0 else cm_limit old), cm_key := (if cm_key m = [] then [] else cm_key old)\<rparr>"
  by (cases old) (simp add: lose_def)

lemma read_lost:
  assumes "plain_key (cm_key old)"
  shows "fold read_letter (lost_letters m old) (False, words (final_params m old) @ ws, old) = (False, words (gain_params m old) @ ws, lose m old)"
  using read_lost_args[OF assms, of m ws "old\<lparr>cm_mode := cm_mode old AND NOT (cm_mode old AND NOT (cm_mode m) AND SIMPLE_MODES)\<rparr>"]
  by (simp add: lost_letters_def read_gone lose_eq, simp add: change_bits_def)

lemma read_set_args:
  assumes "plain_key (cm_key m)"
  shows "fold read_letter (set_args m old) (True, words (gain_params m old) @ ws, x) =
    (True, ws, x\<lparr>cm_limit := (if cm_limit m \<noteq> 0 \<and> cm_limit old \<noteq> cm_limit m then cm_limit m else cm_limit x),
       cm_key := (if cm_key m \<noteq> [] \<and> cm_key old \<noteq> cm_key m then cm_key m else cm_key x)\<rparr>)"
proof -
  define L K where "L \<longleftrightarrow> cm_limit m \<noteq> 0 \<and> cm_limit old \<noteq> cm_limit m" and "K \<longleftrightarrow> cm_key m \<noteq> [] \<and> cm_key old \<noteq> cm_key m"
  have "K \<Longrightarrow> words (cm_key m @ '' '') = [cm_key m]"
    using assms tokens_word[of "cm_key m" "[]"] by (simp add: plain_key_def K_def)
  then show ?thesis
    unfolding set_args_def gain_params_def L_def[symmetric] K_def[symmetric]
    using tokens_word[OF put_d_word, of "cm_limit m"] by (cases L; cases K; cases x) simp_all
qed

lemma read_gain:
  assumes "plain_key (cm_key m)" "cm_mode m AND NOT SIMPLE_MODES = cm_mode old AND NOT SIMPLE_MODES"
  shows "fold read_letter (flags_gone (cm_mode m) (cm_mode old) @ set_args m old) (True, words (gain_params m old) @ ws, lose m old) =
    (True, ws, m)"
  using change_both(1)[OF assms(2)] read_set_args[OF assms(1)]
  by (cases m) (simp add: read_gone change_bits_def lose_def)

lemma read_final_mode:
  assumes k: "plain_key (cm_key m)" "plain_key (cm_key old)" and o: "cm_mode m AND NOT SIMPLE_MODES = cm_mode old AND NOT SIMPLE_MODES"
  shows "case set_final_mode m old of (mb, pb) \<Rightarrow> read_modes mb pb old = m"
proof -
  define ys where "ys = flags_gone (cm_mode m) (cm_mode old) @ set_args m old"
  define A B where "A = (if lost_letters m old = [] then [] else CHR ''-'' # lost_letters m old)"
    and "B = (if ys = [] then [] else CHR ''+'' # ys)"
  have "\<exists>d. fold read_letter A (True, words (final_params m old), old) = (d, words (gain_params m old), lose m old)"
    using read_lost[OF k(2), of m "[]"] by (cases "lost_letters m old = []") (auto simp: A_def)
  moreover have "snd (snd (fold read_letter B (d, words (gain_params m old), lose m old))) = m" for d
    using read_gain[OF k(1) o, of "[]"] unfolding ys_def[symmetric] B_def by (cases "ys = []") simp_all
  moreover have "set_final_mode m old = (A @ B, final_params m old)"
    unfolding A_def B_def ys_def by (rule set_final_mode_form[OF k])
  ultimately show ?thesis by (auto simp: read_modes_def)
qed


text \<open>The other form: the sign is put where the direction changes. \<open>says s st ps m\<close>: read from \<open>st\<close>,
  the letters so far end in the mode \<open>m\<close> with the parameters \<open>ps\<close> left.\<close>

definition says :: "int \<times> string \<Rightarrow> bool \<times> string list \<times> chan_mode \<Rightarrow> string list \<Rightarrow> chan_mode \<Rightarrow> bool" where
  "says s st ps m \<longleftrightarrow> (\<exists>d. fold read_letter (snd s) st = (d, ps, m) \<and> (fst s \<noteq> 0 \<longrightarrow> d = (fst s = 1)))"

lemma says_put:
  assumes "says s st ps m" "d = 1 \<or> d = - 1" "c \<noteq> CHR ''+''" "c \<noteq> CHR ''-''" "read_letter c (d = 1, ps, m) = (e, ps', m')"
  shows "says (put_letter d c s) st ps' m'"
proof -
  obtain what b where s: "s = (what, b)" by fastforce
  obtain d0 where d0: "fold read_letter b st = (d0, ps, m)" "what \<noteq> 0 \<longrightarrow> d0 = (what = 1)" using assms(1) by (auto simp: says_def s)
  have "e = (d = 1)" using assms(3-5) by (auto simp: read_letter_def split: if_splits)
  then show ?thesis using assms(2,5) d0 by (cases "what = d") (auto simp: says_def s put_letter_def)
qed

lemma says_fold:
  "says s st ps m \<Longrightarrow> d = 1 \<or> d = - 1 \<Longrightarrow> CHR ''+'' \<notin> set cs \<Longrightarrow> CHR ''-'' \<notin> set cs \<Longrightarrow>
   fold read_letter cs (d = 1, ps, m) = (e, ps', m') \<Longrightarrow> says (fold (put_letter d) cs s) st ps' m'"
proof (induction cs arbitrary: s ps m)
  case Nil
  then show ?case by simp
next
  case (Cons c cs)
  obtain e1 ps1 m1 where r: "read_letter c (d = 1, ps, m) = (e1, ps1, m1)" by (metis prod_cases3)
  have c: "c \<noteq> CHR ''+''" "c \<noteq> CHR ''-''" "CHR ''+'' \<notin> set cs" "CHR ''-'' \<notin> set cs" using Cons.prems(3,4) by auto
  have "e1 = (d = 1)" using c r by (auto simp: read_letter_def split: if_splits)
  then show ?case
    using Cons.IH[OF says_put[OF Cons.prems(1,2) c(1,2) r] Cons.prems(2) c(3,4)] Cons.prems(5) r by simp
qed

lemma says_flags:
  "says s st ps m \<Longrightarrow> d = 1 \<or> d = - 1 \<Longrightarrow>
   says (fold (put_letter d) (flags_gone a b) s) st ps (change_bits (d = 1) (a AND NOT b AND SIMPLE_MODES) m)"
  by (erule says_fold) (simp_all add: signs_not_flags read_gone)

lemma set_final_mode_join_form:
  assumes "plain_key (cm_key m)" "plain_key (cm_key old)"
  shows "set_final_mode_join para m old =
    (snd (fold (put_letter 1) (set_args m old) (fold (put_letter (- 1)) (lost_letters m old)
       (fold (put_letter 1) (flags_gone (cm_mode m) (cm_mode old)) (0, [])))),
     if final_params m old = [] then para else final_params m old)"
proof -
  have k: "c_strcmp (cm_key old) (cm_key m) = 0 \<longleftrightarrow> cm_key old = cm_key m"
    using assms by (simp add: c_strcmp_0 plain_key_def)
  define L K L' K' where "L \<longleftrightarrow> cm_limit old \<noteq> 0 \<and> cm_limit m = 0" and "K \<longleftrightarrow> cm_key old \<noteq> [] \<and> cm_key m = []"
    and "L' \<longleftrightarrow> cm_limit m \<noteq> 0 \<and> cm_limit old \<noteq> cm_limit m" and "K' \<longleftrightarrow> cm_key m \<noteq> [] \<and> cm_key old \<noteq> cm_key m"
  show ?thesis
    unfolding set_final_mode_join_def k lost_letters_def lost_args_def set_args_def final_params_def L_def[symmetric] K_def[symmetric] L'_def[symmetric] K'_def[symmetric]
    by (cases L; cases K; cases L'; cases K') (simp_all add: Let_def)
qed

text \<open>When no parameter is taken, \<open>parabuf\<close> may hold anything.\<close>

lemma read_final_mode_join:
  assumes k: "plain_key (cm_key m)" "plain_key (cm_key old)" and o: "cm_mode m AND NOT SIMPLE_MODES = cm_mode old AND NOT SIMPLE_MODES"
  shows "case set_final_mode_join para m old of (mb, pb) \<Rightarrow> read_modes mb pb old = m"
proof -
  define fp where "fp = final_params m old"
  define ws where "ws = (if fp = [] then words para else [])"
  have ws: "words (if fp = [] then para else fp) = words fp @ ws" by (simp add: ws_def)
  define more where "more = change_bits True (cm_mode m AND NOT (cm_mode old) AND SIMPLE_MODES) old"
  define s1 where "s1 = fold (put_letter 1) (flags_gone (cm_mode m) (cm_mode old)) (0, [])"
  let ?st = "(True, words fp @ ws, old)"
  have "says (0, []) ?st (words fp @ ws) old" by (auto simp: says_def)
  from says_flags[OF this, of 1] have s1: "says s1 ?st (words fp @ ws) more" by (simp add: more_def s1_def)
  define s2 where "s2 = fold (put_letter (- 1)) (lost_letters m old) s1"
  define x where "x = more\<lparr>cm_mode := cm_mode m\<rparr>"
  have f: "cm_limit more = cm_limit old" "cm_key more = cm_key old" by (simp_all add: more_def change_bits_def)
  have "change_bits False (cm_mode old AND NOT (cm_mode m) AND SIMPLE_MODES) more = x"
    using change_both(2)[OF o] by (simp add: x_def more_def change_bits_def)
  moreover have "x = x\<lparr>cm_limit := cm_limit old, cm_key := cm_key old\<rparr>" using f by (simp add: x_def)
  ultimately have "fold read_letter (lost_letters m old) (False, words fp @ ws, more) =
      (False, words (gain_params m old) @ ws,
       x\<lparr>cm_limit := (if cm_limit m = 0 then 0 else cm_limit old), cm_key := (if cm_key m = [] then [] else cm_key old)\<rparr>)"
    using read_lost_args[OF k(2), of m ws x] by (simp add: lost_letters_def read_gone fp_def)
  then have s2: "says s2 ?st (words (gain_params m old) @ ws)
      (x\<lparr>cm_limit := (if cm_limit m = 0 then 0 else cm_limit old), cm_key := (if cm_key m = [] then [] else cm_key old)\<rparr>)"
    unfolding s2_def using signs_not_flags
    by (intro says_fold[OF s1]) (auto simp: lost_letters_def lost_args_def)
  have "x\<lparr>cm_limit := cm_limit m, cm_key := cm_key m\<rparr> = m" by (cases m) (simp add: x_def more_def change_bits_def)
  then have "says (fold (put_letter 1) (set_args m old) s2) ?st ws m"
    using read_set_args[OF k(1), of old ws] by (intro says_fold[OF s2]) (auto simp: set_args_def)
  then show ?thesis
    unfolding set_final_mode_join_form[OF k] s1_def[symmetric] s2_def[symmetric] fp_def[symmetric]
    by (auto simp: says_def read_modes_def ws)
qed


subsection \<open>What the other server reads\<close>

lemma sjoin_modes_flags:
  "\<forall>x \<in> set xs. simple_bit (snd x) = fst x \<and> fst x \<noteq> 0 \<Longrightarrow>
   sjoin_modes (map snd xs @ r) parv n m = sjoin_modes r parv n (change_bits True (flag_bits xs) m)"
proof (induction xs arbitrary: m)
  case Nil
  then show ?case by (simp add: change_bits_def)
next
  case (Cons x xs)
  then have "sjoin_modes (map snd (x # xs) @ r) parv n m =
      sjoin_modes r parv n (change_bits True (flag_bits xs) (change_bits True (fst x) m))"
    by (simp add: change_bits_def)
  then show ?case by (simp add: change_bits_def or.assoc)
qed

lemma mode_flags_same: "flag_bits mode_flags = SIMPLE_MODES"
  by (simp add: SIMPLE_MODES_def mode_flags_def sjoin_flags_def ac_simps)

lemma mode_flags_ok:
  "x \<in> set mode_flags \<Longrightarrow> simple_bit (snd x) = fst x \<and> fst x \<noteq> 0 \<and> one_bit (fst x)"
  using mode_bits_single mode_bits_single[THEN one_bit_nz] by (auto simp: mode_flags_def simple_bits)

text \<open>The modes of a channel that MODE and SJOIN can set.\<close>

definition sendable :: "channel \<Rightarrow> bool" where
  "sendable ch \<longleftrightarrow> mode ch AND NOT SIMPLE_MODES = 0 \<and> plain_key (key ch) \<and> length (key ch) < KEYLEN"

text \<open>The parameters of the SJOIN of a server with this channel, as the parser cuts them.\<close>

definition sjoin_params :: "string \<Rightarrow> string \<Rightarrow> string \<Rightarrow> channel \<Rightarrow> string list" where
  "sjoin_params srv name nicks ch =
     [srv, put_lu (word_of_int (channelts ch)), name, fst (channel_modes True ch)] @ words (snd (channel_modes True ch)) @ [nicks]"

lemma read_channel_modes:
  fixes srv name nicks :: string
  assumes "sendable ch"
  defines "parv \<equiv> sjoin_params srv name nicks ch"
  shows "\<exists>n. sjoin_modes (parv ! 3) parv 0 \<lparr>cm_mode = 0, cm_limit = 0, cm_key = []\<rparr> = Some (get_mode ch, n) \<and>
    length parv = n + 5 \<and> parv ! (n + 4) = nicks"
proof -
  define L K where "L \<longleftrightarrow> limit ch \<noteq> 0" and "K \<longleftrightarrow> key ch \<noteq> []"
  have k: "CHR '' '' \<notin> set (key ch)" "take (KEYLEN - 1) (key ch) = key ch"
    using assms(1) by (simp_all add: sendable_def plain_key_def KEYLEN_def)
  have "words (snd (channel_modes True ch)) = (if L then [put_d (limit ch)] else []) @ (if K then [key ch] else [])"
    using tokens_word[OF put_d_word] tokens_word[of "key ch" "[]"] k(1)
    by (cases L; cases K) (simp_all add: channel_modes_def L_def K_def)
  then have parv: "parv = [srv, put_lu (word_of_int (channelts ch)), name, fst (channel_modes True ch)] @
      (if L then [put_d (limit ch)] else []) @ (if K then [key ch] else []) @ [nicks]"
    by (simp add: parv_def sjoin_params_def)
  have fb: "flag_bits (filter (\<lambda>(b, l). mode ch AND b \<noteq> 0) mode_flags) = mode ch"
  proof -
    have "flag_bits (filter (\<lambda>(b, l). mode ch AND b \<noteq> 0) mode_flags) = mode ch AND SIMPLE_MODES"
      using flag_bits_gone[of mode_flags "mode ch" 0] mode_flags_ok by (simp add: mode_flags_same and.commute)
    moreover have "(mode ch AND SIMPLE_MODES) OR (mode ch AND NOT SIMPLE_MODES) = mode ch"
      by (simp flip: bit.conj_disj_distrib)
    ultimately show ?thesis using assms(1) by (simp add: sendable_def)
  qed
  let ?fs = "filter (\<lambda>(b, l). mode ch AND b \<noteq> 0) mode_flags"
  let ?r = "(if L then ''l'' else []) @ (if K then ''k'' else [])"
  have ok: "\<forall>x \<in> set ?fs. simple_bit (snd x) = fst x \<and> fst x \<noteq> 0" using mode_flags_ok by simp
  have plus: "sjoin_modes (CHR ''+'' # t) parv 0 m = sjoin_modes t parv 0 m" for t m by (simp add: simple_bit_def)
  have "fst (channel_modes True ch) = CHR ''+'' # map snd ?fs @ ?r" by (simp add: channel_modes_def L_def K_def)
  then have "sjoin_modes (fst (channel_modes True ch)) parv 0 \<lparr>cm_mode = 0, cm_limit = 0, cm_key = []\<rparr> =
      sjoin_modes ?r parv 0 \<lparr>cm_mode = mode ch, cm_limit = 0, cm_key = []\<rparr>"
    by (simp only: plus sjoin_modes_flags[OF ok] fb) (simp add: change_bits_def)
  moreover have "parv ! 3 = fst (channel_modes True ch)" by (simp add: parv)
  ultimately show ?thesis
    using k(2) by (cases L; cases K) (simp_all add: parv simple_bit_def c_strlcpy_def get_mode_def L_def K_def)
qed


subsection \<open>Both sides agree\<close>

lemma later_key:
  assumes "plain_key a" "plain_key b"
  shows "(if c_strcmp a b < 0 then b else a) = (if c_strcmp b a < 0 then a else b)"
  using c_strcmp_swap[of a b] c_strcmp_0[of a b] assms by (auto simp: plain_key_def)

text \<open>Each side applies the rule with the other's time stamp as the new one: both get the same, and one
  accepts the status of the other's members exactly when the other keeps it.\<close>

lemma ts_rule_agrees:
  assumes "ts_rule False a b = (ts, our, new)" "ts_rule False b a = (ts', our', new')"
  shows "ts = ts'" "new' = our" "our' = new" "our \<or> new"
  using assms by (auto simp: ts_rule_def split: if_splits)

lemma merge_mode_agrees:
  assumes "plain_key (cm_key a)" "plain_key (cm_key b)" "our \<or> new"
  shows "merge_mode our new b a = merge_mode new our a b"
proof -
  have "(if cm_limit a > cm_limit b then cm_limit a else cm_limit b) = (if cm_limit b > cm_limit a then cm_limit b else cm_limit a)"
    by (auto simp: not_less)
  then show ?thesis
    using later_key[OF assms(2,1)] assms(3) by (auto simp: merge_mode_def or.commute)
qed

subsection \<open>Taking status away\<close>

definition clear_flag :: "u32 \<Rightarrow> membership \<Rightarrow> membership" where
  "clear_flag fl x = x\<lparr>ms_flags := ms_flags x AND NOT fl\<rparr>"

definition clear_members :: "u32 \<Rightarrow> ptr list \<Rightarrow> chan_world \<Rightarrow> chan_world" where
  "clear_members fl ms w = w\<lparr>mships := (\<lambda>m. if m \<in> set ms then map_option (clear_flag fl) (mships w m) else mships w m)\<rparr>"

definition holders :: "u32 \<Rightarrow> ptr list \<Rightarrow> chan_world \<Rightarrow> string list" where
  "holders fl ms w = map (\<lambda>m. us_name (the (users w (ms_client (the (mships w m))))))
     (filter (\<lambda>m. ms_flags (the (mships w m)) AND fl \<noteq> 0) ms)"

definition live_members :: "ptr list \<Rightarrow> chan_world \<Rightarrow> bool" where
  "live_members ms w \<longleftrightarrow> (\<forall>m \<in> set ms. \<exists>x. mships w m = Some x \<and> users w (ms_client x) \<noteq> None)"

lemma live_clear: "live_members ms w \<Longrightarrow> live_members ms (clear_members fl ns w)"
  by (fastforce simp: live_members_def clear_members_def clear_flag_def)

lemma clear_none: "x AND fl = 0 \<Longrightarrow> (x :: u32) AND NOT fl = x"
  by (metis (no_types, lifting) and.right_neutral bit.conj_disj_distrib bit.disj_cancel_right or.left_neutral)

lemma clear_twice [simp]: "clear_flag fl (clear_flag fl x) = clear_flag fl x"
  by (simp add: clear_flag_def and.assoc)

lemma clear_members_Cons: "clear_members fl (m # ms) w = clear_members fl ms (clear_members fl [m] w)"
proof -
  have "(\<lambda>k. if k \<in> set (m # ms) then map_option (clear_flag fl) (mships w k) else mships w k) =
      (\<lambda>k. if k \<in> set ms then map_option (clear_flag fl) (if k = m then map_option (clear_flag fl) (mships w k) else mships w k)
        else if k = m then map_option (clear_flag fl) (mships w k) else mships w k)"
    by (auto simp: fun_eq_iff option.map_comp comp_def)
  then show ?thesis by (simp add: clear_members_def cong: if_cong)
qed

lemma clear_members_one:
  assumes "mships w m = Some x"
  shows "clear_members fl [m] w = (if ms_flags x AND fl = 0 then w else w\<lparr>mships := (mships w)(m \<mapsto> clear_flag fl x)\<rparr>)"
proof (cases "ms_flags x AND fl = 0")
  case True
  then have "clear_flag fl x = x" by (simp add: clear_flag_def clear_none)
  then have "(\<lambda>k. if k = m then map_option (clear_flag fl) (mships w k) else mships w k) = mships w"
    using assms by (auto simp: fun_eq_iff)
  then show ?thesis using True by (simp add: clear_members_def)
next
  case False
  have "(\<lambda>k. if k = m then map_option (clear_flag fl) (mships w k) else mships w k) = (mships w)(m \<mapsto> clear_flag fl x)"
    using assms by (auto simp: fun_eq_iff)
  then show ?thesis using False by (simp add: clear_members_def)
qed

lemma holders_clear:
  "m \<notin> set ms \<Longrightarrow> holders fl ms (clear_members fl [m] w) = holders fl ms w"
  unfolding holders_def by (intro map_cong filter_cong) (auto simp: clear_members_def)

text \<open>Lines of up to four nicks: \<open>split4 para ns\<close> are the full ones and what is left.\<close>

lemma remove_loop:
  "live_members ms w \<Longrightarrow> distinct ms \<Longrightarrow> length para < MAXMODEPARAMS \<Longrightarrow>
   \<exists>gs para'. foreach_safe (remove_step line fl l) ms (w, para, out) =
       Some (clear_members fl ms w, para', out @ map (line l) gs) \<and>
     concat gs @ para' = para @ holders fl ms w \<and> (\<forall>g \<in> set gs. length g = MAXMODEPARAMS) \<and> length para' < MAXMODEPARAMS"
proof (induction ms arbitrary: w para out)
  case Nil
  then show ?case by (intro exI[of _ "[]"] exI[of _ para]) (simp add: clear_members_def holders_def)
next
  case (Cons m ms)
  obtain x u where x: "mships w m = Some x" "users w (ms_client x) = Some u" using Cons.prems(1) by (auto simp: live_members_def)
  let ?w = "clear_members fl [m] w"
  have live: "live_members ms ?w" using Cons.prems(1) by (intro live_clear) (simp add: live_members_def)
  have d: "distinct ms" "m \<notin> set ms" using Cons.prems(2) by simp_all
  have cl: "clear_members fl (m # ms) w = clear_members fl ms ?w" by (rule clear_members_Cons)
  show ?case
  proof (cases "ms_flags x AND fl = 0")
    case True
    then have "remove_step line fl l m (w, para, out) = Some (?w, para, out)"
      by (simp add: remove_step_def x clear_members_one)
    moreover have "holders fl (m # ms) w = holders fl ms ?w" using True holders_clear[OF d(2)] by (simp add: holders_def x)
    ultimately show ?thesis using Cons.IH[OF live d(1) Cons.prems(3), of out] by (simp add: cl)
  next
    case False
    have h: "holders fl (m # ms) w = us_name u # holders fl ms ?w" using False holders_clear[OF d(2)] by (simp add: holders_def x)
    let ?p = "para @ [us_name u]"
    have r: "remove_step line fl l m (w, para, out) =
        Some (if length ?p \<ge> MAXMODEPARAMS then (?w, [], out @ [line l ?p]) else (?w, ?p, out))"
      using False by (simp add: remove_step_def x clear_members_one clear_flag_def Let_def)
    show ?thesis
    proof (cases "length ?p \<ge> MAXMODEPARAMS")
      case True
      then have len: "length ?p = MAXMODEPARAMS" using Cons.prems(3) by simp
      have "length ([] :: string list) < MAXMODEPARAMS" by (simp add: MAXMODEPARAMS_def)
      from Cons.IH[OF live d(1) this, of "out @ [line l ?p]"] obtain gs p' where
        "foreach_safe (remove_step line fl l) ms (?w, [], out @ [line l ?p]) =
           Some (clear_members fl ms ?w, p', (out @ [line l ?p]) @ map (line l) gs)"
        "concat gs @ p' = holders fl ms ?w" "\<forall>g \<in> set gs. length g = MAXMODEPARAMS" "length p' < MAXMODEPARAMS" by auto
      then show ?thesis using True r h len
        by (intro exI[of _ "?p # gs"] exI[of _ p']) (simp add: cl)
    next
      case False
      then have "length ?p < MAXMODEPARAMS" by simp
      from Cons.IH[OF live d(1) this, of out] show ?thesis using False r h by (simp add: cl)
    qed
  qed
qed

definition short_lines :: "mode_liner \<Rightarrow> char \<Rightarrow> string list \<Rightarrow> string list \<Rightarrow> bool" where
  "short_lines line l nicks ls \<longleftrightarrow> (\<exists>gs. ls = map (line l) gs \<and> concat gs = nicks \<and> (\<forall>g \<in> set gs. g \<noteq> [] \<and> length g \<le> MAXMODEPARAMS))"

lemma remove_a_mode_spec:
  assumes ch: "chans w c = Some ch" and live: "live_members (ch_members ch) w" "distinct (ch_members ch)"
  shows "\<exists>ls. remove_a_mode line c fl l w = Some (clear_members fl (ch_members ch) w, ls) \<and>
    short_lines line l (holders fl (ch_members ch) w) ls"
proof -
  have "length ([] :: string list) < MAXMODEPARAMS" by (simp add: MAXMODEPARAMS_def)
  from remove_loop[OF live this, of line fl l "[]"] obtain gs p where g:
    "foreach_safe (remove_step line fl l) (ch_members ch) (w, [], []) = Some (clear_members fl (ch_members ch) w, p, map (line l) gs)"
    "concat gs @ p = holders fl (ch_members ch) w" "\<forall>g \<in> set gs. length g = MAXMODEPARAMS" "length p < MAXMODEPARAMS" by auto
  have ne: "g \<noteq> []" if "g \<in> set gs" for g using g(3) that by (auto simp: MAXMODEPARAMS_def)
  have "short_lines line l (holders fl (ch_members ch) w) (if p \<noteq> [] then map (line l) gs @ [line l p] else map (line l) gs)"
    unfolding short_lines_def using g(2-4) ne
    by (intro exI[of _ "if p \<noteq> [] then gs @ [p] else gs"]) auto
  then show ?thesis using ch g(1) by (simp add: remove_a_mode_def)
qed


lemma clear_frame: "mode_frame w (clear_members fl ms w)"
proof -
  have "mship_core (clear_flag fl x) = mship_core x" for x by (simp add: clear_flag_def mship_core_def)
  then show ?thesis by (simp add: mode_frame_def clear_members_def option.map_comp comp_def)
qed

lemma clear_comp: "clear_members fl2 ms (clear_members fl1 ms w) = clear_members (fl1 OR fl2) ms w"
proof -
  have "clear_flag fl2 (clear_flag fl1 x) = clear_flag (fl1 OR fl2) x" for x
    by (simp add: clear_flag_def and.assoc)
  then have "(\<lambda>m. if m \<in> set ms then map_option (clear_flag fl2) (if m \<in> set ms then map_option (clear_flag fl1) (mships w m) else mships w m)
        else if m \<in> set ms then map_option (clear_flag fl1) (mships w m) else mships w m) =
      (\<lambda>m. if m \<in> set ms then map_option (clear_flag (fl1 OR fl2)) (mships w m) else mships w m)"
    by (auto simp: fun_eq_iff option.map_comp comp_def)
  then show ?thesis by (simp add: clear_members_def cong: if_cong)
qed

lemma holders_other:
  assumes "fl1 AND fl2 = 0"
  shows "holders fl2 ms (clear_members fl1 ms w) = holders fl2 ms w"
proof -
  have "(x AND NOT fl1) AND fl2 = x AND fl2" for x
    using assms by (metis (no_types, lifting) and.assoc and.commute bit.compl_eq_compl_iff clear_none)
  then have f: "ms_flags (clear_flag fl1 x) AND fl2 = ms_flags x AND fl2" "ms_client (clear_flag fl1 x) = ms_client x" for x
    by (simp_all add: clear_flag_def)
  have "ms_flags (the (mships (clear_members fl1 ms w) m)) AND fl2 = ms_flags (the (mships w m)) AND fl2 \<and>
      ms_client (the (mships (clear_members fl1 ms w) m)) = ms_client (the (mships w m))" for m
    by (cases "mships w m") (simp_all add: clear_members_def f)
  then show ?thesis by (simp add: holders_def clear_members_def[THEN arg_cong[where f = users]])
qed

text \<open>The side that lost: no member keeps its status, and every loss is in a line of at most four nicks.\<close>

definition status_bits :: "bool \<Rightarrow> u32" where
  "status_bits halfops = CHFL_CHANOP OR (if halfops then CHFL_HALFOP else 0) OR CHFL_VOICE"

lemma remove_our_modes_spec:
  assumes ch: "chans w c = Some ch" and live: "live_members (ch_members ch) w" "distinct (ch_members ch)"
  shows "\<exists>os hs vs. remove_our_modes line halfops c w = Some (clear_members (status_bits halfops) (ch_members ch) w, os @ hs @ vs) \<and>
    short_lines line CHR ''o'' (holders CHFL_CHANOP (ch_members ch) w) os \<and>
    short_lines line CHR ''h'' (if halfops then holders CHFL_HALFOP (ch_members ch) w else []) hs \<and>
    short_lines line CHR ''v'' (holders CHFL_VOICE (ch_members ch) w) vs"
proof -
  let ?ms = "ch_members ch"
  have keep: "chans (clear_members fl ?ms w) c = Some ch" for fl using ch by (simp add: clear_members_def)
  note spec = remove_a_mode_spec[OF keep live_clear[OF live(1)] live(2), where line = line]
  obtain os where os: "remove_a_mode line c CHFL_CHANOP CHR ''o'' w = Some (clear_members CHFL_CHANOP ?ms w, os)"
    "short_lines line CHR ''o'' (holders CHFL_CHANOP ?ms w) os" using remove_a_mode_spec[OF ch live] by blast
  define f1 where "f1 = CHFL_CHANOP OR (if halfops then CHFL_HALFOP else 0)"
  have d: "CHFL_CHANOP AND CHFL_HALFOP = 0" "f1 AND CHFL_VOICE = 0" by (simp_all add: f1_def CHFL_CHANOP_def CHFL_HALFOP_def CHFL_VOICE_def)
  obtain hs where hs: "(if halfops then remove_a_mode line c CHFL_HALFOP CHR ''h'' (clear_members CHFL_CHANOP ?ms w) else Some (clear_members CHFL_CHANOP ?ms w, []))
      = Some (clear_members f1 ?ms w, hs)" "short_lines line CHR ''h'' (if halfops then holders CHFL_HALFOP ?ms w else []) hs"
  proof (cases halfops)
    case True
    then show ?thesis using spec[of CHFL_HALFOP "CHR ''h''" CHFL_CHANOP] that
      by (auto simp: f1_def clear_comp holders_other[OF d(1)])
  next
    case False
    then show ?thesis using that[of "[]"] by (simp add: f1_def short_lines_def)
  qed
  have f1: "f1 OR CHFL_VOICE = status_bits halfops" by (simp add: f1_def status_bits_def or.assoc)
  obtain vs where "remove_a_mode line c CHFL_VOICE CHR ''v'' (clear_members f1 ?ms w) = Some (clear_members (status_bits halfops) ?ms w, vs)"
    "short_lines line CHR ''v'' (holders CHFL_VOICE ?ms w) vs"
    using spec[of CHFL_VOICE "CHR ''v''" f1] by (auto simp: clear_comp holders_other[OF d(2)] f1)
  then show ?thesis
    using os hs unfolding remove_our_modes_def by (intro exI[of _ os] exI[of _ hs] exI[of _ vs]) simp
qed


lemma members_live: "chan_inv w \<Longrightarrow> chans w c = Some ch \<Longrightarrow> live_members (ch_members ch) w \<and> distinct (ch_members ch)"
proof -
  assume inv: "chan_inv w" and ch: "chans w c = Some ch"
  then have mi: "member_inv w" by (simp add: chan_inv_def)
  have "mems w c = ch_members ch" by (simp add: mems_def ch)
  then have d: "distinct (ch_members ch)" "set (ch_members ch) = on_chan w c" using mi unfolding member_inv_def by metis+
  then show ?thesis using mship_alive(4)[OF mi] by (fastforce simp: live_members_def on_chan_def)
qed

subsection \<open>Properties\<close>

definition example_mode :: chan_mode where
  "example_mode = \<lparr>cm_mode = MODE_SECRET OR MODE_NOPRIVMSGS, cm_limit = 20, cm_key = ''new''\<rparr>"

definition example_old :: chan_mode where
  "example_old = \<lparr>cm_mode = MODE_NOPRIVMSGS OR MODE_TOPICLIMIT, cm_limit = 0, cm_key = ''old''\<rparr>"

lemma example_modes:
  "plain_key (cm_key example_mode)" "plain_key (cm_key example_old)"
  "cm_mode example_mode AND NOT SIMPLE_MODES = cm_mode example_old AND NOT SIMPLE_MODES"
  by (simp_all add: example_mode_def example_old_def plain_key_def SIMPLE_MODES_def sjoin_flags_def MODE_SECRET_def
      MODE_NOPRIVMSGS_def MODE_TOPICLIMIT_def MODE_MODERATED_def MODE_INVITEONLY_def MODE_PRIVATE_def)

text \<open>C18. The MODE line that \<open>set_final_mode\<close> writes, in \<^verbatim>\<open>m_sjoin.c\<close> as in \<^verbatim>\<open>m_join.c\<close>, read letter by
  letter with its parameters, turns the channel's old modes into the new ones, whatever modes,
  limits and keys are set, changed or taken away; the stale contents of \<open>parabuf\<close> do no harm.\<close>

theorem final_mode_line:
  assumes "plain_key (cm_key m)" "plain_key (cm_key old)" "cm_mode m AND NOT SIMPLE_MODES = cm_mode old AND NOT SIMPLE_MODES"
  shows "(case set_final_mode m old of (mb, pb) \<Rightarrow> read_modes mb pb old = m) \<and>
    (case set_final_mode_join para m old of (mb, pb) \<Rightarrow> read_modes mb pb old = m)"
  by (intro conjI read_final_mode[OF assms] read_final_mode_join[OF assms])

lemma final_mode_line_witness:
  "case set_final_mode_join ''stale '' example_mode example_old of (mb, pb) \<Rightarrow> read_modes mb pb example_old = example_mode"
  by (rule final_mode_line[OF example_modes, of "''stale ''", THEN conjunct2])

definition example_channel :: channel where
  "example_channel = \<lparr>mode = MODE_SECRET OR MODE_NOPRIVMSGS, limit = 20, key = ''key'', topic = None, topic_info = [], topic_time = 0,
     ch_members = [], locmembers = [], invites = [], banlist = [], exceptlist = [], invexlist = [], last_join_time = 0, channelts = 1000\<rparr>"

text \<open>C19. The modes that a server puts in its SJOIN (\<open>channel_modes\<close>) are read by \<open>ms_sjoin\<close> of the
  other server as exactly the modes, limit and key of the channel, and the parameter it takes for
  the list of nicks is that list.\<close>

theorem sjoin_reads_channel_modes:
  assumes "sendable ch"
  shows "\<exists>n. sjoin_modes (sjoin_params srv name nicks ch ! 3) (sjoin_params srv name nicks ch) 0
      \<lparr>cm_mode = 0, cm_limit = 0, cm_key = []\<rparr> = Some (get_mode ch, n) \<and> sjoin_params srv name nicks ch ! (n + 4) = nicks"
  using read_channel_modes[OF assms, of srv name nicks] by blast

lemma sjoin_reads_channel_modes_witness:
  "\<exists>n. sjoin_modes ''+nslk'' [''a.b'', put_lu 1000, ''#c'', ''+nslk'', put_d 20, ''key'', ''@x y''] 0
      \<lparr>cm_mode = 0, cm_limit = 0, cm_key = []\<rparr> = Some (get_mode example_channel, n)"
proof -
  have ok: "sendable example_channel"
    by (simp add: sendable_def example_channel_def plain_key_def KEYLEN_def SIMPLE_MODES_def sjoin_flags_def MODE_SECRET_def
        MODE_NOPRIVMSGS_def MODE_TOPICLIMIT_def MODE_MODERATED_def MODE_INVITEONLY_def MODE_PRIVATE_def)
  have m: "channel_modes True example_channel = (''+nslk'', put_d 20 @ '' key '')"
    by (simp add: channel_modes_def example_channel_def mode_flags_def MODE_SECRET_def
        MODE_NOPRIVMSGS_def MODE_TOPICLIMIT_def MODE_MODERATED_def MODE_INVITEONLY_def MODE_PRIVATE_def)
  have "words (put_d 20 @ '' key '') = [put_d 20, ''key'']"
    using tokens_word[OF put_d_word, of 20 "''key ''"] tokens_word[of "''key''" "[]"] by simp
  then have "sjoin_params ''a.b'' ''#c'' ''@x y'' example_channel =
      [''a.b'', put_lu 1000, ''#c'', ''+nslk'', put_d 20, ''key'', ''@x y'']"
    by (simp add: sjoin_params_def m) (simp add: example_channel_def)
  then show ?thesis using sjoin_reads_channel_modes[OF ok, of "''a.b''" "''#c''" "''@x y''"] by auto
qed

text \<open>C20. The side that loses the time stamp takes operator, half-operator and voice from every
  member of the channel, changes nothing else, and tells its members every loss in MODE lines of
  at most four nicks, in the order of the member list.\<close>

theorem losing_side_clears_status:
  assumes "chan_inv w" "chans w c = Some ch"
  shows "\<exists>os hs vs. remove_our_modes line halfops c w = Some (clear_members (status_bits halfops) (ch_members ch) w, os @ hs @ vs) \<and>
    short_lines line CHR ''o'' (holders CHFL_CHANOP (ch_members ch) w) os \<and>
    short_lines line CHR ''h'' (if halfops then holders CHFL_HALFOP (ch_members ch) w else []) hs \<and>
    short_lines line CHR ''v'' (holders CHFL_VOICE (ch_members ch) w) vs \<and>
    chan_inv (clear_members (status_bits halfops) (ch_members ch) w)"
  using remove_our_modes_spec[OF assms(2), of line halfops] members_live[OF assms]
    frame_inv[OF clear_frame, of "status_bits halfops" "ch_members ch" w] assms(1) by simp

lemma losing_side_clears_status_witness:
  "\<exists>w ls. mems w 1 = [9] \<and>
    remove_our_modes mode_line_sjoin False 1 w = Some (clear_members (status_bits False) [9] w, ls)"
proof -
  obtain w where w: "chan_reach True 3 w" "dom (chans w) = {1}" "mems w 1 = [9]" using example_reachable by blast
  have inv: "chan_inv w" by (rule chan_reach_inv[OF w(1)]) simp
  obtain ch where ch: "chans w 1 = Some ch" using w(2) by (metis domD insertI1)
  then have "ch_members ch = [9]" using w(3) by (simp add: mems_def)
  then show ?thesis using losing_side_clears_status[OF inv ch, of mode_line_sjoin False] w(3) by auto
qed

end
