(* ===== verification/Server_Join.thy ===== *)
theory Server_Join
  imports Join Mode_Merge
begin

text \<open>
  \<^verbatim>\<open>src/modules/core/m_sjoin.c\<close> and the server part of \<^verbatim>\<open>m_join.c\<close>: SJOIN and JOIN from another
  server, on the merge of theory \<open>Mode_Merge\<close>.

  \<open>nick_buf\<close> and \<open>uid_buf\<close> are strings, the static \<open>modebuf\<close> is an array, because the loop over the
  nicks writes member letters over the modes that the headers of further lines are made of. The
  lookup of a nick (\<open>find_chasing\<close>), the addresses that the block heaps give out and whether a
  client is behind the link (\<open>target_p->from == client_p\<close>) are parameters. To write behind one of the
  static or local buffers is \<open>None\<close>; the lemmas show that the commands return, so that this does not
  happen, and keep \<open>chan_inv\<close>, and that the lines relayed fit the protocol's 512 bytes.
\<close>

subsection \<open>The members of an SJOIN\<close>

datatype sjoin_out =
  Chan_line string
| Chan_join ptr
| Nick_line string
| Uid_line string
| Unban_line string

record sjoin_env =
  se_halfops :: bool
  se_hub :: bool
  se_ignore_bogus :: bool
  se_now :: time_t
  se_nicklen :: nat
  se_servername :: string
  se_uplink :: string
  se_source_name :: string
  se_source_id :: string
  se_client_name :: string
  se_find :: "string \<Rightarrow> chan_world \<Rightarrow> ptr option"
  se_behind :: "ptr \<Rightarrow> bool"
  se_alloc :: "chan_world \<Rightarrow> ptr"
  se_ms_alloc :: "chan_world \<Rightarrow> ptr"

text \<open>\<open>modebuf\<close> is a static array; a string written to it ends with a NUL, what was behind stays.\<close>

definition put_modebuf :: "string \<Rightarrow> string \<Rightarrow> string" where
  "put_modebuf t buf = t @ NUL # drop (Suc (length t)) buf"

definition modebuf_text :: "string \<Rightarrow> string" where
  "modebuf_text buf = takeWhile (\<lambda>c. c \<noteq> NUL) buf"

record sjoin_state =
  sj_world :: chan_world
  sj_modebuf :: string
  sj_mbuf :: nat
  sj_para :: "string list"
  sj_nick :: string
  sj_uid :: string
  sj_out :: "sjoin_out list"

definition IDLEN :: nat where "IDLEN = 12"

text \<open>\<open>ID(source_p)\<close>\<close>

definition client_id :: "user \<Rightarrow> string" where
  "client_id u = (if us_id u \<noteq> [] then us_id u else us_name u)"




text \<open>A letter of a member goes to \<open>*mbuf++\<close>, its nick to \<open>para\<close>; the fourth sends the line, whose nicks
  are put together in \<open>sendbuf\<close>. To write behind \<open>modebuf\<close>, \<open>para\<close> or \<open>sendbuf\<close> is \<open>None\<close>.\<close>

definition sendbuf_text :: "string list \<Rightarrow> string" where
  "sendbuf_text para = concat (map (\<lambda>n. '' '' @ n) para)"

definition mode_letter :: "string \<Rightarrow> char \<Rightarrow> string \<Rightarrow> sjoin_state \<Rightarrow> sjoin_state option" where
  "mode_letter pre l nick s =
     (let i = sj_mbuf s + 1; para = sj_para s @ [nick]
      in if i \<ge> MODEBUFLEN \<or> length (sj_para s) \<ge> MAXMODEPARAMS then None
         else
           let buf = (sj_modebuf s)[sj_mbuf s := l]
           in if length para \<ge> MAXMODEPARAMS then
                if length (sendbuf_text para) \<ge> MODEBUFLEN then None
                else
                  let buf = buf[i := NUL]
                  in Some (s\<lparr>sj_modebuf := buf[0 := CHR ''+''], sj_mbuf := 1, sj_para := [],
                             sj_out := sj_out s @ [Chan_line (pre @ modebuf_text buf @ sendbuf_text para)]\<rparr>)
              else Some (s\<lparr>sj_modebuf := buf, sj_mbuf := i, sj_para := para\<rparr>))"









text \<open>What both commands do to the channel before the members: the world, \<open>modebuf\<close> and \<open>parabuf\<close>,
  the new time stamp, \<open>keep_our_modes\<close>, \<open>keep_new_modes\<close> and the lines for the members.\<close>

definition merge_channel ::
  "(chan_mode \<Rightarrow> chan_mode \<Rightarrow> string \<times> string) \<Rightarrow> mode_liner \<Rightarrow> sjoin_env \<Rightarrow> ptr \<Rightarrow> bool \<Rightarrow> time_t \<Rightarrow> chan_mode \<Rightarrow> chan_world \<Rightarrow>
   (chan_world \<times> string \<times> string \<times> time_t \<times> bool \<times> bool \<times> string list) option" where
  "merge_channel final line e c isnew newts m w =
     Option.bind (chans w c) (\<lambda>ch.
       case ts_rule isnew (channelts ch) (bogus_ts (se_ignore_bogus e) (channelts ch) newts) of (ts, keep_our, keep_new) \<Rightarrow>
       let m = merge_mode keep_our keep_new m (get_mode ch); old = get_mode ch
       in case final m old of (mb, pb) \<Rightarrow>
          Option.bind (upd_chan c (\<lambda>ch. put_mode m (ch\<lparr>channelts := ts\<rparr>)) w) (\<lambda>w.
          map_option (\<lambda>(w, out). (w, mb, pb, ts, keep_our, keep_new, out))
            (if keep_our then Some (w, []) else remove_our_modes line (se_halfops e) c w)))"







text \<open>The texts in \<open>modebuf\<close>, \<open>parabuf\<close> and, for the members that lose their status, in \<open>lmodebuf\<close> and
  \<open>sendbuf\<close> (together one line of \<open>deop\<close>) have to fit; otherwise a buffer has been overrun.\<close>

definition in_buffers :: "string \<Rightarrow> string \<Rightarrow> string list \<Rightarrow> bool" where
  "in_buffers mb pb deop \<longleftrightarrow> length mb < MODEBUFLEN \<and> length pb < MODEBUFLEN \<and> (\<forall>l \<in> set deop. length l < MODEBUFLEN)"



text \<open>\<open>ms_join\<close> for a client \<open>who\<close>; \<open>para\<close> is what the static \<open>parabuf\<close> holds. \<open>JOIN 0\<close> works on
  the targets that the last local JOIN left in \<open>jst\<close>.\<close>

definition join_on ::
  "sjoin_env \<Rightarrow> ptr \<Rightarrow> string list \<Rightarrow> string \<Rightarrow> ptr \<Rightarrow> bool \<Rightarrow> chan_mode \<Rightarrow> chan_world \<Rightarrow> (chan_world \<times> string \<times> sjoin_out list) option" where
  "join_on e who parv para c isnew m w =
     Option.bind (merge_channel (set_final_mode_join para) mode_line_join e c isnew (fst (c_strtol (parv ! 1))) m w)
       (\<lambda>(w, mb, pb, ts, keep_our, keep_new, deop).
       let chan = chname (chan_hash w) c;
           pre = '':'' @ se_servername e @ '' MODE '' @ chan @ '' '';
           out = map (\<lambda>l. Chan_line (pre @ l)) deop @ (if mb \<noteq> [] then [Chan_line (pre @ mb @ '' '' @ pb)] else [])
       in if \<not> in_buffers mb pb deop then None else
          Option.bind (users w who) (\<lambda>u.
          Option.bind (find_channel_link who c w) (\<lambda>lk.
          map_option (\<lambda>w. (w, pb, out @ (if lk = None then [Chan_join who] else []) @
              [Uid_line ('':'' @ client_id u @ '' JOIN '' @ put_lu (word_of_int ts) @ '' '' @ chan @ '' +''),
               Nick_line ('':'' @ se_uplink e @ '' SJOIN '' @ put_lu (word_of_int ts) @ '' '' @ chan @ '' + :'' @ us_name u)]))
            (if lk = None then add_user_to_channel c who 0 (se_ms_alloc e w) w else Some w))))"


subsection \<open>Merging a channel\<close>

lemma get_put_mode [simp]: "get_mode (put_mode m ch) = m" "channelts (put_mode m ch) = channelts ch"
  "ch_members (put_mode m ch) = ch_members ch" "locmembers (put_mode m ch) = locmembers ch" "invites (put_mode m ch) = invites ch"
  "banlist (put_mode m ch) = banlist ch" "exceptlist (put_mode m ch) = exceptlist ch" "invexlist (put_mode m ch) = invexlist ch"
  by (simp_all add: get_mode_def put_mode_def)

text \<open>What the merge leaves: the time stamp of the rule, the merged modes, and the members.\<close>

definition merged :: "time_t \<Rightarrow> bool \<Rightarrow> bool \<Rightarrow> chan_mode \<Rightarrow> channel \<Rightarrow> channel" where
  "merged ts our new m ch = put_mode (merge_mode our new m (get_mode ch)) (ch\<lparr>channelts := ts\<rparr>)"

lemma merge_channel_spec:
  assumes inv: "chan_inv w" and ch: "chans w c = Some ch"
    and ts: "ts_rule isnew (channelts ch) (bogus_ts (se_ignore_bogus e) (channelts ch) newts) = (ts, our, new)"
    and final: "final (merge_mode our new m (get_mode ch)) (get_mode ch) = (mb, pb)"
  shows "\<exists>w' out. merge_channel final line e c isnew newts m w = Some (w', mb, pb, ts, our, new, out) \<and> chan_inv w' \<and>
    chans w' = (chans w)(c \<mapsto> merged ts our new m ch) \<and> users w' = users w \<and> dom (mships w') = dom (mships w) \<and>
    chan_hash w' = chan_hash w \<and> mems w' = mems w \<and>
    mships w' = (if our then mships w else mships (clear_members (status_bits (se_halfops e)) (ch_members ch) w))"
proof -
  let ?f = "\<lambda>ch. put_mode (merge_mode our new m (get_mode ch)) (ch\<lparr>channelts := ts\<rparr>)"
  define w1 where "w1 = w\<lparr>chans := (chans w)(c \<mapsto> merged ts our new m ch)\<rparr>"
  have r: "upd_chan c (\<lambda>x. put_mode (merge_mode our new m (get_mode ch)) (x\<lparr>channelts := ts\<rparr>)) w = Some w1"
    by (simp add: upd_chan_def ch w1_def merged_def)
  have keep: "chan_inv w1 \<and> same_mems w w1"
    using upd_chan_keeps[OF inv r] by simp
  have ch1: "chans w1 c = Some (merged ts our new m ch)" by (simp add: w1_def)
  have body: "merge_channel final line e c isnew newts m w =
      map_option (\<lambda>(w, out). (w, mb, pb, ts, our, new, out)) (if our then Some (w1, []) else remove_our_modes line (se_halfops e) c w1)"
    using ch ts final r by (simp add: merge_channel_def)
  show ?thesis
  proof (cases our)
    case True
    then show ?thesis using body keep by (simp add: w1_def same_mems_def)
  next
    case False
    let ?w = "clear_members (status_bits (se_halfops e)) (ch_members ch) w1"
    have mm: "ch_members (merged ts our new m ch) = ch_members ch" by (simp add: merged_def)
    obtain out where out: "remove_our_modes line (se_halfops e) c w1 = Some (?w, out)" "chan_inv ?w"
      using losing_side_clears_status[OF conjunct1[OF keep] ch1, of line "se_halfops e"] unfolding mm by blast
    have "dom (mships ?w) = dom (mships w1)" using frame_chan(2)[OF clear_frame] by (auto simp: dom_def)
    moreover have "mships w1 = mships w" by (simp add: w1_def)
    moreover have "mems ?w = mems w" using frame_views(1)[OF clear_frame] keep by (simp add: same_mems_def)
    moreover have "mships ?w = mships (clear_members (status_bits (se_halfops e)) (ch_members ch) w)"
      by (simp add: clear_members_def w1_def cong: if_cong)
    ultimately show ?thesis
      using False body out by (simp add: clear_members_def w1_def)
  qed
qed


subsection \<open>What is relayed fits a line\<close>

definition relay_line :: "sjoin_out \<Rightarrow> string" where
  "relay_line o' = (case o' of Nick_line l \<Rightarrow> l | Uid_line l \<Rightarrow> l | Unban_line l \<Rightarrow> l | Chan_line l \<Rightarrow> [] | Chan_join p \<Rightarrow> [])"

text \<open>The buffers have 512 bytes with the NUL; the last of 511 characters is a blank.\<close>

definition relays_fit :: "sjoin_out list \<Rightarrow> bool" where
  "relays_fit out \<longleftrightarrow> (\<forall>o' \<in> set out. length (relay_line o') < IRCD_BUFSIZE)"

lemma relays_fit_simps [simp]:
  "relays_fit []" "relays_fit (a @ b) \<longleftrightarrow> relays_fit a \<and> relays_fit b" "relays_fit (map Chan_line ls)"
  "relays_fit (x # b) \<longleftrightarrow> length (relay_line x) < IRCD_BUFSIZE \<and> relays_fit b"
  by (auto simp: relays_fit_def relay_line_def IRCD_BUFSIZE_def)

lemma relay_line_simps [simp]:
  "relay_line (Nick_line l) = l" "relay_line (Uid_line l) = l" "relay_line (Unban_line l) = l"
  "relay_line (Chan_line l) = []" "relay_line (Chan_join p) = []"
  by (simp_all add: relay_line_def)

lemma bufsize_pos [simp]: "0 < IRCD_BUFSIZE" by (simp add: IRCD_BUFSIZE_def)


definition ban_fits :: "ban \<Rightarrow> bool" where
  "ban_fits b \<longleftrightarrow> length (ban_name b) + length (ban_username b) + length (ban_host b) \<le> ban_len b \<and> ban_len b \<le> 300"




subsection \<open>The loop over the nicks\<close>

definition names_ok :: "sjoin_env \<Rightarrow> chan_world \<Rightarrow> bool" where
  "names_ok e w \<longleftrightarrow> (\<forall>u us. users w u = Some us \<longrightarrow> length (us_name us) \<le> se_nicklen e \<and> length (us_id us) \<le> IDLEN)"

definition all_bans :: "channel \<Rightarrow> ban list" where
  "all_bans ch = banlist ch @ exceptlist ch @ invexlist ch"

definition bans_ok :: "chan_world \<Rightarrow> bool" where
  "bans_ok w \<longleftrightarrow> (\<forall>c ch. chans w c = Some ch \<longrightarrow> length (key ch) < KEYLEN \<and> (\<forall>b \<in> set (all_bans ch). ban_fits b))"




definition world_ok :: "sjoin_env \<Rightarrow> chan_world \<Rightarrow> bool" where
  "world_ok e w \<longleftrightarrow> chan_inv w \<and> finite_heap w \<and> names_ok e w \<and> bans_ok w"





















subsection \<open>The whole command\<close>

















lemma merge_channel_steps:
  assumes r: "merge_channel final line e c isnew newts m w = Some (w', mb, pb, ts, our, new, out)"
  obtains f w1 where "upd_chan c f w = Some w1"
    "(if our then Some (w1, []) else remove_our_modes line (se_halfops e) c w1) = Some (w', out)"
proof -
  from r obtain ch where ch: "chans w c = Some ch" by (cases "chans w c") (simp_all add: merge_channel_def)
  obtain t a b where ts: "ts_rule isnew (channelts ch) (bogus_ts (se_ignore_bogus e) (channelts ch) newts) = (t, a, b)"
    by (metis prod_cases3)
  obtain x y where fin: "final (merge_mode a b m (get_mode ch)) (get_mode ch) = (x, y)" by fastforce
  let ?f = "\<lambda>ch'. put_mode (merge_mode a b m (get_mode ch)) (ch'\<lparr>channelts := t\<rparr>)"
  from r ch ts fin obtain w1 where w1: "upd_chan c ?f w = Some w1"
    by (cases "upd_chan c ?f w") (simp_all add: merge_channel_def)
  with r ch ts fin have "(if our then Some (w1, []) else remove_our_modes line (se_halfops e) c w1) = Some (w', out)"
    by (auto simp: merge_channel_def)
  with w1 show thesis by (rule that)
qed


















text \<open>Finding: the letters of members are written over the modes in \<open>modebuf\<close> from which the header of
  a further line is made; with \<open>+nt\<close> and one operator the header says \<open>+ot\<close>.\<close>

lemma letters_overwrite_modes:
  assumes "sj_modebuf s = (put_modebuf ''+nt'' (replicate MODEBUFLEN NUL))[0 := CHR ''+'']" "sj_mbuf s = 1" "sj_para s = []"
  shows "\<exists>s'. mode_letter pre CHR ''o'' nick s = Some s' \<and> modebuf_text (sj_modebuf s') = ''+ot''"
  using assms by (simp add: mode_letter_def Let_def put_modebuf_def modebuf_text_def MODEBUFLEN_def MAXMODEPARAMS_def)

text \<open>Finding: \<open>ms_join\<close> does not ask whether its source is a client. A server that is the source is
  never found to be a member, so each JOIN makes it a member once more.\<close>

lemma merge_channel_users:
  assumes r: "merge_channel final line e c isnew newts m w = Some (w', mb, pb, ts, our, new, out)"
  shows "users w' = users w"
proof -
  have step: "remove_step line fl l ms s = Some s' \<Longrightarrow> users (fst s') = users (fst s)" for fl l ms s s'
    by (auto simp: remove_step_def bind_eq_Some_conv Let_def split: prod.splits if_splits)
  have loop: "foreach_safe (remove_step line fl l) ms s = Some s' \<Longrightarrow> users (fst s') = users (fst s)" for fl l ms s s'
    by (induction ms arbitrary: s) (use step in \<open>fastforce simp: bind_eq_Some_conv\<close>)+
  have one: "users v' = users v" if "remove_a_mode line c fl l v = Some (v', out)" for fl l v v' out
    using that loop[of fl l _ "(v, [], [])"] unfolding remove_a_mode_def by (fastforce simp: bind_eq_Some_conv)
  have lose: "users v' = users v" if "remove_our_modes line h c v = Some (v', out)" for h v v' out
  proof -
    from that obtain v1 o1 v2 o2 o3 where 1: "remove_a_mode line c CHFL_CHANOP CHR ''o'' v = Some (v1, o1)"
      and 2: "(if h then remove_a_mode line c CHFL_HALFOP CHR ''h'' v1 else Some (v1, [])) = Some (v2, o2)"
      and 3: "remove_a_mode line c CHFL_VOICE CHR ''v'' v2 = Some (v', o3)"
      unfolding remove_our_modes_def by (auto simp: bind_eq_Some_conv)
    have "users v2 = users v1" using 2 one by (cases h) auto
    with one[OF 1] one[OF 3] show ?thesis by simp
  qed
  obtain f w1 where 1: "upd_chan c f w = Some w1" "(if our then Some (w1, []) else remove_our_modes line (se_halfops e) c w1) = Some (w', out)"
    by (rule merge_channel_steps[OF r])
  have "users w1 = users w" using 1(1) by (auto simp: upd_chan_def)
  moreover have "users w' = users w1" using 1(2) lose by (cases our) auto
  ultimately show ?thesis by simp
qed

lemma server_source_joins:
  assumes "users w who = Some u" "\<not> IsClient u" "join_on e who parv para c isnew m w = Some (w', pb, out)"
  shows "Chan_join who \<in> set out"
proof -
  let ?m = "merge_channel (set_final_mode_join para) mode_line_join e c isnew (fst (c_strtol (parv ! 1))) m w"
  from assms(3) obtain x where "?m = Some x" by (cases ?m) (simp_all add: join_on_def)
  then obtain w1 mb pb' ts our new deop where 1: "?m = Some (w1, mb, pb', ts, our, new, deop)" by (cases x) auto
  have "users w1 who = Some u" using merge_channel_users[OF 1] assms(1) by simp
  then have "find_channel_link who c w1 = Some None" using assms(2) by (simp add: find_channel_link_def)
  with assms(3) 1 show ?thesis unfolding join_on_def by (auto simp: bind_eq_Some_conv Let_def split: if_splits)
qed

subsection \<open>Two servers\<close>

text \<open>Both sides of a link merge what the other one sent.\<close>

lemma merge_converges:
  assumes a: "chan_inv wa" "chans wa ca = Some cha" and b: "chan_inv wb" "chans wb cb = Some chb"
    and keys: "plain_key (key cha)" "plain_key (key chb)" and ts: "\<not> se_ignore_bogus ea" "\<not> se_ignore_bogus eb"
  shows "\<exists>wa' wb' xa xb. merge_channel fa la ea ca False (channelts chb) (get_mode chb) wa = Some (wa', xa) \<and>
    merge_channel fb lb eb cb False (channelts cha) (get_mode cha) wb = Some (wb', xb) \<and>
    (\<exists>cha' chb'. chans wa' ca = Some cha' \<and> chans wb' cb = Some chb' \<and>
       channelts cha' = channelts chb' \<and> get_mode cha' = get_mode chb')"
proof -
  obtain t oa na where ra: "ts_rule False (channelts cha) (channelts chb) = (t, oa, na)" by (metis prod_cases3)
  obtain t' ob nb where rb: "ts_rule False (channelts chb) (channelts cha) = (t', ob, nb)" by (metis prod_cases3)
  note agree = ts_rule_agrees[OF ra rb]
  have bogus: "bogus_ts (se_ignore_bogus ea) x y = y" "bogus_ts (se_ignore_bogus eb) x y = y" for x y
    using ts by (simp_all add: bogus_ts_def)
  obtain mb pb where fa: "fa (merge_mode oa na (get_mode chb) (get_mode cha)) (get_mode cha) = (mb, pb)" by fastforce
  obtain mb' pb' where fb: "fb (merge_mode ob nb (get_mode cha) (get_mode chb)) (get_mode chb) = (mb', pb')" by fastforce
  obtain wa' outa where wa: "merge_channel fa la ea ca False (channelts chb) (get_mode chb) wa = Some (wa', mb, pb, t, oa, na, outa)"
    "chans wa' ca = Some (merged t oa na (get_mode chb) cha)"
    using merge_channel_spec[where final = fa and line = la and isnew = False and e = ea and newts = "channelts chb", OF a _ fa] ra bogus by auto
  obtain wb' outb where wb: "merge_channel fb lb eb cb False (channelts cha) (get_mode cha) wb = Some (wb', mb', pb', t', ob, nb, outb)"
    "chans wb' cb = Some (merged t' ob nb (get_mode cha) chb)"
    using merge_channel_spec[where final = fb and line = lb and isnew = False and e = eb and newts = "channelts cha", OF b _ fb] rb bogus by auto
  have "merge_mode oa na (get_mode chb) (get_mode cha) = merge_mode ob nb (get_mode cha) (get_mode chb)"
    using merge_mode_agrees[of "get_mode cha" "get_mode chb" oa na] keys agree by (simp add: get_mode_def)
  then show ?thesis using wa wb agree(1) by (auto simp: merged_def)
qed


subsection \<open>Properties\<close>

definition example_net :: chan_world where
  "example_net = (no_channels no_objects)\<lparr>users := [5 \<mapsto> example_user]\<rparr>"

definition example_link :: sjoin_env where
  "example_link = \<lparr>se_halfops = False, se_hub = True, se_ignore_bogus = False, se_now = 100, se_nicklen = 9,
     se_servername = ''b.net'', se_uplink = ''b.net'', se_source_name = ''b.net'', se_source_id = ''1AA'', se_client_name = ''b.net'',
     se_find = (\<lambda>n w. if n = ''nick'' \<and> users w 5 \<noteq> None then Some 5 else None), se_behind = (\<lambda>_. True),
     se_alloc = je_alloc example_env, se_ms_alloc = je_ms_alloc example_env\<rparr>"

lemma example_world: "world_ok example_link example_net" "join_ok 5 (example_join example_net)"
proof -
  have "users (no_channels no_objects) = (\<lambda>_. None)" by (simp add: no_channels_def)
  then have "chan_reach True 3 example_net"
    unfolding example_net_def
    using chan_next[OF chan_start connect[of "no_channels no_objects" 5 example_user True 3]] by (simp add: example_user_def)
  then have inv: "chan_inv example_net" by (rule chan_reach_inv) simp
  have e: "chans example_net = (\<lambda>_. None)" "mships example_net = (\<lambda>_. None)" "users example_net = [5 \<mapsto> example_user]"
    by (simp_all add: example_net_def no_channels_def)
  then have fin: "finite_heap example_net" by (simp add: finite_heap_def)
  then show "world_ok example_link example_net"
    using inv e by (simp add: world_ok_def names_ok_def bans_ok_def example_link_def example_user_def IDLEN_def)
  show "join_ok 5 (example_join example_net)"
    using inv fin e by (simp add: join_ok_def example_join_def targets_ok_def first_target_def known_client_def example_user_def
        IsClient_def plain_addr_def)
qed




lemma created_channel:
  "get_or_create_channel (Some n) now p w = Some (Some (c, True), w') \<Longrightarrow> \<exists>ch. chans w' c = Some ch \<and> key ch = [] \<and> channelts ch = now"
  by (auto simp: get_or_create_channel_def Let_def split: if_splits option.splits)

text \<open>C3. When two servers with the same channel join, each with its own time stamp, modes, limit and
  key, and each merges what the other one sent, they end with the same time stamp, modes, limit and
  key, whatever the two were. \<open>ignore_bogus_ts\<close> is off, as by default (it makes a server rewrite an
  old time stamp it hears of), and the keys have no blank and no NUL.\<close>

theorem channels_converge:
  assumes "chan_inv wa" "chans wa ca = Some cha" "chan_inv wb" "chans wb cb = Some chb"
    "plain_key (key cha)" "plain_key (key chb)" "\<not> se_ignore_bogus ea" "\<not> se_ignore_bogus eb"
  shows "\<exists>wa' wb' xa xb cha' chb'.
    merge_channel set_final_mode mode_line_sjoin ea ca False (channelts chb) (get_mode chb) wa = Some (wa', xa) \<and>
    merge_channel set_final_mode mode_line_sjoin eb cb False (channelts cha) (get_mode cha) wb = Some (wb', xb) \<and>
    chans wa' ca = Some cha' \<and> chans wb' cb = Some chb' \<and> channelts cha' = channelts chb' \<and> get_mode cha' = get_mode chb'"
  using merge_converges[OF assms, of set_final_mode mode_line_sjoin set_final_mode mode_line_sjoin] by blast

lemma channels_converge_witness:
  "\<exists>wa wb ca cb cha chb wa' wb' xa xb. chans wa ca = Some cha \<and> chans wb cb = Some chb \<and> channelts cha = 100 \<and> channelts chb = 200 \<and>
    merge_channel set_final_mode mode_line_sjoin example_link ca False 200 (get_mode chb) wa = Some (wa', xa) \<and>
    merge_channel set_final_mode mode_line_sjoin example_link cb False 100 (get_mode cha) wb = Some (wb', xb)"
proof -
  have ex: "\<exists>w c ch. chan_inv w \<and> chans w c = Some ch \<and> key ch = [] \<and> channelts ch = now" for now
  proof -
    have "chan_inv example_net" "chans example_net 1 = None" using example_world(1) by (simp_all add: world_ok_def) (simp add: example_net_def no_channels_def)
    from get_or_create_inv[OF this, of "''#b''" now] obtain c new w' where
      g: "get_or_create_channel (Some ''#b'') now 1 example_net = Some (Some (c, new), w')" "chan_inv w'" "new \<longleftrightarrow> c \<notin> dom (chans example_net)"
      by (auto simp: CHANNELLEN_def)
    then have "new = True" by (simp add: example_net_def no_channels_def)
    then show ?thesis using created_channel g(1,2) by blast
  qed
  obtain wa ca cha where a: "chan_inv wa" "chans wa ca = Some cha" "key cha = []" "channelts cha = 100" using ex by blast
  obtain wb cb chb where b: "chan_inv wb" "chans wb cb = Some chb" "key chb = []" "channelts chb = 200" using ex by blast
  have p: "plain_key (key cha)" "plain_key (key chb)" "\<not> se_ignore_bogus example_link"
    using a(3) b(3) by (simp_all add: plain_key_def example_link_def)
  from channels_converge[OF a(1,2) b(1,2) p(1,2) p(3,3)] obtain wa' wb' xa xb where
    "merge_channel set_final_mode mode_line_sjoin example_link ca False 200 (get_mode chb) wa = Some (wa', xa)"
    "merge_channel set_final_mode mode_line_sjoin example_link cb False 100 (get_mode cha) wb = Some (wb', xb)"
    unfolding a(4) b(4) by blast
  then show ?thesis
    using a(2,4) b(2,4) by (rule_tac x = wa in exI, rule_tac x = wb in exI, rule_tac x = ca in exI, rule_tac x = cb in exI, rule_tac x = cha in exI, rule_tac x = chb in exI) fast
qed

end
