(* ===== verification/Parse.thy ===== *)
theory Parse
  imports Hash
begin

text \<open>
  \<^verbatim>\<open>src/src/parse.c\<close>: the tree of commands, the cutting of a line into prefix, command and
  parameters, and the dispatch to the handlers.

  A \<open>struct MessageTree\<close> is a \<open>message_tree\<close> with the same fields, its array of 32 pointers a
  function; \<open>struct Message\<close> is the record \<open>message\<close> in a heap of messages. \<open>parse\<close> answers with the
  call of a handler or with what it sends; the client table is the parameter of theory \<open>Hash\<close>'s
  searches (\<open>find_person\<close>, \<open>find_server\<close>). The lemmas show that the tree is a map from command names
  up to case that frees every node it no longer needs, that a line is read back into the parameters
  it was made of, and that no line makes a client speak for another.
\<close>

subsection \<open>The command tree\<close>

datatype 'm message_tree =
  MessageTree (links: int) (tree_msg: "'m option") (pointers: "nat \<Rightarrow> 'm message_tree option")

definition MAXPTRLEN :: nat where "MAXPTRLEN = 32"

text \<open>\<open>*cmd & (MAXPTRLEN-1)\<close>\<close>

definition char_index :: "char \<Rightarrow> nat" where
  "char_index c = ord c mod MAXPTRLEN"

definition clear_tree_parse :: "'m message_tree" where
  "clear_tree_parse = MessageTree 0 None (\<lambda>_. None)"

fun add_msg_element :: "'m message_tree \<Rightarrow> 'm \<Rightarrow> string \<Rightarrow> 'm message_tree" where
  "add_msg_element (MessageTree n m p) x [] = MessageTree (n + 1) (Some x) p"
| "add_msg_element (MessageTree n m p) x (c # cs) =
     (case p (char_index c) of
        None \<Rightarrow> MessageTree (n + 1) m (p(char_index c \<mapsto> add_msg_element (MessageTree 0 None (\<lambda>_. None)) x cs))
      | Some t \<Rightarrow> MessageTree n m (p(char_index c \<mapsto> add_msg_element t x cs)))"

text \<open>At the end of a command without a message the code goes on with the pointer for the NUL and
  then reads behind the command (\<open>None\<close>).\<close>

fun del_msg_element :: "'m message_tree \<Rightarrow> string \<Rightarrow> 'm message_tree option" where
  "del_msg_element (MessageTree n m p) [] =
     (if m \<noteq> None then Some (MessageTree (n - 1) None p)
      else if p (char_index NUL) = None then Some (MessageTree n m p) else None)"
| "del_msg_element (MessageTree n m p) (c # cs) =
     (case p (char_index c) of
        None \<Rightarrow> Some (MessageTree n m p)
      | Some t \<Rightarrow> map_option (\<lambda>t.
          if links t = 0 then MessageTree (n - 1) m (p(char_index c := None))
          else MessageTree n m (p(char_index c \<mapsto> t))) (del_msg_element t cs))"

fun msg_tree_parse :: "string \<Rightarrow> 'm message_tree \<Rightarrow> 'm option" where
  "msg_tree_parse [] root = None"
| "msg_tree_parse (c # cs) root =
     (case pointers root (char_index c) of
        None \<Rightarrow> None
      | Some t \<Rightarrow> if \<not> IsAlpha c then None else if cs = [] then tree_msg t else msg_tree_parse cs t)"

record message =
  m_cmd :: string
  m_count :: u32
  m_rcount :: u32
  m_parameters :: u32
  m_maxpara :: u32
  m_flags :: u32
  m_bytes :: u64

record command_table =
  msg_tree :: "ptr message_tree"
  msgs :: "ptr \<Rightarrow> message"

definition find_command :: "string \<Rightarrow> command_table \<Rightarrow> ptr option" where
  "find_command cmd s = msg_tree_parse cmd (msg_tree s)"

definition mod_add_cmd :: "ptr \<Rightarrow> command_table \<Rightarrow> command_table" where
  "mod_add_cmd p s =
     (case msg_tree_parse (m_cmd (msgs s p)) (msg_tree s) of
        Some _ \<Rightarrow> s
      | None \<Rightarrow> s\<lparr>msg_tree := add_msg_element (msg_tree s) p (m_cmd (msgs s p)),
                  msgs := (msgs s)(p := (msgs s p)\<lparr>m_count := 0, m_rcount := 0, m_bytes := 0\<rparr>)\<rparr>)"

definition mod_del_cmd :: "ptr \<Rightarrow> command_table \<Rightarrow> command_table option" where
  "mod_del_cmd p s = map_option (\<lambda>t. s\<lparr>msg_tree := t\<rparr>) (del_msg_element (msg_tree s) (m_cmd (msgs s p)))"

text \<open>The messages \<open>report_messages\<close> sends a line of, in this order.\<close>

primrec recurse_report_messages :: "'m message_tree \<Rightarrow> 'm list" where
  "recurse_report_messages (MessageTree n m p) =
     (case m of None \<Rightarrow> [] | Some x \<Rightarrow> [x]) @
     concat (map (\<lambda>i. case (map_option recurse_report_messages \<circ> p) i of None \<Rightarrow> [] | Some r \<Rightarrow> r) [0..<MAXPTRLEN])"

definition report_messages :: "command_table \<Rightarrow> ptr list" where
  "report_messages s =
     concat (map (\<lambda>i. case pointers (msg_tree s) i of None \<Rightarrow> [] | Some t \<Rightarrow> recurse_report_messages t) [0..<MAXPTRLEN])"

subsection \<open>The tree is a map\<close>

fun tree_map :: "'m message_tree \<Rightarrow> nat list \<Rightarrow> 'm option" where
  "tree_map t [] = tree_msg t"
| "tree_map t (i # is) = (case pointers t i of None \<Rightarrow> None | Some u \<Rightarrow> tree_map u is)"

text \<open>Every node counts its references, and none but the root is without one; \<open>0\<close> is no letter.\<close>

inductive tree_ok :: "'m message_tree \<Rightarrow> bool" where
  "finite (dom p) \<Longrightarrow> n = int (card (dom p)) + (if m = None then 0 else 1) \<Longrightarrow>
   (\<And>i u. p i = Some u \<Longrightarrow> 0 < i \<and> i < MAXPTRLEN \<and> tree_ok u \<and> 0 < links u) \<Longrightarrow> tree_ok (MessageTree n m p)"

inductive_simps tree_ok_node: "tree_ok (MessageTree n m p)"

definition codes :: "string \<Rightarrow> nat list" where
  "codes cs = map char_index cs"

lemma codes_simps [simp]: "codes [] = []" "codes (c # cs) = char_index c # codes cs"
  by (simp_all add: codes_def)

lemma alpha_code: "IsAlpha c \<Longrightarrow> char_index c = (if ord c \<le> (94 :: nat) then ord c - 64 else ord c - 96)"
proof -
  assume a: "IsAlpha c"
  have m: "(64 + k) mod 32 = k" "(96 + k) mod 32 = k" if "k < 32" for k :: nat using that by (simp_all add: le_mod_geq)
  have "ord c = 64 + (ord c - 64) \<and> ord c - 64 < 32 \<or> \<not> ord c \<le> (94 :: nat) \<and> ord c = 96 + (ord c - 96) \<and> ord c - 96 < 32"
    using a unfolding IsAlpha_eq by linarith
  then show ?thesis
    using a m(1)[of "ord c - 64"] m(2)[of "ord c - 96"] unfolding IsAlpha_eq char_index_def MAXPTRLEN_def by auto
qed

lemma alpha_index: "IsAlpha c \<Longrightarrow> 0 < char_index c \<and> char_index c < MAXPTRLEN"
  using alpha_code[of c] by (auto simp: IsAlpha_eq MAXPTRLEN_def)

lemma index_ToLower: "IsAlpha c \<Longrightarrow> IsAlpha d \<Longrightarrow> char_index c = char_index d \<longleftrightarrow> ToLower c = ToLower d"
  using alpha_code[of c] alpha_code[of d] unfolding IsAlpha_eq char_eq_iff_ord ord_ToLower
  by (auto simp del: of_char_eq_iff split: if_splits)

lemma ToLower_alpha: "ToLower c = ToLower d \<Longrightarrow> IsAlpha d \<Longrightarrow> IsAlpha c"
  unfolding IsAlpha_eq char_eq_iff_ord ord_ToLower by (auto split: if_splits)

definition alphas :: "string \<Rightarrow> bool" where
  "alphas cs \<longleftrightarrow> (\<forall>c \<in> set cs. IsAlpha c)"

lemma alphas_simps [simp]: "alphas []" "alphas (c # cs) \<longleftrightarrow> IsAlpha c \<and> alphas cs"
  by (simp_all add: alphas_def)

lemma codes_same: "alphas a \<Longrightarrow> alphas b \<Longrightarrow> codes a = codes b \<longleftrightarrow> same_name a b"
proof (induction a arbitrary: b)
  case Nil
  then show ?case by (cases b) (simp_all add: same_name_iff)
next
  case (Cons c a)
  then show ?case by (cases b) (auto simp: same_name_iff index_ToLower)
qed

lemma same_alphas: "same_name a b \<Longrightarrow> alphas b \<Longrightarrow> alphas a"
proof (induction a arbitrary: b)
  case (Cons c a)
  then show ?case by (cases b) (auto simp: same_name_iff dest: ToLower_alpha)
qed simp

lemma parse_map: "msg_tree_parse cs t = (if cs \<noteq> [] \<and> alphas cs then tree_map t (codes cs) else None)"
  by (induction cs t rule: msg_tree_parse.induct) (auto split: option.split)

lemma tree_map_clear [simp]: "tree_map clear_tree_parse is = None"
  by (cases "is") (simp_all add: clear_tree_parse_def)

lemma add_map: "tree_map (add_msg_element t x cs) = (tree_map t)(codes cs \<mapsto> x)"
proof (induction t x cs rule: add_msg_element.induct)
  case (1 n m p x)
  show ?case
  proof
    fix "is" show "tree_map (add_msg_element (MessageTree n m p) x []) is = ((tree_map (MessageTree n m p))(codes [] \<mapsto> x)) is"
      by (cases "is") simp_all
  qed
next
  case (2 n m p x c cs)
  show ?case
  proof
    fix "is" show "tree_map (add_msg_element (MessageTree n m p) x (c # cs)) is = ((tree_map (MessageTree n m p))(codes (c # cs) \<mapsto> x)) is"
      using 2 by (cases "is") (auto simp: clear_tree_parse_def[symmetric] split: option.split)
  qed
qed

lemma tree_ok_upd:
  assumes ok: "tree_ok (MessageTree n m p)" and i: "0 < i" "i < MAXPTRLEN" and u: "tree_ok u" "0 < links u"
  shows "tree_ok (MessageTree (if p i = None then n + 1 else n) m (p(i \<mapsto> u)))"
    "0 < (if p i = None then n + 1 else n)"
proof -
  have fin: "finite (dom p)" and n: "n = int (card (dom p)) + (if m = None then 0 else 1)"
    and sub: "\<And>j v. p j = Some v \<Longrightarrow> 0 < j \<and> j < MAXPTRLEN \<and> tree_ok v \<and> 0 < links v" using ok by (auto simp: tree_ok_node)
  have c: "card (dom (p(i \<mapsto> u))) = (if p i = None then card (dom p) + 1 else card (dom p))"
    using fin by (cases "p i") (simp_all add: insert_absorb domI domIff)
  show "tree_ok (MessageTree (if p i = None then n + 1 else n) m (p(i \<mapsto> u)))"
  proof (rule tree_ok.intros)
    show "finite (dom (p(i \<mapsto> u)))" using fin by simp
    show "(if p i = None then n + 1 else n) = int (card (dom (p(i \<mapsto> u)))) + (if m = None then 0 else 1)" by (simp only: c n) simp
    show "0 < j \<and> j < MAXPTRLEN \<and> tree_ok v \<and> 0 < links v" if "(p(i \<mapsto> u)) j = Some v" for j v
      using that sub i u by (cases "j = i") auto
  qed
  show "0 < (if p i = None then n + 1 else n)"
  proof (cases "p i")
    case (Some v)
    then have "0 < card (dom p)" using fin by (auto simp: card_gt_0_iff)
    then show ?thesis using Some n by simp
  qed (simp add: n)
qed

lemma tree_ok_new: "tree_ok clear_tree_parse"
  by (simp add: tree_ok_node clear_tree_parse_def)

lemma add_ok:
  "tree_ok t \<Longrightarrow> alphas cs \<Longrightarrow> tree_map t (codes cs) = None \<Longrightarrow>
   tree_ok (add_msg_element t x cs) \<and> 0 < links (add_msg_element t x cs)"
proof (induction t x cs rule: add_msg_element.induct)
  case (1 n m p x)
  then have "m = None" by simp
  with 1(1) show ?case by (simp add: tree_ok_node)
next
  case (2 n m p x c cs)
  have i: "0 < char_index c" "char_index c < MAXPTRLEN" and cs: "alphas cs" using 2(4) alpha_index by auto
  show ?case
  proof (cases "p (char_index c)")
    case None
    have "tree_ok (add_msg_element clear_tree_parse x cs) \<and> 0 < links (add_msg_element clear_tree_parse x cs)"
      by (rule 2(1)[OF None tree_ok_new[unfolded clear_tree_parse_def] cs tree_map_clear[unfolded clear_tree_parse_def], folded clear_tree_parse_def])
    then have "tree_ok (MessageTree (n + 1) m (p(char_index c \<mapsto> add_msg_element clear_tree_parse x cs))) \<and> 0 < n + 1"
      using tree_ok_upd[OF 2(3) i, of "add_msg_element clear_tree_parse x cs"] None by (simp only: if_True simp_thms)
    then show ?thesis unfolding add_msg_element.simps None option.case clear_tree_parse_def[symmetric] message_tree.sel .
  next
    case (Some t)
    have t: "tree_ok t" using 2(3) Some unfolding tree_ok_node by blast
    have "tree_map t (codes cs) = None" using 2(5) Some by simp
    note ih = 2(2)[OF Some t cs this]
    then have "tree_ok (MessageTree n m (p(char_index c \<mapsto> add_msg_element t x cs))) \<and> 0 < n"
      using tree_ok_upd[OF 2(3) i, of "add_msg_element t x cs"] Some by (simp only: option.distinct(2) if_False simp_thms)
    then show ?thesis unfolding add_msg_element.simps Some option.case message_tree.sel .
  qed
qed

lemma dead_node: "tree_ok t \<Longrightarrow> links t = 0 \<Longrightarrow> tree_msg t = None \<and> pointers t = (\<lambda>_. None)"
  by (cases t) (auto simp: tree_ok_node split: if_splits)

lemma dead_map: "tree_ok t \<Longrightarrow> links t = 0 \<Longrightarrow> tree_map t is = None"
  using dead_node[of t] by (cases "is") simp_all

lemma links_nonneg: "tree_ok t \<Longrightarrow> 0 \<le> links t"
  by (cases t) (auto simp: tree_ok_node)

lemma tree_map_node:
  "tree_map (MessageTree n m p) is = (case is of [] \<Rightarrow> m | i # is \<Rightarrow> case p i of None \<Rightarrow> None | Some u \<Rightarrow> tree_map u is)"
  by (cases "is") simp_all

lemma tree_ok_drop:
  assumes ok: "tree_ok (MessageTree n m p)" and i: "p i = Some u"
  shows "tree_ok (MessageTree (n - 1) m (p(i := None)))"
proof (rule tree_ok.intros)
  have fin: "finite (dom p)" and n: "n = int (card (dom p)) + (if m = None then 0 else 1)" using ok by (auto simp: tree_ok_node)
  show "finite (dom (p(i := None)))" using fin by simp
  have "0 < card (dom p)" using fin i by (auto simp: card_gt_0_iff)
  moreover have "card (dom (p(i := None))) = card (dom p) - 1" using fin i by (simp add: card_Diff_singleton_if domI)
  ultimately show "n - 1 = int (card (dom (p(i := None)))) + (if m = None then 0 else 1)" using n by simp
  show "0 < j \<and> j < MAXPTRLEN \<and> tree_ok v \<and> 0 < links v" if "(p(i := None)) j = Some v" for j v
    using that ok unfolding tree_ok_node by (cases "j = i") auto
qed

lemma del_spec:
  "tree_ok t \<Longrightarrow> alphas cs \<Longrightarrow>
   \<exists>t'. del_msg_element t cs = Some t' \<and> tree_ok t' \<and> tree_map t' = (tree_map t)(codes cs := None)"
proof (induction t cs rule: del_msg_element.induct)
  case (1 n m p)
  have "char_index NUL = 0" by (simp add: char_index_def)
  then have p0: "p (char_index NUL) = None" using 1(1) unfolding tree_ok_node by (cases "p 0") auto
  have eq: "tree_map (MessageTree k None p) = (tree_map (MessageTree n m p))(codes [] := None)" for k
    by (auto simp: fun_eq_iff tree_map_node split: list.split)
  show ?case
  proof (cases m)
    case None
    then show ?thesis using 1(1) eq[of n] p0 by auto
  next
    case (Some x)
    have "tree_ok (MessageTree (n - 1) None p)" using 1(1) Some unfolding tree_ok_node by auto
    then show ?thesis using Some eq[of "n - 1"] by auto
  qed
next
  case (2 n m p c cs)
  let ?i = "char_index c"
  show ?case
  proof (cases "p ?i")
    case None
    then have "tree_map (MessageTree n m p) = (tree_map (MessageTree n m p))(codes (c # cs) := None)"
      by (auto simp: fun_eq_iff tree_map_node split: list.split)
    moreover have "del_msg_element (MessageTree n m p) (c # cs) = Some (MessageTree n m p)" using None by simp
    ultimately show ?thesis using 2(2) by metis
  next
    case (Some t)
    have t: "tree_ok t" using 2(2) Some unfolding tree_ok_node by blast
    have "alphas cs" and i: "0 < ?i" "?i < MAXPTRLEN" using 2(3) alpha_index by simp_all
    then obtain t' where t': "del_msg_element t cs = Some t'" "tree_ok t'" "tree_map t' = (tree_map t)(codes cs := None)"
      using 2(1)[OF Some t] by blast
    show ?thesis
    proof (cases "links t' = 0")
      case True
      have "tree_map t is = None" if "is \<noteq> codes cs" for "is" using dead_map[OF t'(2) True, of "is"] t'(3) that by simp
      then have "tree_map (MessageTree (n - 1) m (p(?i := None))) = (tree_map (MessageTree n m p))(codes (c # cs) := None)"
        using Some by (auto simp: fun_eq_iff tree_map_node split: list.split)
      moreover have "del_msg_element (MessageTree n m p) (c # cs) = Some (MessageTree (n - 1) m (p(?i := None)))" using True Some t'(1) by simp
      ultimately show ?thesis using tree_ok_drop[OF 2(2) Some] by blast
    next
      case False
      have "tree_map (MessageTree n m (p(?i \<mapsto> t'))) = (tree_map (MessageTree n m p))(codes (c # cs) := None)"
        using Some t'(3) by (auto simp: fun_eq_iff tree_map_node split: list.split)
      moreover have "tree_ok (MessageTree n m (p(?i \<mapsto> t')))"
        using tree_ok_upd(1)[OF 2(2) i t'(2)] False links_nonneg[OF t'(2)] Some by simp
      moreover have "del_msg_element (MessageTree n m p) (c # cs) = Some (MessageTree n m (p(?i \<mapsto> t')))" using False Some t'(1) by simp
      ultimately show ?thesis by blast
    qed
  qed
qed

lemma live_node: "tree_ok t \<Longrightarrow> 0 < links t \<Longrightarrow> \<exists>is. tree_map t is \<noteq> None"
proof (induction t rule: tree_ok.induct)
  case (1 p n m)
  show ?case
  proof (cases m)
    case None
    then have "dom p \<noteq> {}" using 1 by auto
    then obtain i u where u: "p i = Some u" by blast
    then obtain "is" where "tree_map u is \<noteq> None" using 1(3)[OF u] by blast
    then show ?thesis using u by (intro exI[of _ "i # is"]) simp
  next
    case (Some x)
    then show ?thesis by (intro exI[of _ "[]"]) simp
  qed
qed

lemma empty_tree: "tree_ok t \<Longrightarrow> (\<And>is. tree_map t is = None) \<Longrightarrow> t = clear_tree_parse"
proof -
  assume ok: "tree_ok t" and none: "\<And>is. tree_map t is = None"
  have "links t = 0" using live_node[OF ok] links_nonneg[OF ok] none by fastforce
  with dead_node[OF ok] show ?thesis by (cases t) (simp add: clear_tree_parse_def)
qed


lemma report_set: "tree_ok t \<Longrightarrow> set (recurse_report_messages t) = {x. \<exists>is. tree_map t is = Some x}"
proof (induction t rule: tree_ok.induct)
  case (1 p n m)
  have sub: "p i = Some u \<Longrightarrow> i < MAXPTRLEN \<and> set (recurse_report_messages u) = {x. \<exists>is. tree_map u is = Some x}" for i u
    using 1(3) by blast
  have ex: "(\<exists>is. tree_map (MessageTree n m p) is = Some x) \<longleftrightarrow>
    m = Some x \<or> (\<exists>i u. p i = Some u \<and> (\<exists>is. tree_map u is = Some x))" for x
  proof
    assume "\<exists>is. tree_map (MessageTree n m p) is = Some x"
    then obtain "is" where "tree_map (MessageTree n m p) is = Some x" ..
    then show "m = Some x \<or> (\<exists>i u. p i = Some u \<and> (\<exists>is. tree_map u is = Some x))"
      by (cases "is") (auto split: option.splits)
  next
    assume "m = Some x \<or> (\<exists>i u. p i = Some u \<and> (\<exists>is. tree_map u is = Some x))"
    then show "\<exists>is. tree_map (MessageTree n m p) is = Some x"
    proof
      assume "m = Some x"
      then show ?thesis by (intro exI[of _ "[]"]) simp
    next
      assume "\<exists>i u. p i = Some u \<and> (\<exists>is. tree_map u is = Some x)"
      then obtain i u "is" where "p i = Some u" "tree_map u is = Some x" by blast
      then show ?thesis by (intro exI[of _ "i # is"]) simp
    qed
  qed
  have "set (recurse_report_messages (MessageTree n m p)) =
    {x. m = Some x} \<union> (\<Union>i < MAXPTRLEN. case p i of None \<Rightarrow> {} | Some u \<Rightarrow> set (recurse_report_messages u))"
    by (auto split: option.splits)
  also have "\<dots> = {x. m = Some x \<or> (\<exists>i u. p i = Some u \<and> x \<in> set (recurse_report_messages u))}"
    using sub by (fastforce split: option.splits)
  also have "\<dots> = {x. \<exists>is. tree_map (MessageTree n m p) is = Some x}" unfolding ex using sub by blast
  finally show ?case .
qed

subsection \<open>A table of commands\<close>

text \<open>A table that keeps the first object of every name: loaded, unloaded by name and looked up. A run of
  operations with the answers of the searches (\<open>loads_run\<close>) against what it should do to the set of
  loaded objects (\<open>loads_spec\<close>).\<close>

datatype load_op =
  Load ptr
| Unload ptr
| Look string

fun loads_run ::
  "(ptr \<Rightarrow> 's \<Rightarrow> 's) \<Rightarrow> (ptr \<Rightarrow> 's \<Rightarrow> 's option) \<Rightarrow> (string \<Rightarrow> 's \<Rightarrow> ptr option) \<Rightarrow> load_op list \<Rightarrow> 's \<Rightarrow>
   (ptr option list \<times> 's) option" where
  "loads_run add del look [] s = Some ([], s)"
| "loads_run add del look (Load p # ops) s = loads_run add del look ops (add p s)"
| "loads_run add del look (Unload p # ops) s = Option.bind (del p s) (loads_run add del look ops)"
| "loads_run add del look (Look n # ops) s =
     map_option (\<lambda>(rs, s'). (look n s # rs, s')) (loads_run add del look ops s)"

fun loads_spec :: "(ptr \<Rightarrow> string) \<Rightarrow> load_op list \<Rightarrow> ptr set \<Rightarrow> ptr option list \<Rightarrow> ptr set \<Rightarrow> bool" where
  "loads_spec nm [] M rs N \<longleftrightarrow> rs = [] \<and> N = M"
| "loads_spec nm (Load p # ops) M rs N \<longleftrightarrow>
     loads_spec nm ops (if \<exists>q \<in> M. same_name (nm p) (nm q) then M else insert p M) rs N"
| "loads_spec nm (Unload p # ops) M rs N \<longleftrightarrow> loads_spec nm ops {q \<in> M. \<not> same_name (nm p) (nm q)} rs N"
| "loads_spec nm (Look n # ops) M rs N \<longleftrightarrow>
     (\<exists>r rs'. rs = r # rs' \<and> loads_spec nm ops M rs' N \<and>
       (case r of None \<Rightarrow> \<forall>q \<in> M. \<not> same_name n (nm q) | Some q \<Rightarrow> q \<in> M \<and> same_name n (nm q)))"


fun loads_of :: "load_op list \<Rightarrow> ptr set" where
  "loads_of [] = {}"
| "loads_of (Load p # ops) = insert p (loads_of ops)"
| "loads_of (Unload p # ops) = insert p (loads_of ops)"
| "loads_of (Look n # ops) = loads_of ops"

locale load_table =
  fixes repr :: "'s \<Rightarrow> ptr set \<Rightarrow> bool"
    and nm :: "ptr \<Rightarrow> string"
    and valid :: "ptr \<Rightarrow> bool"
    and add :: "ptr \<Rightarrow> 's \<Rightarrow> 's"
    and del :: "ptr \<Rightarrow> 's \<Rightarrow> 's option"
    and look :: "string \<Rightarrow> 's \<Rightarrow> ptr option"
  assumes load: "repr s M \<Longrightarrow> valid p \<Longrightarrow> repr (add p s) (if \<exists>q \<in> M. same_name (nm p) (nm q) then M else insert p M)"
    and unload: "repr s M \<Longrightarrow> valid p \<Longrightarrow> \<exists>s'. del p s = Some s' \<and> repr s' {q \<in> M. \<not> same_name (nm p) (nm q)}"
    and looked: "repr s M \<Longrightarrow>
      (case look n s of None \<Rightarrow> \<forall>q \<in> M. \<not> same_name n (nm q) | Some q \<Rightarrow> q \<in> M \<and> same_name n (nm q))"
begin

lemma loads_run_spec:
  "repr s M \<Longrightarrow> (\<forall>p \<in> loads_of ops. valid p) \<Longrightarrow>
   \<exists>rs s' N. loads_run add del look ops s = Some (rs, s') \<and> loads_spec nm ops M rs N \<and> repr s' N"
proof (induction ops arbitrary: s M)
  case (Cons x ops)
  show ?case
  proof (cases x)
    case (Load p)
    then show ?thesis using Cons.IH[OF load[OF Cons.prems(1), of p]] Cons.prems(2) by simp
  next
    case (Unload p)
    then obtain s' where "del p s = Some s'" "repr s' {q \<in> M. \<not> same_name (nm p) (nm q)}"
      using unload[OF Cons.prems(1), of p] Cons.prems(2) by auto
    then show ?thesis using Cons.IH Cons.prems(2) Unload by simp
  next
    case (Look n)
    then show ?thesis using Cons.IH[OF Cons.prems(1)] Cons.prems(2) looked[OF Cons.prems(1), of n] by fastforce
  qed
qed simp

end

definition command_name :: "string \<Rightarrow> bool" where
  "command_name n \<longleftrightarrow> n \<noteq> [] \<and> alphas n"

definition commands :: "(ptr \<Rightarrow> string) \<Rightarrow> command_table \<Rightarrow> ptr set \<Rightarrow> bool" where
  "commands nm s M \<longleftrightarrow> (\<lambda>p. m_cmd (msgs s p)) = nm \<and> tree_ok (msg_tree s) \<and> (\<forall>p \<in> M. command_name (nm p)) \<and>
     (\<forall>is p. tree_map (msg_tree s) is = Some p \<longleftrightarrow> p \<in> M \<and> is = codes (nm p))"

lemma commands_found:
  assumes "commands nm s M"
  shows "case find_command n s of None \<Rightarrow> \<forall>q \<in> M. \<not> same_name n (nm q) | Some q \<Rightarrow> q \<in> M \<and> same_name n (nm q)"
proof (cases "n \<noteq> [] \<and> alphas n")
  case True
  have map: "tree_map (msg_tree s) is = Some p \<longleftrightarrow> p \<in> M \<and> is = codes (nm p)" for "is" p using assms by (simp add: commands_def)
  have same: "codes n = codes (nm q) \<longleftrightarrow> same_name n (nm q)" if "q \<in> M" for q
    using assms that True by (intro codes_same) (simp_all add: commands_def command_name_def)
  show ?thesis
  proof (cases "tree_map (msg_tree s) (codes n)")
    case None
    then have "\<forall>q \<in> M. codes n \<noteq> codes (nm q)" using map[of "codes n"] by auto
    then show ?thesis using None True same by (simp add: find_command_def parse_map)
  next
    case (Some q)
    then have "q \<in> M" "same_name n (nm q)" using map[of "codes n" q] same[of q] by simp_all
    then show ?thesis using Some True by (simp add: find_command_def parse_map)
  qed
next
  case False
  have "\<not> same_name n (nm q)" if "q \<in> M" for q
  proof
    assume s: "same_name n (nm q)"
    have "command_name (nm q)" using assms that by (simp add: commands_def)
    then show False using False same_alphas[OF s] s by (auto simp: command_name_def same_name_iff)
  qed
  with False show ?thesis by (auto simp: find_command_def parse_map)
qed

lemma commands_load:
  assumes c: "commands nm s M" and v: "command_name (nm p)"
  shows "commands nm (mod_add_cmd p s) (if \<exists>q \<in> M. same_name (nm p) (nm q) then M else insert p M)"
proof -
  have cmd: "m_cmd (msgs s q) = nm q" for q using c unfolding commands_def by (metis (mono_tags))
  have fd: "msg_tree_parse (nm p) (msg_tree s) = find_command (nm p) s" by (simp add: find_command_def)
  show ?thesis
  proof (cases "find_command (nm p) s")
    case (Some q)
    then have "\<exists>q \<in> M. same_name (nm p) (nm q)" using commands_found[OF c, of "nm p"] by auto
    then show ?thesis using c Some by (simp add: mod_add_cmd_def cmd fd)
  next
    case None
    then have no: "\<not> (\<exists>q \<in> M. same_name (nm p) (nm q))" using commands_found[OF c, of "nm p"] by simp
    have n: "nm p \<noteq> []" "alphas (nm p)" using v by (simp_all add: command_name_def)
    then have free: "tree_map (msg_tree s) (codes (nm p)) = None" using None by (simp add: find_command_def parse_map)
    define s' where "s' = mod_add_cmd p s"
    have t: "msg_tree s' = add_msg_element (msg_tree s) p (nm p)" using None by (simp add: s'_def mod_add_cmd_def cmd fd)
    have m: "(\<lambda>q. m_cmd (msgs s' q)) = nm" using None by (simp add: s'_def mod_add_cmd_def cmd fd fun_eq_iff)
    have ok: "tree_ok (msg_tree s)" and map: "\<And>is q. tree_map (msg_tree s) is = Some q \<longleftrightarrow> q \<in> M \<and> is = codes (nm q)"
      using c by (simp_all add: commands_def)
    have fresh: "q \<in> M \<Longrightarrow> codes (nm q) \<noteq> codes (nm p)" for q using map[of "codes (nm p)" q] free by auto
    have tm: "tree_map (msg_tree s') = (tree_map (msg_tree s))(codes (nm p) \<mapsto> p)" by (simp add: t add_map)
    have mp: "tree_map (msg_tree s') is = Some q \<longleftrightarrow> q \<in> insert p M \<and> is = codes (nm q)" for "is" q
    proof (cases "is = codes (nm p)")
      case True
      then show ?thesis using fresh[of q] by (auto simp: tm)
    next
      case False
      then show ?thesis using map[of "is" q] by (auto simp: tm)
    qed
    have "tree_ok (msg_tree s')" using add_ok[OF ok n(2) free] by (simp add: t)
    moreover have "\<forall>q \<in> insert p M. command_name (nm q)" using c v by (simp add: commands_def)
    ultimately have "commands nm s' (insert p M)" unfolding commands_def using m mp by blast
    then show ?thesis using no by (simp add: s'_def)
  qed
qed

lemma commands_unload:
  assumes c: "commands nm s M" and v: "command_name (nm p)"
  shows "\<exists>s'. mod_del_cmd p s = Some s' \<and> commands nm s' {q \<in> M. \<not> same_name (nm p) (nm q)}"
proof -
  have cmd: "m_cmd (msgs s q) = nm q" for q using c unfolding commands_def by (metis (mono_tags))
  have n: "alphas (nm p)" using v by (simp add: command_name_def)
  have ok: "tree_ok (msg_tree s)" and map: "\<And>is q. tree_map (msg_tree s) is = Some q \<longleftrightarrow> q \<in> M \<and> is = codes (nm q)"
    and val: "\<And>q. q \<in> M \<Longrightarrow> alphas (nm q)" using c by (auto simp: commands_def command_name_def)
  obtain t where t: "del_msg_element (msg_tree s) (nm p) = Some t" "tree_ok t"
    "tree_map t = (tree_map (msg_tree s))(codes (nm p) := None)" using del_spec[OF ok n] by blast
  have "tree_map t is = Some q \<longleftrightarrow> q \<in> {q \<in> M. \<not> same_name (nm p) (nm q)} \<and> is = codes (nm q)" for "is" q
    using map[of "is" q] codes_same[OF n val, of q] by (auto simp: t(3))
  then have "commands nm (s\<lparr>msg_tree := t\<rparr>) {q \<in> M. \<not> same_name (nm p) (nm q)}"
    using c t(2) by (simp add: commands_def)
  then show ?thesis using t(1) by (simp add: mod_del_cmd_def cmd)
qed

interpretation command_tree: load_table "commands nm" nm "\<lambda>p. command_name (nm p)" mod_add_cmd mod_del_cmd find_command for nm
  by unfold_locales (rule commands_load commands_unload commands_found; assumption)+

lemma commands_report: "commands nm s M \<Longrightarrow> set (report_messages s) = M"
proof -
  assume c: "commands nm s M"
  obtain n m p where t: "msg_tree s = MessageTree n m p" by (cases "msg_tree s")
  have none: "m = None"
  proof (cases m)
    case (Some x)
    then have "tree_map (msg_tree s) [] = Some x" by (simp add: t)
    then have "x \<in> M \<and> codes (nm x) = []" using c unfolding commands_def by metis
    then show ?thesis using c by (auto simp: commands_def command_name_def codes_def)
  qed
  have "report_messages s = recurse_report_messages (msg_tree s)"
    unfolding report_messages_def t none
    by (auto simp: option.case_eq_if option.map_sel intro!: arg_cong[where f = concat])
  then have "set (report_messages s) = {x. \<exists>is. tree_map (msg_tree s) is = Some x}"
    using report_set[of "msg_tree s"] c by (simp add: commands_def)
  also have "\<dots> = M" using c unfolding commands_def by blast
  finally show ?thesis .
qed

lemma commands_empty: "commands nm s {} \<Longrightarrow> msg_tree s = clear_tree_parse"
proof -
  assume c: "commands nm s {}"
  then have "tree_map (msg_tree s) is = None" for "is" by (cases "tree_map (msg_tree s) is") (auto simp: commands_def)
  moreover have "tree_ok (msg_tree s)" using c by (simp add: commands_def)
  ultimately show ?thesis using empty_tree by blast
qed

subsection \<open>Parameters\<close>

definition MAXPARA :: nat where "MAXPARA = 15"

abbreviation skip_spaces :: "string \<Rightarrow> string" where
  "skip_spaces \<equiv> dropWhile (\<lambda>c. c = CHR '' '')"

text \<open>The loop of \<open>string_to_array\<close> with \<open>k\<close> of its 13 turns left, on what follows the last space written
  over: after the last turn this is a parameter as it stands, a colon in front taken away.\<close>

fun array_loop :: "nat \<Rightarrow> string \<Rightarrow> string list" where
  "array_loop 0 p = [if deref p = CHR '':'' then tl p else p]"
| "array_loop (Suc k) p =
     (let buf = skip_spaces p in
      if deref buf = CHR '':'' then [tl buf]
      else case c_strchr buf CHR '' '' of
             None \<Rightarrow> [buf]
           | Some s \<Rightarrow>
               if skip_spaces (tl s) = [] then [takeWhile (\<lambda>c. c \<noteq> CHR '' '') buf]
               else takeWhile (\<lambda>c. c \<noteq> CHR '' '') buf # array_loop k (tl s))"

text \<open>\<open>parv[1]\<close>, ... of the call; the result in the code is one more than their number.\<close>

definition string_to_array :: "string \<Rightarrow> string list" where
  "string_to_array string = (if skip_spaces string = [] then [] else array_loop (MAXPARA - 2) string)"

definition middle :: "string \<Rightarrow> bool" where
  "middle p \<longleftrightarrow> p \<noteq> [] \<and> hd p \<noteq> CHR '':'' \<and> CHR '' '' \<notin> set p"

definition put_params :: "string list \<Rightarrow> string \<Rightarrow> string" where
  "put_params ms l = concat (map (\<lambda>m. m @ '' '') ms) @ CHR '':'' # l"

lemma put_params_simps [simp]:
  "put_params [] l = CHR '':'' # l" "put_params (m # ms) l = m @ CHR '' '' # put_params ms l"
  by (simp_all add: put_params_def)

lemma array_len: "1 \<le> length (array_loop k p) \<and> length (array_loop k p) \<le> k + 1"
  by (induction k p rule: array_loop.induct) (auto simp: Let_def split: option.splits)

lemma array_middle: "k < length (array_loop n p) - 1 \<Longrightarrow> CHR '' '' \<notin> set (array_loop n p ! k)"
proof (induction n p arbitrary: k rule: array_loop.induct)
  case (2 n p)
  then show ?case by (cases k) (fastforce simp: Let_def less_diff_conv dest: set_takeWhileD split: option.splits if_splits)+
qed simp

lemma skip_put: "\<forall>m \<in> set ms. middle m \<Longrightarrow> skip_spaces (put_params ms l) = put_params ms l"
  by (cases ms) (auto simp: middle_def neq_Nil_conv)

lemma put_nonempty: "put_params ms l \<noteq> []"
  by (simp add: put_params_def)

lemma strchr_append: "x \<notin> set a \<Longrightarrow> c_strchr (a @ x # b) x = Some (x # b)"
  by (induction a) auto

lemma takeWhile_word: "x \<notin> set a \<Longrightarrow> takeWhile (\<lambda>c. c \<noteq> x) (a @ x # b) = a"
  by (induction a) auto

lemma array_put:
  "\<forall>m \<in> set ms. middle m \<Longrightarrow>
   array_loop k (put_params ms l) = take k ms @ [if length ms \<le> k then l else put_params (drop k ms) l]"
proof (induction ms arbitrary: k)
  case Nil
  show ?case by (cases k) (simp_all add: Let_def)
next
  case (Cons m ms)
  then have m: "m \<noteq> []" "hd m \<noteq> CHR '':''" "CHR '' '' \<notin> set m" by (simp_all add: middle_def)
  have col: "deref (m @ CHR '' '' # put_params ms l) \<noteq> CHR '':''" using m by (cases m) auto
  have sp: "skip_spaces (m @ CHR '' '' # put_params ms l) = m @ CHR '' '' # put_params ms l"
    using skip_put[OF Cons.prems] by simp
  have ne: "skip_spaces (put_params ms l) \<noteq> []" using skip_put[of ms l] Cons.prems put_nonempty[of ms l] by simp
  show ?case
  proof (cases k)
    case 0
    then show ?thesis using col by simp
  next
    case (Suc n)
    have "array_loop k (put_params (m # ms) l) = m # array_loop n (put_params ms l)"
      unfolding Suc put_params_simps array_loop.simps Let_def sp
      using col ne strchr_append[OF m(3)] takeWhile_word[OF m(3)] by (simp del: dropWhile_eq_Nil_conv)
    then show ?thesis using Cons.IH Cons.prems Suc by simp
  qed
qed

subsection \<open>Who sent it\<close>

text \<open>What the dispatch reads of a \<open>struct Client\<close> besides its names and its status, which are in
  theory \<open>Hash\<close>'s state.\<close>

record peer =
  pe_from :: ptr
  pe_handler :: nat
  pe_defunct :: bool
  pe_ts6 :: bool
  pe_oper :: bool
  pe_local :: bool
  pe_invisible :: bool

record parse_stats =
  is_unco :: u32
  is_wrdi :: u32
  is_unpf :: u32
  is_empt :: u32
  is_num :: u32

record parse_state =
  pa_hash :: hash_state
  pa_table :: command_table
  pa_stats :: parse_stats

record parse_env =
  en_peer :: "ptr \<Rightarrow> peer"
  en_hide_servers :: bool
  en_me :: string

definition is_status :: "nat \<Rightarrow> ptr \<Rightarrow> parse_state \<Rightarrow> bool" where
  "is_status st p s \<longleftrightarrow> client_status (pa_hash s) p = st"

text \<open>Which pointer a search of the tables returns.\<close>

definition lookup :: "(hash_state \<Rightarrow> (ptr option \<times> hash_state) option) \<Rightarrow> parse_state \<Rightarrow> (ptr option \<times> parse_state) option" where
  "lookup f s = map_option (\<lambda>(r, h). (r, s\<lparr>pa_hash := h\<rparr>)) (f (pa_hash s))"

definition find_person :: "parse_env \<Rightarrow> ptr \<Rightarrow> string \<Rightarrow> parse_state \<Rightarrow> (ptr option \<times> parse_state) option" where
  "find_person e client name s =
     map_option (\<lambda>(r, s).
         (case r of
            None \<Rightarrow> None
          | Some c \<Rightarrow>
              if IsDigit (deref name) \<and> pe_invisible (en_peer e c) \<and> \<not> is_status STAT_SERVER client s then None
              else if is_status STAT_CLIENT c s then Some c else None, s))
       (lookup (if IsDigit (deref name) then hash_find_id name else find_client name) s)"

text \<open>A person, else a server.\<close>

definition find_source :: "parse_env \<Rightarrow> ptr \<Rightarrow> string \<Rightarrow> parse_state \<Rightarrow> (ptr option \<times> parse_state) option" where
  "find_source e client name s =
     Option.bind (find_person e client name s) (\<lambda>(r, s).
       case r of Some c \<Rightarrow> Some (Some c, s) | None \<Rightarrow> lookup (find_server name) s)"

datatype parse_out =
  Handle nat ptr ptr ptr nat "string list"       \<comment> \<open>\<open>handlers[i]\<close> of a message, \<open>client_p\<close>, \<open>source_p\<close>, \<open>parc\<close>, \<open>parv[1]\<close>, ...\<close>
| Need_more string string
| Drop_server nat
| Unknown_command ptr string
| Squit_unknown string string
| Kill_unknown string
| Fake_direction ptr bool
| Numeric_at_me ptr string string
| Numeric_to ptr string string string string
| Numeric_channel ptr string string string string

type_synonym parsed = "(parse_out option \<times> parse_state) option"

definition remove_unknown :: "string \<Rightarrow> string \<Rightarrow> parse_out" where
  "remove_unknown lsender lbuffer =
     (if IsDigit (deref lsender) \<and> length lsender \<le> IRC_MAXSID \<or> c_strchr lsender CHR ''.'' \<noteq> None
      then Squit_unknown lsender lbuffer else Kill_unknown lsender)"

definition cancel_clients :: "ptr \<Rightarrow> parse_state \<Rightarrow> parse_out" where
  "cancel_clients source s = Fake_direction source (is_status STAT_SERVER source s \<or> is_status STAT_ME source s)"

definition MFLG_UNREG :: u32 where "MFLG_UNREG = 0x002"

definition count_message :: "bool \<Rightarrow> ptr \<Rightarrow> parse_state \<Rightarrow> parse_state" where
  "count_message server p s =
     s\<lparr>pa_table := (pa_table s)\<lparr>msgs := (msgs (pa_table s))(p :=
         (let m = msgs (pa_table s) p
          in m\<lparr>m_rcount := (if server then m_rcount m + 1 else m_rcount m), m_count := m_count m + 1\<rparr>))\<rparr>\<rparr>"

text \<open>\<open>ps\<close> are the parameters without \<open>parv[0]\<close>, which is the name of the source.\<close>

definition handle_command :: "parse_env \<Rightarrow> ptr \<Rightarrow> ptr \<Rightarrow> ptr \<Rightarrow> nat \<Rightarrow> string list \<Rightarrow> parse_state \<Rightarrow> parsed" where
  "handle_command e mptr client source i ps s =
     (let s = count_message (is_status STAT_SERVER client s) mptr s;
          m = msgs (pa_table s) mptr
      in if client_status (pa_hash s) client \<le> STAT_UNKNOWN \<and>
            (is_status STAT_HANDSHAKE client s \<or> is_status STAT_CONNECTING client s \<or> is_status STAT_SERVER client s) \<and>
            m_flags m AND MFLG_UNREG = 0
         then Some (None, s)
         else if i < unat (m_parameters m)
         then if \<not> is_status STAT_SERVER client s
              then Some (Some (Need_more (let n = client_name (pa_hash s) source in if n = [] then ''*'' else n) (m_cmd m)), s)
              else Some (Some (Drop_server i), s)
         else Some (Some (Handle (pe_handler (en_peer e client)) mptr client source i ps), s))"

definition ERR_NOSUCHNICK :: int where "ERR_NOSUCHNICK = 401"
definition ERR_UMODEUNKNOWNFLAG :: int where "ERR_UMODEUNKNOWNFLAG = 501"

text \<open>The text behind the target: the middle parameters, and the last one (of a numeric with one
  parameter this is the target again).\<close>

definition numeric_text :: "string list \<Rightarrow> string" where
  "numeric_text ps = concat (map (\<lambda>p. CHR '' '' # p) (butlast (tl ps))) @ '' :'' @ last ps"

definition numeric_reply :: "parse_env \<Rightarrow> ptr \<Rightarrow> ptr \<Rightarrow> ptr \<Rightarrow> string \<Rightarrow> string \<Rightarrow> parse_state \<Rightarrow> parse_out option" where
  "numeric_reply e client source t numeric buffer s =
     (let name = client_name (pa_hash s); id = client_id (pa_hash s); pt = en_peer e t;
          my = pe_local pt \<and> is_status STAT_CLIENT t s
      in if is_status STAT_ME t s
         then if c_atoi numeric \<noteq> ERR_NOSUCHNICK then Some (Numeric_at_me source numeric buffer) else None
         else if pe_from pt = client then None
         else if c_atoi numeric = ERR_UMODEUNKNOWNFLAG \<and> my then None
         else if en_hide_servers e \<and> my \<and> \<not> pe_oper pt
         then Some (Numeric_to t (en_me e) numeric (name t) buffer)
         else if \<not> my \<and> pe_ts6 (en_peer e (pe_from pt)) \<and> id source \<noteq> []
         then Some (Numeric_to t (id source) numeric (id t) buffer)
         else Some (Numeric_to t (name source) numeric (name t) buffer))"

definition do_numeric :: "parse_env \<Rightarrow> string \<Rightarrow> ptr \<Rightarrow> ptr \<Rightarrow> string list \<Rightarrow> parse_state \<Rightarrow> parsed" where
  "do_numeric e numeric client source ps s =
     (if ps = [] \<or> \<not> is_status STAT_SERVER source s then Some (None, s)
      else
        let numeric = (if hd numeric = CHR ''0'' then CHR ''1'' # tl numeric else numeric);
            buffer = numeric_text ps
        in Option.bind (find_source e client (hd ps) s) (\<lambda>(t, s).
             case t of
               Some t \<Rightarrow> Some (numeric_reply e client source t numeric buffer s, s)
             | None \<Rightarrow> map_option (\<lambda>(c, s).
                 (map_option (\<lambda>c. Numeric_channel c (client_name (pa_hash s) source) numeric (chname (pa_hash s) c) buffer) c, s))
                   (lookup (hash_find_channel (hd ps)) s)))"

subsection \<open>A line\<close>

definition is_numeric :: "string \<Rightarrow> bool" where
  "is_numeric ch \<longleftrightarrow> deref (drop 3 ch) = CHR '' '' \<and> (\<forall>c \<in> set (take 3 ch). IsDigit c)"

definition add_bytes :: "ptr \<Rightarrow> nat \<Rightarrow> parse_state \<Rightarrow> parse_state" where
  "add_bytes p n s =
     s\<lparr>pa_table := (pa_table s)\<lparr>msgs := (msgs (pa_table s))(p :=
         (msgs (pa_table s) p)\<lparr>m_bytes := m_bytes (msgs (pa_table s) p) + of_nat n\<rparr>)\<rparr>\<rparr>"

text \<open>From the command on, which is at \<open>ch\<close>; \<open>n\<close> is \<open>bufend - ch\<close>.\<close>

definition parse_command :: "parse_env \<Rightarrow> ptr \<Rightarrow> ptr \<Rightarrow> string \<Rightarrow> nat \<Rightarrow> parse_state \<Rightarrow> parsed" where
  "parse_command e client from_p ch n s =
     (if ch = [] then Some (None, s\<lparr>pa_stats := (pa_stats s)\<lparr>is_empt := is_empt (pa_stats s) + 1\<rparr>\<rparr>)
      else if is_numeric ch
      then do_numeric e (take 3 ch) client from_p (string_to_array (drop 4 ch))
             (s\<lparr>pa_stats := (pa_stats s)\<lparr>is_num := is_num (pa_stats s) + 1\<rparr>\<rparr>)
      else
        let sp = c_strchr ch CHR '' ''; cmd = takeWhile (\<lambda>c. c \<noteq> CHR '' '') ch
        in case find_command cmd (pa_table s) of
             None \<Rightarrow>
               Some (if is_status STAT_CLIENT from_p s then Some (Unknown_command from_p cmd) else None,
                     s\<lparr>pa_stats := (pa_stats s)\<lparr>is_unco := is_unco (pa_stats s) + 1\<rparr>\<rparr>)
           | Some mptr \<Rightarrow>
               (case sp of
                  None \<Rightarrow> handle_command e mptr client from_p 0 [] (add_bytes mptr n s)
                | Some r \<Rightarrow>
                    let ps = string_to_array (tl r)
                    in handle_command e mptr client from_p (length ps + 1) ps
                         (add_bytes mptr (n - (length cmd + 1)) s)))"

text \<open>The masked SIDs of servers that hide behind a name with a star.\<close>

definition masked_sid :: "parse_env \<Rightarrow> ptr \<Rightarrow> string \<Rightarrow> parse_state \<Rightarrow> bool" where
  "masked_sid e client sender s \<longleftrightarrow>
     pe_ts6 (en_peer e client) \<and> deref (client_name (pa_hash s) client) = CHR ''*'' \<and>
     IsDigit (deref sender) \<and> length sender = 3"

text \<open>The prefix and what follows it; without a space behind it the prefix is read again as the command.\<close>

definition cut_prefix :: "string \<Rightarrow> string \<times> string" where
  "cut_prefix p =
     (takeWhile (\<lambda>c. c \<noteq> CHR '' '') p,
      case c_strchr p CHR '' '' of None \<Rightarrow> p | Some r \<Rightarrow> skip_spaces (tl r))"

definition parse :: "parse_env \<Rightarrow> ptr \<Rightarrow> string \<Rightarrow> nat \<Rightarrow> parse_state \<Rightarrow> parsed" where
  "parse e client pbuffer n s =
     (if pe_defunct (en_peer e client) then Some (None, s)
      else
        let ch = skip_spaces pbuffer; n = (\<lambda>ch. n - (length pbuffer - length ch))
        in if deref ch \<noteq> CHR '':'' then parse_command e client client ch (n ch) s
           else
             case cut_prefix (tl ch) of (sender, rest) \<Rightarrow>
                if sender = [] \<or> \<not> is_status STAT_SERVER client s
                then parse_command e client client rest (n rest) s
                else Option.bind (find_source e client sender s) (\<lambda>(fr, s).
                  case (if fr = None \<and> masked_sid e client sender s then Some client else fr) of
                    None \<Rightarrow>
                      Some (Some (remove_unknown sender (takeWhile (\<lambda>c. c = CHR '' '') pbuffer @ CHR '':'' # sender)),
                            s\<lparr>pa_stats := (pa_stats s)\<lparr>is_unpf := is_unpf (pa_stats s) + 1\<rparr>\<rparr>)
                  | Some fr \<Rightarrow>
                      if pe_from (en_peer e fr) \<noteq> client
                      then Some (Some (cancel_clients fr s),
                                 s\<lparr>pa_stats := (pa_stats s)\<lparr>is_wrdi := is_wrdi (pa_stats s) + 1\<rparr>\<rparr>)
                      else parse_command e client fr rest (n rest) s))"

subsection \<open>The tables under parse\<close>

record names =
  of_client :: "ptr \<Rightarrow> string"
  of_id :: "ptr \<Rightarrow> string"
  of_chan :: "ptr \<Rightarrow> string"
  of_status :: "ptr \<Rightarrow> nat"

definition tables_ok :: "names \<Rightarrow> parse_state \<Rightarrow> bool" where
  "tables_ok k s \<longleftrightarrow> client_status (pa_hash s) = of_status k \<and>
     (\<exists>M. clients (of_client k) (pa_hash s) M) \<and> (\<exists>M. ids (of_id k) (pa_hash s) M) \<and> (\<exists>M. channels (of_chan k) (pa_hash s) M)"

lemma masked_frame: "masked_loop b p h = Some (r, h') \<Longrightarrow> \<exists>t. h' = h\<lparr>clientTable := t\<rparr>"
proof (induction b p h rule: masked_loop.induct)
  case (1 b p h)
  note run = 1(2)[unfolded masked_loop.simps[of b p h]]
  show ?case
  proof (cases "c_strchr p CHR ''.''")
    case None
    then have "h' = h\<lparr>clientTable := clientTable h\<rparr>" using run by simp
    then show ?thesis by blast
  next
    case (Some d)
    then have st: "\<not> (b \<and> d = p)" using run by (simp split: if_splits)
    then obtain r1 h1 where f: "find_client (CHR ''*'' # d) h = Some (r1, h1)"
      using run Some by (auto split: option.splits if_splits)
    then obtain t1 where t1: "h1 = h\<lparr>clientTable := t1\<rparr>" using find_client_frame(1) by blast
    show ?thesis
    proof (cases r1)
      case None
      have "masked_loop False (tl d) h1 = Some (r, h')"
        using run Some st f None by simp
      then obtain t where "h' = h1\<lparr>clientTable := t\<rparr>" using 1(1)[OF Some st f refl None] by blast
      then show ?thesis using t1 by auto
    next
      case q: (Some q)
      then have "h' = h1" using run Some st f by auto
      then show ?thesis using t1 by blast
    qed
  qed
qed

lemma find_server_frame: "find_server n h = Some (r, h') \<Longrightarrow> \<exists>t u. h' = h\<lparr>idTable := u, clientTable := t\<rparr>"
proof -
  assume fs: "find_server n h = Some (r, h')"
  let ?one = "if IsDigit (deref n) \<and> length n = IRC_MAXSID then hash_find_id n h else Some (None, h)"
  obtain r1 h1 where one: "?one = Some (r1, h1)" using fs unfolding find_server_def by (cases ?one) auto
  have "\<exists>u. h1 = h\<lparr>idTable := u\<rparr>"
    using one find_client_frame(2) by (cases "IsDigit (deref n) \<and> length n = IRC_MAXSID") (auto intro: exI[of _ "idTable h"])
  then obtain u where u: "h1 = h\<lparr>idTable := u\<rparr>" ..
  have same: "h\<lparr>idTable := u\<rparr> = h\<lparr>idTable := u, clientTable := clientTable h\<rparr>" by simp
  show ?thesis
  proof (cases r1)
    case (Some c)
    then have "h' = h1" using fs one unfolding find_server_def by simp
    then show ?thesis using u same by metis
  next
    case None
    let ?two = "table_find (ircd_random_key h1)
      (\<lambda>c. (client_status h1 c = STAT_SERVER \<or> client_status h1 c = STAT_ME) \<and> irccmp n (client_name h1 c) = 0) n (clientTable h1)"
    obtain r2 t2 where two: "?two = Some (r2, t2)" using fs one None unfolding find_server_def by (cases ?two) auto
    show ?thesis
    proof (cases r2)
      case (Some c)
      then have "h' = h1\<lparr>clientTable := t2\<rparr>" using fs one None two unfolding find_server_def by simp
      then show ?thesis unfolding u by auto
    next
      case n2: None
      have m: "hash_find_masked_server n (h1\<lparr>clientTable := t2\<rparr>) = Some (r, h')"
        using fs one None two n2 unfolding find_server_def by simp
      then have "\<exists>t. h' = h1\<lparr>clientTable := t\<rparr>"
        using masked_frame[of True _ "h1\<lparr>clientTable := t2\<rparr>" r h'] unfolding hash_find_masked_server_def by (auto split: if_splits)
      then show ?thesis unfolding u by auto
    qed
  qed
qed

definition looks :: "names \<Rightarrow> parse_state \<Rightarrow> (ptr option \<times> parse_state) option \<Rightarrow> bool" where
  "looks k s x \<longleftrightarrow> (\<exists>r h. x = Some (r, s\<lparr>pa_hash := h\<rparr>) \<and> tables_ok k (s\<lparr>pa_hash := h\<rparr>))"

lemma looks_client: "tables_ok k s \<Longrightarrow> looks k s (lookup (find_client n) s)"
proof -
  assume ok: "tables_ok k s"
  then obtain M where M: "clients (of_client k) (pa_hash s) M" by (auto simp: tables_ok_def)
  obtain r h where f: "find_client n (pa_hash s) = Some (r, h)" "clients (of_client k) h M" using client_reg.repr_look[OF M, of n] by blast
  obtain u where "h = pa_hash s\<lparr>clientTable := u\<rparr>" using find_client_frame(1)[OF f(1)] by blast
  then have "tables_ok k (s\<lparr>pa_hash := h\<rparr>)" using ok f(2) by (auto simp: tables_ok_def ids_def channels_def)
  then show ?thesis using f(1) by (auto simp: looks_def lookup_def)
qed

lemma looks_id: "tables_ok k s \<Longrightarrow> looks k s (lookup (hash_find_id n) s)"
proof -
  assume ok: "tables_ok k s"
  then obtain M where M: "ids (of_id k) (pa_hash s) M" by (auto simp: tables_ok_def)
  obtain r h where f: "hash_find_id n (pa_hash s) = Some (r, h)" "ids (of_id k) h M" using id_reg.repr_look[OF M, of n] by blast
  obtain u where "h = pa_hash s\<lparr>idTable := u\<rparr>" using find_client_frame(2)[OF f(1)] by blast
  then have "tables_ok k (s\<lparr>pa_hash := h\<rparr>)" using ok f(2) by (auto simp: tables_ok_def clients_def channels_def)
  then show ?thesis using f(1) by (auto simp: looks_def lookup_def)
qed

lemma looks_channel: "tables_ok k s \<Longrightarrow> looks k s (lookup (hash_find_channel n) s)"
proof -
  assume ok: "tables_ok k s"
  then obtain M where M: "channels (of_chan k) (pa_hash s) M" by (auto simp: tables_ok_def)
  obtain r h where f: "hash_find_channel n (pa_hash s) = Some (r, h)" "channels (of_chan k) h M"
    using channel_reg.repr_look[OF M, of n] by blast
  then obtain u where "h = pa_hash s\<lparr>channelTable := u\<rparr>" by (auto simp: hash_find_channel_def)
  then have "tables_ok k (s\<lparr>pa_hash := h\<rparr>)" using ok f(2) by (auto simp: tables_ok_def clients_def ids_def)
  then show ?thesis using f(1) by (auto simp: looks_def lookup_def)
qed

lemma looks_server: "tables_ok k s \<Longrightarrow> looks k s (lookup (find_server n) s)"
proof -
  assume ok: "tables_ok k s"
  then obtain M N where M: "clients (of_client k) (pa_hash s) M" and N: "ids (of_id k) (pa_hash s) N" by (auto simp: tables_ok_def)
  obtain r h where f: "find_server n (pa_hash s) = Some (r, h)" "clients (of_client k) h M" "ids (of_id k) h N"
    using find_server_spec[OF M N, of n] by blast
  obtain u v where "h = pa_hash s\<lparr>idTable := u, clientTable := v\<rparr>" using find_server_frame[OF f(1)] by blast
  then have "tables_ok k (s\<lparr>pa_hash := h\<rparr>)" using ok f(2,3) by (auto simp: tables_ok_def channels_def)
  then show ?thesis using f(1) by (auto simp: looks_def lookup_def)
qed

lemma looks_person: "tables_ok k s \<Longrightarrow> looks k s (find_person e c n s)"
  using looks_client[of k s n] looks_id[of k s n] by (auto simp: looks_def find_person_def)

lemma looks_source: "tables_ok k s \<Longrightarrow> looks k s (find_source e c n s)"
proof -
  assume "tables_ok k s"
  then obtain r h where p: "find_person e c n s = Some (r, s\<lparr>pa_hash := h\<rparr>)" and ok: "tables_ok k (s\<lparr>pa_hash := h\<rparr>)"
    using looks_person[of k s e c n] unfolding looks_def by blast
  show ?thesis
  proof (cases r)
    case None
    then show ?thesis using p looks_server[OF ok, of n] by (auto simp: find_source_def looks_def)
  next
    case (Some q)
    then show ?thesis using p ok by (auto simp: find_source_def looks_def)
  qed
qed

text \<open>What \<open>parse\<close> may do with a line of \<open>client\<close> of \<open>n\<close> bytes.\<close>

definition proper_out :: "parse_env \<Rightarrow> names \<Rightarrow> ptr \<Rightarrow> nat \<Rightarrow> parse_state \<Rightarrow> parse_out \<Rightarrow> bool" where
  "proper_out e k client n s out \<longleftrightarrow>
     (let server = (\<lambda>p. of_status k p = STAT_SERVER);
          speaks = (\<lambda>p. p = client \<or> server client \<and> pe_from (en_peer e p) = client)
      in case out of
           Handle h m c f i ps \<Rightarrow> h = pe_handler (en_peer e client) \<and> c = client \<and> speaks f \<and>
             unat (m_parameters (msgs (pa_table s) m)) \<le> i \<and> i = (if i = 0 then 0 else length ps + 1) \<and> length ps < MAXPARA
         | Need_more nick cmd \<Rightarrow> \<not> server client
         | Drop_server i \<Rightarrow> server client
         | Unknown_command f cmd \<Rightarrow> of_status k f = STAT_CLIENT \<and> speaks f
         | Squit_unknown sender txt \<Rightarrow> server client
         | Kill_unknown sender \<Rightarrow> server client
         | Fake_direction f quiet \<Rightarrow> server client \<and> pe_from (en_peer e f) \<noteq> client
         | Numeric_at_me f num buf \<Rightarrow> server f \<and> speaks f \<and> length buf \<le> n
         | Numeric_to t src num name buf \<Rightarrow> server client \<and> pe_from (en_peer e t) \<noteq> client \<and> length buf \<le> n
         | Numeric_channel c src num name buf \<Rightarrow> server client \<and> length buf \<le> n)"

definition parse_good :: "parse_env \<Rightarrow> names \<Rightarrow> ptr \<Rightarrow> nat \<Rightarrow> parsed \<Rightarrow> bool" where
  "parse_good e k client n x \<longleftrightarrow>
     (\<exists>out s'. x = Some (out, s') \<and> tables_ok k s' \<and> (\<forall>y. out = Some y \<longrightarrow> proper_out e k client n s' y))"

lemma word_split: "c_strchr buf x = Some s \<Longrightarrow> length (takeWhile (\<lambda>c. c \<noteq> x) buf) + length s = length buf \<and> s \<noteq> []"
proof (induction buf)
  case (Cons c buf)
  then show ?case by (cases "c = x") auto
qed simp

lemma params_fit: "sum_list (map length (array_loop k p)) + length (array_loop k p) \<le> length p + 1"
proof (induction k p rule: array_loop.induct)
  case (2 k p)
  let ?buf = "skip_spaces p"
  have len: "length ?buf \<le> length p" by (rule length_dropWhile_le)
  show ?case
  proof (cases "deref ?buf = CHR '':'' \<or> c_strchr ?buf CHR '' '' = None")
    case True
    then show ?thesis using len by (auto simp: Let_def)
  next
    case False
    then obtain s where s: "deref ?buf \<noteq> CHR '':''" "c_strchr ?buf CHR '' '' = Some s" by auto
    have w: "length (takeWhile (\<lambda>c. c \<noteq> CHR '' '') ?buf) + length s = length ?buf" "s \<noteq> []" using word_split[OF s(2)] by simp_all
    show ?thesis
    proof (cases "skip_spaces (tl s) = []")
      case True
      then show ?thesis using s w len by (simp add: Let_def)
    next
      case False
      have "sum_list (map length (array_loop k (tl s))) + length (array_loop k (tl s)) \<le> length (tl s) + 1"
        by (rule 2[OF refl s(1) s(2) False])
      moreover have "0 < length s" using w(2) by simp
      ultimately show ?thesis using s w len False by (simp add: Let_def del: dropWhile_eq_Nil_conv)
    qed
  qed
qed simp

lemma text_length: "length (concat (map (\<lambda>p. c # p) ps)) = sum_list (map length ps) + length ps"
  by (induction ps) simp_all

lemma numeric_fits: "string_to_array p \<noteq> [] \<Longrightarrow> length (numeric_text (string_to_array p)) \<le> length p + 2"
proof -
  let ?ps = "string_to_array p"
  assume "?ps \<noteq> []"
  then obtain x xs where ps: "?ps = x # xs" by (cases ?ps) auto
  have fit: "sum_list (map length ?ps) + length ?ps \<le> length p + 1"
    using params_fit[of "MAXPARA - 2" p] by (simp add: string_to_array_def)
  show ?thesis
  proof (cases xs rule: rev_cases)
    case Nil
    then show ?thesis using ps fit by (simp add: numeric_text_def)
  next
    case (snoc ys y)
    then show ?thesis using ps fit by (simp add: numeric_text_def text_length)
  qed
qed

lemma array_short: "length (string_to_array p) < MAXPARA"
  using array_len[of "MAXPARA - 2" p] by (simp add: string_to_array_def MAXPARA_def)

lemma good_handle:
  assumes "tables_ok k s" "f = client \<or> of_status k client = STAT_SERVER \<and> pe_from (en_peer e f) = client"
    "i = (if i = 0 then 0 else length ps + 1)" "length ps < MAXPARA"
  shows "parse_good e k client n (handle_command e m client f i ps s)"
  using assms unfolding parse_good_def handle_command_def proper_out_def Let_def tables_ok_def is_status_def count_message_def
  by (auto split: if_splits)

lemma good_numeric_reply:
  assumes "tables_ok k s" "of_status k f = STAT_SERVER" "f = client \<or> of_status k client = STAT_SERVER \<and> pe_from (en_peer e f) = client"
    "length buf \<le> n" "numeric_reply e client f t num buf s = Some out"
  shows "proper_out e k client n s0 out"
  using assms unfolding numeric_reply_def proper_out_def Let_def tables_ok_def is_status_def
  by (auto split: if_splits)

lemma good_numeric:
  assumes ok: "tables_ok k s" and f: "f = client \<or> of_status k client = STAT_SERVER \<and> pe_from (en_peer e f) = client"
    and n: "length p + 2 \<le> n"
  shows "parse_good e k client n (do_numeric e num client f (string_to_array p) s)"
proof (cases "string_to_array p = [] \<or> \<not> is_status STAT_SERVER f s")
  case True
  then show ?thesis using ok by (simp add: do_numeric_def parse_good_def)
next
  case False
  then have sf: "of_status k f = STAT_SERVER" using ok by (simp add: tables_ok_def is_status_def)
  then have sc: "of_status k client = STAT_SERVER" using f by auto
  have len: "length (numeric_text (string_to_array p)) \<le> n" using numeric_fits[of p] False n by simp
  let ?num = "if hd num = CHR ''0'' then CHR ''1'' # tl num else num"
  obtain t h where t: "find_source e client (hd (string_to_array p)) s = Some (t, s\<lparr>pa_hash := h\<rparr>)" "tables_ok k (s\<lparr>pa_hash := h\<rparr>)"
    using looks_source[OF ok] unfolding looks_def by blast
  show ?thesis
  proof (cases t)
    case (Some q)
    then have "do_numeric e num client f (string_to_array p) s =
      Some (numeric_reply e client f q ?num (numeric_text (string_to_array p)) (s\<lparr>pa_hash := h\<rparr>), s\<lparr>pa_hash := h\<rparr>)"
      using False t(1) by (simp add: do_numeric_def)
    then show ?thesis using good_numeric_reply[OF t(2) sf f len] t(2) unfolding parse_good_def by blast
  next
    case None
    obtain c h' where c: "lookup (hash_find_channel (hd (string_to_array p))) (s\<lparr>pa_hash := h\<rparr>) = Some (c, s\<lparr>pa_hash := h'\<rparr>)"
      "tables_ok k (s\<lparr>pa_hash := h'\<rparr>)" using looks_channel[OF t(2)] unfolding looks_def by fastforce
    then show ?thesis using False t(1) None len sc
      by (auto simp: do_numeric_def parse_good_def proper_out_def Let_def)
  qed
qed

lemma good_command:
  assumes ok: "tables_ok k s" and f: "f = client \<or> of_status k client = STAT_SERVER \<and> pe_from (en_peer e f) = client"
    and n: "length ch \<le> n"
  shows "parse_good e k client n (parse_command e client f ch b s)"
proof -
  consider "ch = []" | "ch \<noteq> []" "is_numeric ch" | "ch \<noteq> []" "\<not> is_numeric ch" "find_command (takeWhile (\<lambda>c. c \<noteq> CHR '' '') ch) (pa_table s) = None"
    | m where "ch \<noteq> []" "\<not> is_numeric ch" "find_command (takeWhile (\<lambda>c. c \<noteq> CHR '' '') ch) (pa_table s) = Some m" by blast
  then show ?thesis
  proof cases
    case 1
    then show ?thesis using ok by (simp add: parse_command_def parse_good_def tables_ok_def)
  next
    case 2
    have "3 < length ch" using 2 by (cases "length ch \<le> 3") (auto simp: is_numeric_def)
    then have "length (drop 4 ch) + 2 \<le> n" using n by simp
    moreover have "tables_ok k (s\<lparr>pa_stats := (pa_stats s)\<lparr>is_num := is_num (pa_stats s) + 1\<rparr>\<rparr>)" using ok by (simp add: tables_ok_def)
    ultimately show ?thesis using 2 good_numeric[OF _ f] by (simp add: parse_command_def)
  next
    case 3
    then show ?thesis using ok f unfolding parse_command_def parse_good_def
      by (auto simp: tables_ok_def proper_out_def is_status_def Let_def)
  next
    case 4
    have t: "tables_ok k (add_bytes m x s)" for x using ok by (simp add: tables_ok_def add_bytes_def)
    have ph: "parse_good e k client n (handle_command e m client f 0 [] (add_bytes m x s))" for x
      by (rule good_handle[OF t f]) (simp_all add: MAXPARA_def)
    have ps: "parse_good e k client n (handle_command e m client f (length (string_to_array q) + 1) (string_to_array q) (add_bytes m x s))" for x q
      by (rule good_handle[OF t f]) (simp_all add: array_short)
    show ?thesis using 4 ph ps by (simp add: parse_command_def Let_def split: option.split)
  qed
qed

lemma parse_returns: "tables_ok k s \<Longrightarrow> parse_good e k client (length line) (parse e client line n s)"
proof -
  assume ok: "tables_ok k s"
  define ch where "ch = skip_spaces line"
  obtain sender rest where cp: "cut_prefix (tl ch) = (sender, rest)" by fastforce
  have chl: "length ch \<le> length line" unfolding ch_def by (rule length_dropWhile_le)
  have tll: "length r \<le> length (tl ch)" if "c_strchr (tl ch) CHR '' '' = Some r" for r
    using suffix_length_le c_strchr_SomeD[OF that] by blast
  have "length (skip_spaces (tl r)) \<le> length r" for r :: string using length_dropWhile_le[of _ "tl r"] by (metis diff_le_self le_trans length_tl)
  then have "length rest \<le> length (tl ch)" using tll cp unfolding cut_prefix_def by (auto split: option.splits intro: le_trans)
  then have restl: "length rest \<le> length line" using chl by simp
  note own = good_command[OF _ disjI1[OF refl]]
  have p: "parse e client line n s =
    (if pe_defunct (en_peer e client) then Some (None, s)
     else if deref ch \<noteq> CHR '':'' then parse_command e client client ch (n - (length line - length ch)) s
     else if sender = [] \<or> \<not> is_status STAT_SERVER client s
     then parse_command e client client rest (n - (length line - length rest)) s
     else Option.bind (find_source e client sender s) (\<lambda>(fr, s).
            case (if fr = None \<and> masked_sid e client sender s then Some client else fr) of
              None \<Rightarrow>
                Some (Some (remove_unknown sender (takeWhile (\<lambda>c. c = CHR '' '') line @ CHR '':'' # sender)),
                      s\<lparr>pa_stats := (pa_stats s)\<lparr>is_unpf := is_unpf (pa_stats s) + 1\<rparr>\<rparr>)
            | Some fr \<Rightarrow>
                if pe_from (en_peer e fr) \<noteq> client
                then Some (Some (cancel_clients fr s),
                           s\<lparr>pa_stats := (pa_stats s)\<lparr>is_wrdi := is_wrdi (pa_stats s) + 1\<rparr>\<rparr>)
                else parse_command e client fr rest (n - (length line - length rest)) s))"
    by (simp add: parse_def Let_def ch_def[symmetric] cp)
  consider "pe_defunct (en_peer e client)" | "\<not> pe_defunct (en_peer e client)" "deref ch \<noteq> CHR '':'' \<or> sender = [] \<or> \<not> is_status STAT_SERVER client s"
    | "\<not> pe_defunct (en_peer e client)" "deref ch = CHR '':''" "sender \<noteq> []" "is_status STAT_SERVER client s" by blast
  then show ?thesis
  proof cases
    case 1
    then show ?thesis using ok by (simp add: p parse_good_def)
  next
    case 2
    then show ?thesis using own[OF ok chl] own[OF ok restl] by (simp add: p)
  next
    case 3
    have sv: "of_status k client = STAT_SERVER" using 3(4) ok by (simp add: is_status_def tables_ok_def)
    obtain r h where f: "find_source e client sender s = Some (r, s\<lparr>pa_hash := h\<rparr>)" "tables_ok k (s\<lparr>pa_hash := h\<rparr>)"
      using looks_source[OF ok] unfolding looks_def by blast
    let ?s = "s\<lparr>pa_hash := h\<rparr>"
    have stats: "tables_ok k (?s\<lparr>pa_stats := x\<rparr>)" for x using f(2) by (simp add: tables_ok_def)
    show ?thesis
    proof (cases "if r = None \<and> masked_sid e client sender ?s then Some client else r")
      case None
      then show ?thesis using 3 f(1) stats sv
        by (auto simp: p parse_good_def proper_out_def remove_unknown_def Let_def)
    next
      case (Some fr)
      show ?thesis
      proof (cases "pe_from (en_peer e fr) = client")
        case True
        then have "parse e client line n s = parse_command e client fr rest (n - (length line - length rest)) ?s"
          using 3 f(1) Some by (simp add: p)
        moreover have "parse_good e k client (length line) (parse_command e client fr rest (n - (length line - length rest)) ?s)"
          by (rule good_command[OF f(2) _ restl]) (use sv True in blast)
        ultimately show ?thesis by (simp only:)
      next
        case False
        then have "parse e client line n s = Some (Some (cancel_clients fr ?s), ?s\<lparr>pa_stats := (pa_stats ?s)\<lparr>is_wrdi := is_wrdi (pa_stats ?s) + 1\<rparr>\<rparr>)"
          using 3 f(1) Some by (simp add: p)
        then show ?thesis using stats sv False by (auto simp: parse_good_def proper_out_def cancel_clients_def Let_def)
      qed
    qed
  qed
qed

subsection \<open>Reading a line\<close>

lemma alpha_plain: "IsAlpha c \<Longrightarrow> c \<noteq> CHR '' '' \<and> c \<noteq> CHR '':'' \<and> \<not> IsDigit c"
  unfolding IsAlpha_eq IsDigit_eq char_eq_iff_ord by auto

lemma command_plain:
  assumes "command_name cmd"
  shows "CHR '' '' \<notin> set cmd" "cmd \<noteq> []" "hd cmd \<noteq> CHR '':''" "\<not> is_numeric (cmd @ r)" "skip_spaces (cmd @ r) = cmd @ r"
proof -
  obtain a b where ab: "cmd = a # b" "IsAlpha a" using assms by (cases cmd) (auto simp: command_name_def)
  show "CHR '' '' \<notin> set cmd" using assms alpha_plain by (auto simp: command_name_def alphas_def)
  show "cmd \<noteq> []" "hd cmd \<noteq> CHR '':''" "\<not> is_numeric (cmd @ r)" "skip_spaces (cmd @ r) = cmd @ r"
    using ab alpha_plain[OF ab(2)] by (simp_all add: is_numeric_def)
qed

lemma parse_command_read:
  assumes "command_name cmd" "find_command cmd (pa_table s) = Some m"
  shows "\<exists>b. parse_command e c f (cmd @ CHR '' '' # r) n s =
    handle_command e m c f (length (string_to_array r) + 1) (string_to_array r) (add_bytes m b s)"
proof -
  note p = command_plain[OF assms(1)]
  have "parse_command e c f (cmd @ CHR '' '' # r) n s =
    handle_command e m c f (length (string_to_array r) + 1) (string_to_array r) (add_bytes m (n - (length cmd + 1)) s)"
    unfolding parse_command_def Let_def strchr_append[OF p(1)] takeWhile_word[OF p(1)] assms(2) using p(4)[of "CHR '' '' # r"] by simp
  then show ?thesis by blast
qed

lemma array_params: "\<forall>x \<in> set ms. middle x \<Longrightarrow> length ms \<le> MAXPARA - 2 \<Longrightarrow> string_to_array (put_params ms l) = ms @ [l]"
proof -
  assume m: "\<forall>x \<in> set ms. middle x" and l: "length ms \<le> MAXPARA - 2"
  then have "skip_spaces (put_params ms l) \<noteq> []" using skip_put[OF m] put_nonempty[of ms l] by simp
  then show ?thesis using array_put[OF m, of "MAXPARA - 2" l] l by (simp add: string_to_array_def)
qed

lemma skip_word: "CHR '' '' \<notin> set w \<Longrightarrow> cut_prefix (w @ CHR '' '' # r) = (w, skip_spaces r)"
  using strchr_append[of "CHR '' ''" w r] takeWhile_word[of "CHR '' ''" w r] by (simp add: cut_prefix_def)

lemma parse_own_line:
  assumes "\<not> pe_defunct (en_peer e c)" "\<not> is_status STAT_SERVER c s" "command_name cmd"
    "pre = [] \<or> (\<exists>w. pre = CHR '':'' # w @ '' '' \<and> CHR '' '' \<notin> set w)"
  shows "\<exists>b. parse e c (pre @ cmd @ r) n s = parse_command e c c (cmd @ r) b s"
  using assms(4)
proof
  assume "pre = []"
  have "deref (cmd @ r) \<noteq> CHR '':''" using command_plain(2,3)[OF assms(3)] by (cases cmd) auto
  then show ?thesis using \<open>pre = []\<close> assms(1) command_plain(5)[OF assms(3), of r] by (simp add: parse_def) blast
next
  assume "\<exists>w. pre = CHR '':'' # w @ '' '' \<and> CHR '' '' \<notin> set w"
  then obtain w where w: "pre = CHR '':'' # w @ '' ''" "CHR '' '' \<notin> set w" by blast
  have "cut_prefix (w @ CHR '' '' # cmd @ r) = (w, cmd @ r)" using skip_word[OF w(2), of "cmd @ r"] command_plain(5)[OF assms(3), of r] by simp
  then show ?thesis using assms(1,2) w(1) by (simp add: parse_def) blast
qed

subsection \<open>Properties\<close>

text \<open>C12. From an empty tree every sequence of loaded, unloaded and searched commands behaves as on a
  set of commands in which the first of a name up to case stays; no operation reads behind a name,
  the report lists exactly the loaded commands, and when no command is left the tree is empty again: no node is lost.\<close>

theorem command_table_run:
  assumes "msg_tree s = clear_tree_parse" "(\<lambda>p. m_cmd (msgs s p)) = nm" "\<forall>p \<in> loads_of ops. command_name (nm p)"
  shows "\<exists>rs s' N. loads_run mod_add_cmd mod_del_cmd find_command ops s = Some (rs, s') \<and> loads_spec nm ops {} rs N \<and>
    set (report_messages s') = N \<and> (N = {} \<longrightarrow> msg_tree s' = clear_tree_parse)"
proof -
  have "commands nm s {}" using assms(1,2) tree_ok_new by (simp add: commands_def)
  from command_tree.loads_run_spec[OF this assms(3)] show ?thesis using commands_empty commands_report by blast
qed

definition no_message :: message where
  "no_message = \<lparr>m_cmd = ''join'', m_count = 0, m_rcount = 0, m_parameters = 2, m_maxpara = 0, m_flags = 0, m_bytes = 0\<rparr>"

definition example_table :: command_table where
  "example_table = \<lparr>msg_tree = clear_tree_parse, msgs = (\<lambda>p. no_message\<lparr>m_cmd := if p = 1 then ''JOIN'' else ''join''\<rparr>)\<rparr>"

lemma command_table_run_witness:
  "\<exists>rs s' N. loads_run mod_add_cmd mod_del_cmd find_command [Load 1, Look ''join'', Load 2, Unload 2, Look ''JOIN''] example_table =
      Some (rs, s') \<and> loads_spec (\<lambda>p. m_cmd (msgs example_table p)) [Load 1, Look ''join'', Load 2, Unload 2, Look ''JOIN''] {} rs N \<and>
    set (report_messages s') = N \<and> (N = {} \<longrightarrow> msg_tree s' = clear_tree_parse)"
  by (rule command_table_run) (simp_all add: example_table_def command_name_def IsAlpha_eq)

text \<open>C39. \<open>string_to_array\<close> reads back the parameters a line was made of, the last one with its spaces;
  from the fourteenth on everything is one parameter. No line gives more than fourteen.\<close>

theorem string_to_array_reads_back:
  assumes "\<forall>m \<in> set ms. middle m"
  shows "string_to_array (put_params ms l) =
      take (MAXPARA - 2) ms @ [if length ms \<le> MAXPARA - 2 then l else put_params (drop (MAXPARA - 2) ms) l] \<and>
    length (string_to_array line) < MAXPARA"
  using array_put[OF assms, of "MAXPARA - 2" l] skip_put[OF assms, of l] put_nonempty[of ms l] array_short[of line]
  by (simp add: string_to_array_def del: dropWhile_eq_Nil_conv)

lemma string_to_array_reads_back_witness:
  "string_to_array (put_params [''#a'', ''+o'', ''x''] ''a b'') = [''#a'', ''+o'', ''x'', ''a b'']"
  using string_to_array_reads_back[of "[''#a'', ''+o'', ''x'']" "''a b''"] by (simp add: middle_def MAXPARA_def)

text \<open>The fourteenth parameter keeps the spaces before it, and loses a colon only where no space is
  before it.\<close>

lemma fourteenth_parameter:
  "last (string_to_array ''a b c d e f g h i j k l m  :n o'') = '' :n o''"
  "last (string_to_array ''a b c d e f g h i j k l m :n o'') = ''n o''"
  by (simp_all add: string_to_array_def MAXPARA_def Let_def numeral_eq_Suc)

text \<open>C9. \<open>parse\<close> returns on every line, and whatever the line, nobody but a server speaks for another,
  and it only for those behind its own link; a handler gets at least as many parameters as its
  command demands and at most fourteen; numerics come from servers, never go back over the link they
  came from and fit the buffer; only servers are told of unknown prefixes.\<close>

theorem parse_dispatch:
  assumes "tables_ok k s"
  shows "\<exists>out s'. parse e client line n s = Some (out, s') \<and> tables_ok k s' \<and>
    (\<forall>y. out = Some y \<longrightarrow> proper_out e k client (length line) s' y)"
  using parse_returns[OF assms] by (simp add: parse_good_def)

definition example_parse :: parse_state where
  "example_parse = \<lparr>pa_hash = no_objects, pa_table = mod_add_cmd 1 example_table,
     pa_stats = \<lparr>is_unco = 0, is_wrdi = 0, is_unpf = 0, is_empt = 0, is_num = 0\<rparr>\<rparr>"

definition example_names :: names where
  "example_names = \<lparr>of_client = client_name no_objects, of_id = client_id no_objects, of_chan = chname no_objects,
     of_status = client_status no_objects\<rparr>"

definition example_peers :: parse_env where
  "example_peers = \<lparr>en_peer = (\<lambda>p. \<lparr>pe_from = p, pe_handler = 1, pe_defunct = False, pe_ts6 = False, pe_oper = False,
     pe_local = True, pe_invisible = False\<rparr>), en_hide_servers = False, en_me = ''me''\<rparr>"

lemma example_tables: "tables_ok example_names example_parse"
proof -
  have f: "client_name (init_hash r s) = client_name s" "client_id (init_hash r s) = client_id s" "chname (init_hash r s) = chname s" for r s
    by (simp_all add: init_hash_def)
  then have "clients (client_name no_objects) no_objects {}" "ids (client_id no_objects) no_objects {}"
    "channels (chname no_objects) no_objects {}" unfolding no_objects_def by (simp_all only: init_hash_empty)
  then show ?thesis by (auto simp: tables_ok_def example_parse_def example_names_def)
qed

lemma parse_dispatch_witness:
  "\<exists>out s'. parse example_peers 2 '':1AB 001 bob :Welcome'' 20 example_parse = Some (out, s') \<and> tables_ok example_names s'"
  using parse_dispatch[OF example_tables, of example_peers 2 "'':1AB 001 bob :Welcome''" 20] by blast

text \<open>C40. The line of a registered client that is no server calls the handler of its command with the
  parameters it was made of, and a prefix in front of it, whoever it names, changes nothing.\<close>

theorem client_line_parsed:
  assumes "\<not> pe_defunct (en_peer e c)" "\<not> is_status STAT_SERVER c s" "client_status (pa_hash s) c > STAT_UNKNOWN"
    "command_name cmd" "find_command cmd (pa_table s) = Some m"
    "\<forall>x \<in> set ms. middle x" "length ms \<le> MAXPARA - 2" "unat (m_parameters (msgs (pa_table s) m)) \<le> length ms + 2"
    "pre = [] \<or> (\<exists>w. pre = CHR '':'' # w @ '' '' \<and> CHR '' '' \<notin> set w)"
  shows "\<exists>s'. parse e c (pre @ cmd @ '' '' @ put_params ms l) n s =
      Some (Some (Handle (pe_handler (en_peer e c)) m c c (length ms + 2) (ms @ [l])), s') \<and>
    m_count (msgs (pa_table s') m) = m_count (msgs (pa_table s) m) + 1"
proof -
  obtain b where "parse e c (pre @ cmd @ '' '' @ put_params ms l) n s = parse_command e c c (cmd @ '' '' @ put_params ms l) b s"
    using parse_own_line[OF assms(1,2,4,9)] by blast
  moreover obtain b' where "parse_command e c c (cmd @ CHR '' '' # put_params ms l) b s =
    handle_command e m c c (length (string_to_array (put_params ms l)) + 1) (string_to_array (put_params ms l)) (add_bytes m b' s)"
    using parse_command_read[OF assms(4,5)] by blast
  moreover note array_params[OF assms(6,7), of l]
  ultimately show ?thesis using assms(2,3,8)
    by (simp add: handle_command_def count_message_def add_bytes_def is_status_def Let_def)
qed

lemma client_line_parsed_witness:
  "\<exists>s'. parse example_peers 1 ('':bob '' @ ''join'' @ '' '' @ put_params [''#a''] ''key'') 20 example_parse =
      Some (Some (Handle 1 1 1 1 3 [''#a'', ''key'']), s')"
proof -
  have find: "find_command ''join'' (pa_table example_parse) = Some 1"
    by (simp add: example_parse_def mod_add_cmd_def find_command_def example_table_def clear_tree_parse_def char_index_def
        MAXPTRLEN_def IsAlpha_eq)
  have name: "command_name ''join''" by (simp add: command_name_def IsAlpha_eq)
  have msg: "unat (m_parameters (msgs (pa_table example_parse) 1)) \<le> 3"
    by (simp add: example_parse_def mod_add_cmd_def example_table_def no_message_def split: option.split)
  have st: "client_status (pa_hash example_parse) 1 = STAT_CLIENT" by (simp add: example_parse_def no_objects_def init_hash_def)
  show ?thesis
    using client_line_parsed[of example_peers 1 example_parse "''join''" 1 "[''#a'']" "'':bob ''" "''key''" 20] find name msg st
    by (auto simp: example_peers_def is_status_def stat_defs middle_def MAXPARA_def)
qed

end
