(* ===== verification/Client_Exit.thy ===== *)
theory Client_Exit
  imports Join Whowas Userhost
begin

text \<open>
  \<^verbatim>\<open>src/client.c\<close>: the exit of clients. A client, a server with everything behind it, or a
  connection that never registered leaves every table: the lists of its server, channels and
  invitations (theory Channel), accept lists, nick history (Whowas), the hash tables of names and
  IDs (Hash), the sessions per host (Userhost), the global lists and the counters; then its memory
  is freed.

  The state \<open>net\<close> puts the states of these theories together. \<open>ne_world\<close> has all clients, servers
  included; \<open>ne_node\<close> the fields of a \<open>struct Client\<close> that link it to others. A failed
  \<open>assert\<close> is \<open>None\<close>, like a NULL dereference, so the theorems show that no assertion fails; those
  about a listener's reference count and the capability counters are not modelled.
  Sockets, pending ident queries, class counters and operator notices are not here.
\<close>

subsection \<open>The state\<close>

record serv =
  sv_servers :: "ptr list"
  sv_users :: "ptr list"
  dep_servers :: int
  dep_users :: int

record node =
  nd_from :: "ptr option"
  nd_servptr :: "ptr option"
  nd_serv :: "serv option"
  nd_allow :: "ptr list"
  nd_on_allow :: "ptr list"
  nd_qs :: bool
  nd_killed :: bool
  nd_closing :: bool
  nd_dead :: bool
  nd_userhost :: bool
  nd_invisible :: bool
  nd_info :: string

record counters =
  cn_total :: int
  cn_oper :: int
  cn_invisi :: int
  cn_local :: int
  cn_myserver :: int

datatype net_out =
  Quit_channels ptr                 \<comment> \<open>to the local members of its channels\<close>
| Quit_servers ptr                  \<comment> \<open>to all servers\<close>
| Quit_to ptr ptr                   \<comment> \<open>to a server, of a user\<close>
| Squit_to ptr ptr                  \<comment> \<open>to a server, of a server\<close>
| Squit_me ptr                      \<comment> \<open>to the server that goes\<close>
| Closing_link ptr

record net =
  ne_world :: chan_world
  ne_who :: wh_state
  ne_uh :: uh_state
  ne_node :: "ptr \<Rightarrow> node"
  global_client_list :: "ptr list"
  global_serv_list :: "ptr list"
  local_client_list :: "ptr list"
  unknown_list :: "ptr list"
  serv_list :: "ptr list"
  oper_list :: "ptr list"
  dead_list :: "ptr list"
  ne_counts :: counters
  ne_out :: "net_out list"

record exit_env =
  xe_me :: ptr
  xe_hub :: bool
  xe_now :: time_t
  xe_history :: nat
  xe_link_name :: "ptr \<Rightarrow> string"

abbreviation user_of :: "net \<Rightarrow> ptr \<Rightarrow> user option" where
  "user_of N p \<equiv> users (ne_world N) p"

definition upd_node :: "ptr \<Rightarrow> (node \<Rightarrow> node) \<Rightarrow> net \<Rightarrow> net" where
  "upd_node p f N = N\<lparr>ne_node := (ne_node N)(p := f (ne_node N p))\<rparr>"

definition upd_serv :: "ptr option \<Rightarrow> (serv \<Rightarrow> serv option) \<Rightarrow> net \<Rightarrow> net option" where
  "upd_serv q f N =
     Option.bind q (\<lambda>q.
     Option.bind (nd_serv (ne_node N q)) (\<lambda>sv.
       map_option (\<lambda>sv. upd_node q (\<lambda>n. n\<lparr>nd_serv := Some sv\<rparr>) N) (f sv)))"

definition check :: "bool \<Rightarrow> 'a \<Rightarrow> 'a option" where
  "check b x = (if b then Some x else None)"

definition emit :: "net_out list \<Rightarrow> net \<Rightarrow> net" where
  "emit o' N = N\<lparr>ne_out := ne_out N @ o'\<rparr>"

subsection \<open>Accept lists\<close>

definition del_from_accept :: "ptr \<Rightarrow> ptr \<Rightarrow> net \<Rightarrow> net" where
  "del_from_accept source target N =
     (if source \<in> set (nd_allow (ne_node N target))
      then upd_node source (\<lambda>n. n\<lparr>nd_on_allow := filter (\<lambda>p. p \<noteq> target) (nd_on_allow n)\<rparr>)
             (upd_node target (\<lambda>n. n\<lparr>nd_allow := filter (\<lambda>p. p \<noteq> source) (nd_allow n)\<rparr>) N)
      else N)"

definition del_all_their_accepts :: "ptr \<Rightarrow> net \<Rightarrow> net" where
  "del_all_their_accepts p N = fold (\<lambda>q. del_from_accept p q) (nd_on_allow (ne_node N p)) N"

definition del_all_accepts :: "ptr \<Rightarrow> net \<Rightarrow> net" where
  "del_all_accepts p N =
     del_all_their_accepts p (fold (\<lambda>q. del_from_accept q p) (nd_allow (ne_node N p)) N)"

text \<open>\<open>IsMember\<close> gets the data of the list of channels, which are memberships.\<close>

definition accept_message :: "ptr \<Rightarrow> ptr \<Rightarrow> bool \<Rightarrow> net \<Rightarrow> bool option" where
  "accept_message source target soft N =
     (if source \<in> set (nd_allow (ne_node N target)) then Some True
      else if \<not> soft then Some False
      else Option.bind (user_of N target) (\<lambda>u.
        foldr (\<lambda>ms r. Option.bind (find_channel_link source ms (ne_world N)) (\<lambda>lk.
          if lk \<noteq> None then Some True else r)) (us_channel u) (Some False)))"

subsection \<open>One client\<close>

definition history_of :: "ptr \<Rightarrow> user \<Rightarrow> net \<Rightarrow> wh_client" where
  "history_of p u N =
     \<lparr>wc_name = us_name u, wc_username = us_username u, wc_host = us_host u, wc_info = nd_info (ne_node N p),
      wc_server = Option.bind (nd_servptr (ne_node N p)) (\<lambda>q. map_option us_name (user_of N q))\<rparr>"

text \<open>\<open>source_p->from->serv\<close> of a remote client or server.\<close>

definition leave_link :: "user \<Rightarrow> ptr \<Rightarrow> (serv \<Rightarrow> serv option) \<Rightarrow> net \<Rightarrow> net option" where
  "leave_link u p f N = (if us_local u then Some N else upd_serv (nd_from (ne_node N p)) f N)"

definition server_off :: "user \<Rightarrow> ptr \<Rightarrow> net \<Rightarrow> net option" where
  "server_off u p N =
     Option.bind (upd_serv (nd_servptr (ne_node N p))
         (\<lambda>sv. map_option (\<lambda>l. sv\<lparr>sv_servers := l\<rparr>) (dl_remove p (sv_servers sv))) N) (\<lambda>N.
       leave_link u p (\<lambda>sv. check (dep_servers sv - 1 > 0) (sv\<lparr>dep_servers := dep_servers sv - 1\<rparr>))
         (N\<lparr>global_serv_list := remove1 p (global_serv_list N)\<rparr>))"

definition user_off :: "exit_env \<Rightarrow> user \<Rightarrow> ptr \<Rightarrow> net \<Rightarrow> net option" where
  "user_off e u p N =
     Option.bind (nd_servptr (ne_node N p)) (\<lambda>q.
     Option.bind (if nd_serv (ne_node N q) = None then Some N
         else upd_serv (Some q) (\<lambda>sv. map_option (\<lambda>l. sv\<lparr>sv_users := l\<rparr>) (dl_remove p (sv_users sv))) N) (\<lambda>N.
     Option.bind (exit_channels (xe_hub e) p (ne_world N)) (\<lambda>w.
       let N = del_all_accepts p (emit [Quit_channels p] (N\<lparr>ne_world := w\<rparr>));
           h = add_history (xe_history e) (ircd_random_key (chan_hash w)) (xe_now e) p (history_of p u N) False (ne_who N)
       in Option.bind (off_history p h) (\<lambda>h.
         leave_link u p (\<lambda>sv. check (dep_users sv - 1 \<ge> 0) (sv\<lparr>dep_users := dep_users sv - 1\<rparr>)) (N\<lparr>ne_who := h\<rparr>)))))"

text \<open>The hash tables, the sessions, the global list, the counters and the dead list.\<close>

definition upd_hash :: "(hash_state \<Rightarrow> hash_state option) \<Rightarrow> net \<Rightarrow> net option" where
  "upd_hash f N = map_option (\<lambda>h. N\<lparr>ne_world := (ne_world N)\<lparr>chan_hash := h\<rparr>\<rparr>) (f (chan_hash (ne_world N)))"

definition tables_off :: "user \<Rightarrow> ptr \<Rightarrow> net \<Rightarrow> net option" where
  "tables_off u p N =
     Option.bind (if us_id u \<noteq> [] then upd_hash (hash_del_id p) N else Some N) (\<lambda>N.
     Option.bind (if us_name u \<noteq> [] then upd_hash (hash_del_client p) N else Some N) (\<lambda>N.
       if nd_userhost (ne_node N p)
       then map_option (\<lambda>s. N\<lparr>ne_uh := s\<rparr>) (delete_user_host (us_username u) (us_host u) (\<not> us_local u) (ne_uh N))
       else Some N))"

definition update_client_exit_stats :: "user \<Rightarrow> ptr \<Rightarrow> net \<Rightarrow> net" where
  "update_client_exit_stats u p N =
     (if us_status u = STAT_CLIENT
      then N\<lparr>ne_counts := (ne_counts N)\<lparr>cn_total := cn_total (ne_counts N) - 1,
               cn_oper := cn_oper (ne_counts N) - (if us_oper u then 1 else 0),
               cn_invisi := cn_invisi (ne_counts N) - (if nd_invisible (ne_node N p) then 1 else 0)\<rparr>\<rparr>
      else N)"

definition lists_off :: "user \<Rightarrow> ptr \<Rightarrow> net \<Rightarrow> net option" where
  "lists_off u p N =
     (let N = N\<lparr>global_client_list := remove1 p (global_client_list N)\<rparr>;
          N = update_client_exit_stats u p N
      in check (p \<notin> set (dead_list N))
           (upd_node p (\<lambda>n. n\<lparr>nd_dead := True\<rparr>) (N\<lparr>dead_list := p # dead_list N\<rparr>)))"

definition exit_one_client :: "exit_env \<Rightarrow> ptr \<Rightarrow> net \<Rightarrow> net option" where
  "exit_one_client e p N =
     Option.bind (user_of N p) (\<lambda>u.
     Option.bind (check (us_status u \<noteq> STAT_ME) N) (\<lambda>N.
     Option.bind (if IsServer u then server_off u p N else if IsClient u then user_off e u p N else Some N) (\<lambda>N.
     Option.bind (tables_off u p N) (lists_off u p))))"

subsection \<open>What the tables should hold\<close>

text \<open>What does not change of a client while it lives: the record without its channels and
  invitations, its server, its link, two flags, whether it is on the global list; a height that goes up towards this server.
  \<open>V\<close> is the set of the clients there are.\<close>

record kin =
  k_user :: "ptr \<Rightarrow> user"
  k_up :: "ptr \<Rightarrow> ptr option"
  k_from :: "ptr \<Rightarrow> ptr option"
  k_userhost :: "ptr \<Rightarrow> bool"
  k_invisible :: "ptr \<Rightarrow> bool"
  k_global :: "ptr \<Rightarrow> bool"
  k_height :: "ptr \<Rightarrow> nat"
  k_me :: ptr

definition is_cl :: "kin \<Rightarrow> ptr \<Rightarrow> bool" where "is_cl K p \<longleftrightarrow> IsClient (k_user K p)"
definition is_sv :: "kin \<Rightarrow> ptr \<Rightarrow> bool" where "is_sv K p \<longleftrightarrow> IsServer (k_user K p)"
definition is_far :: "kin \<Rightarrow> ptr \<Rightarrow> bool" where "is_far K p \<longleftrightarrow> \<not> us_local (k_user K p)"

inductive_set behind :: "kin \<Rightarrow> ptr \<Rightarrow> ptr set" for K p where
  self: "p \<in> behind K p"
| up: "q \<in> behind K p \<Longrightarrow> k_up K x = Some q \<Longrightarrow> x \<in> behind K p"

definition kin_ok :: "kin \<Rightarrow> ptr set \<Rightarrow> bool" where
  "kin_ok K V \<longleftrightarrow> finite V \<and> k_me K \<in> V \<and> us_status (k_user K (k_me K)) = STAT_ME \<and>
     (\<forall>p \<in> V. us_status (k_user K p) = STAT_ME \<longrightarrow> p = k_me K) \<and>
     (\<forall>p \<in> V. is_cl K p \<or> is_sv K p \<longrightarrow> k_up K p \<noteq> None) \<and>
     (\<forall>p \<in> V. \<forall>q. k_up K p = Some q \<longrightarrow> q \<in> V \<and> (is_sv K q \<or> q = k_me K)) \<and>
     (\<forall>p \<in> V. \<forall>q. \<not> is_far K p \<and> k_up K p = Some q \<longrightarrow> q = k_me K) \<and>
     (\<forall>p \<in> V. \<forall>q. is_sv K p \<and> k_up K p = Some q \<longrightarrow> k_height K p < k_height K q) \<and>
     (\<forall>p \<in> V. is_far K p \<longrightarrow> (is_cl K p \<or> is_sv K p) \<and> (\<exists>f \<in> V. k_from K p = Some f \<and> is_sv K f \<and> \<not> is_far K f \<and> p \<in> behind K f)) \<and>
     (\<forall>p \<in> V. is_cl K p \<longrightarrow> length (us_name (k_user K p)) < NICKLEN)"

definition users_at :: "kin \<Rightarrow> ptr set \<Rightarrow> ptr \<Rightarrow> ptr set" where
  "users_at K V q = {p \<in> V. is_cl K p \<and> k_up K p = Some q}"

definition servers_at :: "kin \<Rightarrow> ptr set \<Rightarrow> ptr \<Rightarrow> ptr set" where
  "servers_at K V q = {p \<in> V. is_sv K p \<and> k_up K p = Some q}"

definition users_over :: "kin \<Rightarrow> ptr set \<Rightarrow> ptr \<Rightarrow> ptr set" where
  "users_over K V f = {p \<in> V. is_cl K p \<and> is_far K p \<and> k_from K p = Some f}"

definition servers_over :: "kin \<Rightarrow> ptr set \<Rightarrow> ptr \<Rightarrow> ptr set" where
  "servers_over K V f = {p \<in> V. is_sv K p \<and> is_far K p \<and> k_from K p = Some f}"

lemmas at_defs = users_at_def servers_at_def users_over_def servers_over_def

lemma at_minus [simp]:
  "users_at K (V - {p}) q = users_at K V q - {p}" "servers_at K (V - {p}) q = servers_at K V q - {p}"
  "users_over K (V - {p}) q = users_over K V q - {p}" "servers_over K (V - {p}) q = servers_over K V q - {p}"
  by (auto simp: at_defs)

text \<open>The lists of the servers in \<open>D\<close> hold the clients in \<open>A\<close>, their counters count those in \<open>B\<close>.\<close>

definition serv_good :: "kin \<Rightarrow> ptr set \<Rightarrow> ptr set \<Rightarrow> ptr \<Rightarrow> serv \<Rightarrow> bool" where
  "serv_good K A B q sv \<longleftrightarrow> distinct (sv_users sv) \<and> distinct (sv_servers sv) \<and>
     set (sv_users sv) = users_at K A q \<and> set (sv_servers sv) = servers_at K A q \<and>
     (is_sv K q \<longrightarrow> dep_users sv = int (card (users_over K B q)) \<and> dep_servers sv = 1 + int (card (servers_over K B q)))"

definition serv_ok :: "kin \<Rightarrow> (ptr \<Rightarrow> serv option) \<Rightarrow> ptr set \<Rightarrow> ptr set \<Rightarrow> ptr set \<Rightarrow> bool" where
  "serv_ok K S D A B \<longleftrightarrow> (\<forall>q \<in> D. is_sv K q \<or> q = k_me K \<longrightarrow> (\<exists>sv. S q = Some sv \<and> serv_good K A B q sv))"

definition chans_ok :: "kin \<Rightarrow> chan_world \<Rightarrow> ptr set \<Rightarrow> bool" where
  "chans_ok K w V \<longleftrightarrow> chan_inv w \<and> (\<forall>p. \<not> (p \<in> V \<and> is_cl K p) \<longrightarrow> uchans w p = [] \<and> uinvs w p = [])"

text \<open>\<open>hnext\<close> points to the client itself while it is in no bucket.\<close>

definition selfs :: "hash_state \<Rightarrow> ptr set" where
  "selfs h = {p. hlink (clientTable h) p = Some p}"

definition hash_ok :: "kin \<Rightarrow> hash_state \<Rightarrow> ptr set \<Rightarrow> bool" where
  "hash_ok K h V \<longleftrightarrow> (\<forall>p \<in> V. client_name h p = us_name (k_user K p) \<and> client_id h p = us_id (k_user K p) \<and>
       (us_name (k_user K p) = [] \<longrightarrow> p \<in> selfs h)) \<and>
     clients (client_name h) h {p \<in> V. us_name (k_user K p) \<noteq> []} \<and> ids (client_id h) h {p \<in> V. us_id (k_user K p) \<noteq> []}"

definition accept_ok :: "kin \<Rightarrow> (ptr \<Rightarrow> ptr list) \<Rightarrow> (ptr \<Rightarrow> ptr list) \<Rightarrow> ptr set \<Rightarrow> bool" where
  "accept_ok K A B V \<longleftrightarrow> (\<forall>p q. q \<in> set (A p) \<longleftrightarrow> p \<in> set (B q)) \<and>
     (\<forall>p. \<not> (p \<in> V \<and> is_cl K p) \<longrightarrow> A p = [] \<and> B p = [])"

definition past_ok :: "nat \<Rightarrow> kin \<Rightarrow> u32 \<Rightarrow> wh_state \<Rightarrow> ptr set \<Rightarrow> bool" where
  "past_ok n K rk s V \<longleftrightarrow> (\<exists>H. wh_repr n rk s H \<and> (\<forall>x \<in> set H. \<forall>c. online x = Some c \<longrightarrow> c \<in> V \<and> is_cl K c))"

definition session_of :: "kin \<Rightarrow> ptr \<Rightarrow> session" where
  "session_of K p = (us_username (k_user K p), us_host (k_user K p), is_far K p)"

definition hosts_ok :: "kin \<Rightarrow> uh_state \<Rightarrow> ptr set \<Rightarrow> bool" where
  "hosts_ok K s V \<longleftrightarrow> (\<exists>M. uh_repr s M (image_mset (session_of K) (mset_set {p \<in> V. k_userhost K p})))"

definition globals_ok :: "kin \<Rightarrow> net \<Rightarrow> ptr set \<Rightarrow> bool" where
  "globals_ok K N V \<longleftrightarrow> distinct (global_client_list N) \<and>
     set (global_client_list N) = {p \<in> V. k_global K p}"

definition globserv_ok :: "kin \<Rightarrow> ptr list \<Rightarrow> ptr set \<Rightarrow> bool" where
  "globserv_ok K l V \<longleftrightarrow> distinct l \<and> set l = {p \<in> V. is_sv K p \<or> p = k_me K}"

definition counts_ok :: "kin \<Rightarrow> counters \<Rightarrow> ptr set \<Rightarrow> bool" where
  "counts_ok K c V \<longleftrightarrow> cn_total c = int (card {p \<in> V. is_cl K p}) \<and>
     cn_oper c = int (card {p \<in> V. is_cl K p \<and> us_oper (k_user K p)}) \<and>
     cn_invisi c = int (card {p \<in> V. is_cl K p \<and> k_invisible K p})"

text \<open>The dead ones are still allocated, and nothing else is.\<close>

definition dead_ok :: "net \<Rightarrow> ptr set \<Rightarrow> bool" where
  "dead_ok N V \<longleftrightarrow> distinct (dead_list N) \<and> V \<inter> set (dead_list N) = {} \<and>
     dom (users (ne_world N)) = V \<union> set (dead_list N) \<and>
     set (dead_list N) \<subseteq> selfs (chan_hash (ne_world N)) \<and>
     (\<forall>p \<in> set (dead_list N). nd_dead (ne_node N p) \<and> (is_local (ne_world N) p \<longrightarrow> nd_closing (ne_node N p)))"

definition core_ok :: "kin \<Rightarrow> net \<Rightarrow> ptr set \<Rightarrow> bool" where
  "core_ok K N V \<longleftrightarrow> (\<forall>p \<in> V. client_core (ne_world N) p = Some (k_user K p) \<and>
     nd_servptr (ne_node N p) = k_up K p \<and> (is_far K p \<longrightarrow> nd_from (ne_node N p) = k_from K p) \<and>
     nd_userhost (ne_node N p) = k_userhost K p \<and> nd_invisible (ne_node N p) = k_invisible K p)"

definition net_inv :: "exit_env \<Rightarrow> kin \<Rightarrow> net \<Rightarrow> ptr set \<Rightarrow> bool" where
  "net_inv e K N V \<longleftrightarrow> kin_ok K V \<and> k_me K = xe_me e \<and> core_ok K N V \<and> serv_ok K (\<lambda>q. nd_serv (ne_node N q)) V V V \<and>
     chans_ok K (ne_world N) V \<and> hash_ok K (chan_hash (ne_world N)) V \<and>
     accept_ok K (\<lambda>p. nd_allow (ne_node N p)) (\<lambda>p. nd_on_allow (ne_node N p)) V \<and>
     past_ok (xe_history e) K (ircd_random_key (chan_hash (ne_world N))) (ne_who N) V \<and>
     hosts_ok K (ne_uh N) V \<and> globals_ok K N V \<and> globserv_ok K (global_serv_list N) V \<and>
     counts_ok K (ne_counts N) V \<and> dead_ok N V"

subsection \<open>The lists of the servers\<close>

lemma remove1_good: "distinct xs \<Longrightarrow> set (remove1 p xs) = set xs - {p} \<and> distinct (remove1 p xs)"
  by (simp add: set_remove1_eq)

lemma serv_okD: "serv_ok K S D A B \<Longrightarrow> q \<in> D \<Longrightarrow> is_sv K q \<or> q = k_me K \<Longrightarrow> \<exists>sv. S q = Some sv \<and> serv_good K A B q sv"
  unfolding serv_ok_def by blast

lemma kin_up: "kin_ok K V \<Longrightarrow> p \<in> V \<Longrightarrow> k_up K p = Some q \<Longrightarrow> q \<in> V \<and> (is_sv K q \<or> q = k_me K)"
  by (simp add: kin_ok_def)

lemma kin_has_up: "kin_ok K V \<Longrightarrow> p \<in> V \<Longrightarrow> is_cl K p \<or> is_sv K p \<Longrightarrow> \<exists>q. k_up K p = Some q"
  unfolding kin_ok_def by blast

lemma cl_not_sv: "is_cl K p \<Longrightarrow> \<not> is_sv K p"
  by (simp add: is_cl_def is_sv_def IsClient_def IsServer_def STAT_CLIENT_def STAT_SERVER_def)

lemma me_kind: "kin_ok K V \<Longrightarrow> \<not> is_cl K (k_me K) \<and> \<not> is_sv K (k_me K)"
  by (simp add: kin_ok_def is_cl_def is_sv_def IsClient_def IsServer_def stat_defs)

lemma card_less: "finite X \<Longrightarrow> p \<in> X \<Longrightarrow> int (card (X - {p})) = int (card X) - 1"
  using card_Suc_Diff1[of X p] by simp

lemma off_users:
  assumes s: "serv_ok K S D A B" and q: "q \<in> D" "is_sv K q \<or> q = k_me K" and p: "p \<in> A" "is_cl K p" "k_up K p = Some q"
  shows "\<exists>sv. S q = Some sv \<and> p \<in> set (sv_users sv) \<and> serv_ok K (S(q \<mapsto> sv\<lparr>sv_users := remove1 p (sv_users sv)\<rparr>)) D (A - {p}) B"
proof -
  obtain sv where sv: "S q = Some sv" "serv_good K A B q sv" using serv_okD[OF s q] by blast
  have "p \<notin> users_at K A r" "p \<notin> servers_at K A r" if "r \<noteq> q" for r using that p(3) by (auto simp: at_defs)
  moreover have "p \<notin> servers_at K A q" using cl_not_sv[OF p(2)] by (simp add: at_defs)
  moreover have "p \<in> users_at K A q" using p by (simp add: at_defs)
  ultimately show ?thesis using sv s by (auto simp: serv_ok_def serv_good_def set_remove1_eq)
qed

lemma off_servers:
  assumes s: "serv_ok K S D A B" and q: "q \<in> D" "is_sv K q \<or> q = k_me K" and p: "p \<in> A" "is_sv K p" "k_up K p = Some q"
  shows "\<exists>sv. S q = Some sv \<and> p \<in> set (sv_servers sv) \<and> serv_ok K (S(q \<mapsto> sv\<lparr>sv_servers := remove1 p (sv_servers sv)\<rparr>)) D (A - {p}) B"
proof -
  obtain sv where sv: "S q = Some sv" "serv_good K A B q sv" using serv_okD[OF s q] by blast
  have "p \<notin> users_at K A r" "p \<notin> servers_at K A r" if "r \<noteq> q" for r using that p(3) by (auto simp: at_defs)
  moreover have "p \<notin> users_at K A q" using cl_not_sv p(2) by (auto simp: at_defs)
  moreover have "p \<in> servers_at K A q" using p by (simp add: at_defs)
  ultimately show ?thesis using sv s by (auto simp: serv_ok_def serv_good_def set_remove1_eq)
qed

lemma off_dep_users:
  assumes s: "serv_ok K S D A B" and f: "f \<in> D" "is_sv K f" and p: "p \<in> B" "is_cl K p" "is_far K p" "k_from K p = Some f"
    and fin: "finite B"
  shows "\<exists>sv. S f = Some sv \<and> 0 \<le> dep_users sv - 1 \<and> serv_ok K (S(f \<mapsto> sv\<lparr>dep_users := dep_users sv - 1\<rparr>)) D A (B - {p})"
proof -
  obtain sv where sv: "S f = Some sv" "serv_good K A B f sv" using serv_okD[OF s f(1)] f(2) by blast
  have "p \<notin> users_over K B r" if "r \<noteq> f" for r using that p(4) by (auto simp: at_defs)
  moreover have "p \<notin> servers_over K B r" for r using cl_not_sv[OF p(2)] by (simp add: at_defs)
  moreover have m: "p \<in> users_over K B f" "finite (users_over K B f)" using p fin by (simp_all add: at_defs)
  moreover note card_less[OF m(2,1)]
  moreover have "0 < card (users_over K B f)" using m by (auto simp: card_gt_0_iff)
  ultimately show ?thesis using sv s f by (auto simp: serv_ok_def serv_good_def)
qed

lemma off_dep_servers:
  assumes s: "serv_ok K S D A B" and f: "f \<in> D" "is_sv K f" and p: "p \<in> B" "is_sv K p" "is_far K p" "k_from K p = Some f"
    and fin: "finite B"
  shows "\<exists>sv. S f = Some sv \<and> 0 < dep_servers sv - 1 \<and> serv_ok K (S(f \<mapsto> sv\<lparr>dep_servers := dep_servers sv - 1\<rparr>)) D A (B - {p})"
proof -
  obtain sv where sv: "S f = Some sv" "serv_good K A B f sv" using serv_okD[OF s f(1)] f(2) by blast
  have "p \<notin> servers_over K B r" if "r \<noteq> f" for r using that p(4) by (auto simp: at_defs)
  moreover have "p \<notin> users_over K B r" for r using cl_not_sv p(2) by (auto simp: at_defs)
  moreover have m: "p \<in> servers_over K B f" "finite (servers_over K B f)" using p fin by (simp_all add: at_defs)
  moreover note card_less[OF m(2,1)]
  moreover have "0 < card (servers_over K B f)" using m by (auto simp: card_gt_0_iff)
  ultimately show ?thesis using sv s f by (auto simp: serv_ok_def serv_good_def)
qed

lemma off_near: "serv_ok K S D A B \<Longrightarrow> \<not> is_far K p \<Longrightarrow> serv_ok K S D A (B - {p})"
proof -
  assume "\<not> is_far K p"
  then have "p \<notin> users_over K B r" "p \<notin> servers_over K B r" for r by (simp_all add: at_defs)
  moreover assume "serv_ok K S D A B"
  ultimately show ?thesis by (simp add: serv_ok_def serv_good_def)
qed

lemma off_other: "serv_ok K S D A B \<Longrightarrow> \<not> is_cl K p \<Longrightarrow> \<not> is_sv K p \<Longrightarrow> serv_ok K S D (A - {p}) (B - {p})"
proof -
  assume "\<not> is_cl K p" "\<not> is_sv K p"
  then have "p \<notin> users_over K B r" "p \<notin> servers_over K B r" "p \<notin> users_at K A r" "p \<notin> servers_at K A r" for r
    by (simp_all add: at_defs)
  moreover assume "serv_ok K S D A B"
  ultimately show ?thesis by (simp add: serv_ok_def serv_good_def)
qed

lemma serv_ok_subset: "serv_ok K S D A B \<Longrightarrow> D' \<subseteq> D \<Longrightarrow> serv_ok K S D' A B"
  by (auto simp: serv_ok_def)

subsection \<open>The channels\<close>

text \<open>The tables beside that of the channels.\<close>

definition other_tables :: "chan_world \<Rightarrow> hash_state" where
  "other_tables w = (chan_hash w)\<lparr>channelTable := \<lparr>bucket = \<lambda>_. None, hlink = \<lambda>_. None\<rparr>\<rparr>"

definition fewer :: "chan_world \<Rightarrow> chan_world \<Rightarrow> bool" where
  "fewer w w' \<longleftrightarrow> (\<forall>p. set (uchans w' p) \<subseteq> set (uchans w p) \<and> set (uinvs w' p) \<subseteq> set (uinvs w p)) \<and>
     other_tables w' = other_tables w"

lemma fewer_refl [simp]: "fewer w w" by (simp add: fewer_def)

lemma fewer_trans: "fewer w w' \<Longrightarrow> fewer w' w'' \<Longrightarrow> fewer w w''"
  unfolding fewer_def by (metis subset_trans)

lemma foreach_fewer:
  assumes "\<And>x s s'. f x s = Some s' \<Longrightarrow> fewer s s'" "foreach_safe f xs s = Some s'"
  shows "fewer s s'"
  using assms(2) by (induction xs arbitrary: s) (auto simp: bind_eq_Some_conv dest: assms(1) intro: fewer_trans)

lemma upd_chan_fewer: "upd_chan c g w = Some w' \<Longrightarrow> fewer w w'"
  by (auto simp: upd_chan_def fewer_def other_tables_def uchans_def uinvs_def)

lemma del_invite_fewer: "del_invite c u w = Some w' \<Longrightarrow> fewer w w'"
proof -
  assume "del_invite c u w = Some w'"
  then obtain w1 where w1: "upd_user u (\<lambda>u. u\<lparr>us_invited := remove1 c (us_invited u)\<rparr>) w = Some w1"
    "upd_chan c (\<lambda>ch. ch\<lparr>invites := remove1 u (invites ch)\<rparr>) w1 = Some w'" by (auto simp: del_invite_def bind_eq_Some_conv)
  from w1(1) obtain us where us: "users w u = Some us" "w1 = w\<lparr>users := (users w)(u \<mapsto> us\<lparr>us_invited := remove1 c (us_invited us)\<rparr>)\<rparr>"
    by (auto simp: upd_user_def)
  have "set (uchans w1 p) \<subseteq> set (uchans w p) \<and> set (uinvs w1 p) \<subseteq> set (uinvs w p)" for p
    using us set_remove1_subset[of c "us_invited us"] by (cases "p = u") (auto simp: uchans_def uinvs_def)
  then have "fewer w w1" using us(2) by (simp add: fewer_def other_tables_def)
  then show ?thesis using upd_chan_fewer[OF w1(2)] fewer_trans by blast
qed

lemma destroy_channel_fewer: "destroy_channel hub c w = Some w' \<Longrightarrow> fewer w w'"
proof -
  assume "destroy_channel hub c w = Some w'"
  then obtain w1 w2 h and ch :: channel where s: "foreach_safe (del_invite c) (invites ch) w = Some w1"
    "upd_chan c (\<lambda>ch. ch\<lparr>banlist := [], exceptlist := [], invexlist := [], topic := None\<rparr>) w1 = Some w2"
    "hash_del_channel c (chan_hash w2) = Some h"
    and w': "users w' = users w2" "chan_hash w' = h"
    unfolding destroy_channel_def bind_eq_Some_conv Let_def by (fastforce split: if_splits)
  have "fewer w w1" by (rule foreach_fewer[OF _ s(1)]) (rule del_invite_fewer)
  then have "fewer w w2" using upd_chan_fewer[OF s(2)] fewer_trans by blast
  moreover obtain z where "h = chan_hash w2\<lparr>channelTable := z\<rparr>" using s(3) by (auto simp: hash_del_channel_def)
  then have "fewer w2 w'" using w' by (simp add: fewer_def other_tables_def uchans_def uinvs_def)
  ultimately show ?thesis by (rule fewer_trans)
qed

lemma remove_user_fewer: "remove_user_from_channel hub m w = Some w' \<Longrightarrow> fewer w w'"
proof -
  assume r: "remove_user_from_channel hub m w = Some w'"
  then obtain x us ch ms loc uch where x: "mships w m = Some x" "users w (ms_client x) = Some us"
    "chans w (ms_chptr x) = Some ch" "dl_remove m (ch_members ch) = Some ms" "dl_remove m (us_channel us) = Some uch"
    "(if us_local us then dl_remove m (locmembers ch) else Some (locmembers ch)) = Some loc"
    unfolding remove_user_from_channel_def bind_eq_Some_conv by auto
  define w1 where "w1 = w\<lparr>chans := (chans w)(ms_chptr x \<mapsto> ch\<lparr>ch_members := ms, locmembers := loc\<rparr>),
    users := (users w)(ms_client x \<mapsto> us\<lparr>us_channel := uch\<rparr>), mships := (mships w)(m := None)\<rparr>"
  have w': "(if ms = [] then destroy_channel hub (ms_chptr x) w1 else Some w1) = Some w'"
    using r x by (auto simp: remove_user_from_channel_def w1_def Let_def split: if_splits)
  have "set uch \<subseteq> set (us_channel us)" using x(5) set_remove1_subset[of m "us_channel us"] by (auto simp: dl_remove_def split: if_splits)
  then have "fewer w w1" using x(2) by (auto simp: fewer_def other_tables_def uchans_def uinvs_def w1_def)
  moreover have "fewer w1 w'" using w' destroy_channel_fewer by (auto split: if_splits)
  ultimately show ?thesis by (rule fewer_trans)
qed

lemma exit_channels_fewer: "exit_channels hub u w = Some w' \<Longrightarrow> fewer w w' \<and> client_core w' = client_core w"
proof -
  assume "exit_channels hub u w = Some w'"
  then obtain w1 and us us1 :: user where s: "foreach_safe (remove_user_from_channel hub) (us_channel us) w = Some w1"
    "foreach_safe (\<lambda>c. del_invite c u) (us_invited us1) w1 = Some w'"
    unfolding exit_channels_def bind_eq_Some_conv by blast
  have "fewer w w1" by (rule foreach_fewer[OF _ s(1)]) (rule remove_user_fewer)
  moreover have "fewer w1 w'" by (rule foreach_fewer[OF _ s(2)]) (rule del_invite_fewer)
  ultimately have "fewer w w'" by (rule fewer_trans)
  moreover have "client_core w1 = client_core w" by (rule foreach_safe_keeps[OF remove_user_core s(1)])
  moreover have "client_core w' = client_core w1" by (rule foreach_safe_keeps[OF del_invite_core s(2)])
  ultimately show ?thesis by simp
qed

lemma chans_off:
  assumes c: "chans_ok K w V" and u: "users w p \<noteq> None"
  shows "\<exists>w'. exit_channels hub p w = Some w' \<and> chans_ok K w' (V - {p}) \<and> fewer w w' \<and> client_core w' = client_core w"
proof -
  have inv: "chan_inv w" using c by (simp add: chans_ok_def)
  obtain w' where w': "exit_channels hub p w = Some w'" "chan_inv w'" "uchans w' p = []" "uinvs w' p = []"
    using exit_channels_inv[OF inv u, of hub] by blast
  have f: "fewer w w'" "client_core w' = client_core w" using exit_channels_fewer[OF w'(1)] by simp_all
  have "uchans w' q = [] \<and> uinvs w' q = []" if "\<not> (q \<in> V - {p} \<and> is_cl K q)" for q
  proof (cases "q = p")
    case False
    then have "uchans w q = []" "uinvs w q = []" using that c by (auto simp: chans_ok_def)
    then show ?thesis using f(1) unfolding fewer_def by (metis empty_set set_empty subset_empty)
  qed (simp add: w')
  then show ?thesis using w' f by (auto simp: chans_ok_def)
qed

lemma other_tables_eq:
  assumes "other_tables w' = other_tables w"
  shows "clients nm (chan_hash w') X = clients nm (chan_hash w) X" "ids nm (chan_hash w') X = ids nm (chan_hash w) X"
    "client_name (chan_hash w') = client_name (chan_hash w)" "client_id (chan_hash w') = client_id (chan_hash w)"
    "ircd_random_key (chan_hash w') = ircd_random_key (chan_hash w)" "hash_ok K (chan_hash w') V = hash_ok K (chan_hash w) V"
    "selfs (chan_hash w') = selfs (chan_hash w)"
proof -
  note e = assms[unfolded other_tables_def]
  show f: "client_name (chan_hash w') = client_name (chan_hash w)" "client_id (chan_hash w') = client_id (chan_hash w)"
    "ircd_random_key (chan_hash w') = ircd_random_key (chan_hash w)"
    using arg_cong[OF e, of client_name] arg_cong[OF e, of client_id] arg_cong[OF e, of ircd_random_key] by simp_all
  have t: "clientTable (chan_hash w') = clientTable (chan_hash w)" "idTable (chan_hash w') = idTable (chan_hash w)"
    using arg_cong[OF e, of clientTable] arg_cong[OF e, of idTable] by simp_all
  show l: "selfs (chan_hash w') = selfs (chan_hash w)" by (simp add: selfs_def t)
  show c: "clients nm (chan_hash w') X = clients nm (chan_hash w) X" "ids nm (chan_hash w') X = ids nm (chan_hash w) X" for nm X
    using f t by (simp_all add: clients_def ids_def)
  show "hash_ok K (chan_hash w') V = hash_ok K (chan_hash w) V" by (simp add: hash_ok_def f c l)
qed

subsection \<open>The accept lists\<close>

definition accepts :: "net \<Rightarrow> (ptr \<times> ptr) set" where
  "accepts N = {(p, q). q \<in> set (nd_allow (ne_node N p))}"

definition mutual :: "net \<Rightarrow> bool" where
  "mutual N \<longleftrightarrow> (\<forall>p q. q \<in> set (nd_allow (ne_node N p)) \<longleftrightarrow> p \<in> set (nd_on_allow (ne_node N q)))"

text \<open>Everything but the accept lists.\<close>

definition bare :: "net \<Rightarrow> net" where
  "bare N = N\<lparr>ne_node := \<lambda>p. (ne_node N p)\<lparr>nd_allow := [], nd_on_allow := []\<rparr>\<rparr>"

lemma accept_sets:
  "set (nd_allow (ne_node N p)) = {q. (p, q) \<in> accepts N}"
  "mutual N \<Longrightarrow> set (nd_on_allow (ne_node N q)) = {p. (p, q) \<in> accepts N}"
  by (auto simp: accepts_def mutual_def)

lemma mutual_if: "(\<And>q. set (nd_on_allow (ne_node N q)) = {p. (p, q) \<in> accepts N}) \<Longrightarrow> mutual N"
  by (auto simp: accepts_def mutual_def)

lemma del_from_allow: "set (nd_allow (ne_node (del_from_accept s t N) p)) = (if p = t then set (nd_allow (ne_node N p)) - {s} else set (nd_allow (ne_node N p)))"
  by (cases "p = t"; cases "p = s") (auto simp: del_from_accept_def upd_node_def)

lemma del_from_on_allow:
  "mutual N \<Longrightarrow> set (nd_on_allow (ne_node (del_from_accept s t N) p)) =
     (if p = s then set (nd_on_allow (ne_node N p)) - {t} else set (nd_on_allow (ne_node N p)))"
  by (cases "p = t"; cases "p = s") (auto simp: del_from_accept_def upd_node_def mutual_def)

lemma del_from_accept_spec:
  assumes "mutual N"
  shows "mutual (del_from_accept s t N)" "accepts (del_from_accept s t N) = accepts N - {(t, s)}" "bare (del_from_accept s t N) = bare N"
proof -
  show a: "accepts (del_from_accept s t N) = accepts N - {(t, s)}"
    unfolding accepts_def del_from_allow by (auto split: if_splits)
  show "mutual (del_from_accept s t N)"
    by (rule mutual_if) (auto simp: del_from_on_allow[OF assms] a accept_sets(2)[OF assms])
  show "bare (del_from_accept s t N) = bare N" by (simp add: bare_def del_from_accept_def upd_node_def fun_eq_iff)
qed

lemma fold_accepts:
  assumes "mutual N"
  shows "mutual (fold (\<lambda>q. del_from_accept (s q) (t q)) qs N) \<and>
    accepts (fold (\<lambda>q. del_from_accept (s q) (t q)) qs N) = accepts N - (\<lambda>q. (t q, s q)) ` set qs \<and>
    bare (fold (\<lambda>q. del_from_accept (s q) (t q)) qs N) = bare N"
  using assms
proof (induction qs arbitrary: N)
  case (Cons q qs)
  show ?case using Cons.IH[OF del_from_accept_spec(1)[OF Cons.prems, of "s q" "t q"]] del_from_accept_spec[OF Cons.prems, of "s q" "t q"] by auto
qed simp

lemma del_all_accepts_spec:
  assumes m: "mutual N"
  shows "mutual (del_all_accepts p N)" "accepts (del_all_accepts p N) = {(a, b) \<in> accepts N. a \<noteq> p \<and> b \<noteq> p}"
    "bare (del_all_accepts p N) = bare N"
proof -
  define N1 where "N1 = fold (\<lambda>q. del_from_accept q p) (nd_allow (ne_node N p)) N"
  have N1: "mutual N1" "accepts N1 = accepts N - (\<lambda>q. (p, q)) ` set (nd_allow (ne_node N p))" "bare N1 = bare N"
    using fold_accepts[OF m, of "\<lambda>q. q" "\<lambda>_. p"] by (simp_all add: N1_def)
  have N2: "mutual (del_all_accepts p N)" "bare (del_all_accepts p N) = bare N1"
    "accepts (del_all_accepts p N) = accepts N1 - (\<lambda>q. (q, p)) ` set (nd_on_allow (ne_node N1 p))"
    using fold_accepts[OF N1(1), of "\<lambda>_. p" "\<lambda>q. q"] by (simp_all add: del_all_accepts_def del_all_their_accepts_def N1_def)
  show "mutual (del_all_accepts p N)" "bare (del_all_accepts p N) = bare N" using N2 N1 by simp_all
  show "accepts (del_all_accepts p N) = {(a, b) \<in> accepts N. a \<noteq> p \<and> b \<noteq> p}"
    unfolding N2(3) N1(2) accept_sets(2)[OF N1(1)] accept_sets(1) by auto
qed

lemma bareD:
  assumes "bare N' = bare N"
  shows "ne_world N' = ne_world N" "ne_who N' = ne_who N" "ne_uh N' = ne_uh N" "global_client_list N' = global_client_list N"
    "global_serv_list N' = global_serv_list N" "dead_list N' = dead_list N" "ne_counts N' = ne_counts N" "ne_out N' = ne_out N"
    "local_client_list N' = local_client_list N" "unknown_list N' = unknown_list N" "serv_list N' = serv_list N" "oper_list N' = oper_list N"
    "nd_serv (ne_node N' p) = nd_serv (ne_node N p)" "nd_from (ne_node N' p) = nd_from (ne_node N p)"
    "nd_servptr (ne_node N' p) = nd_servptr (ne_node N p)" "nd_userhost (ne_node N' p) = nd_userhost (ne_node N p)"
    "nd_invisible (ne_node N' p) = nd_invisible (ne_node N p)" "nd_closing (ne_node N' p) = nd_closing (ne_node N p)"
    "nd_dead (ne_node N' p) = nd_dead (ne_node N p)" "nd_info (ne_node N' p) = nd_info (ne_node N p)" "nd_qs (ne_node N' p) = nd_qs (ne_node N p)"
proof -
  note e = assms[unfolded bare_def]
  show "ne_world N' = ne_world N" "ne_who N' = ne_who N" "ne_uh N' = ne_uh N" "global_client_list N' = global_client_list N"
    "global_serv_list N' = global_serv_list N" "dead_list N' = dead_list N" "ne_counts N' = ne_counts N" "ne_out N' = ne_out N"
    "local_client_list N' = local_client_list N" "unknown_list N' = unknown_list N" "serv_list N' = serv_list N" "oper_list N' = oper_list N"
    using arg_cong[OF e, of ne_world] arg_cong[OF e, of ne_who] arg_cong[OF e, of ne_uh] arg_cong[OF e, of global_client_list]
      arg_cong[OF e, of global_serv_list] arg_cong[OF e, of dead_list] arg_cong[OF e, of ne_counts] arg_cong[OF e, of ne_out]
      arg_cong[OF e, of local_client_list] arg_cong[OF e, of unknown_list] arg_cong[OF e, of serv_list] arg_cong[OF e, of oper_list]
    by simp_all
  have n: "(ne_node N' p)\<lparr>nd_allow := [], nd_on_allow := []\<rparr> = (ne_node N p)\<lparr>nd_allow := [], nd_on_allow := []\<rparr>"
    using fun_cong[OF arg_cong[OF e, of ne_node], of p] by simp
  show "nd_serv (ne_node N' p) = nd_serv (ne_node N p)" "nd_from (ne_node N' p) = nd_from (ne_node N p)"
    "nd_servptr (ne_node N' p) = nd_servptr (ne_node N p)" "nd_userhost (ne_node N' p) = nd_userhost (ne_node N p)"
    "nd_invisible (ne_node N' p) = nd_invisible (ne_node N p)" "nd_closing (ne_node N' p) = nd_closing (ne_node N p)"
    "nd_dead (ne_node N' p) = nd_dead (ne_node N p)" "nd_info (ne_node N' p) = nd_info (ne_node N p)" "nd_qs (ne_node N' p) = nd_qs (ne_node N p)"
    using arg_cong[OF n, of nd_serv] arg_cong[OF n, of nd_from] arg_cong[OF n, of nd_servptr] arg_cong[OF n, of nd_userhost]
      arg_cong[OF n, of nd_invisible] arg_cong[OF n, of nd_closing] arg_cong[OF n, of nd_dead] arg_cong[OF n, of nd_info] arg_cong[OF n, of nd_qs]
    by simp_all
qed

abbreviation accept_inv :: "kin \<Rightarrow> net \<Rightarrow> ptr set \<Rightarrow> bool" where
  "accept_inv K N V \<equiv> accept_ok K (\<lambda>p. nd_allow (ne_node N p)) (\<lambda>p. nd_on_allow (ne_node N p)) V"

lemma accepts_off:
  assumes "accept_inv K N V"
  shows "accept_inv K (del_all_accepts p N) (V - {p})"
proof -
  have m: "mutual N" using assms by (simp add: accept_ok_def mutual_def)
  note d = del_all_accepts_spec[OF m, of p]
  have "nd_allow (ne_node (del_all_accepts p N) q) = []" "nd_on_allow (ne_node (del_all_accepts p N) q) = []"
    if "\<not> (q \<in> V - {p} \<and> is_cl K q)" for q
  proof -
    have "(q, r) \<notin> accepts (del_all_accepts p N) \<and> (r, q) \<notin> accepts (del_all_accepts p N)" for r
    proof (cases "q = p")
      case True
      then show ?thesis by (simp add: d(2))
    next
      case False
      then have "nd_allow (ne_node N q) = []" "nd_on_allow (ne_node N q) = []" using that assms by (auto simp: accept_ok_def)
      then have "{r. (q, r) \<in> accepts N} = {}" "{r. (r, q) \<in> accepts N} = {}"
        unfolding accept_sets(1)[symmetric] accept_sets(2)[OF m, symmetric] by simp_all
      then have "(q, r) \<notin> accepts N \<and> (r, q) \<notin> accepts N" by blast
      then show ?thesis by (simp add: d(2))
    qed
    then have "set (nd_allow (ne_node (del_all_accepts p N) q)) = {}" "set (nd_on_allow (ne_node (del_all_accepts p N) q)) = {}"
      unfolding accept_sets(1) accept_sets(2)[OF d(1)] by simp_all
    then show "nd_allow (ne_node (del_all_accepts p N) q) = []" "nd_on_allow (ne_node (del_all_accepts p N) q) = []" by simp_all
  qed
  then show ?thesis using d(1) by (auto simp: accept_ok_def mutual_def)
qed

text \<open>Soft caller ID: a membership is no channel, so no common channel is found.\<close>

lemma no_link:
  assumes inv: "member_inv w" and s: "users w s \<noteq> None" and c: "chans w c = None"
  shows "find_channel_link s c w = Some None"
proof (cases "IsClient (the (users w s))")
  case True
  then obtain us where us: "users w s = Some us" "IsClient us" using s by fastforce
  have "set (mems w c) = on_chan w c" using inv by (simp add: member_inv_def)
  then have "on_chan w c = {}" using c by (simp add: mems_def)
  then show ?thesis using find_channel_link_iff[OF inv us, of c] by (auto split: option.splits)
qed (use s in \<open>auto simp: find_channel_link_def\<close>)

lemma no_links:
  assumes "member_inv w" "users w s \<noteq> None" "\<And>m. m \<in> set ms \<Longrightarrow> chans w m = None"
  shows "foldr (\<lambda>m r. Option.bind (find_channel_link s m w) (\<lambda>lk. if lk \<noteq> None then Some True else r)) ms (Some False) = Some False"
  using assms(3) by (induction ms) (simp_all add: no_link[OF assms(1,2)])

text \<open>C25. Soft caller ID (umode +G) is meant to let the messages through of anyone on a common channel. It does not:
  \<open>accept_message\<close> gives \<open>IsMember\<close> the \<open>struct Membership\<close> where it needs the \<open>struct Channel\<close>, so, the two
  being distinct objects, only the accept list counts, whatever channels the two clients share.\<close>

theorem soft_accept_ignores_channels:
  assumes "member_inv (ne_world N)" "user_of N source \<noteq> None" "user_of N target \<noteq> None"
    and "dom (chans (ne_world N)) \<inter> dom (mships (ne_world N)) = {}"
  shows "accept_message source target soft N = Some (source \<in> set (nd_allow (ne_node N target)))"
proof -
  obtain u where u: "user_of N target = Some u" using assms(3) by blast
  have "uchans (ne_world N) target = us_channel u" using u by (simp add: uchans_def)
  then have "set (us_channel u) = of_user (ne_world N) target" using assms(1) unfolding member_inv_def by metis
  then have "chans (ne_world N) m = None" if "m \<in> set (us_channel u)" for m
    using that assms(4) by (auto simp: of_user_def)
  from no_links[OF assms(1,2) this] show ?thesis by (simp add: accept_message_def u)
qed

lemma soft_accept_ignores_channels_witness:
  "\<exists>N. on_chan (ne_world N) 1 \<inter> of_user (ne_world N) 5 = {9} \<and> on_chan (ne_world N) 1 \<inter> of_user (ne_world N) 6 = {10} \<and>
    accept_message 6 5 True N = Some False"
proof -
  obtain w where w: "chan_reach True 3 w" "dom (chans w) = {1}" "dom (users w) = {5}"
    "mships w = [9 \<mapsto> \<lparr>ms_client = 5, ms_chptr = 1, ms_flags = CHFL_CHANOP\<rparr>]" using example_reachable by blast
  have inv: "chan_inv w" by (rule chan_reach_inv[OF w(1)]) simp
  define w1 where "w1 = w\<lparr>users := (users w)(6 \<mapsto> example_user)\<rparr>"
  have "6 \<notin> dom (users w)" using w(3) by simp
  then have none: "users w 6 = None" by (simp add: domIff)
  have inv1: "chan_inv w1"
    by (rule idle_client_inv[OF inv, of 6]) (use none in \<open>auto simp: w1_def view_defs example_user_def fun_eq_iff\<close>)
  have "chans w1 1 \<noteq> None" "users w1 6 \<noteq> None" "mships w1 10 = None" "on_chan w1 1 \<inter> of_user w1 6 = {}"
    using w(2,4) by (auto simp: w1_def on_chan_def of_user_def)
  from add_user_inv[OF inv1 this, of 0] obtain w2 where w2: "chan_inv w2" "same_tables w1 w2" "dom (users w2) = dom (users w1)"
    "mships w2 = (mships w1)(10 \<mapsto> \<lparr>ms_client = 6, ms_chptr = 1, ms_flags = 0\<rparr>)" by blast
  define N where "N = \<lparr>ne_world = w2, ne_who = whowas_start, ne_uh = \<lparr>uh_hash = no_objects, uh_list = \<lambda>_. []\<rparr>, ne_node = \<lambda>_. \<lparr>nd_from = None, nd_servptr = None, nd_serv = None,
      nd_allow = [], nd_on_allow = [], nd_qs = False, nd_killed = False, nd_closing = False, nd_dead = False, nd_userhost = False,
      nd_invisible = False, nd_info = []\<rparr>, global_client_list = [], global_serv_list = [], local_client_list = [], unknown_list = [],
    serv_list = [], oper_list = [], dead_list = [],
    ne_counts = \<lparr>cn_total = 0, cn_oper = 0, cn_invisi = 0, cn_local = 0, cn_myserver = 0\<rparr>, ne_out = []\<rparr>"
  have m: "mships w2 = [9 \<mapsto> \<lparr>ms_client = 5, ms_chptr = 1, ms_flags = CHFL_CHANOP\<rparr>, 10 \<mapsto> \<lparr>ms_client = 6, ms_chptr = 1, ms_flags = 0\<rparr>]"
    using w2(4) w(4) by (simp add: w1_def)
  have d: "dom (chans w2) = {1}" "dom (users w2) = {5, 6}" using w2(2,3) w(2,3) by (auto simp: same_tables_def w1_def)
  have "accept_message 6 5 True N = Some (6 \<in> set (nd_allow (ne_node N 5)))"
    by (rule soft_accept_ignores_channels) (use w2(1) d m in \<open>auto simp: N_def chan_inv_def\<close>)
  then show ?thesis using m by (intro exI[of _ N]) (auto simp: N_def on_chan_def of_user_def)
qed

subsection \<open>Off the lists of the server\<close>

definition set_servs :: "(ptr \<Rightarrow> serv option) \<Rightarrow> net \<Rightarrow> net" where
  "set_servs S N = N\<lparr>ne_node := \<lambda>q. (ne_node N q)\<lparr>nd_serv := S q\<rparr>\<rparr>"

abbreviation servs :: "net \<Rightarrow> ptr \<Rightarrow> serv option" where
  "servs N \<equiv> \<lambda>q. nd_serv (ne_node N q)"

lemma upd_serv_eq:
  "servs N q = Some sv \<Longrightarrow> upd_serv (Some q) f N = map_option (\<lambda>sv'. set_servs ((servs N)(q \<mapsto> sv')) N) (f sv)"
  by (cases "f sv") (simp_all add: upd_serv_def set_servs_def upd_node_def fun_eq_iff)

lemma set_servs_simps [simp]:
  "nd_serv (ne_node (set_servs S N) q) = S q" "nd_from (ne_node (set_servs S N) q) = nd_from (ne_node N q)"
  "nd_servptr (ne_node (set_servs S N) q) = nd_servptr (ne_node N q)" "nd_allow (ne_node (set_servs S N) q) = nd_allow (ne_node N q)"
  "nd_on_allow (ne_node (set_servs S N) q) = nd_on_allow (ne_node N q)" "nd_closing (ne_node (set_servs S N) q) = nd_closing (ne_node N q)"
  "nd_dead (ne_node (set_servs S N) q) = nd_dead (ne_node N q)" "nd_userhost (ne_node (set_servs S N) q) = nd_userhost (ne_node N q)"
  "nd_invisible (ne_node (set_servs S N) q) = nd_invisible (ne_node N q)" "nd_info (ne_node (set_servs S N) q) = nd_info (ne_node N q)"
  "ne_world (set_servs S N) = ne_world N" "ne_who (set_servs S N) = ne_who N" "ne_uh (set_servs S N) = ne_uh N"
  "global_client_list (set_servs S N) = global_client_list N" "global_serv_list (set_servs S N) = global_serv_list N"
  "ne_out (set_servs S N) = ne_out N" "dead_list (set_servs S N) = dead_list N" "ne_counts (set_servs S N) = ne_counts N" "local_client_list (set_servs S N) = local_client_list N"
  "unknown_list (set_servs S N) = unknown_list N" "serv_list (set_servs S N) = serv_list N" "oper_list (set_servs S N) = oper_list N"
  by (simp_all add: set_servs_def)

lemma set_servs_id [simp]: "set_servs (servs N) N = N"
  by (simp add: set_servs_def)

lemma set_servs_twice [simp]: "set_servs S (set_servs S' N) = set_servs S N"
  by (simp add: set_servs_def)

text \<open>Nothing but messages to channels is sent.\<close>

definition quits :: "net \<Rightarrow> net \<Rightarrow> bool" where
  "quits N N' \<longleftrightarrow> (\<exists>ps. ne_out N' = ne_out N @ map Quit_channels ps)"

lemma quitsI: "ne_out N' = ne_out N \<Longrightarrow> quits N N'" "ne_out N' = ne_out N @ [Quit_channels p] \<Longrightarrow> quits N N'"
  unfolding quits_def by (auto intro: exI[of _ "[]"] exI[of _ "[p]"])

lemma quits_trans: "quits N N' \<Longrightarrow> quits N' N'' \<Longrightarrow> quits N N''"
  unfolding quits_def by (metis append_assoc map_append)

text \<open>What the steps before the tables leave alone.\<close>

definition kept :: "net \<Rightarrow> net \<Rightarrow> bool" where
  "kept N N' \<longleftrightarrow> quits N N' \<and> client_core (ne_world N') = client_core (ne_world N) \<and> ne_uh N' = ne_uh N \<and>
     other_tables (ne_world N') = other_tables (ne_world N) \<and>
     global_client_list N' = global_client_list N \<and> dead_list N' = dead_list N \<and> ne_counts N' = ne_counts N \<and>
     local_client_list N' = local_client_list N \<and> unknown_list N' = unknown_list N \<and> serv_list N' = serv_list N \<and>
     oper_list N' = oper_list N \<and>
     (\<forall>q. nd_from (ne_node N' q) = nd_from (ne_node N q) \<and> nd_servptr (ne_node N' q) = nd_servptr (ne_node N q) \<and>
          nd_closing (ne_node N' q) = nd_closing (ne_node N q) \<and> nd_dead (ne_node N' q) = nd_dead (ne_node N q) \<and>
          nd_userhost (ne_node N' q) = nd_userhost (ne_node N q) \<and> nd_invisible (ne_node N' q) = nd_invisible (ne_node N q))"

lemma kept_refl: "kept N N"
  by (simp add: kept_def quitsI)

lemma leave_servers:
  assumes k: "kin_ok K V" and s: "serv_ok K (servs N) V A V" and p: "p \<in> V" "is_sv K p"
    and u: "us_local u = (\<not> is_far K p)" "is_far K p \<longrightarrow> nd_from (ne_node N p) = k_from K p"
  shows "\<exists>S. leave_link u p (\<lambda>sv. check (dep_servers sv - 1 > 0) (sv\<lparr>dep_servers := dep_servers sv - 1\<rparr>)) N = Some (set_servs S N) \<and>
    serv_ok K S V A (V - {p})"
proof (cases "is_far K p")
  case False
  then show ?thesis using off_near[OF s False] u by (auto simp: leave_link_def intro!: exI[of _ "servs N"])
next
  case True
  obtain f where f: "f \<in> V" "k_from K p = Some f" "is_sv K f" using k p True unfolding kin_ok_def by blast
  have fin: "finite V" using k by (simp add: kin_ok_def)
  obtain sv where sv: "servs N f = Some sv" "0 < dep_servers sv - 1"
    "serv_ok K ((servs N)(f \<mapsto> sv\<lparr>dep_servers := dep_servers sv - 1\<rparr>)) V A (V - {p})"
    using off_dep_servers[OF s f(1,3) p True f(2) fin] by blast
  show ?thesis using True u f(2) sv upd_serv_eq[OF sv(1)] by (auto simp: leave_link_def check_def)
qed

lemma leave_users:
  assumes k: "kin_ok K V" and s: "serv_ok K (servs N) V A V" and p: "p \<in> V" "is_cl K p"
    and u: "us_local u = (\<not> is_far K p)" "is_far K p \<longrightarrow> nd_from (ne_node N p) = k_from K p"
  shows "\<exists>S. leave_link u p (\<lambda>sv. check (dep_users sv - 1 \<ge> 0) (sv\<lparr>dep_users := dep_users sv - 1\<rparr>)) N = Some (set_servs S N) \<and>
    serv_ok K S V A (V - {p})"
proof (cases "is_far K p")
  case False
  then show ?thesis using off_near[OF s False] u by (auto simp: leave_link_def intro!: exI[of _ "servs N"])
next
  case True
  obtain f where f: "f \<in> V" "k_from K p = Some f" "is_sv K f" using k p True unfolding kin_ok_def by blast
  have fin: "finite V" using k by (simp add: kin_ok_def)
  obtain sv where sv: "servs N f = Some sv" "0 \<le> dep_users sv - 1"
    "serv_ok K ((servs N)(f \<mapsto> sv\<lparr>dep_users := dep_users sv - 1\<rparr>)) V A (V - {p})"
    using off_dep_users[OF s f(1,3) p True f(2) fin] by blast
  show ?thesis using True u f(2) sv upd_serv_eq[OF sv(1)] by (auto simp: leave_link_def check_def)
qed

lemma kin_fields:
  assumes "core_ok K N V" "p \<in> V" "user_of N p = Some u"
  shows "us_name u = us_name (k_user K p)" "us_username u = us_username (k_user K p)" "us_host u = us_host (k_user K p)"
    "us_id u = us_id (k_user K p)" "us_status u = us_status (k_user K p)" "us_local u = (\<not> is_far K p)"
    "us_oper u = us_oper (k_user K p)" "IsServer u = is_sv K p" "IsClient u = is_cl K p"
proof -
  have e: "u\<lparr>us_channel := [], us_invited := []\<rparr> = k_user K p"
    using bspec[OF assms(1)[unfolded core_ok_def] assms(2)] assms(3) by (simp add: client_core_def)
  show "us_name u = us_name (k_user K p)" "us_username u = us_username (k_user K p)" "us_host u = us_host (k_user K p)"
    "us_id u = us_id (k_user K p)" "us_status u = us_status (k_user K p)" "us_local u = (\<not> is_far K p)"
    "us_oper u = us_oper (k_user K p)" "IsServer u = is_sv K p" "IsClient u = is_cl K p"
    unfolding is_sv_def is_cl_def is_far_def IsServer_def IsClient_def e[symmetric] by simp_all
qed

text \<open>What the first step of \<open>exit_one_client\<close> has to achieve for \<open>p\<close>.\<close>

definition off_step :: "exit_env \<Rightarrow> kin \<Rightarrow> net \<Rightarrow> ptr set \<Rightarrow> ptr \<Rightarrow> net \<Rightarrow> bool" where
  "off_step e K N V p N' \<longleftrightarrow> kept N N' \<and> serv_ok K (servs N') V (V - {p}) (V - {p}) \<and> chans_ok K (ne_world N') (V - {p}) \<and>
     accept_inv K N' (V - {p}) \<and> past_ok (xe_history e) K (ircd_random_key (chan_hash (ne_world N'))) (ne_who N') (V - {p}) \<and>
     globserv_ok K (global_serv_list N') (V - {p})"

lemma not_cl_less:
  assumes "\<not> is_cl K p"
  shows "chans_ok K w V \<Longrightarrow> chans_ok K w (V - {p})" "accept_ok K A B V \<Longrightarrow> accept_ok K A B (V - {p})"
    "past_ok n K rk s V \<Longrightarrow> past_ok n K rk s (V - {p})"
  using assms unfolding chans_ok_def accept_ok_def past_ok_def by blast+

lemma server_off_ok:
  assumes inv: "net_inv e K N V" and p: "p \<in> V" "is_sv K p" and u: "user_of N p = Some u"
  shows "\<exists>N'. server_off u p N = Some N' \<and> off_step e K N V p N'"
proof -
  have k: "kin_ok K V" and c: "core_ok K N V" and s: "serv_ok K (servs N) V V V" using inv by (simp_all add: net_inv_def)
  note uf = kin_fields[OF c p(1) u]
  obtain q where q: "k_up K p = Some q" using kin_has_up[OF k p(1)] p(2) by blast
  have qv: "q \<in> V" "is_sv K q \<or> q = k_me K" using kin_up[OF k p(1) q] by simp_all
  have sp: "nd_servptr (ne_node N p) = Some q" "is_far K p \<longrightarrow> nd_from (ne_node N p) = k_from K p"
    using c p(1) q by (simp_all add: core_ok_def)
  obtain sv where sv: "servs N q = Some sv" "p \<in> set (sv_servers sv)"
    "serv_ok K ((servs N)(q \<mapsto> sv\<lparr>sv_servers := remove1 p (sv_servers sv)\<rparr>)) V (V - {p}) V"
    using off_servers[OF s qv p q] by blast
  define S1 where "S1 = (servs N)(q \<mapsto> sv\<lparr>sv_servers := remove1 p (sv_servers sv)\<rparr>)"
  define N1 where "N1 = (set_servs S1 N)\<lparr>global_serv_list := remove1 p (global_serv_list N)\<rparr>"
  have s1: "servs N1 = S1" "nd_from (ne_node N1 p) = nd_from (ne_node N p)" by (simp_all add: N1_def)
  obtain S where S: "leave_link u p (\<lambda>sv. check (dep_servers sv - 1 > 0) (sv\<lparr>dep_servers := dep_servers sv - 1\<rparr>)) N1 = Some (set_servs S N1)"
    "serv_ok K S V (V - {p}) (V - {p})"
    using leave_servers[OF k sv(3)[folded S1_def s1(1)] p uf(6)] sp(2) s1(2) by auto
  have "upd_serv (nd_servptr (ne_node N p)) (\<lambda>sv. map_option (\<lambda>l. sv\<lparr>sv_servers := l\<rparr>) (dl_remove p (sv_servers sv))) N = Some (set_servs S1 N)"
    unfolding sp(1) upd_serv_eq[OF sv(1)] using sv(2) by (simp add: dl_remove_def S1_def)
  then have "server_off u p N = Some (set_servs S N1)" using S(1) by (simp add: server_off_def N1_def)
  moreover have "off_step e K N V p (set_servs S N1)"
  proof -
    have "kept N (set_servs S N1)" by (simp add: kept_def N1_def quitsI)
    moreover have "globserv_ok K (global_serv_list N1) (V - {p})"
      using inv by (auto simp: N1_def net_inv_def globserv_ok_def set_remove1_eq)
    moreover have "\<not> is_cl K p" using cl_not_sv p(2) by blast
    ultimately show ?thesis using S(2) inv not_cl_less[of K p] by (simp add: off_step_def net_inv_def N1_def)
  qed
  ultimately show ?thesis by blast
qed

lemma past_off:
  assumes "past_ok n K rk s V" "wc_server cl = Some server" "length (wc_name cl) < NICKLEN"
  shows "\<exists>s'. off_history p (add_history n rk now p cl False s) = Some s' \<and> past_ok n K rk s' (V - {p})"
proof -
  obtain H where H: "wh_repr n rk s H" and on: "\<And>x c. x \<in> set H \<Longrightarrow> online x = Some c \<Longrightarrow> c \<in> V \<and> is_cl K c"
    using assms(1) unfolding past_ok_def by blast
  let ?H = "take n (history_entry rk now p cl server False # H)"
  obtain s' where s': "off_history p (add_history n rk now p cl False s) = Some s'" "wh_repr n rk s' (map (forget p) ?H)"
    using off_loop_repr[OF add_history_repr[OF H assms(2,3)] refl] unfolding off_history_def by blast
  have "c \<in> V - {p} \<and> is_cl K c" if "x \<in> set (map (forget p) ?H)" "online x = Some c" for x c
  proof -
    note x = that
    obtain y where y: "y \<in> set ?H" "x = forget p y" using x(1) unfolding set_map by blast
    then have "online y = Some c" "c \<noteq> p" using x(2) by (auto simp: forget_def split: if_splits)
    moreover have "y \<noteq> history_entry rk now p cl server False" using calculation(1) by (auto simp: history_entry_def)
    then have "y \<in> set H" using y(1) by (auto dest: in_set_takeD)
    ultimately show ?thesis using on by blast
  qed
  then show ?thesis using s' unfolding past_ok_def by blast
qed

lemma core_alive: "core_ok K N V \<Longrightarrow> q \<in> V \<Longrightarrow> \<exists>u. user_of N q = Some u"
  unfolding core_ok_def client_core_def by fastforce

lemma core_same: "client_core w' = client_core w \<Longrightarrow> users w q \<noteq> None \<Longrightarrow> users w' q \<noteq> None"
  by (drule fun_cong[of _ _ q]) (auto simp: client_core_def)

lemma user_off_ok:
  assumes inv: "net_inv e K N V" and p: "p \<in> V" "is_cl K p" and u: "user_of N p = Some u"
  shows "\<exists>N'. user_off e u p N = Some N' \<and> off_step e K N V p N'"
proof -
  have k: "kin_ok K V" and c: "core_ok K N V" and s: "serv_ok K (servs N) V V V" using inv by (simp_all add: net_inv_def)
  note uf = kin_fields[OF c p(1) u]
  obtain q where q: "k_up K p = Some q" using kin_has_up[OF k p(1)] p(2) by blast
  have qv: "q \<in> V" "is_sv K q \<or> q = k_me K" using kin_up[OF k p(1) q] by simp_all
  have sp: "nd_servptr (ne_node N p) = Some q" "is_far K p \<longrightarrow> nd_from (ne_node N p) = k_from K p"
    using c p(1) q by (simp_all add: core_ok_def)
  obtain sv where sv: "servs N q = Some sv" "p \<in> set (sv_users sv)"
    "serv_ok K ((servs N)(q \<mapsto> sv\<lparr>sv_users := remove1 p (sv_users sv)\<rparr>)) V (V - {p}) V"
    using off_users[OF s qv p q] by blast
  define S1 where "S1 = (servs N)(q \<mapsto> sv\<lparr>sv_users := remove1 p (sv_users sv)\<rparr>)"
  have st1: "upd_serv (Some q) (\<lambda>sv. map_option (\<lambda>l. sv\<lparr>sv_users := l\<rparr>) (dl_remove p (sv_users sv))) N = Some (set_servs S1 N)"
    unfolding upd_serv_eq[OF sv(1)] using sv(2) by (simp add: dl_remove_def S1_def)
  have ch: "chans_ok K (ne_world N) V" using inv by (simp add: net_inv_def)
  obtain w where w: "exit_channels (xe_hub e) p (ne_world N) = Some w" "chans_ok K w (V - {p})" "fewer (ne_world N) w"
    "client_core w = client_core (ne_world N)" using chans_off[OF ch, of p "xe_hub e"] u by blast
  have ot: "other_tables w = other_tables (ne_world N)" using w(3) by (simp add: fewer_def)
  define N1 where "N1 = emit [Quit_channels p] ((set_servs S1 N)\<lparr>ne_world := w\<rparr>)"
  define N2 where "N2 = del_all_accepts p N1"
  have ac1: "accept_inv K N1 V" using inv by (simp add: N1_def emit_def net_inv_def)
  then have "mutual N1" by (simp add: accept_ok_def mutual_def)
  note bare = bareD[OF del_all_accepts_spec(3)[OF this, of p], folded N2_def]
  have ac2: "accept_inv K N2 (V - {p})" using accepts_off[OF ac1] by (simp add: N2_def)
  have wq: "\<exists>uq. users w q = Some uq" using core_same[OF w(4), of q] core_alive[OF c qv(1)] by auto
  have n2: "ne_world N2 = w" "ne_who N2 = ne_who N" "nd_servptr (ne_node N2 p) = Some q"
    using bare(1,2) bare(15)[of p] sp(1) by (simp_all add: N1_def emit_def)
  obtain server where server: "wc_server (history_of p u N2) = Some server" using wq by (auto simp: history_of_def n2)
  have len: "length (wc_name (history_of p u N2)) < NICKLEN" using k p uf(1) by (simp add: kin_ok_def history_of_def)
  have key: "ircd_random_key (chan_hash w) = ircd_random_key (chan_hash (ne_world N))" using other_tables_eq(5)[OF ot] .
  have past: "past_ok (xe_history e) K (ircd_random_key (chan_hash w)) (ne_who N2) V" using inv by (simp add: net_inv_def n2 key)
  obtain h where h: "off_history p (add_history (xe_history e) (ircd_random_key (chan_hash w)) (xe_now e) p (history_of p u N2) False (ne_who N2)) = Some h"
    "past_ok (xe_history e) K (ircd_random_key (chan_hash w)) h (V - {p})" using past_off[OF past server len] by blast
  define N3 where "N3 = N2\<lparr>ne_who := h\<rparr>"
  have s3: "servs N3 = S1" "nd_from (ne_node N3 p) = nd_from (ne_node N p)"
    using bare(13,14) by (simp_all add: N3_def N1_def emit_def fun_eq_iff)
  obtain S where S: "leave_link u p (\<lambda>sv. check (dep_users sv - 1 \<ge> 0) (sv\<lparr>dep_users := dep_users sv - 1\<rparr>)) N3 = Some (set_servs S N3)"
    "serv_ok K S V (V - {p}) (V - {p})"
    using leave_users[OF k sv(3)[folded S1_def s3(1)] p uf(6)] sp(2) s3(2) by auto
  have "user_off e u p N = Some (set_servs S N3)"
    using S(1) w(1) h(1) st1 sv(1) sp(1) by (simp add: user_off_def N3_def N2_def N1_def Let_def)
  moreover have "kept N (set_servs S N3)"
    using bare w(4) ot quitsI(2)[of "set_servs S N3" N p] by (simp add: kept_def N3_def N1_def emit_def)
  moreover have "globserv_ok K (global_serv_list N3) (V - {p})"
    using inv cl_not_sv[OF p(2)] me_kind[OF k] p(2) bare(5)
    by (auto simp: N3_def N1_def emit_def net_inv_def globserv_ok_def)
  ultimately show ?thesis using S(2) w(2) ac2 h(2) n2(1) by (intro exI[of _ "set_servs S N3"]) (simp add: off_step_def N3_def)
qed

lemma other_step: "net_inv e K N V \<Longrightarrow> p \<in> V \<Longrightarrow> \<not> is_cl K p \<Longrightarrow> \<not> is_sv K p \<Longrightarrow> p \<noteq> k_me K \<Longrightarrow> off_step e K N V p N"
  using not_cl_less[of K p] off_other[of K "servs N" V V V p]
  by (auto simp: off_step_def net_inv_def kept_refl globserv_ok_def)

subsection \<open>Off the tables\<close>

definition set_hash :: "hash_state \<Rightarrow> net \<Rightarrow> net" where
  "set_hash h N = N\<lparr>ne_world := (ne_world N)\<lparr>chan_hash := h\<rparr>\<rparr>"

lemma del_walk_next:
  assumes "del_walk nxt p c = Some r"
  shows "\<forall>a. r = Some a \<longrightarrow> nxt a = Some p"
proof (rule del_walk.raw_induct[where P = "\<lambda>nxt p c r. \<forall>a. r = Some a \<longrightarrow> nxt a = Some p", OF _ assms])
qed (auto split: if_splits option.splits)

lemma table_del_loner: "table_del rk nm p t = Some t' \<Longrightarrow> hlink t q = Some q \<Longrightarrow> hlink t' q = Some q"
  by (auto dest!: del_walk_next simp: table_del_def Let_def split: option.splits if_splits)

lemma hash_del_client_selfs:
  assumes "clients nm h M" "p \<in> M" "hash_del_client p h = Some h'"
  shows "insert p (selfs h) \<subseteq> selfs h'"
proof -
  obtain t where t: "table_del (ircd_random_key h) (client_name h) p (clientTable h) = Some t" "h' = h\<lparr>clientTable := t\<rparr>"
    using assms(3) by (auto simp: hash_del_client_def)
  have "hlink t p = Some p" using table_of_del[of _ nm _ M p] assms(1,2) t(1) by (fastforce simp: clients_def)
  then show ?thesis using table_del_loner[OF t(1)] by (auto simp: selfs_def t(2))
qed

lemma hash_off:
  assumes h: "hash_ok K h V" and n: "nm = us_name (k_user K p)" "i = us_id (k_user K p)" and p: "p \<in> V"
  shows "\<exists>h1 h2 t u. (if i \<noteq> [] then hash_del_id p h else Some h) = Some h1 \<and>
    (if nm \<noteq> [] then hash_del_client p h1 else Some h1) = Some h2 \<and> hash_ok K h2 (V - {p}) \<and>
    insert p (selfs h) \<subseteq> selfs h2 \<and> h2 = h\<lparr>clientTable := t, idTable := u\<rparr>"
proof -
  have c: "clients (client_name h) h {p \<in> V. us_name (k_user K p) \<noteq> []}" and i: "ids (client_id h) h {p \<in> V. us_id (k_user K p) \<noteq> []}"
    and f: "\<And>q. q \<in> V \<Longrightarrow> client_name h q = us_name (k_user K q) \<and> client_id h q = us_id (k_user K q) \<and> (us_name (k_user K q) = [] \<longrightarrow> q \<in> selfs h)"
    using h by (simp_all add: hash_ok_def)
  have "\<exists>u. (if i \<noteq> [] then hash_del_id p h else Some h) = Some (h\<lparr>idTable := u\<rparr>) \<and>
    ids (client_id h) (h\<lparr>idTable := u\<rparr>) {q \<in> V - {p}. us_id (k_user K q) \<noteq> []}"
  proof (cases "i = []")
    case True
    have "{q \<in> V - {p}. us_id (k_user K q) \<noteq> []} = {q \<in> V. us_id (k_user K q) \<noteq> []}" using True n by auto
    then show ?thesis using i True by (intro exI[of _ "idTable h"]) simp
  next
    case False
    have m: "p \<in> {q \<in> V. us_id (k_user K q) \<noteq> []}" using False n p by simp
    have e: "{q \<in> V - {p}. us_id (k_user K q) \<noteq> []} = {q \<in> V. us_id (k_user K q) \<noteq> []} - {p}" by blast
    obtain h1 where h1: "hash_del_id p h = Some h1" "ids (client_id h) h1 ({q \<in> V. us_id (k_user K q) \<noteq> []} - {p})"
      using id_reg.repr_del[OF i m] by blast
    then obtain u where "h1 = h\<lparr>idTable := u\<rparr>" by (auto simp: hash_del_id_def)
    then show ?thesis using h1 False unfolding e by (intro exI[of _ u]) simp
  qed
  then obtain u where u: "(if i \<noteq> [] then hash_del_id p h else Some h) = Some (h\<lparr>idTable := u\<rparr>)"
    "ids (client_id h) (h\<lparr>idTable := u\<rparr>) {q \<in> V - {p}. us_id (k_user K q) \<noteq> []}" by blast
  let ?h = "h\<lparr>idTable := u\<rparr>"
  have c1: "clients (client_name h) ?h {q \<in> V. us_name (k_user K q) \<noteq> []}" using c by (simp add: clients_def)
  have "\<exists>t. (if nm \<noteq> [] then hash_del_client p ?h else Some ?h) = Some (?h\<lparr>clientTable := t\<rparr>) \<and>
    clients (client_name h) (?h\<lparr>clientTable := t\<rparr>) {q \<in> V - {p}. us_name (k_user K q) \<noteq> []} \<and>
    insert p (selfs h) \<subseteq> selfs (?h\<lparr>clientTable := t\<rparr>)"
  proof (cases "nm = []")
    case True
    have "{q \<in> V - {p}. us_name (k_user K q) \<noteq> []} = {q \<in> V. us_name (k_user K q) \<noteq> []}" using True n by auto
    moreover have "insert p (selfs h) = selfs h" using f[OF p] True n by auto
    ultimately show ?thesis using c1 True by (intro exI[of _ "clientTable h"]) (simp add: selfs_def)
  next
    case False
    have m: "p \<in> {q \<in> V. us_name (k_user K q) \<noteq> []}" using False n p by simp
    have e: "{q \<in> V - {p}. us_name (k_user K q) \<noteq> []} = {q \<in> V. us_name (k_user K q) \<noteq> []} - {p}" by blast
    obtain h2 where h2: "hash_del_client p ?h = Some h2" "clients (client_name h) h2 ({q \<in> V. us_name (k_user K q) \<noteq> []} - {p})"
      using client_reg.repr_del[OF c1 m] by blast
    then obtain t where "h2 = ?h\<lparr>clientTable := t\<rparr>" by (auto simp: hash_del_client_def)
    moreover have "insert p (selfs h) \<subseteq> selfs h2" using hash_del_client_selfs[OF c1 m h2(1)] by (simp add: selfs_def)
    ultimately show ?thesis using h2 False unfolding e by (intro exI[of _ t]) simp
  qed
  then obtain t where t: "(if nm \<noteq> [] then hash_del_client p ?h else Some ?h) = Some (?h\<lparr>clientTable := t\<rparr>)"
    "clients (client_name h) (?h\<lparr>clientTable := t\<rparr>) {q \<in> V - {p}. us_name (k_user K q) \<noteq> []}"
    "insert p (selfs h) \<subseteq> selfs (?h\<lparr>clientTable := t\<rparr>)" by blast
  have "hash_ok K (?h\<lparr>clientTable := t\<rparr>) (V - {p})" using t(2,3) u(2) f by (auto simp: hash_ok_def ids_def clients_def)
  moreover have "?h\<lparr>clientTable := t\<rparr> = h\<lparr>clientTable := t, idTable := u\<rparr>" by simp
  ultimately show ?thesis using u(1) t(1,3) by metis
qed

lemma hosts_off:
  assumes h: "hosts_ok K s V" and p: "p \<in> V" "k_userhost K p" and fin: "finite V"
  shows "\<exists>s'. delete_user_host (us_username (k_user K p)) (us_host (k_user K p)) (is_far K p) s = Some s' \<and> hosts_ok K s' (V - {p})"
proof -
  obtain M where M: "uh_repr s M (image_mset (session_of K) (mset_set {p \<in> V. k_userhost K p}))" using h by (auto simp: hosts_ok_def)
  have fin': "finite {q \<in> V - {p}. k_userhost K q}" using fin by simp
  have "{q \<in> V. k_userhost K q} = insert p {q \<in> V - {p}. k_userhost K q}" using p by blast
  then have e: "image_mset (session_of K) (mset_set {q \<in> V. k_userhost K q}) =
    add_mset (session_of K p) (image_mset (session_of K) (mset_set {q \<in> V - {p}. k_userhost K q}))"
    using mset_set.insert[OF fin', of p] by simp
  have "(us_username (k_user K p), us_host (k_user K p), is_far K p) \<in># image_mset (session_of K) (mset_set {q \<in> V. k_userhost K q})"
    unfolding e by (simp add: session_of_def)
  from delete_user_host_repr[OF M this] show ?thesis unfolding hosts_ok_def e by (auto simp: session_of_def)
qed

lemma hosts_same: "\<not> k_userhost K p \<Longrightarrow> hosts_ok K s V \<Longrightarrow> hosts_ok K s (V - {p})"
proof -
  assume "\<not> k_userhost K p"
  then have "{q \<in> V - {p}. k_userhost K q} = {q \<in> V. k_userhost K q}" by auto
  moreover assume "hosts_ok K s V"
  ultimately show ?thesis by (simp add: hosts_ok_def)
qed

text \<open>The hash table of the channels is another one.\<close>

lemma chans_other_hash:
  assumes "chans_ok K w V"
  shows "chans_ok K (w\<lparr>chan_hash := (chan_hash w)\<lparr>clientTable := t, idTable := u\<rparr>\<rparr>) V"
proof -
  let ?w = "w\<lparr>chan_hash := (chan_hash w)\<lparr>clientTable := t, idTable := u\<rparr>\<rparr>"
  have "same_mems w ?w" "same_invs w ?w" by (simp_all add: same_defs mems_def locmems_def invs_def uchans_def uinvs_def is_local_def fun_eq_iff)
  moreover have "table_inv ?w = table_inv w" by (simp add: table_inv_def channels_def)
  ultimately have "chan_inv ?w" using assms member_inv_same invite_inv_same unfolding chans_ok_def chan_inv_def by blast
  then show ?thesis using assms by (simp add: chans_ok_def uchans_def uinvs_def)
qed

lemma tables_off_ok:
  assumes inv: "net_inv e K N0 V" and st: "off_step e K N0 V p N" and p: "p \<in> V" and u: "user_of N0 p = Some u"
  shows "\<exists>t v s. tables_off u p N = Some (N\<lparr>ne_world := (ne_world N)\<lparr>chan_hash := (chan_hash (ne_world N))\<lparr>clientTable := t, idTable := v\<rparr>\<rparr>, ne_uh := s\<rparr>) \<and>
    hash_ok K ((chan_hash (ne_world N))\<lparr>clientTable := t, idTable := v\<rparr>) (V - {p}) \<and> hosts_ok K s (V - {p}) \<and>
    insert p (selfs (chan_hash (ne_world N0))) \<subseteq> selfs ((chan_hash (ne_world N))\<lparr>clientTable := t, idTable := v\<rparr>)"
proof -
  have c: "core_ok K N0 V" and kp: "kept N0 N" and fin: "finite V" using inv st by (simp_all add: net_inv_def off_step_def kin_ok_def)
  note uf = kin_fields[OF c p u]
  have sf: "selfs (chan_hash (ne_world N)) = selfs (chan_hash (ne_world N0))"
    using kp other_tables_eq(7)[of "ne_world N" "ne_world N0"] by (simp add: kept_def)
  have "hash_ok K (chan_hash (ne_world N)) V"
    using inv kp other_tables_eq(6)[of "ne_world N" "ne_world N0"] by (simp add: net_inv_def kept_def)
  from hash_off[OF this uf(1) uf(4) p] obtain h1 t v where h:
    "(if us_id u \<noteq> [] then hash_del_id p (chan_hash (ne_world N)) else Some (chan_hash (ne_world N))) = Some h1"
    "(if us_name u \<noteq> [] then hash_del_client p h1 else Some h1) = Some ((chan_hash (ne_world N))\<lparr>clientTable := t, idTable := v\<rparr>)"
    "hash_ok K ((chan_hash (ne_world N))\<lparr>clientTable := t, idTable := v\<rparr>) (V - {p})"
    "insert p (selfs (chan_hash (ne_world N))) \<subseteq> selfs ((chan_hash (ne_world N))\<lparr>clientTable := t, idTable := v\<rparr>)" by blast
  let ?N2 = "set_hash ((chan_hash (ne_world N))\<lparr>clientTable := t, idTable := v\<rparr>) N"
  have t1: "(if us_id u \<noteq> [] then upd_hash (hash_del_id p) N else Some N) = Some (set_hash h1 N)"
    using h(1) by (auto simp: upd_hash_def set_hash_def split: if_splits)
  have t2: "(if us_name u \<noteq> [] then upd_hash (hash_del_client p) (set_hash h1 N) else Some (set_hash h1 N)) = Some ?N2"
    using h(2) by (auto simp: upd_hash_def set_hash_def split: if_splits)
  have uh: "nd_userhost (ne_node ?N2 p) = k_userhost K p" using c p kp by (simp add: set_hash_def core_ok_def kept_def)
  have ho: "hosts_ok K (ne_uh N) V" using inv kp by (simp add: net_inv_def kept_def)
  have "\<exists>s. (if k_userhost K p then map_option (\<lambda>s. ?N2\<lparr>ne_uh := s\<rparr>) (delete_user_host (us_username u) (us_host u) (\<not> us_local u) (ne_uh ?N2))
      else Some ?N2) = Some (?N2\<lparr>ne_uh := s\<rparr>) \<and> hosts_ok K s (V - {p})"
  proof (cases "k_userhost K p")
    case True
    then show ?thesis using hosts_off[OF ho p True fin] uf by (auto simp: set_hash_def)
  next
    case False
    then show ?thesis using hosts_same[OF False ho] by (intro exI[of _ "ne_uh N"]) (simp add: set_hash_def)
  qed
  then obtain s where s: "(if k_userhost K p then map_option (\<lambda>s. ?N2\<lparr>ne_uh := s\<rparr>) (delete_user_host (us_username u) (us_host u) (\<not> us_local u) (ne_uh ?N2))
      else Some ?N2) = Some (?N2\<lparr>ne_uh := s\<rparr>)" "hosts_ok K s (V - {p})" by blast
  have "tables_off u p N = Some (?N2\<lparr>ne_uh := s\<rparr>)" unfolding tables_off_def t1 bind.bind_lunit t2 uh s(1) ..
  then show ?thesis using h(3,4) s(2) unfolding set_hash_def sf by blast
qed

subsection \<open>Off the global lists\<close>

lemma card_off: "finite V \<Longrightarrow> p \<in> V \<Longrightarrow> int (card {q \<in> V - {p}. P q}) = int (card {q \<in> V. P q}) - (if P p then 1 else 0)"
proof -
  assume fin: "finite V" and p: "p \<in> V"
  have "{q \<in> V - {p}. P q} = {q \<in> V. P q} - {p}" by blast
  then show ?thesis using card_less[of "{q \<in> V. P q}" p] fin p by simp
qed

lemma counts_off:
  assumes "counts_ok K (ne_counts N) V" "finite V" "p \<in> V" "us_status u = us_status (k_user K p)" "us_oper u = us_oper (k_user K p)"
    "nd_invisible (ne_node N p) = k_invisible K p"
  shows "counts_ok K (ne_counts (update_client_exit_stats u p N)) (V - {p})"
  using assms card_off[OF assms(2,3), of "is_cl K"] card_off[OF assms(2,3), of "\<lambda>q. is_cl K q \<and> us_oper (k_user K q)"]
    card_off[OF assms(2,3), of "\<lambda>q. is_cl K q \<and> k_invisible K q"]
  by (simp add: counts_ok_def update_client_exit_stats_def is_cl_def IsClient_def)

definition childless :: "kin \<Rightarrow> ptr set \<Rightarrow> ptr \<Rightarrow> bool" where
  "childless K V p \<longleftrightarrow> (\<forall>q \<in> V. k_up K q \<noteq> Some p)"

lemma behind_step: "x \<in> behind K f \<Longrightarrow> x \<noteq> f \<Longrightarrow> \<exists>q. k_up K x = Some q \<and> q \<in> behind K f"
  by (induction rule: behind.induct) blast+

lemma behind_child:
  assumes k: "kin_ok K V" and x: "x \<in> behind K f" "x \<in> V" "x \<noteq> f"
  shows "\<exists>y \<in> V. k_up K y = Some f"
  using x(1) x(2,3)
proof (induction rule: behind.induct)
  case (up q x)
  then show ?case using kin_up[OF k] by (cases "q = f") blast+
qed simp

lemma kin_off:
  assumes k: "kin_ok K V" and p: "childless K V p" "p \<noteq> k_me K"
  shows "kin_ok K (V - {p})"
proof -
  have out: "f \<noteq> p" if "x \<in> V - {p}" "x \<in> behind K f" for x f
  proof
    assume "f = p"
    then show False using behind_child[OF k that(2)] that(1) p(1) by (auto simp: childless_def)
  qed
  have up: "q \<noteq> p" if "x \<in> V" "k_up K x = Some q" for x q using that p(1) by (auto simp: childless_def)
  have less: "(\<forall>x \<in> V. P x) \<Longrightarrow> (\<forall>x \<in> V - {p}. P x)" for P by blast
  note d = k[unfolded kin_ok_def]
  show ?thesis unfolding kin_ok_def
  proof (intro conjI, goal_cases)
    case 6
    have "\<forall>p \<in> V. \<forall>q. k_up K p = Some q \<longrightarrow> q \<in> V \<and> (is_sv K q \<or> q = k_me K)" using d by (elim conjE)
    then show ?case using up by blast
  next
    case 9
    have "\<forall>p \<in> V. is_far K p \<longrightarrow> (is_cl K p \<or> is_sv K p) \<and> (\<exists>f \<in> V. k_from K p = Some f \<and> is_sv K f \<and> \<not> is_far K f \<and> p \<in> behind K f)"
      using d by (elim conjE)
    then show ?case using out by blast
  next
    case 1
    show ?case using d by simp
  next
    case 2
    show ?case using d p(2) by simp
  next
    case 3
    show ?case using d by (elim conjE)
  qed (insert d, (elim conjE, rule less, assumption)+)
qed

lemma kept_core: "kept N N' \<Longrightarrow> core_ok K N V = core_ok K N' V"
  by (simp add: kept_def core_ok_def)

lemma core_views:
  "dom (users w) = dom (client_core w)" "is_local w = (\<lambda>q. case client_core w q of None \<Rightarrow> False | Some u \<Rightarrow> us_local u)"
  by (auto simp: client_core_def is_local_def dom_def fun_eq_iff split: option.split)

lemma kept_alive: "kept N N' \<Longrightarrow> dom (users (ne_world N')) = dom (users (ne_world N)) \<and> is_local (ne_world N') = is_local (ne_world N)"
  by (simp add: core_views kept_def)

text \<open>What \<open>exit_one_client\<close> does not touch.\<close>

definition lists_kept :: "net \<Rightarrow> net \<Rightarrow> bool" where
  "lists_kept N N' \<longleftrightarrow> local_client_list N' = local_client_list N \<and> unknown_list N' = unknown_list N \<and>
     serv_list N' = serv_list N \<and> oper_list N' = oper_list N \<and>
     cn_local (ne_counts N') = cn_local (ne_counts N) \<and> cn_myserver (ne_counts N') = cn_myserver (ne_counts N) \<and>
     (\<forall>q. nd_closing (ne_node N' q) = nd_closing (ne_node N q)) \<and> (\<forall>q. nd_from (ne_node N' q) = nd_from (ne_node N q))"

definition locals_kept :: "net \<Rightarrow> net \<Rightarrow> bool" where
  "locals_kept N N' \<longleftrightarrow> quits N N' \<and> lists_kept N N'"

lemma locals_kept_trans: "locals_kept N N' \<Longrightarrow> locals_kept N' N'' \<Longrightarrow> locals_kept N N''"
  using quits_trans by (auto simp: locals_kept_def lists_kept_def)

lemma locals_kept_refl: "locals_kept N N"
  by (simp add: locals_kept_def lists_kept_def quitsI)

text \<open>The parts put together: \<open>N1\<close> is the state after the first step, \<open>N4\<close> after the last.\<close>

lemma off_done:
  assumes inv: "net_inv e K N V" and p: "p \<in> V" "p \<noteq> k_me K" "childless K V p"
    and closing: "\<not> is_far K p \<Longrightarrow> nd_closing (ne_node N p)"
    and st: "off_step e K N V p N1"
    and h: "hash_ok K ((chan_hash (ne_world N1))\<lparr>clientTable := t, idTable := v\<rparr>) (V - {p})" "hosts_ok K s (V - {p})"
      "insert p (selfs (chan_hash (ne_world N))) \<subseteq> selfs ((chan_hash (ne_world N1))\<lparr>clientTable := t, idTable := v\<rparr>)"
    and cnt: "counts_ok K (ne_counts N4) (V - {p})"
    and N4: "ne_world N4 = (ne_world N1)\<lparr>chan_hash := (chan_hash (ne_world N1))\<lparr>clientTable := t, idTable := v\<rparr>\<rparr>"
      "ne_node N4 = (ne_node N1)(p := (ne_node N1 p)\<lparr>nd_dead := True\<rparr>)" "ne_who N4 = ne_who N1" "ne_uh N4 = s"
      "global_client_list N4 = remove1 p (global_client_list N1)" "global_serv_list N4 = global_serv_list N1" "dead_list N4 = p # dead_list N1"
  shows "net_inv e K N4 (V - {p})"
proof -
  have k: "kin_ok K V" and c: "core_ok K N V" and m: "k_me K = xe_me e" using inv by (simp_all add: net_inv_def)
  have kp: "kept N N1" using st by (simp add: off_step_def)
  have nd: "nd_serv (ne_node N4 q) = nd_serv (ne_node N1 q)" "nd_allow (ne_node N4 q) = nd_allow (ne_node N1 q)"
    "nd_on_allow (ne_node N4 q) = nd_on_allow (ne_node N1 q)" "nd_closing (ne_node N4 q) = nd_closing (ne_node N q)"
    "nd_dead (ne_node N4 q) = (q = p \<or> nd_dead (ne_node N q))" "nd_from (ne_node N4 q) = nd_from (ne_node N q)"
    "nd_servptr (ne_node N4 q) = nd_servptr (ne_node N q)" "nd_userhost (ne_node N4 q) = nd_userhost (ne_node N q)"
    "nd_invisible (ne_node N4 q) = nd_invisible (ne_node N q)" for q
    using kp by (simp_all add: N4(2) kept_def)
  have w4: "client_core (ne_world N4) = client_core (ne_world N1)" by (simp add: N4(1) client_core_def fun_eq_iff)
  have w: "client_core (ne_world N4) = client_core (ne_world N)" "dom (users (ne_world N4)) = dom (users (ne_world N))"
    "is_local (ne_world N4) = is_local (ne_world N)"
    using kp unfolding core_views w4 by (simp_all add: kept_def)
  have dl: "dead_list N4 = p # dead_list N" "global_client_list N4 = remove1 p (global_client_list N)"
    using kp by (simp_all add: N4 kept_def)
  have sf: "insert p (selfs (chan_hash (ne_world N))) \<subseteq> selfs (chan_hash (ne_world N4))" using h(3) by (simp add: N4(1))
  have lp: "is_local (ne_world N) p = (\<not> is_far K p)"
    using core_alive[OF c p(1)] kin_fields(6)[OF c p(1)] by (auto simp: is_local_def)
  have "core_ok K N4 (V - {p})" using c by (simp add: core_ok_def w nd)
  moreover have "serv_ok K (servs N4) (V - {p}) (V - {p}) (V - {p})"
    using st serv_ok_subset[of K "servs N1" V "V - {p}" "V - {p}" "V - {p}"] by (auto simp: nd off_step_def)
  moreover have "chans_ok K (ne_world N4) (V - {p})" using st chans_other_hash by (simp add: N4(1) off_step_def)
  moreover have "hash_ok K (chan_hash (ne_world N4)) (V - {p})" using h(1) by (simp add: N4(1))
  moreover have "accept_inv K N4 (V - {p})" using st by (simp add: nd off_step_def)
  moreover have "past_ok (xe_history e) K (ircd_random_key (chan_hash (ne_world N4))) (ne_who N4) (V - {p})"
    using st by (simp add: N4 off_step_def)
  moreover have "globals_ok K N4 (V - {p})" using inv by (auto simp: dl net_inv_def globals_ok_def set_remove1_eq)
  moreover have "globserv_ok K (global_serv_list N4) (V - {p})" using st by (simp add: N4(6) off_step_def)
  moreover have "dead_ok N4 (V - {p})"
    using inv p(1) closing sf by (auto simp: dead_ok_def dl w nd net_inv_def lp)
  ultimately show ?thesis using kin_off[OF k p(3,2)] h(2) cnt N4(4) m by (simp add: net_inv_def)
qed

lemma exit_one_client_ok:
  assumes inv: "net_inv e K N V" and p: "p \<in> V" "p \<noteq> k_me K" "childless K V p"
    and closing: "\<not> is_far K p \<Longrightarrow> nd_closing (ne_node N p)"
  shows "\<exists>N'. exit_one_client e p N = Some N' \<and> net_inv e K N' (V - {p}) \<and> locals_kept N N' \<and> dead_list N' = p # dead_list N"
proof -
  have k: "kin_ok K V" and c: "core_ok K N V" using inv by (simp_all add: net_inv_def)
  then have fin: "finite V" by (simp add: kin_ok_def)
  obtain u where u: "user_of N p = Some u" using core_alive[OF c p(1)] by blast
  note uf = kin_fields[OF c p(1) u]
  have me: "us_status u \<noteq> STAT_ME" using k p(1,2) uf(5) by (auto simp: kin_ok_def)
  obtain N1 where N1: "(if IsServer u then server_off u p N else if IsClient u then user_off e u p N else Some N) = Some N1" "off_step e K N V p N1"
    using server_off_ok[OF inv p(1) _ u] user_off_ok[OF inv p(1) _ u] other_step[OF inv p(1) _ _ p(2)] uf(8,9) by fastforce
  have kp: "kept N N1" using N1(2) by (simp add: off_step_def)
  obtain t v s where N2: "tables_off u p N1 = Some (N1\<lparr>ne_world := (ne_world N1)\<lparr>chan_hash := (chan_hash (ne_world N1))\<lparr>clientTable := t, idTable := v\<rparr>\<rparr>, ne_uh := s\<rparr>)"
    and h: "hash_ok K ((chan_hash (ne_world N1))\<lparr>clientTable := t, idTable := v\<rparr>) (V - {p})" "hosts_ok K s (V - {p})"
      "insert p (selfs (chan_hash (ne_world N))) \<subseteq> selfs ((chan_hash (ne_world N1))\<lparr>clientTable := t, idTable := v\<rparr>)"
    using tables_off_ok[OF inv N1(2) p(1) u] by blast
  define W where "W = (ne_world N1)\<lparr>chan_hash := (chan_hash (ne_world N1))\<lparr>clientTable := t, idTable := v\<rparr>\<rparr>"
  define N3 where "N3 = N1\<lparr>ne_world := W, ne_uh := s, global_client_list := remove1 p (global_client_list N1)\<rparr>"
  define N4 where "N4 = N3\<lparr>ne_counts := ne_counts (update_client_exit_stats u p N3), dead_list := p # dead_list N1,
    ne_node := (ne_node N1)(p := (ne_node N1 p)\<lparr>nd_dead := True\<rparr>)\<rparr>"
  have d1: "dead_list N1 = dead_list N" using kp by (simp add: kept_def)
  have nd: "p \<notin> set (dead_list N)" using inv p(1) by (auto simp: net_inv_def dead_ok_def)
  have "lists_off u p (N1\<lparr>ne_world := W, ne_uh := s\<rparr>) = Some N4"
    using nd d1 by (simp add: lists_off_def check_def Let_def N4_def N3_def update_client_exit_stats_def upd_node_def)
  then have run: "exit_one_client e p N = Some N4"
    using u me N1(1) N2 by (simp add: exit_one_client_def check_def W_def)
  have "counts_ok K (ne_counts N3) V" "nd_invisible (ne_node N3 p) = k_invisible K p"
    using inv kp c p(1) by (simp_all add: N3_def kept_def net_inv_def core_ok_def)
  then have cnt: "counts_ok K (ne_counts N4) (V - {p})"
    using counts_off[OF _ fin p(1) uf(5,7)] by (simp add: N4_def)
  have "net_inv e K N4 (V - {p})"
    by (rule off_done[OF inv p closing N1(2) h cnt]) (simp_all add: N4_def N3_def W_def)
  moreover have "locals_kept N N4"
    using kp by (simp add: locals_kept_def lists_kept_def N4_def N3_def kept_def quits_def update_client_exit_stats_def)
  ultimately show ?thesis using run d1 by (simp add: N4_def)
qed

end
