(* ===== verification/Net_Split.thy ===== *)
theory Net_Split
  imports Client_Exit
begin

text \<open>
  \<^verbatim>\<open>src/client.c\<close>: \<open>exit_client\<close> of any client, with a server everything behind it
  (\<open>recurse_send_quits\<close>, \<open>recurse_remove_clients\<close>, \<open>remove_dependents\<close>), and \<open>free_exited_clients\<close>.
  The fuel of the recursions over the tree of servers is shown enough when it exceeds the height of
  the server that goes.
\<close>

subsection \<open>A server and what is behind it\<close>

definition serv_of :: "ptr \<Rightarrow> net \<Rightarrow> serv option" where
  "serv_of p N = nd_serv (ne_node N p)"

fun recurse_remove_clients :: "exit_env \<Rightarrow> nat \<Rightarrow> ptr \<Rightarrow> net \<Rightarrow> net option" where
  "recurse_remove_clients e 0 p N = None"
| "recurse_remove_clients e (Suc n) p N =
     Option.bind (serv_of p N) (\<lambda>sv.
     Option.bind (foreach_safe (exit_one_client e) (sv_users sv) N) (\<lambda>N.
     Option.bind (serv_of p N) (\<lambda>sv.
     Option.bind (foreach_safe (\<lambda>q N. Option.bind (recurse_remove_clients e n q N) (exit_one_client e q)) (sv_servers sv) N) (\<lambda>N.
     Option.bind (serv_of p N) (\<lambda>sv. check (dep_servers sv = 1 \<and> dep_users sv = 0) N)))))"

text \<open>The messages to the server \<open>to\<close>; \<open>nm\<close> is the name this server has there, \<open>fr\<close> the link on which the
  order came.\<close>

fun recurse_send_quits ::
  "exit_env \<Rightarrow> nat \<Rightarrow> ptr \<Rightarrow> ptr \<Rightarrow> ptr option \<Rightarrow> ptr \<Rightarrow> net \<Rightarrow> net_out list option" where
  "recurse_send_quits e 0 orig p fr to N = None"
| "recurse_send_quits e (Suc n) orig p fr to N =
     (if to = p then None else
      Option.bind (user_of N p) (\<lambda>u.
      Option.bind (serv_of p N) (\<lambda>sv.
      Option.bind (match (xe_link_name e to) (us_name u)) (\<lambda>hidden.
        let qs = nd_qs (ne_node N to)
        in Option.bind (those (map (\<lambda>q. recurse_send_quits e n orig q fr to N) (sv_servers sv))) (\<lambda>outs.
             Some ((if hidden \<or> \<not> qs then map (Quit_to to) (sv_users sv) else []) @ concat outs @
               (if \<not> hidden \<and> (p = orig \<and> Some to \<noteq> fr \<or> \<not> qs) then [Squit_to to p] else [])))))))"

definition remove_dependents :: "exit_env \<Rightarrow> nat \<Rightarrow> ptr \<Rightarrow> ptr option \<Rightarrow> net \<Rightarrow> net option" where
  "remove_dependents e n p fr N =
     Option.bind (those (map (\<lambda>to. recurse_send_quits e n p p fr to N) (serv_list N))) (\<lambda>outs.
       recurse_remove_clients e n p (emit (concat outs) N))"

subsection \<open>The exit of any client\<close>

definition local_off :: "user \<Rightarrow> ptr \<Rightarrow> net \<Rightarrow> net" where
  "local_off u p N =
     (let N = upd_node p (\<lambda>n. n\<lparr>nd_closing := True\<rparr>) N; c = ne_counts N;
          N = (if us_status u \<le> STAT_UNKNOWN then N\<lparr>unknown_list := remove1 p (unknown_list N)\<rparr>
               else if IsClient u
               then (if us_oper u then N\<lparr>oper_list := remove1 p (oper_list N)\<rparr> else N)
                      \<lparr>ne_counts := c\<lparr>cn_local := cn_local c - 1\<rparr>, local_client_list := remove1 p (local_client_list N)\<rparr>
               else N);
          N = (if IsServer u \<or> us_status u = STAT_CONNECTING \<or> us_status u = STAT_HANDSHAKE
               then N\<lparr>serv_list := remove1 p (serv_list N)\<rparr> else N);
          N = (if IsServer u then N\<lparr>ne_counts := (ne_counts N)\<lparr>cn_myserver := cn_myserver (ne_counts N) - 1\<rparr>\<rparr> else N);
          N = (if nd_dead (ne_node N p) then N
               else emit ((if IsServer u then [Squit_me p] else []) @ [Closing_link p]) N)
      in upd_node p (\<lambda>n. n\<lparr>nd_from := None\<rparr>) N)"

definition off_local_lists :: "ptr \<Rightarrow> net \<Rightarrow> bool" where
  "off_local_lists p N \<longleftrightarrow> p \<notin> set (unknown_list N) \<and> p \<notin> set (local_client_list N) \<and>
     p \<notin> set (serv_list N) \<and> p \<notin> set (oper_list N)"

definition exit_client :: "exit_env \<Rightarrow> nat \<Rightarrow> ptr \<Rightarrow> ptr \<Rightarrow> net \<Rightarrow> net option" where
  "exit_client e n p fr N =
     Option.bind (user_of N p) (\<lambda>u.
       if us_local u \<and> nd_closing (ne_node N p) then Some N
       else
         let N = (if us_local u then local_off u p N else N)
         in Option.bind
              (if IsServer u then remove_dependents e n p (nd_from (ne_node N fr)) N
               else if IsClient u \<and> \<not> nd_killed (ne_node N p) then Some (emit [Quit_servers p] N)
               else Some N) (\<lambda>N.
            Option.bind (check (off_local_lists p N) N) (exit_one_client e p)))"

text \<open>\<open>free_exited_clients\<close>, with the assertions of \<open>free_client\<close>.\<close>

definition free_client :: "exit_env \<Rightarrow> ptr \<Rightarrow> net \<Rightarrow> net option" where
  "free_client e p N =
     Option.bind (user_of N p) (\<lambda>u.
       check (p \<noteq> xe_me e \<and> hlink (clientTable (chan_hash (ne_world N))) p = Some p \<and>
              us_invited u = [] \<and> us_channel u = [] \<and>
              (us_local u \<longrightarrow> nd_closing (ne_node N p) \<and> nd_dead (ne_node N p)))
         (N\<lparr>ne_world := (ne_world N)\<lparr>users := (users (ne_world N))(p := None)\<rparr>\<rparr>))"

definition free_dead :: "exit_env \<Rightarrow> ptr \<Rightarrow> net \<Rightarrow> net option" where
  "free_dead e p N = map_option (\<lambda>N. N\<lparr>dead_list := remove1 p (dead_list N)\<rparr>) (free_client e p N)"

definition free_exited_clients :: "exit_env \<Rightarrow> net \<Rightarrow> net option" where
  "free_exited_clients e N =
     foreach_safe (free_dead e) (dead_list N) N"

subsection \<open>Who is behind whom\<close>

lemma me_near: "kin_ok K V \<Longrightarrow> \<not> is_far K (k_me K)"
  using me_kind[of K V] unfolding kin_ok_def by blast

lemma near_up: "kin_ok K V \<Longrightarrow> x \<in> V \<Longrightarrow> \<not> is_far K x \<Longrightarrow> k_up K x = Some q \<Longrightarrow> q = k_me K"
  unfolding kin_ok_def by blast

lemma far_kind: "kin_ok K V \<Longrightarrow> x \<in> V \<Longrightarrow> is_far K x \<Longrightarrow> is_cl K x \<or> is_sv K x"
  unfolding kin_ok_def by blast

lemma height_up: "kin_ok K V \<Longrightarrow> x \<in> V \<Longrightarrow> is_sv K x \<Longrightarrow> k_up K x = Some q \<Longrightarrow> k_height K x < k_height K q"
  unfolding kin_ok_def by blast

lemma me_in: "kin_ok K V \<Longrightarrow> k_me K \<in> V"
  by (simp add: kin_ok_def)

lemma me_top:
  assumes k: "kin_ok K V"
  shows "y \<in> behind K x \<Longrightarrow> y = k_me K \<longrightarrow> x = k_me K"
proof (induction rule: behind.induct)
  case (up q y)
  then show ?case using near_up[OF k me_in[OF k] me_near[OF k]] by blast
qed simp

lemma behind_height:
  assumes k: "kin_ok K V" and x: "x \<noteq> k_me K"
  shows "y \<in> behind K x \<Longrightarrow> y \<in> V \<Longrightarrow> is_sv K y \<Longrightarrow> k_height K y \<le> k_height K x"
proof (induction rule: behind.induct)
  case (up q y)
  have q: "q \<in> V" "is_sv K q \<or> q = k_me K" using kin_up[OF k up(4,2)] by simp_all
  have "q \<noteq> k_me K" using me_top[OF k up(1)] x by blast
  then show ?case using up(3)[OF q(1)] q(2) height_up[OF k up(4,5,2)] by simp
qed simp

lemma behind_trans: "y \<in> behind K x \<Longrightarrow> x \<in> behind K p \<Longrightarrow> y \<in> behind K p"
  by (induction rule: behind.induct) (auto intro: behind.up)

lemma behind_first:
  assumes k: "kin_ok K V"
  shows "x \<in> behind K p \<Longrightarrow> x \<in> V \<Longrightarrow> x \<noteq> p \<Longrightarrow> \<exists>q \<in> V. k_up K q = Some p \<and> x \<in> behind K q"
proof (induction rule: behind.induct)
  case (up r x)
  show ?case
  proof (cases "r = p")
    case True
    then show ?thesis using up(2,4) behind.self by blast
  next
    case False
    then obtain q where "q \<in> V" "k_up K q = Some p" "r \<in> behind K q" using up(3) kin_up[OF k up(4,2)] by blast
    then show ?thesis using behind.up up(2) by blast
  qed
qed simp

lemma cl_childless: "kin_ok K V \<Longrightarrow> is_cl K p \<Longrightarrow> childless K V p"
  using kin_up[of K V _ p] cl_not_sv[of K p] me_kind[of K V] by (auto simp: childless_def)

lemma cl_behind: "kin_ok K V \<Longrightarrow> is_cl K q \<Longrightarrow> x \<in> behind K q \<Longrightarrow> x \<in> V \<Longrightarrow> x = q"
  using behind_child[of K V x q] cl_childless[of K V q] unfolding childless_def by blast

lemma child_far: "kin_ok K V \<Longrightarrow> q \<in> V \<Longrightarrow> k_up K q = Some p \<Longrightarrow> p \<noteq> k_me K \<Longrightarrow> is_far K q"
  using near_up by blast

lemma sv_not_me: "kin_ok K V \<Longrightarrow> is_sv K p \<Longrightarrow> p \<noteq> k_me K"
  using me_kind by blast

lemma subtree:
  assumes k: "kin_ok K V" and p: "p \<in> V" "is_sv K p"
  shows "V - users_at K V p - (\<Union>q \<in> servers_at K V p. behind K q) = V - (behind K p - {p})"
proof -
  have pm: "p \<noteq> k_me K" using sv_not_me[OF k p(2)] .
  have down: "x \<in> users_at K V p \<or> (\<exists>q \<in> servers_at K V p. x \<in> behind K q)" if x: "x \<in> V" "x \<in> behind K p" "x \<noteq> p" for x
  proof -
    obtain q where q: "q \<in> V" "k_up K q = Some p" "x \<in> behind K q" using behind_first[OF k x(2,1,3)] by blast
    have "is_cl K q \<or> is_sv K q" using far_kind[OF k q(1) child_far[OF k q(1,2) pm]] .
    then show ?thesis using q cl_behind[OF k _ q(3) x(1)] by (auto simp: at_defs)
  qed
  have servers: "x \<in> behind K p \<and> x \<noteq> p" if "q \<in> servers_at K V p" "x \<in> behind K q" for x q
  proof -
    have q: "q \<in> V" "is_sv K q" "k_up K q = Some p" using that(1) by (simp_all add: at_defs)
    have "q \<in> behind K p" using behind.up[OF behind.self q(3)] .
    moreover have "x \<noteq> p"
    proof
      assume "x = p"
      then have "k_height K p \<le> k_height K q" using behind_height[OF k sv_not_me[OF k q(2)]] that(2) p by blast
      then show False using height_up[OF k q(1,2,3)] by simp
    qed
    ultimately show ?thesis using behind_trans[OF that(2)] by blast
  qed
  have users: "x \<in> behind K p \<and> x \<noteq> p" if "x \<in> users_at K V p" for x
  proof -
    have "is_cl K x" "k_up K x = Some p" using that by (simp_all add: at_defs)
    then show ?thesis using behind.up[OF behind.self] p(2) cl_not_sv by blast
  qed
  show ?thesis
  proof (rule set_eqI)
    fix x
    show "x \<in> V - users_at K V p - (\<Union>q \<in> servers_at K V p. behind K q) \<longleftrightarrow> x \<in> V - (behind K p - {p})"
      using down[of x] servers[of _ x] users[of x] by auto
  qed
qed

text \<open>A loop that takes the clients \<open>R x\<close> out for every \<open>x\<close> of a list.\<close>

definition takes_out :: "exit_env \<Rightarrow> kin \<Rightarrow> (net \<Rightarrow> net option) \<Rightarrow> net \<Rightarrow> ptr set \<Rightarrow> ptr set \<Rightarrow> bool" where
  "takes_out e K f N V R \<longleftrightarrow> (\<exists>N'. f N = Some N' \<and> net_inv e K N' (V - R) \<and> locals_kept N N' \<and>
     set (dead_list N') = set (dead_list N) \<union> (V \<inter> R))"

lemma foreach_takes_out:
  assumes step: "\<And>x N V. x \<in> set xs \<Longrightarrow> net_inv e K N V \<Longrightarrow> P x V \<Longrightarrow> takes_out e K (f x) N V (R x)"
    and keep: "\<And>x y V. x \<in> set xs \<Longrightarrow> y \<in> set xs \<Longrightarrow> x \<noteq> y \<Longrightarrow> P y V \<Longrightarrow> P y (V - R x)"
  shows "distinct xs \<Longrightarrow> net_inv e K N V \<Longrightarrow> \<forall>x \<in> set xs. P x V \<Longrightarrow> takes_out e K (foreach_safe f xs) N V (\<Union>(R ` set xs))"
  using step keep
proof (induction xs arbitrary: N V)
  case Nil
  then show ?case by (simp add: takes_out_def locals_kept_refl)
next
  case (Cons x xs)
  have "takes_out e K (f x) N V (R x)" using Cons.prems(2,3,4) by simp
  then obtain N1 where N1: "f x N = Some N1" "net_inv e K N1 (V - R x)" "locals_kept N N1" "set (dead_list N1) = set (dead_list N) \<union> (V \<inter> R x)"
    unfolding takes_out_def by blast
  have P: "\<forall>y \<in> set xs. P y (V - R x)"
  proof
    fix y assume y: "y \<in> set xs"
    then have "x \<noteq> y" using Cons.prems(1) by auto
    then show "P y (V - R x)" using Cons.prems(5)[of x y V] Cons.prems(3) y by simp
  qed
  have "takes_out e K (foreach_safe f xs) N1 (V - R x) (\<Union>(R ` set xs))"
    by (rule Cons.IH[OF _ N1(2) P]) (use Cons.prems in auto)
  then obtain N2 where N2: "foreach_safe f xs N1 = Some N2" "net_inv e K N2 (V - R x - \<Union>(R ` set xs))" "locals_kept N1 N2"
    "set (dead_list N2) = set (dead_list N1) \<union> ((V - R x) \<inter> \<Union>(R ` set xs))" unfolding takes_out_def by blast
  have "V - R x - \<Union>(R ` set xs) = V - \<Union>(R ` set (x # xs))" by auto
  moreover have "set (dead_list N2) = set (dead_list N) \<union> (V \<inter> \<Union>(R ` set (x # xs)))" unfolding N2(4) N1(4) by auto
  ultimately show ?case using N1(1,3) N2(1,2,3) locals_kept_trans unfolding takes_out_def by auto
qed

lemma far_exit:
  assumes "net_inv e K N V" "p \<in> V" "is_far K p" "childless K V p"
  shows "takes_out e K (exit_one_client e p) N V {p}"
proof -
  have "p \<noteq> k_me K" using me_near assms(1,3) unfolding net_inv_def by blast
  then obtain N' where "exit_one_client e p N = Some N'" "net_inv e K N' (V - {p})" "locals_kept N N'" "dead_list N' = p # dead_list N"
    using exit_one_client_ok[OF assms(1,2) _ assms(4)] assms(3) by blast
  then show ?thesis using assms(2) unfolding takes_out_def by auto
qed

lemma servs_of:
  assumes "net_inv e K N V" "q \<in> V" "is_sv K q"
  shows "\<exists>sv. serv_of q N = Some sv \<and> serv_good K V V q sv"
  using assms serv_okD[of K "servs N" V V V q] by (simp add: net_inv_def serv_of_def)

text \<open>No one in \<open>V\<close> is behind a link whose dependents are gone.\<close>

lemma none_over:
  assumes k: "kin_ok K V" and p: "p \<in> V"
  shows "users_over K (V - (behind K p - {p})) p = {}" "servers_over K (V - (behind K p - {p})) p = {}"
proof -
  have "\<not> (x \<in> V - (behind K p - {p}) \<and> is_far K x \<and> k_from K x = Some p)" for x
  proof
    assume x: "x \<in> V - (behind K p - {p}) \<and> is_far K x \<and> k_from K x = Some p"
    then have "x \<in> behind K p \<and> \<not> is_far K p" using k unfolding kin_ok_def by fastforce
    then show False using x by blast
  qed
  then show "users_over K (V - (behind K p - {p})) p = {}" "servers_over K (V - (behind K p - {p})) p = {}"
    by (auto simp: at_defs)
qed

lemma child_out:
  assumes ih: "\<And>N V. net_inv e K N V \<Longrightarrow> q \<in> V \<Longrightarrow> takes_out e K (recurse_remove_clients e n q) N V (behind K q - {q})"
    and inv: "net_inv e K N V" and q: "q \<in> V" "is_sv K q" "is_far K q"
  shows "takes_out e K (\<lambda>N. Option.bind (recurse_remove_clients e n q N) (exit_one_client e q)) N V (behind K q)"
proof -
  obtain N1 where N1: "recurse_remove_clients e n q N = Some N1" "net_inv e K N1 (V - (behind K q - {q}))" "locals_kept N N1"
    "set (dead_list N1) = set (dead_list N) \<union> (V \<inter> (behind K q - {q}))" using ih[OF inv q(1)] unfolding takes_out_def by blast
  have qs: "q \<in> behind K q" by (rule behind.self)
  have k: "kin_ok K V" using inv by (simp add: net_inv_def)
  have "childless K (V - (behind K q - {q})) q"
    unfolding childless_def
  proof (intro ballI notI)
    fix y assume y: "y \<in> V - (behind K q - {q})" "k_up K y = Some q"
    then have "y = q" using behind.up[OF qs y(2)] by blast
    then show False using height_up[OF k _ q(2)] y q(1) by blast
  qed
  then obtain N2 where N2: "exit_one_client e q N1 = Some N2" "net_inv e K N2 (V - (behind K q - {q}) - {q})" "locals_kept N1 N2"
    "set (dead_list N2) = set (dead_list N1) \<union> ((V - (behind K q - {q})) \<inter> {q})"
    using far_exit[OF N1(2) _ q(3)] q(1) unfolding takes_out_def by blast
  have "V - (behind K q - {q}) - {q} = V - behind K q" using qs by blast
  moreover have "set (dead_list N2) = set (dead_list N) \<union> (V \<inter> behind K q)" unfolding N2(4) N1(4) using qs q(1) by blast
  ultimately show ?thesis using N1(1,3) N2(1,2,3) locals_kept_trans unfolding takes_out_def by auto
qed

text \<open>Two servers at the same place are not behind each other.\<close>

lemma siblings:
  assumes k: "kin_ok K V" and x: "x \<in> V" "is_sv K x" "k_up K x = Some p" and y: "y \<in> V" "k_up K y = Some p" "y \<noteq> x"
  shows "y \<notin> behind K x"
proof
  assume "y \<in> behind K x"
  then have b: "p \<in> behind K x" using behind_step[OF _ y(3)] y(2) by fastforce
  have xm: "x \<noteq> k_me K" using sv_not_me[OF k x(2)] .
  have "p \<noteq> k_me K" using me_top[OF k b] xm by blast
  then have "p \<in> V" "is_sv K p" using kin_up[OF k x(1,3)] by simp_all
  then show False using behind_height[OF k xm b] height_up[OF k x] by simp
qed

lemma users_out:
  assumes inv: "net_inv e K N V" and p: "p \<in> V" "is_sv K p" and sv: "serv_good K V V p sv"
  shows "takes_out e K (foreach_safe (exit_one_client e) (sv_users sv)) N V (users_at K V p)"
proof -
  have k: "kin_ok K V" using inv by (simp add: net_inv_def)
  have u: "distinct (sv_users sv)" "set (sv_users sv) = users_at K V p" using sv by (simp_all add: serv_good_def)
  have ux: "\<forall>x \<in> set (sv_users sv). x \<in> V \<and> is_cl K x \<and> is_far K x"
    using u(2) child_far[OF k _ _ sv_not_me[OF k p(2)]] by (auto simp: at_defs)
  have "takes_out e K (foreach_safe (exit_one_client e) (sv_users sv)) N V (\<Union>((\<lambda>x. {x}) ` set (sv_users sv)))"
  proof (rule foreach_takes_out[where P = "\<lambda>x V. x \<in> V \<and> is_cl K x \<and> is_far K x", OF _ _ u(1) inv ux])
    fix x N V assume "net_inv e K N V" "x \<in> V \<and> is_cl K x \<and> is_far K x"
    then show "takes_out e K (exit_one_client e x) N V {x}" using far_exit cl_childless unfolding net_inv_def by blast
  qed blast
  then show ?thesis by (simp add: u(2))
qed

lemma servers_out:
  assumes ih: "\<And>q N V. net_inv e K N V \<Longrightarrow> q \<in> V \<Longrightarrow> is_sv K q \<Longrightarrow> k_height K q < n \<Longrightarrow>
      takes_out e K (recurse_remove_clients e n q) N V (behind K q - {q})"
    and inv: "net_inv e K N V" and s: "distinct ss"
    and sx: "\<forall>x \<in> set ss. x \<in> V \<and> is_sv K x \<and> is_far K x \<and> k_up K x = Some p \<and> k_height K x < n"
  shows "takes_out e K (foreach_safe (\<lambda>q N. Option.bind (recurse_remove_clients e n q N) (exit_one_client e q)) ss) N V (\<Union>(behind K ` set ss))"
proof (rule foreach_takes_out[where P = "\<lambda>x V. x \<in> V \<and> is_sv K x \<and> is_far K x \<and> k_up K x = Some p \<and> k_height K x < n", OF _ _ s inv sx])
  fix x N V assume "net_inv e K N V" "x \<in> V \<and> is_sv K x \<and> is_far K x \<and> k_up K x = Some p \<and> k_height K x < n"
  then show "takes_out e K (\<lambda>N. Option.bind (recurse_remove_clients e n x N) (exit_one_client e x)) N V (behind K x)"
    using child_out[of e K x n N V] ih by blast
next
  fix x y W assume x: "x \<in> set ss" and y: "y \<in> set ss" "x \<noteq> y"
    and yW: "y \<in> W \<and> is_sv K y \<and> is_far K y \<and> k_up K y = Some p \<and> k_height K y < n"
  have k: "kin_ok K V" using inv by (simp add: net_inv_def)
  have "y \<notin> behind K x" using siblings[OF k, of x p y] sx x y by blast
  then show "y \<in> W - behind K x \<and> is_sv K y \<and> is_far K y \<and> k_up K y = Some p \<and> k_height K y < n" using yW by blast
qed

lemma recurse_ok:
  "net_inv e K N V \<Longrightarrow> p \<in> V \<Longrightarrow> is_sv K p \<Longrightarrow> k_height K p < n \<Longrightarrow>
   takes_out e K (recurse_remove_clients e n p) N V (behind K p - {p})"
proof (induction n arbitrary: p N V)
  case (Suc n)
  note inv = Suc.prems(1) and p = Suc.prems(2,3)
  have k: "kin_ok K V" using inv by (simp add: net_inv_def)
  obtain sv where sv: "serv_of p N = Some sv" "serv_good K V V p sv" using servs_of[OF inv p] by blast
  obtain N1 where N1: "foreach_safe (exit_one_client e) (sv_users sv) N = Some N1" "net_inv e K N1 (V - users_at K V p)"
    "locals_kept N N1" "set (dead_list N1) = set (dead_list N) \<union> (V \<inter> users_at K V p)"
    using users_out[OF inv p sv(2)] unfolding takes_out_def by blast
  let ?V = "V - users_at K V p"
  have pV: "p \<in> ?V" using p cl_not_sv[of K p] by (auto simp: at_defs)
  obtain sv1 where sv1: "serv_of p N1 = Some sv1" "serv_good K ?V ?V p sv1" using servs_of[OF N1(2) pV p(2)] by blast
  have "servers_at K ?V p = servers_at K V p" using cl_not_sv by (auto simp: at_defs)
  then have s: "distinct (sv_servers sv1)" "set (sv_servers sv1) = servers_at K V p" using sv1(2) by (simp_all add: serv_good_def)
  have sx: "\<forall>x \<in> set (sv_servers sv1). x \<in> ?V \<and> is_sv K x \<and> is_far K x \<and> k_up K x = Some p \<and> k_height K x < n"
  proof
    fix x assume "x \<in> set (sv_servers sv1)"
    then have x: "x \<in> V" "is_sv K x" "k_up K x = Some p" using s(2) by (simp_all add: at_defs)
    then show "x \<in> ?V \<and> is_sv K x \<and> is_far K x \<and> k_up K x = Some p \<and> k_height K x < n"
      using child_far[OF k x(1,3) sv_not_me[OF k p(2)]] height_up[OF k x] cl_not_sv[of K x] Suc.prems(4) by (auto simp: at_defs)
  qed
  obtain N2 where N2: "foreach_safe (\<lambda>q N. Option.bind (recurse_remove_clients e n q N) (exit_one_client e q)) (sv_servers sv1) N1 = Some N2"
    "net_inv e K N2 (?V - \<Union>(behind K ` servers_at K V p))" "locals_kept N1 N2"
    "set (dead_list N2) = set (dead_list N1) \<union> (?V \<inter> \<Union>(behind K ` servers_at K V p))"
    using servers_out[OF Suc.IH N1(2) s(1) sx] unfolding takes_out_def s(2) by blast
  note sub = subtree[OF k p]
  let ?W = "V - (behind K p - {p})"
  have inv2: "net_inv e K N2 ?W" using N2(2) unfolding sub .
  obtain sv2 where sv2: "serv_of p N2 = Some sv2" "serv_good K ?W ?W p sv2" using servs_of[OF inv2 _ p(2)] p(1) by blast
  have "dep_servers sv2 = 1 \<and> dep_users sv2 = 0" using sv2(2) p(2) none_over[OF k p(1)] by (simp add: serv_good_def)
  then have "recurse_remove_clients e (Suc n) p N = Some N2" using sv sv1 sv2 N1(1) N2(1) by (simp add: check_def)
  moreover have "set (dead_list N2) = set (dead_list N) \<union> (V \<inter> (behind K p - {p}))"
    unfolding N2(4) N1(4) using sub by blast
  ultimately show ?case using inv2 locals_kept_trans[OF N1(3) N2(3)] unfolding takes_out_def by blast
qed simp

subsection \<open>The lists of local clients\<close>

definition near_ok :: "ptr list \<Rightarrow> kin \<Rightarrow> ptr set \<Rightarrow> (ptr \<Rightarrow> bool) \<Rightarrow> bool" where
  "near_ok l K V P \<longleftrightarrow> distinct l \<and> set l = {p \<in> V. \<not> is_far K p \<and> P p}"

definition is_unreg :: "kin \<Rightarrow> ptr \<Rightarrow> bool" where
  "is_unreg K p \<longleftrightarrow> us_status (k_user K p) \<le> STAT_UNKNOWN \<and> p \<noteq> k_me K"

definition local_inv :: "kin \<Rightarrow> net \<Rightarrow> ptr set \<Rightarrow> bool" where
  "local_inv K N V \<longleftrightarrow> near_ok (unknown_list N) K V (is_unreg K) \<and> near_ok (local_client_list N) K V (is_cl K) \<and>
     near_ok (serv_list N) K V (is_sv K) \<and> near_ok (oper_list N) K V (\<lambda>p. is_cl K p \<and> us_oper (k_user K p)) \<and>
     cn_local (ne_counts N) = int (card {p \<in> V. \<not> is_far K p \<and> is_cl K p}) \<and>
     cn_myserver (ne_counts N) = int (card {p \<in> V. \<not> is_far K p \<and> is_sv K p}) \<and>
     (\<forall>p \<in> V. \<not> is_far K p \<longrightarrow> \<not> nd_closing (ne_node N p))"

lemma near_off: "near_ok l K V P \<Longrightarrow> near_ok (remove1 p l) K (V - {p}) P"
  by (auto simp: near_ok_def set_remove1_eq)

lemma near_skip: "near_ok l K V P \<Longrightarrow> is_far K p \<or> \<not> P p \<Longrightarrow> near_ok l K (V - {p}) P"
  by (auto simp: near_ok_def)

lemma local_inv_far:
  assumes "local_inv K N V" "\<forall>p \<in> V \<inter> R. is_far K p"
  shows "local_inv K N (V - R)"
proof -
  have "{p \<in> V - R. \<not> is_far K p \<and> P p} = {p \<in> V. \<not> is_far K p \<and> P p}" for P using assms(2) by auto
  then show ?thesis using assms by (simp add: local_inv_def near_ok_def)
qed

lemma local_inv_kept: "lists_kept N N' \<Longrightarrow> local_inv K N V \<Longrightarrow> local_inv K N' V"
  by (simp add: lists_kept_def local_inv_def)

text \<open>The fields \<open>local_off\<close> leaves alone.\<close>

lemma local_off_fields:
  "ne_world (local_off u p N) = ne_world N" "ne_who (local_off u p N) = ne_who N" "ne_uh (local_off u p N) = ne_uh N"
  "global_client_list (local_off u p N) = global_client_list N" "global_serv_list (local_off u p N) = global_serv_list N"
  "dead_list (local_off u p N) = dead_list N"
  "cn_total (ne_counts (local_off u p N)) = cn_total (ne_counts N)" "cn_oper (ne_counts (local_off u p N)) = cn_oper (ne_counts N)"
  "cn_invisi (ne_counts (local_off u p N)) = cn_invisi (ne_counts N)"
  by (simp_all add: local_off_def Let_def upd_node_def emit_def)

lemma local_off_node:
  "ne_node (local_off u p N) = (ne_node N)(p := (ne_node N p)\<lparr>nd_closing := True, nd_from := None\<rparr>)"
  by (simp add: local_off_def Let_def upd_node_def emit_def fun_eq_iff)

lemma stat_apart:
  "IsClient u \<Longrightarrow> \<not> us_status u \<le> STAT_UNKNOWN" "IsServer u \<Longrightarrow> \<not> us_status u \<le> STAT_UNKNOWN"
  "IsClient u \<Longrightarrow> \<not> IsServer u" "IsServer u \<Longrightarrow> \<not> IsClient u"
  "us_status u = STAT_CONNECTING \<Longrightarrow> us_status u \<le> STAT_UNKNOWN" "us_status u = STAT_HANDSHAKE \<Longrightarrow> us_status u \<le> STAT_UNKNOWN"
  by (simp_all add: IsClient_def IsServer_def stat_defs)

lemma local_off_lists:
  "unknown_list (local_off u p N) = (if us_status u \<le> STAT_UNKNOWN then remove1 p (unknown_list N) else unknown_list N)"
  "local_client_list (local_off u p N) = (if IsClient u then remove1 p (local_client_list N) else local_client_list N)"
  "oper_list (local_off u p N) = (if IsClient u \<and> us_oper u then remove1 p (oper_list N) else oper_list N)"
  "serv_list (local_off u p N) = (if IsServer u \<or> us_status u = STAT_CONNECTING \<or> us_status u = STAT_HANDSHAKE
     then remove1 p (serv_list N) else serv_list N)"
  "cn_local (ne_counts (local_off u p N)) = cn_local (ne_counts N) - (if IsClient u then 1 else 0)"
  "cn_myserver (ne_counts (local_off u p N)) = cn_myserver (ne_counts N) - (if IsServer u then 1 else 0)"
  using stat_apart[of u] by (auto simp: local_off_def Let_def upd_node_def emit_def)

lemma local_off_net:
  assumes inv: "net_inv e K N V" and p: "p \<in> V" "\<not> is_far K p"
  shows "net_inv e K (local_off u p N) V"
proof -
  have nd: "nd_serv (ne_node (local_off u p N) q) = nd_serv (ne_node N q)" "nd_allow (ne_node (local_off u p N) q) = nd_allow (ne_node N q)"
    "nd_on_allow (ne_node (local_off u p N) q) = nd_on_allow (ne_node N q)" "nd_dead (ne_node (local_off u p N) q) = nd_dead (ne_node N q)"
    "nd_servptr (ne_node (local_off u p N) q) = nd_servptr (ne_node N q)" "nd_userhost (ne_node (local_off u p N) q) = nd_userhost (ne_node N q)"
    "nd_invisible (ne_node (local_off u p N) q) = nd_invisible (ne_node N q)"
    "nd_closing (ne_node (local_off u p N) q) = (q = p \<or> nd_closing (ne_node N q))"
    "q \<noteq> p \<Longrightarrow> nd_from (ne_node (local_off u p N) q) = nd_from (ne_node N q)" for q
    by (simp_all add: local_off_node)
  have "nd_from (ne_node (local_off u p N) q) = nd_from (ne_node N q)" if "is_far K q" for q
  proof -
    have "q \<noteq> p" using that p(2) by blast
    then show ?thesis by (rule nd(9))
  qed
  then have "core_ok K (local_off u p N) V" using inv by (simp add: net_inv_def core_ok_def local_off_fields nd(5-7))
  moreover have "dead_ok (local_off u p N) V" using inv by (auto simp: net_inv_def dead_ok_def local_off_fields nd)
  ultimately show ?thesis using inv by (simp add: net_inv_def local_off_fields nd(1-3) globals_ok_def counts_ok_def)
qed

lemma card_near_off:
  assumes "finite V" "p \<in> V" "\<not> is_far K p"
  shows "int (card {q \<in> V - {p}. \<not> is_far K q \<and> P q}) = int (card {q \<in> V. \<not> is_far K q \<and> P q}) - (if P p then 1 else 0)"
  using card_off[OF assms(1,2), of "\<lambda>q. \<not> is_far K q \<and> P q"] assms(3) by simp

lemma local_off_ok:
  assumes inv: "net_inv e K N V" and l: "local_inv K N V" and p: "p \<in> V" "\<not> is_far K p" "p \<noteq> k_me K" and u: "user_of N p = Some u"
  shows "local_inv K (local_off u p N) (V - {p})"
proof -
  have c: "core_ok K N V" and fin: "finite V" using inv by (simp_all add: net_inv_def kin_ok_def)
  note uf = kin_fields[OF c p(1) u]
  have un: "is_unreg K p = (us_status u \<le> STAT_UNKNOWN)" using p(3) uf(5) by (simp add: is_unreg_def)
  have "near_ok (unknown_list (local_off u p N)) K (V - {p}) (is_unreg K)"
    using l near_off[of _ K V _ p] near_skip[of _ K V _ p] un by (simp add: local_off_lists local_inv_def)
  moreover have "near_ok (local_client_list (local_off u p N)) K (V - {p}) (is_cl K)"
    using l near_off[of _ K V _ p] near_skip[of _ K V _ p] by (simp add: local_off_lists local_inv_def uf)
  moreover have "near_ok (serv_list (local_off u p N)) K (V - {p}) (is_sv K)"
    using l near_off[of _ K V _ p] near_skip[of _ K V _ p] by (simp add: local_off_lists local_inv_def uf)
  moreover have "near_ok (oper_list (local_off u p N)) K (V - {p}) (\<lambda>p. is_cl K p \<and> us_oper (k_user K p))"
    using l near_off[of "oper_list N" K V _ p] near_skip[of "oper_list N" K V _ p] by (simp add: local_off_lists local_inv_def uf)
  moreover have "cn_local (ne_counts (local_off u p N)) = int (card {q \<in> V - {p}. \<not> is_far K q \<and> is_cl K q})"
    using l unfolding card_near_off[OF fin p(1,2)] by (simp add: local_off_lists local_inv_def uf)
  moreover have "cn_myserver (ne_counts (local_off u p N)) = int (card {q \<in> V - {p}. \<not> is_far K q \<and> is_sv K q})"
    using l unfolding card_near_off[OF fin p(1,2)] by (simp add: local_off_lists local_inv_def uf)
  moreover have "\<forall>q \<in> V - {p}. \<not> is_far K q \<longrightarrow> \<not> nd_closing (ne_node (local_off u p N) q)"
    using l by (auto simp: local_off_node local_inv_def)
  ultimately show ?thesis unfolding local_inv_def by blast
qed

subsection \<open>The messages\<close>

text \<open>What a neighbour hears of the server \<open>q\<close> when \<open>orig\<close> goes.\<close>

definition told :: "exit_env \<Rightarrow> kin \<Rightarrow> bool \<Rightarrow> ptr set \<Rightarrow> ptr \<Rightarrow> ptr option \<Rightarrow> ptr \<Rightarrow> ptr \<Rightarrow> net_out set" where
  "told e K qs V orig fr to q =
     (let hidden = glob (xe_link_name e to) (us_name (k_user K q))
      in (if hidden \<or> \<not> qs then Quit_to to ` users_at K V q else {}) \<union>
         (if \<not> hidden \<and> (q = orig \<and> Some to \<noteq> fr \<or> \<not> qs) then {Squit_to to q} else {}))"

definition servers_behind :: "kin \<Rightarrow> ptr set \<Rightarrow> ptr \<Rightarrow> ptr set" where
  "servers_behind K V p = {q \<in> V. is_sv K q \<and> q \<in> behind K p}"

lemma servers_behind_step:
  assumes k: "kin_ok K V" and p: "p \<in> V" "is_sv K p"
  shows "servers_behind K V p = insert p (\<Union>q \<in> servers_at K V p. servers_behind K V q)"
proof (rule set_eqI)
  fix x
  show "x \<in> servers_behind K V p \<longleftrightarrow> x \<in> insert p (\<Union>q \<in> servers_at K V p. servers_behind K V q)"
  proof
    assume "x \<in> servers_behind K V p"
    then have x: "x \<in> V" "is_sv K x" "x \<in> behind K p" by (simp_all add: servers_behind_def)
    show "x \<in> insert p (\<Union>q \<in> servers_at K V p. servers_behind K V q)"
    proof (cases "x = p")
      case False
      then obtain q where q: "q \<in> V" "k_up K q = Some p" "x \<in> behind K q" using behind_first[OF k x(3,1)] by blast
      have "is_cl K q \<or> is_sv K q" using far_kind[OF k q(1) child_far[OF k q(1,2) sv_not_me[OF k p(2)]]] .
      then have "is_sv K q" using cl_behind[OF k _ q(3) x(1)] x(2) cl_not_sv by blast
      then show ?thesis using q x by (auto simp: servers_behind_def at_defs)
    qed simp
  next
    assume "x \<in> insert p (\<Union>q \<in> servers_at K V p. servers_behind K V q)"
    then show "x \<in> servers_behind K V p"
      using p behind_trans[of x K _ p] behind.up[OF behind.self[of p K]] by (auto simp: servers_behind_def at_defs intro: behind.self)
  qed
qed

lemma those_map_Some: "(\<And>x. x \<in> set xs \<Longrightarrow> \<exists>y. f x = Some y \<and> set y = g x) \<Longrightarrow>
  \<exists>ys. those (map f xs) = Some ys \<and> set (concat ys) = (\<Union>x \<in> set xs. g x)"
proof (induction xs)
  case (Cons x xs)
  then obtain ys where "those (map f xs) = Some ys" "set (concat ys) = (\<Union>x \<in> set xs. g x)" by auto
  moreover obtain y where "f x = Some y" "set y = g x" using Cons.prems[of x] by auto
  ultimately show ?case by simp
qed simp

lemma quits_run:
  assumes inv: "net_inv e K N V" and to: "\<not> is_far K to" and qs: "qs = nd_qs (ne_node N to)"
  shows "p \<in> V \<Longrightarrow> is_sv K p \<Longrightarrow> k_height K p < n \<Longrightarrow> to \<noteq> p \<Longrightarrow>
    \<exists>out. recurse_send_quits e n orig p fr to N = Some out \<and>
      set out = (\<Union>q \<in> servers_behind K V p. told e K qs V orig fr to q)"
proof (induction n arbitrary: p)
  case (Suc n)
  note p = Suc.prems(1,2)
  have k: "kin_ok K V" and c: "core_ok K N V" using inv by (simp_all add: net_inv_def)
  obtain u where u: "user_of N p = Some u" using core_alive[OF c p(1)] by blast
  have nm: "us_name u = us_name (k_user K p)" using kin_fields(1)[OF c p(1) u] .
  obtain sv where sv: "serv_of p N = Some sv" "serv_good K V V p sv" using servs_of[OF inv p] by blast
  have l: "set (sv_users sv) = users_at K V p" "set (sv_servers sv) = servers_at K V p" using sv(2) by (simp_all add: serv_good_def)
  have sub: "\<exists>out. recurse_send_quits e n orig q fr to N = Some out \<and>
      set out = (\<Union>q \<in> servers_behind K V q. told e K qs V orig fr to q)" if "q \<in> set (sv_servers sv)" for q
  proof -
    have q: "q \<in> V" "is_sv K q" "k_up K q = Some p" using that l(2) by (simp_all add: at_defs)
    have "is_far K q" using child_far[OF k q(1,3) sv_not_me[OF k p(2)]] .
    then show ?thesis using Suc.IH[OF q(1,2)] height_up[OF k q] Suc.prems(3) to by fastforce
  qed
  have "\<exists>outs. those (map (\<lambda>q. recurse_send_quits e n orig q fr to N) (sv_servers sv)) = Some outs \<and>
    set (concat outs) = (\<Union>q \<in> set (sv_servers sv). \<Union>q \<in> servers_behind K V q. told e K qs V orig fr to q)"
    by (rule those_map_Some) (rule sub)
  then obtain outs where outs:
    "those (map (\<lambda>q. recurse_send_quits e n orig q fr to N) (sv_servers sv)) = Some outs"
    "set (concat outs) = (\<Union>q \<in> servers_at K V p. \<Union>q \<in> servers_behind K V q. told e K qs V orig fr to q)"
    unfolding l(2) by blast
  let ?h = "glob (xe_link_name e to) (us_name (k_user K p))"
  let ?out = "(if ?h \<or> \<not> qs then map (Quit_to to) (sv_users sv) else []) @ concat outs @
    (if \<not> ?h \<and> (p = orig \<and> Some to \<noteq> fr \<or> \<not> qs) then [Squit_to to p] else [])"
  have "recurse_send_quits e (Suc n) orig p fr to N = Some ?out"
    using Suc.prems(4) u sv(1) outs(1) by (simp add: match_glob nm qs[symmetric])
  moreover have "set ?out = told e K qs V orig fr to p \<union> set (concat outs)"
    unfolding told_def Let_def set_append l(1)[symmetric] by auto
  then have "set ?out = (\<Union>q \<in> servers_behind K V p. told e K qs V orig fr to q)"
    unfolding servers_behind_step[OF k p] outs(2) by simp
  ultimately show ?case by blast
qed simp

subsection \<open>Any client\<close>

lemma behind_far:
  assumes k: "kin_ok K V" and p: "p \<noteq> k_me K" and y: "y \<in> behind K p" "y \<in> V" "y \<noteq> p"
  shows "is_far K y"
proof -
  obtain q where q: "k_up K y = Some q" "q \<in> behind K p" using behind_step[OF y(1,3)] by blast
  have "q \<noteq> k_me K" using me_top[OF k q(2)] p by blast
  then show ?thesis using near_up[OF k y(2) _ q(1)] by blast
qed

lemma leaf:
  assumes k: "kin_ok K V" and p: "p \<in> V" "\<not> is_sv K p" "p \<noteq> k_me K"
  shows "childless K V p" "V \<inter> behind K p = {p}"
proof -
  have no: "k_up K y \<noteq> Some p" if "y \<in> V" for y using kin_up[OF k that, of p] p by blast
  then show "childless K V p" by (simp add: childless_def)
  have "y = p" if y: "y \<in> V" "y \<in> behind K p" for y
  proof (rule ccontr)
    assume "y \<noteq> p"
    then obtain z where "z \<in> V" "k_up K z = Some p" using behind_child[OF k y(2,1)] by blast
    then show False using no by blast
  qed
  then show "V \<inter> behind K p = {p}" using p(1) behind.self[of p K] by blast
qed

definition net_ok :: "exit_env \<Rightarrow> kin \<Rightarrow> net \<Rightarrow> ptr set \<Rightarrow> bool" where
  "net_ok e K N V \<longleftrightarrow> net_inv e K N V \<and> local_inv K N V"

lemma net_inv_emit [simp]: "net_inv e K (emit o' N) V = net_inv e K N V"
  by (simp add: net_inv_def emit_def core_ok_def globals_ok_def dead_ok_def)

lemma local_inv_emit [simp]: "local_inv K (emit o' N) V = local_inv K N V"
  by (simp add: local_inv_def emit_def)

lemma emit_fields [simp]: "dead_list (emit o' N) = dead_list N" "ne_node (emit o' N) = ne_node N" "serv_list (emit o' N) = serv_list N"
  "ne_world (emit o' N) = ne_world N"
  by (simp_all add: emit_def)

lemma quits_all:
  assumes inv: "net_inv e K N V" and p: "p \<in> V" "is_sv K p" "k_height K p < n"
    and to: "\<forall>to \<in> set ts. \<not> is_far K to \<and> to \<noteq> p"
  shows "\<exists>outs. those (map (\<lambda>to. recurse_send_quits e n p p fr to N) ts) = Some outs \<and>
    set (concat outs) = (\<Union>to \<in> set ts. \<Union>q \<in> servers_behind K V p. told e K (nd_qs (ne_node N to)) V p fr to q)"
proof (rule those_map_Some)
  fix to assume "to \<in> set ts"
  then have "\<not> is_far K to" "to \<noteq> p" using to by simp_all
  then show "\<exists>y. recurse_send_quits e n p p fr to N = Some y \<and>
    set y = (\<Union>q \<in> servers_behind K V p. told e K (nd_qs (ne_node N to)) V p fr to q)"
    using quits_run[OF inv _ refl p] by simp
qed

text \<open>What all neighbours hear.\<close>

definition all_told :: "exit_env \<Rightarrow> kin \<Rightarrow> net \<Rightarrow> ptr set \<Rightarrow> ptr \<Rightarrow> ptr option \<Rightarrow> net_out set" where
  "all_told e K N V p fr =
     (\<Union>to \<in> set (serv_list N). \<Union>q \<in> servers_behind K V p. told e K (nd_qs (ne_node N to)) V p fr to q)"

lemma dependents_ok:
  assumes inv: "net_inv e K N V" and p: "p \<in> V" "is_sv K p" "k_height K p < n"
    and to: "\<forall>to \<in> set (serv_list N). \<not> is_far K to \<and> to \<noteq> p"
  shows "\<exists>N' outs. remove_dependents e n p fr N = Some N' \<and> net_inv e K N' (V - (behind K p - {p})) \<and> lists_kept N N' \<and>
    set (dead_list N') = set (dead_list N) \<union> (V \<inter> (behind K p - {p})) \<and> set outs = all_told e K N V p fr \<and> quits (emit outs N) N'"
proof -
  obtain outs where outs: "those (map (\<lambda>to. recurse_send_quits e n p p fr to N) (serv_list N)) = Some outs"
    "set (concat outs) = all_told e K N V p fr"
    using quits_all[OF inv p to, of fr] unfolding all_told_def by (elim exE conjE)
  have "net_inv e K (emit (concat outs) N) V" using inv by (simp only: net_inv_emit)
  from recurse_ok[OF this p] have r: "takes_out e K (recurse_remove_clients e n p) (emit (concat outs) N) V (behind K p - {p})" .
  have "locals_kept (emit (concat outs) N) N' \<longleftrightarrow> quits (emit (concat outs) N) N' \<and> lists_kept N N'" for N'
    by (simp add: locals_kept_def lists_kept_def emit_def)
  with r show ?thesis using outs(2) unfolding takes_out_def emit_fields remove_dependents_def outs(1) bind.bind_lunit by blast
qed

text \<open>The state in which \<open>exit_one_client\<close> meets the client itself: no one is behind it any more, and it is
  off the lists of local clients.\<close>

lemma local_part:
  assumes ok: "net_ok e K N V" and p: "p \<in> V" "p \<noteq> k_me K" and u: "user_of N p = Some u"
    and N1: "N1 = (if us_local u then local_off u p N else N)"
  shows "net_inv e K N1 V" "local_inv K N1 (V - {p})" "dead_list N1 = dead_list N" "ne_world N1 = ne_world N"
    "\<not> is_far K p \<longrightarrow> nd_closing (ne_node N1 p)" "off_local_lists p N1"
proof -
  have c: "core_ok K N V" using ok by (simp add: net_ok_def net_inv_def)
  note uf = kin_fields[OF c p(1) u]
  show "net_inv e K N1 V" using ok local_off_net[of e K N V p] p(1) by (simp add: N1 net_ok_def uf(6))
  show l: "local_inv K N1 (V - {p})"
    using ok local_off_ok[of e K N V, OF _ _ p(1) _ p(2) u] local_inv_far[of K N V "{p}"] by (simp add: N1 net_ok_def uf(6))
  show "dead_list N1 = dead_list N" "ne_world N1 = ne_world N" "\<not> is_far K p \<longrightarrow> nd_closing (ne_node N1 p)"
    by (simp_all add: N1 local_off_fields local_off_node uf(6))
  show "off_local_lists p N1" using l by (simp add: off_local_lists_def local_inv_def near_ok_def)
qed

lemma left_alone:
  assumes k: "kin_ok K V" and p: "p \<in> V" "p \<noteq> k_me K"
  shows "childless K (V - (behind K p - {p})) p"
proof -
  have "k_up K y \<noteq> Some p" if y: "y \<in> V" "y \<notin> behind K p - {p}" for y
  proof
    assume up: "k_up K y = Some p"
    then have "y = p" using behind.up[OF behind.self up] y(2) by blast
    then show False using height_up[OF k y(1) _ up] kin_up[OF k y(1) up] p(2) by blast
  qed
  then show ?thesis by (simp add: childless_def)
qed

definition dependents_off :: "exit_env \<Rightarrow> nat \<Rightarrow> user \<Rightarrow> ptr \<Rightarrow> ptr option \<Rightarrow> net \<Rightarrow> net option" where
  "dependents_off e n u p fr N =
     (if IsServer u then remove_dependents e n p fr N
      else if IsClient u \<and> \<not> nd_killed (ne_node N p) then Some (emit [Quit_servers p] N) else Some N)"

lemma exit_client_eq:
  assumes "user_of N p = Some u" "\<not> (us_local u \<and> nd_closing (ne_node N p))" "N1 = (if us_local u then local_off u p N else N)"
    "dependents_off e n u p (nd_from (ne_node N1 fr)) N1 = Some N2" "off_local_lists p N2"
  shows "exit_client e n p fr N = exit_one_client e p N2"
  unfolding exit_client_def
  by (simp only: assms(1) bind.bind_lunit assms(2) if_False Let_def assms(3)[symmetric] dependents_off_def[symmetric] assms(4)
      assms(5) check_def if_True)

text \<open>The messages between the old state and the new one, without those to the clients on the channels.\<close>

definition sends :: "net \<Rightarrow> net \<Rightarrow> net_out set \<Rightarrow> bool" where
  "sends N N' M \<longleftrightarrow> (\<exists>l ps. ne_out N' = ne_out N @ l @ map Quit_channels ps \<and> set l = M)"

lemma sends_quits: "sends N N' M \<Longrightarrow> quits N' N'' \<Longrightarrow> sends N N'' M"
  unfolding sends_def quits_def by (metis append.assoc map_append)

definition dependents_told :: "exit_env \<Rightarrow> kin \<Rightarrow> ptr set \<Rightarrow> ptr \<Rightarrow> ptr option \<Rightarrow> net \<Rightarrow> net_out set" where
  "dependents_told e K V p fr N =
     (if is_sv K p then all_told e K N V p fr else if is_cl K p \<and> \<not> nd_killed (ne_node N p) then {Quit_servers p} else {})"

lemma dependents_off_ok:
  assumes inv: "net_inv e K N V" and l: "local_inv K N (V - {p})" "off_local_lists p N" and p: "p \<in> V" "p \<noteq> k_me K" "k_height K p < n"
    and u: "IsServer u = is_sv K p" "IsClient u = is_cl K p"
  shows "\<exists>N'. dependents_off e n u p fr N = Some N' \<and> net_inv e K N' (V - (behind K p - {p})) \<and> local_inv K N' (V - {p}) \<and>
    off_local_lists p N' \<and> set (dead_list N') = set (dead_list N) \<union> (V \<inter> (behind K p - {p})) \<and>
    nd_closing (ne_node N' p) = nd_closing (ne_node N p) \<and> sends N N' (dependents_told e K V p fr N)"
proof (cases "is_sv K p")
  case True
  have to: "\<forall>to \<in> set (serv_list N). \<not> is_far K to \<and> to \<noteq> p" using l(1) by (auto simp: local_inv_def near_ok_def)
  obtain N' outs where N': "remove_dependents e n p fr N = Some N'" "net_inv e K N' (V - (behind K p - {p}))" "lists_kept N N'"
    "set (dead_list N') = set (dead_list N) \<union> (V \<inter> (behind K p - {p}))" "set outs = all_told e K N V p fr" "quits (emit outs N) N'"
    using dependents_ok[OF inv p(1) True p(3) to, of fr] by (elim exE conjE)
  have "sends N (emit outs N) (all_told e K N V p fr)"
    using N'(5) unfolding sends_def by (intro exI[of _ outs] exI[of _ "[]"]) (simp add: emit_def)
  then have "sends N N' (all_told e K N V p fr)" using sends_quits N'(6) by blast
  moreover have "off_local_lists p N'" "nd_closing (ne_node N' p) = nd_closing (ne_node N p)"
    using N'(3) l(2) by (simp_all add: lists_kept_def off_local_lists_def)
  ultimately show ?thesis using N' True u local_inv_kept[OF N'(3) l(1)] by (simp add: dependents_off_def dependents_told_def)
next
  case False
  have k: "kin_ok K V" using inv by (simp add: net_inv_def)
  have "V - (behind K p - {p}) = V" "V \<inter> (behind K p - {p}) = {}" using leaf(2)[OF k p(1) False p(2)] by blast+
  moreover have "off_local_lists p (emit o' N)" for o' using l(2) by (simp add: off_local_lists_def emit_def)
  moreover have "sends N N {}" by (simp add: sends_def)
  moreover have "sends N (emit [Quit_servers p] N) {Quit_servers p}"
    unfolding sends_def by (intro exI[of _ "[Quit_servers p]"] exI[of _ "[]"]) (simp add: emit_def)
  ultimately show ?thesis using False u inv l by (simp add: dependents_off_def dependents_told_def)
qed

lemma exit_client_ok:
  assumes ok: "net_ok e K N V" and p: "p \<in> V" "p \<noteq> k_me K" "k_height K p < n"
    and u: "user_of N p = Some u" and N1: "N1 = (if us_local u then local_off u p N else N)"
  shows "\<exists>N'. exit_client e n p fr N = Some N' \<and> net_ok e K N' (V - behind K p) \<and>
    set (dead_list N') = set (dead_list N) \<union> (V \<inter> behind K p) \<and>
    sends N1 N' (dependents_told e K V p (nd_from (ne_node N1 fr)) N1)"
proof -
  have inv: "net_inv e K N V" and c: "core_ok K N V" and k: "kin_ok K V" using ok by (simp_all add: net_ok_def net_inv_def)
  note uf = kin_fields[OF c p(1) u]
  note lp = local_part[OF ok p(1,2) u N1]
  have closing: "\<not> (us_local u \<and> nd_closing (ne_node N p))" using ok p(1) uf(6) by (auto simp: net_ok_def local_inv_def)
  let ?R = "behind K p - {p}"
  obtain N2 where N2: "dependents_off e n u p (nd_from (ne_node N1 fr)) N1 = Some N2" "net_inv e K N2 (V - ?R)" "local_inv K N2 (V - {p})"
    "off_local_lists p N2" "set (dead_list N2) = set (dead_list N1) \<union> (V \<inter> ?R)" "nd_closing (ne_node N2 p) = nd_closing (ne_node N1 p)"
    "sends N1 N2 (dependents_told e K V p (nd_from (ne_node N1 fr)) N1)"
    using dependents_off_ok[OF lp(1,2,6) p uf(8,9), of "nd_from (ne_node N1 fr)"] by (elim exE conjE)
  have pR: "p \<in> V - ?R" using p(1) by simp
  have "\<exists>N3. exit_one_client e p N2 = Some N3 \<and> net_inv e K N3 (V - ?R - {p}) \<and> locals_kept N2 N3 \<and> dead_list N3 = p # dead_list N2"
    by (rule exit_one_client_ok[OF N2(2) pR p(2) left_alone[OF k p(1,2)]]) (simp add: N2(6) lp(5))
  then obtain N3 where N3: "exit_one_client e p N2 = Some N3" "net_inv e K N3 (V - ?R - {p})" "quits N2 N3" "lists_kept N2 N3"
    "dead_list N3 = p # dead_list N2" unfolding locals_kept_def by (elim exE conjE)
  have e1: "V - ?R - {p} = V - behind K p" "V - {p} - ?R = V - behind K p" using behind.self[of p K] by blast+
  have "\<forall>q \<in> (V - {p}) \<inter> ?R. is_far K q" using behind_far[OF k p(2)] by blast
  then have "local_inv K N3 (V - {p} - ?R)" by (rule local_inv_far[OF local_inv_kept[OF N3(4) N2(3)]])
  then have "net_ok e K N3 (V - behind K p)" using N3(2) unfolding net_ok_def e1 by blast
  moreover have "set (dead_list N3) = set (dead_list N) \<union> (V \<inter> behind K p)"
    unfolding N3(5) list.set N2(5) lp(3) using p(1) behind.self[of p K] by blast
  ultimately show ?thesis using exit_client_eq[OF u closing N1 N2(1,4)] N3(1) sends_quits[OF N2(7) N3(3)] by auto
qed

subsection \<open>The memory\<close>

text \<open>A client on no channel and not invited leaves no trace in the channels.\<close>

lemma chans_free:
  assumes c: "chans_ok K w V" and p: "p \<notin> V"
  shows "chans_ok K (w\<lparr>users := (users w)(p := None)\<rparr>) V"
proof -
  let ?w = "w\<lparr>users := (users w)(p := None)\<rparr>"
  have m: "member_inv w" and e: "uchans w p = []" "uinvs w p = []" using c p by (simp_all add: chans_ok_def chan_inv_def)
  have "set (uchans w p) = of_user w p" using m by (simp add: member_inv_def)
  then have none: "ms_client x \<noteq> p" if "mships w n = Some x" for n x using e(1) that by (auto simp: of_user_def)
  have s: "mems ?w = mems w" "locmems ?w = locmems w" "invs ?w = invs w" "on_chan ?w = on_chan w" "of_user ?w = of_user w"
    "uchans ?w = uchans w" "uinvs ?w = uinvs w"
    using e by (auto simp: view_defs on_chan_def of_user_def fun_eq_iff split: option.split)
  have "local_mship ?w = local_mship w" using none by (auto simp: local_mship_def is_local_def fun_eq_iff split: option.split)
  then have "member_inv ?w = member_inv w" "invite_inv ?w = invite_inv w" "table_inv ?w = table_inv w"
    by (simp_all add: member_inv_def invite_inv_def table_inv_def s)
  then show ?thesis using c by (simp add: chans_ok_def chan_inv_def s)
qed

lemma free_one:
  assumes ok: "net_ok e K N V" and p: "p \<in> set (dead_list N)"
  shows "\<exists>N'. free_dead e p N = Some N' \<and> net_ok e K N' V \<and>
    dead_list N' = remove1 p (dead_list N)"
proof -
  have inv: "net_inv e K N V" and d: "dead_ok N V" and k: "kin_ok K V" and m: "k_me K = xe_me e" and ch: "chans_ok K (ne_world N) V"
    using ok by (simp_all add: net_ok_def net_inv_def)
  have pV: "p \<notin> V" using d p by (auto simp: dead_ok_def)
  have "p \<in> dom (users (ne_world N))" using d p unfolding dead_ok_def by blast
  then obtain u where u: "user_of N p = Some u" by blast
  have "us_channel u = []" "us_invited u = []" using ch pV u by (auto simp: chans_ok_def uchans_def uinvs_def)
  moreover have "p \<noteq> xe_me e" using me_in[OF k] pV m by auto
  moreover have "hlink (clientTable (chan_hash (ne_world N))) p = Some p" using d p by (auto simp: dead_ok_def selfs_def)
  moreover have "us_local u \<longrightarrow> nd_closing (ne_node N p) \<and> nd_dead (ne_node N p)" using d p u by (auto simp: dead_ok_def is_local_def)
  moreover define N' where "N' = N\<lparr>ne_world := (ne_world N)\<lparr>users := (users (ne_world N))(p := None)\<rparr>, dead_list := remove1 p (dead_list N)\<rparr>"
  ultimately have run: "free_dead e p N = Some N'"
    by (simp add: free_dead_def free_client_def u check_def)
  have core: "client_core (ne_world N') q = client_core (ne_world N) q" "is_local (ne_world N') q = is_local (ne_world N) q" if "q \<noteq> p" for q
    using that by (simp_all add: N'_def client_core_def is_local_def)
  have "core_ok K N' V" using inv core(1) pV unfolding net_inv_def core_ok_def by (auto simp: N'_def client_core_def)
  moreover have "chans_ok K (ne_world N') V" using chans_free[OF ch pV] by (simp add: N'_def)
  moreover have "dead_ok N' V"
    using d pV core(2) by (auto simp: dead_ok_def set_remove1_eq N'_def)
  ultimately have "net_inv e K N' V" using inv by (simp add: net_inv_def N'_def globals_ok_def)
  moreover have "local_inv K N' V = local_inv K N V" "dead_list N' = remove1 p (dead_list N)" by (simp_all add: local_inv_def N'_def)
  ultimately show ?thesis using run ok by (simp add: net_ok_def)
qed

lemma foreach_free:
  "net_ok e K N V \<Longrightarrow> distinct ps \<Longrightarrow> dead_list N = ps \<Longrightarrow>
   \<exists>N'. foreach_safe (free_dead e) ps N = Some N' \<and>
     net_ok e K N' V \<and> dead_list N' = []"
proof (induction ps arbitrary: N)
  case (Cons p ps)
  obtain N1 where N1: "free_dead e p N = Some N1" "net_ok e K N1 V"
    "dead_list N1 = remove1 p (dead_list N)" using free_one[OF Cons.prems(1), of p] Cons.prems(3) by auto
  then show ?case using Cons.IH[OF N1(2)] Cons.prems(2,3) by simp
qed simp

lemma free_exited_ok:
  assumes "net_ok e K N V"
  shows "\<exists>N'. free_exited_clients e N = Some N' \<and> net_ok e K N' V \<and> dead_list N' = [] \<and> dom (users (ne_world N')) = V"
proof -
  have "distinct (dead_list N)" using assms by (simp add: net_ok_def net_inv_def dead_ok_def)
  then obtain N' where N': "free_exited_clients e N = Some N'" "net_ok e K N' V" "dead_list N' = []"
    using foreach_free[OF assms _ refl] unfolding free_exited_clients_def by blast
  then show ?thesis by (auto simp: net_ok_def net_inv_def dead_ok_def)
qed

subsection \<open>The messages to one neighbour\<close>

fun to_server :: "net_out \<Rightarrow> ptr option" where
  "to_server (Quit_to to p) = Some to"
| "to_server (Squit_to to p) = Some to"
| "to_server _ = None"

definition news :: "net \<Rightarrow> net \<Rightarrow> ptr \<Rightarrow> net_out set" where
  "news N N' to = {m \<in> set (drop (length (ne_out N)) (ne_out N')). to_server m = Some to}"

definition clients_behind :: "kin \<Rightarrow> ptr set \<Rightarrow> ptr \<Rightarrow> ptr set" where
  "clients_behind K V p = {x \<in> V. is_cl K x \<and> x \<in> behind K p}"

lemma users_of_servers_behind:
  assumes k: "kin_ok K V" and p: "is_sv K p"
  shows "(\<Union>q \<in> servers_behind K V p. users_at K V q) = clients_behind K V p"
proof (rule set_eqI)
  fix x
  show "x \<in> (\<Union>q \<in> servers_behind K V p. users_at K V q) \<longleftrightarrow> x \<in> clients_behind K V p"
  proof
    assume "x \<in> clients_behind K V p"
    then have x: "x \<in> V" "is_cl K x" "x \<in> behind K p" by (simp_all add: clients_behind_def)
    have "x \<noteq> p" using x(2) p cl_not_sv by blast
    then obtain q where q: "k_up K x = Some q" "q \<in> behind K p" using behind_step[OF x(3)] by blast
    have "q \<noteq> k_me K" using me_top[OF k q(2)] sv_not_me[OF k p] by blast
    then have "q \<in> servers_behind K V p" using kin_up[OF k x(1) q(1)] q(2) by (simp add: servers_behind_def)
    then show "x \<in> (\<Union>q \<in> servers_behind K V p. users_at K V q)" using x q(1) by (auto simp: at_defs)
  qed (auto simp: servers_behind_def clients_behind_def at_defs intro: behind.up)
qed

lemma news_of_told:
  assumes k: "kin_ok K V" and p: "p \<in> V" "is_sv K p" and to: "to \<in> T"
    and clear: "\<forall>q \<in> servers_behind K V p. \<not> glob (xe_link_name e to) (us_name (k_user K q))"
  shows "{m \<in> \<Union>to \<in> T. \<Union>q \<in> servers_behind K V p. told e K (qs to) V p fr to q. to_server m = Some to} =
    (if qs to then (if fr = Some to then {} else {Squit_to to p})
     else Squit_to to ` servers_behind K V p \<union> Quit_to to ` clients_behind K V p)"
proof -
  have own: "to_server m = Some t" if "m \<in> told e K b V p fr t q" for m b t q
    using that by (auto simp: told_def Let_def split: if_splits)
  have "{m \<in> \<Union>to \<in> T. \<Union>q \<in> servers_behind K V p. told e K (qs to) V p fr to q. to_server m = Some to} =
      (\<Union>q \<in> servers_behind K V p. told e K (qs to) V p fr to q)"
    using own to by fastforce
  also have "\<dots> = (\<Union>q \<in> servers_behind K V p. (if qs to then (if q = p \<and> fr \<noteq> Some to then {Squit_to to p} else {})
      else insert (Squit_to to q) (Quit_to to ` users_at K V q)))"
    using clear by (intro SUP_cong refl) (auto simp: told_def Let_def)
  also have "\<dots> = (if qs to then (if fr = Some to then {} else {Squit_to to p})
      else Squit_to to ` servers_behind K V p \<union> Quit_to to ` (\<Union>q \<in> servers_behind K V p. users_at K V q))"
    using p by (auto simp: servers_behind_def intro: behind.self)
  finally show ?thesis unfolding users_of_servers_behind[OF k p(2)] .
qed

lemma local_off_out:
  "\<exists>l. ne_out (if b then local_off u p N else N) = ne_out N @ l \<and> (\<forall>m \<in> set l. to_server m = None)"
  by (auto simp: local_off_def Let_def upd_node_def emit_def)

lemma sends_news:
  assumes "sends N1 N' M" "ne_out N1 = ne_out N @ l" "\<forall>m \<in> set l. to_server m = None"
  shows "news N N' to = {m \<in> M. to_server m = Some to}"
proof -
  obtain l' ps where l': "ne_out N' = ne_out N1 @ l' @ map Quit_channels ps" "set l' = M" using assms(1) unfolding sends_def by blast
  have "drop (length (ne_out N)) (ne_out N') = l @ l' @ map Quit_channels ps" by (simp add: l'(1) assms(2))
  then show ?thesis using assms(3) l'(2) by (auto simp: news_def)
qed

subsection \<open>An example\<close>

text \<open>Here (10) the servers 11 and 15 are linked; server 12 is behind 11, with the user 13; the user 14 is local and
  accepts 3.\<close>

definition split_names :: "ptr \<Rightarrow> string" where
  "split_names p = (if p = 10 then ''irc.me'' else if p = 11 then ''irc.a'' else if p = 12 then ''irc.b'' else if p = 13 then ''bob''
     else if p = 14 then ''amy'' else ''irc.c'')"

definition split_kin :: kin where
  "split_kin = \<lparr>k_user = \<lambda>p. example_user\<lparr>us_name := split_names p, us_id := [],
       us_status := (if p = 10 then STAT_ME else if p = 13 \<or> p = 14 then STAT_CLIENT else STAT_SERVER), us_local := p \<noteq> 12 \<and> p \<noteq> 13\<rparr>,
     k_up = \<lambda>p. Some (if p = 12 then 11 else if p = 13 then 12 else 10), k_from = \<lambda>p. Some (if p = 12 \<or> p = 13 then 11 else p),
     k_userhost = \<lambda>_. False, k_invisible = \<lambda>_. False, k_global = \<lambda>_. True,
     k_height = \<lambda>p. if p = 10 then 3 else if p = 11 then 2 else if p = 12 then 1 else 0, k_me = 10\<rparr>"

definition split_node :: "ptr \<Rightarrow> node" where
  "split_node p = \<lparr>nd_from = k_from split_kin p, nd_servptr = k_up split_kin p,
     nd_serv = (if p = 10 then Some \<lparr>sv_servers = [15, 11], sv_users = [14], dep_servers = 1, dep_users = 0\<rparr>
       else if p = 11 then Some \<lparr>sv_servers = [12], sv_users = [], dep_servers = 2, dep_users = 1\<rparr>
       else if p = 12 then Some \<lparr>sv_servers = [], sv_users = [13], dep_servers = 1, dep_users = 0\<rparr>
       else if p = 15 then Some \<lparr>sv_servers = [], sv_users = [], dep_servers = 1, dep_users = 0\<rparr> else None),
     nd_allow = (if p = 14 then [13] else []), nd_on_allow = (if p = 13 then [14] else []), nd_qs = False, nd_killed = False,
     nd_closing = False, nd_dead = False, nd_userhost = False, nd_invisible = False, nd_info = ''info''\<rparr>"

definition split_hash :: hash_state where
  "split_hash = fold hash_add_client [10, 11, 12, 13, 14, 15]
     (init_hash 0 (no_objects\<lparr>client_name := split_names, client_id := \<lambda>_. []\<rparr>))"

definition split_net :: net where
  "split_net = \<lparr>ne_world = (no_channels no_objects)\<lparr>users := \<lambda>p. if p \<in> {10, 11, 12, 13, 14, 15} then Some (k_user split_kin p) else None, chan_hash := split_hash\<rparr>,
     ne_who = whowas_start, ne_uh = \<lparr>uh_hash = init_hash 5 no_objects, uh_list = \<lambda>_. []\<rparr>, ne_node = split_node,
     global_client_list = [15, 14, 13, 12, 11, 10], global_serv_list = [15, 12, 11, 10], local_client_list = [14], unknown_list = [],
     serv_list = [15, 11], oper_list = [], dead_list = [],
     ne_counts = \<lparr>cn_total = 2, cn_oper = 0, cn_invisi = 0, cn_local = 1, cn_myserver = 2\<rparr>, ne_out = []\<rparr>"

definition split_env :: exit_env where
  "split_env = \<lparr>xe_me = 10, xe_hub = True, xe_now = 100, xe_history = 2, xe_link_name = \<lambda>_. ''irc.me''\<rparr>"

abbreviation split_all :: "ptr set" where
  "split_all \<equiv> {10, 11, 12, 13, 14, 15}"

lemma split_kinds:
  "is_cl split_kin p \<longleftrightarrow> p = 13 \<or> p = 14" "is_sv split_kin p \<longleftrightarrow> p \<noteq> 10 \<and> p \<noteq> 13 \<and> p \<noteq> 14" "is_far split_kin p \<longleftrightarrow> p = 12 \<or> p = 13"
  by (simp_all add: is_cl_def is_sv_def is_far_def split_kin_def IsClient_def IsServer_def stat_defs)

lemma split_behind: "11 \<in> behind split_kin 11" "12 \<in> behind split_kin 11" "13 \<in> behind split_kin 11"
proof -
  show one: "11 \<in> behind split_kin 11" by (rule behind.self)
  show two: "12 \<in> behind split_kin 11" by (rule behind.up[OF one]) (simp add: split_kin_def)
  show "13 \<in> behind split_kin 11" by (rule behind.up[OF two]) (simp add: split_kin_def)
qed

lemma split_not_behind: "x \<in> behind split_kin 11 \<Longrightarrow> x = 11 \<or> x = 12 \<or> x = 13"
  by (induction rule: behind.induct) (auto simp: split_kin_def split: if_splits)

lemma split_fields:
  "k_up split_kin p = Some (if p = 12 then 11 else if p = 13 then 12 else 10)" "k_from split_kin p = Some (if p = 12 \<or> p = 13 then 11 else p)"
  "k_userhost split_kin p = False" "k_invisible split_kin p = False" "k_global split_kin p" "k_me split_kin = 10"
  "k_height split_kin p = (if p = 10 then 3 else if p = 11 then 2 else if p = 12 then 1 else 0)"
  "us_name (k_user split_kin p) = split_names p" "us_id (k_user split_kin p) = []" "us_oper (k_user split_kin p) = False"
  "us_channel (k_user split_kin p) = []" "us_invited (k_user split_kin p) = []"
  "us_status (k_user split_kin p) = (if p = 10 then STAT_ME else if p = 13 \<or> p = 14 then STAT_CLIENT else STAT_SERVER)"
  by (simp_all add: split_kin_def example_user_def)

lemma split_kin_ok: "kin_ok split_kin split_all"
  using split_behind by (simp add: kin_ok_def split_kinds split_fields stat_defs split_names_def NICKLEN_def)

lemma split_serv_ok: "serv_ok split_kin (\<lambda>q. nd_serv (ne_node split_net q)) split_all split_all split_all"
proof -
  have e: "users_at split_kin split_all q = (if q = 10 then {14} else if q = 12 then {13} else {})"
    "servers_at split_kin split_all q = (if q = 10 then {11, 15} else if q = 11 then {12} else {})"
    "users_over split_kin split_all q = (if q = 11 then {13} else {})"
    "servers_over split_kin split_all q = (if q = 11 then {12} else {})" for q
    by (auto simp: at_defs split_kinds split_fields)
  show ?thesis
    unfolding serv_ok_def serv_good_def e by (auto simp: split_kinds split_fields split_net_def split_node_def)
qed

lemma split_hash_ok: "hash_ok split_kin split_hash split_all" "channels (chname split_hash) split_hash {}"
proof -
  let ?h = "init_hash 0 (no_objects\<lparr>client_name := split_names, client_id := \<lambda>_. []\<rparr>)"
  have i: "clients split_names ?h {}" "ids (\<lambda>_. []) ?h {}" "channels (chname no_objects) ?h {}"
    using init_hash_empty(1-3)[of "no_objects\<lparr>client_name := split_names, client_id := \<lambda>_. []\<rparr>" 0] by simp_all
  have "clients split_names (fold hash_add_client ps h) (M \<union> set ps)" if "clients split_names h M" "distinct ps" "set ps \<inter> M = {}" for ps h M
    using that
  proof (induction ps arbitrary: h M)
    case (Cons p ps)
    then show ?case using Cons.IH[OF client_reg.repr_add[OF Cons.prems(1), of p]] by auto
  qed simp
  from this[OF i(1), of "[10, 11, 12, 13, 14, 15]"] have c: "clients split_names split_hash split_all" by (simp add: split_hash_def)
  have f: "client_name split_hash = split_names" "client_id split_hash = (\<lambda>_. [])" "idTable split_hash = idTable ?h"
    "ircd_random_key split_hash = ircd_random_key ?h" "channelTable split_hash = channelTable ?h" "chname split_hash = chname ?h"
    by (simp_all add: split_hash_def hash_add_client_def init_hash_def)
  show "channels (chname split_hash) split_hash {}" using i(3) by (simp add: channels_def f)
  have "split_names p \<noteq> []" for p by (simp add: split_names_def)
  then have e: "{p \<in> split_all. us_name (k_user split_kin p) \<noteq> []} = split_all" "{p \<in> split_all. us_id (k_user split_kin p) \<noteq> []} = {}"
    "us_name (k_user split_kin p) \<noteq> []" for p by (auto simp: split_fields)
  have "ids (\<lambda>_. []) split_hash {}" using i(2) by (simp add: ids_def f)
  then show "hash_ok split_kin split_hash split_all" using c unfolding hash_ok_def e f by (simp add: split_fields e(3)[unfolded split_fields])
qed

lemma split_net_ok: "net_ok split_env split_kin split_net split_all"
proof -
  let ?w = "ne_world split_net"
  have w: "?w = (no_channels no_objects)\<lparr>users := \<lambda>p. if p \<in> {10, 11, 12, 13, 14, 15} then Some (k_user split_kin p) else None, chan_hash := split_hash\<rparr>"
    by (simp add: split_net_def)
  have all: "p \<in> {10, 11, 12, 13, 14, 15} \<longleftrightarrow> p \<in> split_all" for p :: nat by auto
  have core: "core_ok split_kin split_net split_all"
    by (simp add: core_ok_def client_core_def w split_fields split_net_def split_node_def split_kinds)
  have v: "uchans ?w p = []" "uinvs ?w p = []" for p by (simp_all add: w uchans_def uinvs_def split_fields)
  have "member_inv ?w" "invite_inv ?w" by (simp_all add: member_inv_def invite_inv_def v on_chan_def of_user_def w no_channels_def view_defs split_fields)
  moreover have "table_inv ?w" using split_hash_ok(2) by (simp add: table_inv_def w no_channels_def)
  ultimately have chans: "chans_ok split_kin ?w split_all" by (simp add: chans_ok_def chan_inv_def v)
  have past: "past_ok 2 split_kin rk whowas_start split_all" for rk using whowas_start_repr[of rk] unfolding past_ok_def by (intro exI[of _ "[]"]) simp
  have hosts: "hosts_ok split_kin (ne_uh split_net) split_all"
    using empty_uh_repr[of no_objects "\<lambda>_. []"] by (auto simp: hosts_ok_def split_fields split_net_def)
  have counts: "counts_ok split_kin (ne_counts split_net) split_all"
  proof -
    have "{p \<in> split_all. is_cl split_kin p} = {13, 14}" by (auto simp: split_kinds)
    then show ?thesis by (simp add: counts_ok_def split_fields split_net_def)
  qed
  have dead: "dead_ok split_net split_all" using all by (auto simp: dead_ok_def split_net_def split: if_splits)
  have acc: "accept_inv split_kin split_net split_all" by (auto simp: accept_ok_def split_net_def split_node_def split_kinds)
  have "globals_ok split_kin split_net split_all" "globserv_ok split_kin (global_serv_list split_net) split_all"
    by (auto simp: globals_ok_def globserv_ok_def split_fields split_kinds split_net_def)
  then have "net_inv split_env split_kin split_net split_all"
    using core chans past hosts counts dead acc split_kin_ok split_serv_ok split_hash_ok(1)
    by (simp add: net_inv_def split_env_def split_fields split_net_def)
  moreover have "local_inv split_kin split_net split_all"
  proof -
    have "{p \<in> split_all. \<not> is_far split_kin p \<and> is_cl split_kin p} = {14}" "{p \<in> split_all. \<not> is_far split_kin p \<and> is_sv split_kin p} = {11, 15}"
      by (auto simp: split_kinds)
    then show ?thesis
      by (auto simp: local_inv_def near_ok_def split_net_def split_node_def split_kinds split_fields is_unreg_def stat_defs)
  qed
  ultimately show ?thesis by (simp add: net_ok_def)
qed

lemma split_gone: "split_all - behind split_kin 11 = {10, 14, 15}" "split_all \<inter> behind split_kin 11 = {11, 12, 13}"
  "servers_behind split_kin split_all 11 = {11, 12}" "clients_behind split_kin split_all 11 = {13}"
proof -
  have "behind split_kin 11 = {11, 12, 13}" using split_behind split_not_behind by blast
  then show "split_all - behind split_kin 11 = {10, 14, 15}" "split_all \<inter> behind split_kin 11 = {11, 12, 13}"
    "servers_behind split_kin split_all 11 = {11, 12}" "clients_behind split_kin split_all 11 = {13}"
    by (auto simp: servers_behind_def clients_behind_def split_kinds)
qed

lemma split_user: "user_of split_net 11 = Some (k_user split_kin 11)"
  by (simp add: split_net_def)

text \<open>C2. Whatever client other than the server itself \<open>exit_client\<close> gets, registered or not, local or remote, user
  or server, none of the modelled assertions fails and no NULL is dereferenced; the client and, for a server, exactly everything behind it
  are gone from every table: the lists and counters of its server, channels and invitations, accept lists, nick
  history, hash tables, sessions, global and local lists; all of these are still consistent for the others; and
  exactly the clients gone are queued to be freed. The recursion is no deeper than the height of the server.\<close>

theorem exit_removes_all_behind:
  assumes "net_ok e K N V" "p \<in> V" "p \<noteq> k_me K" "k_height K p < n"
  shows "\<exists>N'. exit_client e n p fr N = Some N' \<and> net_ok e K N' (V - behind K p) \<and>
    set (dead_list N') = set (dead_list N) \<union> (V \<inter> behind K p)"
proof -
  have "core_ok K N V" using assms(1) by (simp add: net_ok_def net_inv_def)
  then obtain u where "user_of N p = Some u" using core_alive assms(2) by blast
  from exit_client_ok[OF assms this refl] show ?thesis by blast
qed

lemma exit_removes_all_behind_witness:
  "\<exists>N'. exit_client split_env 3 11 11 split_net = Some N' \<and> net_ok split_env split_kin N' {10, 14, 15} \<and> set (dead_list N') = {11, 12, 13}"
  using exit_removes_all_behind[OF split_net_ok, of 11 3 11] by (simp add: split_gone split_fields) (simp add: split_net_def)

text \<open>C8. \<open>free_exited_clients\<close> frees exactly the clients that have exited, none of the assertions of
  \<open>free_client\<close> fails (the client is in no hash bucket, on no channel, not invited, closed; the one on the
  reference count of a listener is not modelled), and the tables,
  which never point to a freed client, stay consistent.\<close>

theorem free_exited_clients_safe:
  assumes "net_ok e K N V"
  shows "\<exists>N'. free_exited_clients e N = Some N' \<and> net_ok e K N' V \<and> dead_list N' = [] \<and> dom (users (ne_world N')) = V"
  by (rule free_exited_ok[OF assms])

lemma free_exited_clients_safe_witness:
  "\<exists>N1 N'. exit_client split_env 3 11 11 split_net = Some N1 \<and> set (dead_list N1) = {11, 12, 13} \<and>
    free_exited_clients split_env N1 = Some N' \<and> dead_list N' = [] \<and> dom (users (ne_world N')) = {10, 14, 15}"
proof -
  obtain N1 where N1: "exit_client split_env 3 11 11 split_net = Some N1" "net_ok split_env split_kin N1 {10, 14, 15}"
    "set (dead_list N1) = {11, 12, 13}"
    using exit_client_ok[OF split_net_ok _ _ _ split_user refl, of 3 11]
    by (simp add: split_gone split_fields) (auto simp: split_net_def)
  then show ?thesis using free_exited_clients_safe[OF N1(2)] by blast
qed

text \<open>C4. When a server goes, a neighbour from which none of the servers lost is hidden by a name mask hears
  of each loss as its capabilities require: with QS one SQUIT for the server that goes, and nothing at all when the
  order came over its own link; without QS a SQUIT for every server and a QUIT for every user behind it.\<close>

theorem netsplit_told:
  assumes "net_ok e K N V" "p \<in> V" "is_sv K p" "k_height K p < n" "to \<in> set (serv_list N)" "to \<noteq> p"
    and "\<forall>q \<in> servers_behind K V p. \<not> glob (xe_link_name e to) (us_name (k_user K q))"
    and "link = (if fr = p \<and> \<not> is_far K p then None else nd_from (ne_node N fr))"
  shows "\<exists>N'. exit_client e n p fr N = Some N' \<and> news N N' to =
    (if nd_qs (ne_node N to) then (if link = Some to then {} else {Squit_to to p})
     else Squit_to to ` servers_behind K V p \<union> Quit_to to ` clients_behind K V p)"
proof -
  have k: "kin_ok K V" and c: "core_ok K N V" using assms(1) by (simp_all add: net_ok_def net_inv_def)
  obtain u where u: "user_of N p = Some u" using core_alive[OF c assms(2)] by blast
  note uf = kin_fields[OF c assms(2) u]
  define N1 where "N1 = (if us_local u then local_off u p N else N)"
  obtain l where l: "ne_out N1 = ne_out N @ l" "\<forall>m \<in> set l. to_server m = None"
    using local_off_out[of "us_local u" u p N] unfolding N1_def by (elim exE conjE)
  obtain N' where N': "exit_client e n p fr N = Some N'" "sends N1 N' (dependents_told e K V p (nd_from (ne_node N1 fr)) N1)"
    using exit_client_ok[OF assms(1,2) sv_not_me[OF k assms(3)] assms(4) u N1_def, of fr] by blast
  have link: "nd_from (ne_node N1 fr) = link" using assms(8) uf(6) by (simp add: N1_def local_off_node)
  have qs: "nd_qs (ne_node N1 t) = nd_qs (ne_node N t)" for t by (simp add: N1_def local_off_node)
  have "to \<in> set (serv_list N1)" using assms(5,6) by (simp add: N1_def local_off_lists)
  note told = news_of_told[OF k assms(2,3) this assms(7), where qs = "\<lambda>to. nd_qs (ne_node N to)" and fr = link]
  have "news N N' to = {m \<in> dependents_told e K V p link N1. to_server m = Some to}"
    using sends_news[OF N'(2) l] by (simp add: link)
  also have "\<dots> = {m \<in> \<Union>to \<in> set (serv_list N1). \<Union>q \<in> servers_behind K V p. told e K (nd_qs (ne_node N to)) V p link to q. to_server m = Some to}"
    using assms(3) by (simp add: dependents_told_def all_told_def qs)
  finally show ?thesis using N'(1) told by simp
qed

lemma netsplit_told_witness:
  "\<exists>N'. exit_client split_env 3 11 11 split_net = Some N' \<and> news split_net N' 15 = {Squit_to 15 11, Squit_to 15 12, Quit_to 15 13}"
proof -
  have "\<forall>q \<in> servers_behind split_kin split_all 11. \<not> glob (xe_link_name split_env 15) (us_name (k_user split_kin q))"
    by (simp add: split_gone split_fields split_env_def split_names_def)
  moreover have "serv_list split_net = [15, 11]" "nd_qs (ne_node split_net 15) = False" by (simp_all add: split_net_def split_node_def)
  ultimately show ?thesis
    using netsplit_told[OF split_net_ok _ _ _ _ _ _ refl, of 11 3 15 11] by (simp add: split_gone split_fields split_kinds)
      (simp add: insert_commute)
qed

end
