(* ===== verification/Spec2Isabelle.thy ===== *)
theory Spec2Isabelle
  imports Match Hostmask Tools Irc_String Hash Userhost Whowas Event Dbuf Packet Chan_Access Join Sprintf Channel_Mode Server_Join Parse Net_Split
begin

text \<open>
  ircd-hybrid 7, an Internet Relay Chat server in C: the core of the daemon, modelled and verified.

  \<^bold>\<open>The program.\<close> The daemon accepts connections of clients and of other servers, reads lines from
  them, and keeps with its neighbours a common picture of the network: who is connected, which
  channels exist, who is on them and with which modes. A line takes this way through the code:
  the socket layer puts the bytes into a queue (\<^verbatim>\<open>src/dbuf.c\<close>); \<^verbatim>\<open>src/packet.c\<close> cuts the queue
  into lines and decides how many of them may be parsed now; \<^verbatim>\<open>src/parse.c\<close> finds out who speaks,
  which command it is and what its parameters are, and calls the handler, a function of a module
  under \<^verbatim>\<open>src/modules\<close>. The handlers work on the tables of \<^verbatim>\<open>src/hash.c\<close> (clients, server IDs,
  channels, reserved names, user@host counts), on the channels of \<^verbatim>\<open>src/channel.c\<close> and
  \<^verbatim>\<open>src/channel_mode.c\<close>, on the address records of \<^verbatim>\<open>src/hostmask.c\<close> and on the nick history of
  \<^verbatim>\<open>src/whowas.c\<close>; they compare names and masks with \<^verbatim>\<open>src/match.c\<close>. The main loop runs timed
  events (\<^verbatim>\<open>src/event.c\<close>) between the reads. Everything is linked by the lists of \<^verbatim>\<open>src/tools.c\<close>.
  Paths are below the directory \<^verbatim>\<open>src/src\<close>, \<^verbatim>\<open>src/include\<close> or \<^verbatim>\<open>src/modules\<close> of the repository.

  \<^bold>\<open>How code becomes definitions.\<close> The embedding is shallow: a C function is a HOL function on an
  explicit state, with the name it has in C where Isabelle allows it.
    \<^item> A C string is the list of the characters before its NUL; \<open>deref\<close> reads the first one or NUL.
      Buffers of fixed size are lists of that length where the code could leave them.
    \<^item> \<open>unsigned int\<close>, flags and hashes are words (\<open>u8\<close>, \<open>u16\<close>, \<open>u32\<close>, \<open>u64\<close>) that wrap; an \<open>int\<close> is an
      \<open>int\<close> where it cannot overflow and is cut down by \<open>sint\<close> where it can; \<open>time_t\<close> is \<open>int\<close>.
    \<^item> A pointer is a number (\<open>ptr\<close>), a structure a record, and the heap a function from pointers to
      records or a partial one (\<open>None\<close>: not allocated). The links of \<^verbatim>\<open>tools.c\<close> and of the hash
      chains are modelled link by link in the theories on them; later theories use what was proved
      there and take a \<open>dlink_list\<close> as the list of what its nodes hold.
    \<^item> A function that reads NULL, a freed object or memory behind a buffer, or that never returns,
      has the result \<open>None\<close>; so every \<open>\<exists>r. f x = Some r\<close> below is a proof that it does not.
      Errors the code handles are values of the result.
    \<^item> What is sent is a list of outputs, data that says which numeric or line goes to whom.
    \<^item> The configuration, the clock, \<open>malloc\<close> (a function that picks a block), \<open>crypt\<close> and the
      resolver are arguments. So is the handler in theory Packet, which theory Parse models then.

  \<^bold>\<open>The theories\<close>, in the order in which they build on each other.
    \<^item> Irc_Prelude: the types, the C library functions on strings that the code calls, three-valued
      conjunction for conditions whose second half may fault, chains of links in a heap.
    \<^item> Chartab: the tables at the end of \<^verbatim>\<open>match.c\<close>, entry by entry, with their closed forms.
    \<^item> Glob, Match: \<open>match\<close>, \<open>match_esc\<close>, \<open>match_chan\<close>, \<open>match_cidr\<close>, \<open>collapse\<close>, \<open>irccmp\<close>. Both
      matchers are one loop with backtracking positions (\<open>glob_loop\<close>) around different character
      tests; the locale \<open>glob\<close> proves the loop against an inductive wildcard relation once and is
      interpreted for both. The loop is a \<open>function\<close> whose measure counts the rest of the name and
      of the mask.
    \<^item> Netmask, Hostmask: \<^verbatim>\<open>hostmask.c\<close>; parsing and matching of IPv4 and IPv6 masks, and the table of
      address records. The refinement is to a list of entries in order of their addition.
    \<^item> Tools: the lists of \<^verbatim>\<open>tools.c\<close> on a heap of nodes, refined to HOL lists.
    \<^item> Irc_String, Sprintf: string helpers and the server's own \<open>sprintf\<close>.
    \<^item> Hash, Userhost: the hash tables of \<^verbatim>\<open>hash.c\<close> (five tables, one locale \<open>registry\<close> with five
      interpretations) and the global session counts, refined to sets and to a multiset.
    \<^item> Whowas: the ring of old nicks with its two chains, refined to one newest-first history.
    \<^item> Event: the table of timed events and the loop of \<^verbatim>\<open>ircd.c\<close> that runs them.
    \<^item> Dbuf, Packet: the byte queues, the cutting into lines, flood control.
    \<^item> Channel, Chan_Access: channels, memberships and invitations over a common heap with the
      invariant \<open>chan_inv\<close>, an inductive relation of reachable states, and who may join and speak.
    \<^item> Join: \<open>m_join\<close> and \<open>m_part\<close> of local clients. Channel_Mode: the MODE command.
    \<^item> Mode_Merge, Server_Join: SJOIN and JOIN from servers and the merging of two channels.
    \<^item> Parse: the command tree, the cutting of a line and the dispatch to the handlers.
    \<^item> Client_Exit, Net_Split: \<open>exit_client\<close> on a state that puts those of Channel, Hash, Userhost and
      Whowas together. The ghost record \<open>kin\<close> holds what does not change of a client (its server, its link, a
      height in the tree of servers); the invariant \<open>net_ok\<close> says what every table holds for a set of
      living clients, and \<open>exit_client\<close> takes the subtree of the client, an inductive set, out of it.

  \<^bold>\<open>What the lemmas show.\<close> Text blocks number the main results (C1, C2, ...). They are of these groups.
    \<^item> Refinement: every sequence of operations on lists, tables, queues, counters, history, address
      records and the command tree behaves as on sets, lists, multisets or maps.
    \<^item> Safety: in every reachable state JOIN, PART, MODE, SJOIN, \<open>parse\<close> and \<open>exit_client\<close> return, whatever the
      parameters, without touching memory they should not, and keep the invariant; no line makes a
      client speak for another; what is relayed fits the buffers.
    \<^item> Decision: \<open>match\<close>, \<open>can_join\<close>, \<open>can_send\<close>, \<open>find_server\<close> and the address search against their
      meaning; the cache of bans changes no answer.
    \<^item> Agreement: servers that merge a channel end with the same modes; what \<open>channel_modes\<close> sends,
      \<open>ms_sjoin\<close> reads; the mode lines turn the old modes into the new ones.
    \<^item> Bounds and time: flood control over any sequence of packets and ticks; the lines of a server link
      whatever the packets; mode limits; \<open>event_loop\<close> ends, with events that add and delete others,
      and the situation in which it does not.
    \<^item> Defects: where the code does not do what its comments or its purpose say, a lemma states what
      it does (\<open>soft_accept_ignores_channels\<close>, \<open>event_loop_hangs\<close>, \<open>mask_addr_v6_never_returns\<close>, \<open>clean_string_overflows\<close>,
      \<open>letters_overwrite_modes\<close>, \<open>server_source_joins\<close>, \<open>match_esc_hash\<close>, \<open>fourteenth_parameter\<close> and others).
      A text names the hypotheses a result rests on, such as the parser of theory Packet leaving the
      connection alone.

  \<^bold>\<open>Fuel and bounds.\<close> Most loops are structural or have a \<open>termination\<close> proof. Walks along links, which
  need not end in a broken heap (\<open>find_from\<close>, \<open>find_walk\<close>, \<open>del_walk\<close>, \<open>list_find\<close>, \<open>off_loop\<close>), are
  partial functions to an option; the refinement theorems show that they return on every heap the
  operations build. Two loops the code can run forever have fuel: \<open>event_loop\<close>, where the number of
  turns that is enough and the state in which no number is are both theorems, and the IPv6 loop of
  \<open>mask_addr\<close>, for which no fuel is enough. The recursions over the tree of servers have the height of
  the server that goes as enough fuel. The loops of \<open>parse_client_queued\<close> and
  \<open>string_to_array\<close> count a number down that the code itself counts.

  \<^bold>\<open>Not modelled.\<close> The socket layer (\<^verbatim>\<open>s_bsd*.c\<close>, \<^verbatim>\<open>fdlist.c\<close>, \<^verbatim>\<open>listener.c\<close>), the resolver
  (\<^verbatim>\<open>irc_res*.c\<close>, \<^verbatim>\<open>s_auth.c\<close>) and \<^verbatim>\<open>servlink\<close> are dialogues with the operating system. The parser
  of the configuration (\<^verbatim>\<open>y.tab.c\<close>, \<^verbatim>\<open>lex.yy.c\<close>) is generated, \<^verbatim>\<open>lib/pcre\<close> is a third party's.
  \<^verbatim>\<open>send.c\<close> and \<^verbatim>\<open>numeric.c\<close> format and queue what the outputs of the model name. The memory
  pools (\<^verbatim>\<open>balloc.c\<close>) are the allocation functions the model takes as arguments. Of \<^verbatim>\<open>s_conf.c\<close>,
  \<^verbatim>\<open>s_serv.c\<close> and \<^verbatim>\<open>s_user.c\<close> only what the modelled handlers call is here; the join flood counter
  of \<open>add_user_to_channel\<close> uses floating point and is left out. The modules that only report or
  set flags of the configuration are left out. The manifest lists every part with its reason.
\<close>

end
